(* ===== verification/Prelude.thy ===== *)
theory Prelude
  imports Main "HOL-Library.Word" "HOL-Library.Monad_Syntax" "HOL-Library.Sublist"
begin

text \<open>
  Shared vocabulary of the development.

  \<^item> Machine integers: \<open>u8\<close>, \<open>u16\<close>, \<open>u32\<close>, \<open>u64\<close> are words; \<open>+\<close> and \<open>-\<close> wrap around, which is
    what the release profile of the workspace does (overflow checks are off there).
    Lengths and indices of buffers that exist in memory (\<open>usize\<close>) are \<open>nat\<close>.
  \<^item> Byte buffers (\<open>Bytes\<close>, \<open>BytesMut\<close>, \<open>Vec<u8>\<close>) are byte lists; a Rust \<open>str\<close> is the byte list of
    its UTF-8 encoding, so \<open>length\<close> is Rust's \<open>len()\<close>, and \<open>lit\<close> writes a string literal.
  \<^item> \<open>Result<T, E>\<close> is \<open>'e + 't\<close> with \<open>Inl\<close> the error.  An operation that can panic (an index or a sub_slice
    out of range, a read past the end of a buffer) returns an \<open>option\<close>: \<open>None\<close> is the panic.  The
    release profile aborts the process on a panic, so \<open>\<noteq> None\<close> theorems are safety theorems.
  \<^item> Big-endian encoding of words, and the laws of the encoding.
  \<^item> \<open>split_on\<close> and \<open>join\<close> for dot-separated names, generic list lemmas.
\<close>

section \<open>Types\<close>

unbundle bit_operations_syntax

type_synonym u8 = "8 word"
type_synonym u16 = "16 word"
type_synonym u32 = "32 word"
type_synonym u64 = "64 word"

type_synonym bytes = "u8 list"
type_synonym str = "u8 list"

named_theorems be_simps \<open>laws of the big-endian codecs\<close>
named_theorems panic_simps \<open>when a checked access panics\<close>
named_theorems inv_intros \<open>operations keep the invariants\<close>

definition lit :: "string \<Rightarrow> str" where
  "lit s = map (\<lambda>c. of_nat (of_char c)) s"

lemma lit_Nil [simp]: "lit [] = []"
  by (simp add: lit_def)

lemma lit_Cons [simp]: "lit (c # s) = of_nat (of_char c) # lit s"
  by (simp add: lit_def)

lemma length_lit [simp]: "length (lit s) = length s"
  by (simp add: lit_def)

section \<open>Panicking accesses and error propagation\<close>

definition idx :: "'a list \<Rightarrow> nat \<Rightarrow> 'a option" where
  "idx xs i = (if i < length xs then Some (xs ! i) else None)"

definition sub_slice :: "'a list \<Rightarrow> nat \<Rightarrow> nat \<Rightarrow> 'a list option" where
  "sub_slice xs a b = (if a \<le> b \<and> b \<le> length xs then Some (take (b - a) (drop a xs)) else None)"

text \<open>The \<open>?\<close> operator on a computation that may also panic.\<close>

definition try_bind :: "('e + 'a) option \<Rightarrow> ('a \<Rightarrow> ('e + 'b) option) \<Rightarrow> ('e + 'b) option" where
  "try_bind m k = (case m of None \<Rightarrow> None | Some (Inl e) \<Rightarrow> Some (Inl e) | Some (Inr a) \<Rightarrow> k a)"

lemma idx_in_range [simp, panic_simps]: "i < length xs \<Longrightarrow> idx xs i = Some (xs ! i)"
  by (simp add: idx_def)

lemma idx_None_iff [panic_simps]: "idx xs i = None \<longleftrightarrow> length xs \<le> i"
  by (simp add: idx_def not_less)

lemma sub_slice_in_range [simp, panic_simps]:
  "a \<le> b \<Longrightarrow> b \<le> length xs \<Longrightarrow> sub_slice xs a b = Some (take (b - a) (drop a xs))"
  by (simp add: sub_slice_def)

lemma sub_slice_None_iff [panic_simps]: "sub_slice xs a b = None \<longleftrightarrow> b < a \<or> length xs < b"
  by (auto simp: sub_slice_def)

lemma sub_slice_append_mid [simp]:
  "sub_slice (xs @ ys @ zs) (length xs) (length xs + length ys) = Some ys"
  by simp

lemma try_bind_simps [simp]:
  "try_bind None k = None"
  "try_bind (Some (Inl e)) k = Some (Inl e)"
  "try_bind (Some (Inr a)) k = k a"
  by (simp_all add: try_bind_def)

lemma try_bind_not_None:
  assumes "m \<noteq> None" and "\<And>a. m = Some (Inr a) \<Longrightarrow> k a \<noteq> None"
  shows "try_bind m k \<noteq> None"
  using assms by (auto simp: try_bind_def split: option.splits sum.splits)

section \<open>Big-endian encoding\<close>

fun to_be :: "nat \<Rightarrow> 'a::len word \<Rightarrow> bytes" where
  "to_be 0 w = []"
| "to_be (Suc n) w = ucast (drop_bit (8 * n) w) # to_be n w"

definition from_be :: "bytes \<Rightarrow> 'a::len word" where
  "from_be bs = foldl (\<lambda>acc b. acc * 256 + ucast b) 0 bs"

abbreviation u16_bytes :: "u16 \<Rightarrow> bytes" where "u16_bytes \<equiv> to_be 2"
abbreviation u32_bytes :: "u32 \<Rightarrow> bytes" where "u32_bytes \<equiv> to_be 4"
abbreviation u64_bytes :: "u64 \<Rightarrow> bytes" where "u64_bytes \<equiv> to_be 8"

lemma length_to_be [simp]: "length (to_be n w) = n"
  by (induction n) auto

lemma take_bit_byte_split:
  fixes w :: "'a::len word"
  shows "take_bit (8 + n) w = push_bit n (ucast (ucast (drop_bit n w) :: u8)) + take_bit n w"
proof -
  have e: "ucast (ucast (drop_bit n w) :: u8) = take_bit 8 (drop_bit n w)"
    by (rule bit_word_eqI) (auto simp: bit_simps)
  have "push_bit n (take_bit 8 (drop_bit n w)) AND take_bit n w = 0"
    by (rule bit_word_eqI) (auto simp: bit_simps)
  then have "push_bit n (take_bit 8 (drop_bit n w)) + take_bit n w
      = push_bit n (take_bit 8 (drop_bit n w)) OR take_bit n w"
    by (rule disjunctive_add_eq_or)
  also have "\<dots> = take_bit (8 + n) w"
    by (rule bit_word_eqI) (auto simp: bit_simps)
  finally show ?thesis by (simp add: e)
qed

lemma foldl_to_be:
  fixes a w :: "'a::len word"
  shows "foldl (\<lambda>acc b. acc * 256 + ucast b) a (to_be n w) = a * 256 ^ n + take_bit (8 * n) w"
proof (induction n arbitrary: a)
  case 0
  then show ?case by simp
next
  case (Suc n)
  have "take_bit (8 * Suc n) w
      = push_bit (8 * n) (ucast (ucast (drop_bit (8 * n) w) :: u8)) + take_bit (8 * n) w"
    using take_bit_byte_split [of "8 * n" w] by simp
  moreover have "(256::'a word) ^ n = 2 ^ (8 * n)"
    by (simp add: power_mult)
  ultimately show ?case
    by (simp only: to_be.simps foldl_Cons Suc.IH push_bit_eq_mult) (simp add: algebra_simps)
qed

lemma from_be_to_be:
  fixes w :: "'a::len word"
  assumes "LENGTH('a) \<le> 8 * n"
  shows "from_be (to_be n w) = w"
  using assms foldl_to_be [of 0 n w] by (simp add: from_be_def take_bit_word_eq_self)

lemma from_be_u16 [simp]: "from_be (to_be 2 (w::u16)) = w" by (rule from_be_to_be) simp
lemma from_be_u32 [simp]: "from_be (to_be 4 (w::u32)) = w" by (rule from_be_to_be) simp
lemma from_be_u64 [simp]: "from_be (to_be 8 (w::u64)) = w" by (rule from_be_to_be) simp

text \<open>The other direction: writing back what was read gives the bytes.\<close>

lemma to_be_snoc: "to_be (Suc n) w = to_be n (drop_bit 8 w) @ [ucast w]"
proof (induction n)
  case (Suc n)
  have "to_be (Suc (Suc n)) w = ucast (drop_bit (8 * Suc n) w) # to_be (Suc n) w" by (rule to_be.simps)
  also have "\<dots> = ucast (drop_bit (8 * n) (drop_bit 8 w)) # to_be n (drop_bit 8 w) @ [ucast w]"
    by (simp only: Suc) (simp add: algebra_simps)
  finally show ?case by simp
qed simp

lemma uint_from_be:
  fixes bs :: "u8 list"
  assumes "8 * length bs \<le> LENGTH('a::len)"
  shows "uint (from_be bs :: 'a word) = foldl (\<lambda>a b. a * 256 + uint b) 0 bs \<and>
    0 \<le> foldl (\<lambda>a b. a * 256 + uint b) 0 bs \<and> foldl (\<lambda>a b. a * 256 + uint b) 0 bs < 2 ^ (8 * length bs)"
  using assms
proof (induction bs rule: rev_induct)
  case (snoc b bs)
  let ?v = "foldl (\<lambda>a b. a * 256 + uint b) 0 bs"
  have IH: "uint (from_be bs :: 'a word) = ?v" "0 \<le> ?v" "?v < 2 ^ (8 * length bs)" using snoc by auto
  have b: "0 \<le> uint b" "uint b < 256" using uint_bounded [of b] by simp_all
  have p: "(2::int) ^ (8 * length (bs @ [b])) = 256 * 2 ^ (8 * length bs)" by (simp add: power_add)
  have r: "?v * 256 + uint b < 2 ^ (8 * length (bs @ [b]))" unfolding p using IH(2,3) b by linarith
  have le: "(2::int) ^ (8 * length (bs @ [b])) \<le> 2 ^ LENGTH('a)" using snoc.prems by (intro power_increasing) auto
  have fb: "(from_be (bs @ [b]) :: 'a word) = from_be bs * 256 + ucast b" by (simp add: from_be_def)
  have "(from_be (bs @ [b]) :: 'a word) = word_of_int (?v * 256 + uint b)"
  proof -
    have "(from_be bs :: 'a word) = word_of_int ?v" by (simp add: IH(1) [symmetric])
    moreover have "(ucast b :: 'a word) = word_of_int (uint b)" by simp
    ultimately show ?thesis unfolding fb by (simp only: of_int_add of_int_mult of_int_numeral)
  qed
  moreover have "?v * 256 + uint b < 2 ^ LENGTH('a)" "0 \<le> ?v * 256 + uint b" using r le IH(2) b by linarith+
  ultimately have "uint (from_be (bs @ [b]) :: 'a word) = ?v * 256 + uint b"
    by (simp only: uint_word_of_int_eq take_bit_int_eq_self)
  with r IH(2) b show ?case by simp
qed (simp add: from_be_def)

lemma to_be_from_be:
  assumes "8 * length bs \<le> LENGTH('a::len)"
  shows "to_be (length bs) (from_be bs :: 'a word) = bs"
  using assms
proof (induction bs rule: rev_induct)
  case (snoc b bs)
  note u = uint_from_be [OF snoc.prems, THEN conjunct1]
  note u1 = uint_from_be [of bs, where 'a = 'a]
  have b: "0 \<le> uint b" "uint b < 256" using uint_bounded [of b] by simp_all
  have "uint (drop_bit 8 (from_be (bs @ [b]) :: 'a word)) = uint (from_be (bs @ [b]) :: 'a word) div 256"
    by (subst unsigned_drop_bit_eq) (simp add: drop_bit_eq_div take_bit_int_eq_self uint_lt2p)
  also have "\<dots> = uint (from_be bs :: 'a word)" using u u1 b snoc.prems by simp
  finally have "drop_bit 8 (from_be (bs @ [b]) :: 'a word) = from_be bs" by (simp only: word_uint_eq_iff)
  moreover have "(ucast (from_be (bs @ [b]) :: 'a word) :: u8) = b"
  proof -
    have "uint (ucast (from_be (bs @ [b]) :: 'a word) :: u8) = uint (from_be (bs @ [b]) :: 'a word) mod 256"
      by (simp add: unsigned_ucast_eq take_bit_eq_mod)
    also have "\<dots> = uint b" using u b by simp
    finally show ?thesis by (simp only: word_uint_eq_iff)
  qed
  ultimately show ?case using snoc by (simp add: to_be_snoc del: to_be.simps)
qed simp

lemma to_be_numeral [be_simps]:
  "to_be (numeral k) w = ucast (drop_bit (8 * pred_numeral k) w) # to_be (pred_numeral k) w"
  by (simp add: numeral_eq_Suc)

lemma to_be_1 [be_simps]: "to_be 1 w = [ucast w]" "to_be (Suc 0) w = [ucast w]"
  by simp_all


section \<open>Separators\<close>

fun split_on :: "'a \<Rightarrow> 'a list \<Rightarrow> 'a list list" where
  "split_on d [] = [[]]"
| "split_on d (x # xs) =
     (if x = d then [] # split_on d xs
      else (case split_on d xs of [] \<Rightarrow> [[x]] | t # ts \<Rightarrow> (x # t) # ts))"

fun join :: "'a \<Rightarrow> 'a list list \<Rightarrow> 'a list" where
  "join d [] = []"
| "join d [t] = t"
| "join d (t # ts) = t @ d # join d ts"

lemma split_on_not_Nil [simp]: "split_on d xs \<noteq> []"
  by (induction xs) (auto split: list.splits)

lemma join_split_on [simp]: "join d (split_on d xs) = xs"
proof (induction xs)
  case (Cons x xs)
  obtain t ts where "split_on d xs = t # ts" by (cases "split_on d xs") auto
  with Cons show ?case by (cases ts) auto
qed simp

lemma split_on_no_sep: "t \<in> set (split_on d xs) \<Longrightarrow> d \<notin> set t"
proof (induction xs arbitrary: t)
  case (Cons x xs)
  obtain u us where "split_on d xs = u # us" by (cases "split_on d xs") auto
  with Cons show ?case by (auto split: if_splits)
qed simp

lemma split_on_append:
  "d \<notin> set t \<Longrightarrow> split_on d (t @ d # xs) = t # split_on d xs"
  by (induction t) auto

lemma split_on_single: "d \<notin> set t \<Longrightarrow> split_on d t = [t]"
  by (induction t) auto

lemma split_on_join:
  "ts \<noteq> [] \<Longrightarrow> \<forall>t \<in> set ts. d \<notin> set t \<Longrightarrow> split_on d (join d ts) = ts"
  by (induction d ts rule: join.induct) (auto simp: split_on_append split_on_single)

lemma set_split_on: "t \<in> set (split_on d xs) \<Longrightarrow> set t \<subseteq> set xs"
proof (induction xs arbitrary: t)
  case (Cons x xs)
  obtain u us where u: "split_on d xs = u # us" by (cases "split_on d xs") auto
  with Cons.IH [of u] Cons.IH [of t] Cons.prems show ?case by (auto split: if_splits)
qed simp

lemma split_on_eq_iff: "split_on d xs = split_on d ys \<longleftrightarrow> xs = ys"
  by (metis join_split_on)

end
