(* ===== verification/Rust_Str.thy ===== *)
theory Rust_Str
  imports Prelude
begin

text \<open>
  What the sources use of Rust's \<open>str\<close>: \<open>trim\<close> (Unicode white space, on the UTF-8 encoding),
  \<open>std::str::from_utf8\<close> and \<open>String::from_utf8_lossy\<close>.  The UTF-8 decoder reads one character at
  a time as the standard library does; an invalid sequence is as long as the longest prefix
  of a well-formed character it starts, and the lossy conversion puts one U+FFFD in its place.
\<close>

section \<open>Trimming\<close>

definition ws_encodings :: "u8 list list" where
  "ws_encodings =
     [[0x09], [0x0A], [0x0B], [0x0C], [0x0D], [0x20], [0xC2, 0x85], [0xC2, 0xA0],
      [0xE1, 0x9A, 0x80],
      [0xE2, 0x80, 0x80], [0xE2, 0x80, 0x81], [0xE2, 0x80, 0x82], [0xE2, 0x80, 0x83],
      [0xE2, 0x80, 0x84], [0xE2, 0x80, 0x85], [0xE2, 0x80, 0x86], [0xE2, 0x80, 0x87],
      [0xE2, 0x80, 0x88], [0xE2, 0x80, 0x89], [0xE2, 0x80, 0x8A],
      [0xE2, 0x80, 0xA8], [0xE2, 0x80, 0xA9], [0xE2, 0x80, 0xAF], [0xE2, 0x81, 0x9F],
      [0xE3, 0x80, 0x80]]"

function strip_front :: "u8 list list \<Rightarrow> u8 list \<Rightarrow> u8 list" where
  "strip_front encs s =
     (case find (\<lambda>e. e \<noteq> [] \<and> prefix e s) encs of
        None \<Rightarrow> s
      | Some e \<Rightarrow> strip_front encs (drop (length e) s))"
  by pat_completeness auto
termination
proof (relation "measure (\<lambda>(encs, s). length s)")
  fix encs :: "u8 list list" and s e :: "u8 list"
  assume "find (\<lambda>e. e \<noteq> [] \<and> prefix e s) encs = Some e"
  then have "e \<noteq> []" and "prefix e s" by (auto simp: find_Some_iff)
  then show "((encs, drop (length e) s), encs, s) \<in> measure (\<lambda>(encs, s). length s)"
    by (cases e; cases s) auto
qed simp

declare strip_front.simps [simp del]

definition trim_start :: "str \<Rightarrow> str" where
  "trim_start s = strip_front ws_encodings s"

definition trim_end :: "str \<Rightarrow> str" where
  "trim_end s = rev (strip_front (map rev ws_encodings) (rev s))"

definition trim :: "str \<Rightarrow> str" where
  "trim s = trim_end (trim_start s)"

definition stripped :: "u8 list list \<Rightarrow> u8 list \<Rightarrow> bool" where
  "stripped encs s \<longleftrightarrow> (\<forall>e \<in> set encs. e \<noteq> [] \<longrightarrow> \<not> prefix e s)"

lemma strip_front_id: "stripped encs s \<Longrightarrow> strip_front encs s = s"
  by (subst strip_front.simps) (auto simp: stripped_def find_None_iff split: option.splits
      dest!: find_Some_iff [THEN iffD1])

lemma strip_front_stripped: "stripped encs (strip_front encs s)"
proof (induction encs s rule: strip_front.induct)
  case (1 encs s)
  show ?case
  proof (cases "find (\<lambda>e. e \<noteq> [] \<and> prefix e s) encs")
    case None
    then have "strip_front encs s = s" by (subst strip_front.simps) simp
    with None show ?thesis by (auto simp: find_None_iff stripped_def)
  next
    case (Some e)
    with 1 show ?thesis by (subst strip_front.simps) simp
  qed
qed

lemma strip_front_suffix: "suffix (strip_front encs s) s"
proof (induction encs s rule: strip_front.induct)
  case (1 encs s)
  show ?case
  proof (cases "find (\<lambda>e. e \<noteq> [] \<and> prefix e s) encs")
    case (Some e)
    with 1 have "suffix (strip_front encs (drop (length e) s)) (drop (length e) s)" by simp
    also have "suffix (drop (length e) s) s" by (rule suffix_drop)
    finally show ?thesis using Some by (subst strip_front.simps) simp
  qed (subst strip_front.simps, simp)
qed

lemma trim_end_prefix: "prefix (trim_end s) s"
  using strip_front_suffix [of "map rev ws_encodings" "rev s"]
  by (simp add: trim_end_def suffix_to_prefix)

lemma stripped_prefix: "stripped encs s \<Longrightarrow> prefix t s \<Longrightarrow> stripped encs t"
  by (auto simp: stripped_def dest: prefix_order.trans)

lemma trim_idem [simp]: "trim (trim s) = trim s"
proof -
  have "stripped ws_encodings (trim_start s)"
    by (simp add: trim_start_def strip_front_stripped)
  then have "stripped ws_encodings (trim s)"
    unfolding trim_def by (rule stripped_prefix) (rule trim_end_prefix)
  then have "trim_start (trim s) = trim s" by (simp add: trim_start_def strip_front_id)
  moreover have "trim_end (trim s) = trim s"
    by (simp add: trim_def trim_end_def strip_front_stripped strip_front_id)
  ultimately show ?thesis by (simp add: trim_def)
qed

text \<open>Bytes of printable ASCII other than the space: no white space begins or ends with one.\<close>

definition graphic :: "u8 \<Rightarrow> bool" where
  "graphic b \<longleftrightarrow> 0x21 \<le> b \<and> b < 0x7F"

lemma graphic_stripped:
  assumes "s = [] \<or> graphic (hd s)" and "list_all (\<lambda>e. \<not> graphic (hd e)) encs" shows "stripped encs s"
  unfolding stripped_def
proof (intro ballI impI notI)
  fix e assume e: "e \<in> set encs" "e \<noteq> []" "prefix e s"
  then have "hd e = hd s" "s \<noteq> []" by (auto simp: prefix_def)
  then show False using assms e(1) by (auto simp: list_all_iff)
qed

lemma ws_not_graphic:
  "list_all (\<lambda>e. \<not> graphic (hd e)) ws_encodings" "list_all (\<lambda>e. \<not> graphic (hd e)) (map rev ws_encodings)"
  by (simp_all add: ws_encodings_def graphic_def)

lemma trim_start_graphic: "s = [] \<or> graphic (hd s) \<Longrightarrow> trim_start s = s"
  by (simp add: trim_start_def strip_front_id graphic_stripped ws_not_graphic)

lemma trim_graphic: "list_all graphic s \<Longrightarrow> trim s = s"
proof -
  assume "list_all graphic s"
  then have "s = [] \<or> graphic (hd s)" "rev s = [] \<or> graphic (hd (rev s))" by (cases "s = []"; simp add: list_all_iff hd_rev)+
  then show ?thesis by (simp only: trim_def trim_start_graphic trim_end_def strip_front_id graphic_stripped ws_not_graphic rev_rev_ident)
qed

lemma length_trim_le: "length (trim s) \<le> length s"
proof -
  have "length (trim s) \<le> length (trim_start s)"
    unfolding trim_def by (rule prefix_length_le) (rule trim_end_prefix)
  also have "\<dots> \<le> length s"
    unfolding trim_start_def by (rule suffix_length_le) (rule strip_front_suffix)
  finally show ?thesis .
qed

lemma set_trim_subset: "set (trim s) \<subseteq> set s"
proof -
  have "set (trim s) \<subseteq> set (trim_start s)"
    unfolding trim_def by (rule set_mono_prefix) (rule trim_end_prefix)
  also have "\<dots> \<subseteq> set s"
    unfolding trim_start_def by (rule set_mono_suffix) (rule strip_front_suffix)
  finally show ?thesis .
qed


section \<open>UTF-8\<close>

definition cont_byte :: "u8 \<Rightarrow> bool" where
  "cont_byte b \<longleftrightarrow> 0x80 \<le> b \<and> b \<le> 0xBF"

definition get0 :: "bytes \<Rightarrow> nat \<Rightarrow> u8" where
  "get0 r i = (if i < length r then r ! i else 0)"

definition second_ok :: "u8 \<Rightarrow> u8 \<Rightarrow> bool" where
  "second_ok b c \<longleftrightarrow>
     (if b = 0xE0 then 0xA0 \<le> c \<and> c \<le> 0xBF
      else if b = 0xED then 0x80 \<le> c \<and> c \<le> 0x9F
      else if b = 0xF0 then 0x90 \<le> c \<and> c \<le> 0xBF
      else if b = 0xF4 then 0x80 \<le> c \<and> c \<le> 0x8F
      else cont_byte c)"

text \<open>The character at the head of \<open>b # r\<close>: whether it is well formed, and how many bytes it takes.\<close>

definition utf8_step :: "u8 \<Rightarrow> bytes \<Rightarrow> bool \<times> nat" where
  "utf8_step b r =
     (if b < 0x80 then (True, 1)
      else if 0xC2 \<le> b \<and> b \<le> 0xDF then
        (if cont_byte (get0 r 0) then (True, 2) else (False, 1))
      else if 0xE0 \<le> b \<and> b \<le> 0xEF then
        (if \<not> second_ok b (get0 r 0) then (False, 1)
         else if \<not> cont_byte (get0 r 1) then (False, 2) else (True, 3))
      else if 0xF0 \<le> b \<and> b \<le> 0xF4 then
        (if \<not> second_ok b (get0 r 0) then (False, 1)
         else if \<not> cont_byte (get0 r 1) then (False, 2)
         else if \<not> cont_byte (get0 r 2) then (False, 3) else (True, 4))
      else (False, 1))"

lemma utf8_step_pos: "utf8_step b r = (ok, n) \<Longrightarrow> 0 < n"
  by (auto simp: utf8_step_def split: if_splits)

function valid_utf8 :: "bytes \<Rightarrow> bool" where
  "valid_utf8 [] = True"
| "valid_utf8 (b # r) = (case utf8_step b r of (ok, n) \<Rightarrow> ok \<and> valid_utf8 (drop (n - 1) r))"
  by pat_completeness auto
termination by (relation "measure length") auto

definition from_utf8 :: "bytes \<Rightarrow> str option" where
  "from_utf8 bs = (if valid_utf8 bs then Some bs else None)"

function from_utf8_lossy :: "bytes \<Rightarrow> str" where
  "from_utf8_lossy [] = []"
| "from_utf8_lossy (b # r) =
     (case utf8_step b r of (ok, n) \<Rightarrow>
        (if ok then b # take (n - 1) r else [0xEF, 0xBF, 0xBD]) @ from_utf8_lossy (drop (n - 1) r))"
  by pat_completeness auto
termination by (relation "measure length") auto

lemma cont_byte_0 [simp]: "\<not> cont_byte 0" "\<not> second_ok b 0"
  by (auto simp: cont_byte_def second_ok_def)

lemma utf8_step_append:
  assumes "utf8_step b r = (True, n)"
  shows "utf8_step b (r @ ys) = (True, n)" and "n \<le> Suc (length r)"
proof -
  have g: "get0 r i \<noteq> 0 \<Longrightarrow> get0 (r @ ys) i = get0 r i \<and> i < length r" for i
    by (auto simp: get0_def nth_append split: if_splits)
  have c: "cont_byte (get0 r i) \<Longrightarrow> cont_byte (get0 (r @ ys) i) \<and> i < length r" for i
    using g [of i] by (cases "get0 r i = 0") auto
  have s: "second_ok b (get0 r i) \<Longrightarrow> second_ok b (get0 (r @ ys) i) \<and> i < length r" for i
    using g [of i] by (cases "get0 r i = 0") auto
  show "utf8_step b (r @ ys) = (True, n)"
    using assms c s by (auto simp: utf8_step_def split: if_splits)
  show "n \<le> Suc (length r)"
    using assms c [of 0] c [of 1] c [of 2]
    by (auto simp: utf8_step_def Suc_le_eq split: if_splits)
qed

lemma valid_utf8_append: "valid_utf8 xs \<Longrightarrow> valid_utf8 ys \<Longrightarrow> valid_utf8 (xs @ ys)"
proof (induction xs rule: valid_utf8.induct)
  case (2 b r)
  obtain ok n where st: "utf8_step b r = (ok, n)" by (cases "utf8_step b r")
  with 2 have "ok" and v: "valid_utf8 (drop (n - 1) r @ ys)" by auto
  with utf8_step_append [of b r n] st v show ?case by simp
qed simp

lemma from_utf8_lossy_valid [simp]: "valid_utf8 bs \<Longrightarrow> from_utf8_lossy bs = bs"
proof (induction bs rule: from_utf8_lossy.induct)
  case (2 b r)
  then show ?case by (cases "utf8_step b r") auto
qed simp

lemma valid_utf8_char:
  assumes "utf8_step b r = (True, n)"
  shows "valid_utf8 (b # take (n - 1) r)"
proof -
  have g: "i < n - 1 \<Longrightarrow> get0 (take (n - 1) r) i = get0 r i" for i
    by (auto simp: get0_def)
  have "utf8_step b (take (n - 1) r) = (True, n)"
    using assms g [of 0] g [of 1] g [of 2] by (auto simp: utf8_step_def split: if_splits)
  then show ?thesis by simp
qed

lemma valid_replacement: "valid_utf8 [0xEF, 0xBF, 0xBD]"
  by (simp add: utf8_step_def cont_byte_def second_ok_def get0_def)

lemma valid_from_utf8_lossy: "valid_utf8 (from_utf8_lossy bs)"
proof (induction bs rule: from_utf8_lossy.induct)
  case (2 b r)
  obtain ok n where st: "utf8_step b r = (ok, n)" by (cases "utf8_step b r")
  with 2 have "valid_utf8 (from_utf8_lossy (drop (n - 1) r))" by auto
  moreover have "valid_utf8 (if ok then b # take (n - 1) r else [0xEF, 0xBF, 0xBD])"
    using st valid_utf8_char valid_replacement by auto
  ultimately show ?case
    by (simp only: from_utf8_lossy.simps st prod.case) (rule valid_utf8_append)
qed simp

lemma ascii_valid_utf8: "\<forall>b \<in> set bs. b < 0x80 \<Longrightarrow> valid_utf8 bs"
  by (induction bs) (auto simp: utf8_step_def)

section \<open>Number formatting\<close>

text \<open>\<open>{}\<close> of an unsigned integer, \<open>{:04X}\<close> of a \<open>u16\<close> and \<open>{:04x}\<close> of a code point below \<open>0x10000\<close>.\<close>

fun dec :: "nat \<Rightarrow> str" where
  "dec n = (if n < 10 then [0x30 + of_nat n] else dec (n div 10) @ [0x30 + of_nat (n mod 10)])"

declare dec.simps [simp del]

definition hex_digit :: "u8 \<Rightarrow> nat \<Rightarrow> u8" where
  "hex_digit a d = (if d < 10 then 0x30 + of_nat d else a + of_nat (d - 10))"

definition hex4 :: "u8 \<Rightarrow> nat \<Rightarrow> str" where
  "hex4 a n = map (\<lambda>k. hex_digit a (n div 16 ^ k mod 16)) [3, 2, 1, 0]"

lemma dec_not_Nil [simp]: "dec n \<noteq> []"
  by (subst dec.simps) simp

lemma unat_digit: "k < 10 \<Longrightarrow> unat (0x30 + of_nat k :: u8) = 0x30 + k"
  by (simp add: unat_word_ariths unat_of_nat)

lemma dec_digits: "c \<in> set (dec n) \<Longrightarrow> 0x30 \<le> c \<and> c \<le> 0x39"
proof (induction n arbitrary: c rule: dec.induct)
  case (1 n)
  have d: "0x30 \<le> (0x30 + of_nat k :: u8) \<and> 0x30 + of_nat k \<le> (0x39 :: u8)" if "k < 10" for k
    using that by (simp add: word_le_nat_alt unat_digit)
  show ?case
  proof (cases "n < 10")
    case True
    with 1 d show ?thesis by (simp add: dec.simps [of n])
  next
    case False
    with 1 d [of "n mod 10"] show ?thesis by (auto simp: dec.simps [of n])
  qed
qed

text \<open>The decimal number a digit string denotes: the inverse of \<open>dec\<close>.\<close>

definition undec :: "str \<Rightarrow> nat" where
  "undec s = foldl (\<lambda>a c. 10 * a + (unat c - 0x30)) 0 s"

lemma undec_dec [simp]: "undec (dec n) = n"
proof (induction n rule: dec.induct)
  case (1 n)
  have u: "unat (0x30 + of_nat k :: u8) - 0x30 = k" if "k < 10" for k
    using that by (simp add: unat_digit)
  show ?case
  proof (cases "n < 10")
    case True
    with u show ?thesis by (simp add: undec_def dec.simps [of n])
  next
    case False
    with 1 u [of "n mod 10"] show ?thesis
      by (simp add: undec_def dec.simps [of n])
  qed
qed

lemma dec_inj [simp]: "dec m = dec n \<longleftrightarrow> m = n"
  by (metis undec_dec)

end
