(* ===== verification/Core_Types.thy ===== *)
theory Core_Types
  imports Rust_Str
begin

text \<open>
  The plain data of crate \<open>zetmq-core\<close>: errors (\<open>error.rs\<close>), the id generator (\<open>id.rs\<close>), the
  metrics counters (\<open>metrics.rs\<close>), and queue-group names (\<open>queue_group.rs\<close>).  All counters are
  atomic \<open>u64\<close> cells whose \<open>fetch_add\<close> and \<open>fetch_sub\<close> wrap around in every build profile.
\<close>

section \<open>Errors\<close>

datatype core_error =
    InvalidSubject str
  | InvalidSubjectPattern str
  | SubscriptionNotFound u64
  | ConnectionNotFound u64
  | InvalidQueueGroupName str
  | CorePayloadTooLarge nat nat
  | SubjectTooLong nat nat
  | DeliveryFailed u64 str

text \<open>The \<open>#[error(...)]\<close> texts of \<open>CoreError\<close>.\<close>

fun core_error_display :: "core_error \<Rightarrow> str" where
  "core_error_display (InvalidSubject m) = lit ''invalid subject: '' @ m"
| "core_error_display (InvalidSubjectPattern m) = lit ''invalid subject pattern: '' @ m"
| "core_error_display (SubscriptionNotFound i) = lit ''subscription not found: '' @ dec (unat i)"
| "core_error_display (ConnectionNotFound i) = lit ''connection not found: '' @ dec (unat i)"
| "core_error_display (InvalidQueueGroupName m) = lit ''queue group name invalid: '' @ m"
| "core_error_display (CorePayloadTooLarge sz limit) =
     lit ''payload exceeds limit: '' @ dec sz @ lit '' > '' @ dec limit"
| "core_error_display (SubjectTooLong len limit) =
     lit ''subject too long: '' @ dec len @ lit '' > '' @ dec limit"
| "core_error_display (DeliveryFailed c r) =
     lit ''delivery failed for connection '' @ dec (unat c) @ lit '': '' @ r"

section \<open>Identifiers\<close>

type_synonym connection_id = u64
type_synonym subscription_id = u64
type_synonym message_id = u64

record id_generator =
  counter :: u64

definition id_generator_new :: "u64 \<Rightarrow> id_generator" where
  "id_generator_new start = \<lparr>counter = start\<rparr>"

definition id_generator_next :: "id_generator \<Rightarrow> u64 \<times> id_generator" where
  "id_generator_next g = (counter g, g\<lparr>counter := counter g + 1\<rparr>)"

fun id_generator_take :: "nat \<Rightarrow> id_generator \<Rightarrow> u64 list \<times> id_generator" where
  "id_generator_take 0 g = ([], g)"
| "id_generator_take (Suc n) g =
     (let (i, g') = id_generator_next g; (is, g'') = id_generator_take n g' in (i # is, g''))"

lemma id_generator_take_map:
  "id_generator_take n g =
     (map (\<lambda>k. counter g + of_nat k) [0..<n], g\<lparr>counter := counter g + of_nat n\<rparr>)"
proof (induction n arbitrary: g)
  case (Suc n)
  have "[0..<Suc n] = 0 # map Suc [0..<n]" by (simp add: upt_conv_Cons map_Suc_upt del: upt_Suc)
  with Suc show ?case
    by (simp add: id_generator_next_def Let_def o_def algebra_simps del: upt_Suc)
qed simp

lemma distinct_id_generator_take:
  assumes "n \<le> 2 ^ 64"
  shows "distinct (fst (id_generator_take n g))"
proof -
  have "inj_on (\<lambda>k. counter g + of_nat k) (set [0..<n])"
  proof (rule inj_onI)
    fix i j assume "i \<in> set [0..<n]" "j \<in> set [0..<n]"
      and "counter g + of_nat i = counter g + of_nat j"
    then have "(of_nat i :: u64) = of_nat j" and "i < 2 ^ 64" and "j < 2 ^ 64"
      using assms by auto
    then have "unat (of_nat i :: u64) = unat (of_nat j :: u64)" by simp
    with \<open>i < 2 ^ 64\<close> \<open>j < 2 ^ 64\<close> show "i = j" by (simp add: unat_of_nat)
  qed
  then show ?thesis by (simp add: id_generator_take_map distinct_map)
qed

section \<open>Metrics\<close>

record core_metrics =
  active_connections :: u64
  total_connections :: u64
  active_subscriptions :: u64
  messages_published :: u64
  messages_delivered :: u64
  messages_dropped :: u64
  protocol_errors :: u64

definition core_metrics_new :: core_metrics where
  "core_metrics_new = \<lparr>active_connections = 0, total_connections = 0, active_subscriptions = 0,
     messages_published = 0, messages_delivered = 0, messages_dropped = 0, protocol_errors = 0\<rparr>"

definition inc_active_connections :: "core_metrics \<Rightarrow> core_metrics" where
  "inc_active_connections m =
     m\<lparr>active_connections := active_connections m + 1, total_connections := total_connections m + 1\<rparr>"

definition dec_active_connections :: "core_metrics \<Rightarrow> core_metrics" where
  "dec_active_connections m = m\<lparr>active_connections := active_connections m - 1\<rparr>"

definition inc_subscriptions :: "core_metrics \<Rightarrow> core_metrics" where
  "inc_subscriptions m = m\<lparr>active_subscriptions := active_subscriptions m + 1\<rparr>"

definition dec_subscriptions :: "core_metrics \<Rightarrow> core_metrics" where
  "dec_subscriptions m = m\<lparr>active_subscriptions := active_subscriptions m - 1\<rparr>"

definition inc_published :: "core_metrics \<Rightarrow> core_metrics" where
  "inc_published m = m\<lparr>messages_published := messages_published m + 1\<rparr>"

definition inc_published_by :: "u64 \<Rightarrow> core_metrics \<Rightarrow> core_metrics" where
  "inc_published_by n m = m\<lparr>messages_published := messages_published m + n\<rparr>"

definition inc_delivered :: "core_metrics \<Rightarrow> core_metrics" where
  "inc_delivered m = m\<lparr>messages_delivered := messages_delivered m + 1\<rparr>"

definition inc_dropped :: "core_metrics \<Rightarrow> core_metrics" where
  "inc_dropped m = m\<lparr>messages_dropped := messages_dropped m + 1\<rparr>"

definition inc_protocol_errors :: "core_metrics \<Rightarrow> core_metrics" where
  "inc_protocol_errors m = m\<lparr>protocol_errors := protocol_errors m + 1\<rparr>"

text \<open>The two \<open>fetch_add\<close>s of \<open>publish_batch\<close>, with the counts it passes.\<close>

definition add_delivered :: "u64 \<Rightarrow> core_metrics \<Rightarrow> core_metrics" where
  "add_delivered n m = m\<lparr>messages_delivered := messages_delivered m + n\<rparr>"

definition add_dropped :: "u64 \<Rightarrow> core_metrics \<Rightarrow> core_metrics" where
  "add_dropped n m = m\<lparr>messages_dropped := messages_dropped m + n\<rparr>"

lemmas metrics_defs =
  inc_active_connections_def dec_active_connections_def inc_subscriptions_def
  dec_subscriptions_def inc_published_def inc_published_by_def inc_delivered_def
  inc_dropped_def inc_protocol_errors_def add_delivered_def add_dropped_def

text \<open>\<open>snapshot\<close> reads the cells one by one into a plain struct with the same fields.\<close>

type_synonym metrics_snapshot = core_metrics

definition snapshot :: "core_metrics \<Rightarrow> metrics_snapshot" where
  "snapshot m = \<lparr>active_connections = active_connections m,
     total_connections = total_connections m, active_subscriptions = active_subscriptions m,
     messages_published = messages_published m, messages_delivered = messages_delivered m,
     messages_dropped = messages_dropped m, protocol_errors = protocol_errors m\<rparr>"

section \<open>Queue-group names\<close>

type_synonym queue_group_name = str

text \<open>\<open>QueueGroupKey\<close>: subject pattern text and queue-group name.\<close>

type_synonym queue_group_key = "str \<times> str"

definition MAX_QUEUE_GROUP_NAME :: nat where
  "MAX_QUEUE_GROUP_NAME = 128"

definition queue_group_name_new :: "str \<Rightarrow> core_error + queue_group_name" where
  "queue_group_name_new name =
     (let trimmed = trim name in
      if trimmed = [] then Inl (InvalidQueueGroupName (lit ''queue group name cannot be empty''))
      else if length trimmed > MAX_QUEUE_GROUP_NAME then
        Inl (InvalidQueueGroupName
          (lit ''name exceeds max length: '' @ dec (length trimmed) @ lit '' > '' @ dec MAX_QUEUE_GROUP_NAME))
      else Inr trimmed)"

lemma queue_group_name_new_idem:
  "queue_group_name_new name = Inr q \<Longrightarrow>
     q \<noteq> [] \<and> length q \<le> MAX_QUEUE_GROUP_NAME \<and> queue_group_name_new q = Inr q"
  by (auto simp: queue_group_name_new_def Let_def split: if_splits)

end
