(* ===== verification/Subjects.thy ===== *)
theory Subjects
  imports Core_Types
begin

text \<open>
  Subjects and subject patterns (\<open>zetmq-core/src/subject.rs\<close>, \<open>subject_pattern.rs\<close>): parsing with
  its limits, and matching.  \<open>matches\<close> is the two-index loop of the source; \<open>token_match\<close> is
  the reference recursion on token lists it is shown equal to.  The well-formedness
  predicates say what a parsed value always satisfies.
\<close>

section \<open>Subject\<close>

definition MAX_SUBJECT_LEN :: nat where "MAX_SUBJECT_LEN = 512"
definition MAX_TOKENS :: nat where "MAX_TOKENS = 32"

abbreviation dot :: u8 where "dot \<equiv> 0x2E"
abbreviation star :: u8 where "star \<equiv> 0x2A"
abbreviation gt :: u8 where "gt \<equiv> 0x3E"

record subject =
  s_raw :: str
  s_tokens :: "str list"

definition subject_parse :: "str \<Rightarrow> core_error + subject" where
  "subject_parse input =
     (let trimmed = trim input in
      if trimmed = [] then Inl (InvalidSubject (lit ''subject cannot be empty''))
      else if length trimmed > MAX_SUBJECT_LEN then Inl (SubjectTooLong (length trimmed) MAX_SUBJECT_LEN)
      else if star \<in> set trimmed \<or> gt \<in> set trimmed then
        Inl (InvalidSubject (lit ''publish subject cannot contain wildcards''))
      else (let tokens = split_on dot trimmed in
        if length tokens > MAX_TOKENS then
          Inl (InvalidSubject (lit ''subject exceeds max tokens: '' @ dec (length tokens)
            @ lit '' > '' @ dec MAX_TOKENS))
        else if \<exists>t \<in> set tokens. t = [] then
          Inl (InvalidSubject (lit ''subject contains empty token''))
        else Inr \<lparr>s_raw = trimmed, s_tokens = tokens\<rparr>))"

definition subject_wf :: "subject \<Rightarrow> bool" where
  "subject_wf s \<longleftrightarrow>
     trim (s_raw s) = s_raw s \<and> s_raw s \<noteq> [] \<and> length (s_raw s) \<le> MAX_SUBJECT_LEN \<and>
     star \<notin> set (s_raw s) \<and> gt \<notin> set (s_raw s) \<and>
     s_tokens s = split_on dot (s_raw s) \<and> length (s_tokens s) \<le> MAX_TOKENS \<and>
     [] \<notin> set (s_tokens s)"

lemma subject_parse_wf: "subject_parse input = Inr s \<Longrightarrow> subject_wf s \<and> s_raw s = trim input"
  by (auto simp: subject_parse_def subject_wf_def Let_def not_less split: if_splits)

lemma subject_parse_raw: "subject_wf s \<Longrightarrow> subject_parse (s_raw s) = Inr s"
  by (auto simp: subject_parse_def subject_wf_def Let_def)

lemma subject_parse_Inr_iff: "subject_parse input = Inr s \<longleftrightarrow> subject_wf s \<and> s_raw s = trim input"
proof
  assume "subject_wf s \<and> s_raw s = trim input"
  then have "subject_parse (trim input) = Inr s" using subject_parse_raw [of s] by simp
  then show "subject_parse input = Inr s" by (simp add: subject_parse_def)
qed (rule subject_parse_wf)

lemma subject_parse_trim: "subject_parse (trim input) = subject_parse input"
  by (simp add: subject_parse_def)

lemma subject_tokens_not_Nil: "subject_wf s \<Longrightarrow> s_tokens s \<noteq> []"
  by (simp add: subject_wf_def)

lemma subject_token_no_wildcard:
  "subject_wf s \<Longrightarrow> t \<in> set (s_tokens s) \<Longrightarrow> star \<notin> set t \<and> gt \<notin> set t \<and> dot \<notin> set t \<and> t \<noteq> []"
  using set_split_on [of t dot "s_raw s"] split_on_no_sep [of t dot "s_raw s"]
  by (auto simp: subject_wf_def)

section \<open>Subject patterns\<close>

definition MAX_PATTERN_LEN :: nat where "MAX_PATTERN_LEN = 512"

datatype pattern_token = Literal str | SingleWildcard | MultiWildcard

record subject_pattern =
  p_raw :: str
  p_tokens :: "pattern_token list"

abbreviation star_str :: str where "star_str \<equiv> [star]"
abbreviation gt_str :: str where "gt_str \<equiv> [gt]"

text \<open>The token loop of \<open>SubjectPattern::parse\<close>: \<open>i\<close> is the index, \<open>n\<close> the number of raw tokens.\<close>

fun parse_tokens :: "nat \<Rightarrow> nat \<Rightarrow> str list \<Rightarrow> core_error + pattern_token list" where
  "parse_tokens i n [] = Inr []"
| "parse_tokens i n (t # ts) =
     (if t = [] then Inl (InvalidSubjectPattern (lit ''pattern contains empty token''))
      else if t = star_str then map_sum id (\<lambda>r. SingleWildcard # r) (parse_tokens (Suc i) n ts)
      else if t = gt_str then
        (if i \<noteq> n - 1 then
           Inl (InvalidSubjectPattern (lit (CHR 0x27 # CHR 0x3E # CHR 0x27 # '' wildcard must be the last token'')))
         else map_sum id (\<lambda>r. MultiWildcard # r) (parse_tokens (Suc i) n ts))
      else map_sum id (\<lambda>r. Literal t # r) (parse_tokens (Suc i) n ts))"


definition pattern_parse :: "str \<Rightarrow> core_error + subject_pattern" where
  "pattern_parse input =
     (let trimmed = trim input in
      if trimmed = [] then Inl (InvalidSubjectPattern (lit ''pattern cannot be empty''))
      else if length trimmed > MAX_PATTERN_LEN then
        Inl (InvalidSubjectPattern (lit ''pattern exceeds max length: '' @ dec (length trimmed)
          @ lit '' > '' @ dec MAX_PATTERN_LEN))
      else (let raw_tokens = split_on dot trimmed in
        if length raw_tokens > MAX_TOKENS then
          Inl (InvalidSubjectPattern (lit ''pattern exceeds max tokens: '' @ dec (length raw_tokens)
            @ lit '' > '' @ dec MAX_TOKENS))
        else (case parse_tokens 0 (length raw_tokens) raw_tokens of
            Inl e \<Rightarrow> Inl e
          | Inr tokens \<Rightarrow> Inr \<lparr>p_raw = trimmed, p_tokens = tokens\<rparr>)))"

text \<open>The loop of \<open>matches\<close>; \<open>si\<close> and \<open>pi\<close> are the two indices of the source.\<close>

function matches_loop :: "pattern_token list \<Rightarrow> str list \<Rightarrow> nat \<Rightarrow> nat \<Rightarrow> bool" where
  "matches_loop pt st si pi =
     (if pi < length pt \<and> si < length st then
        (case pt ! pi of
           Literal l \<Rightarrow> if st ! si \<noteq> l then False else matches_loop pt st (si + 1) (pi + 1)
         | SingleWildcard \<Rightarrow> matches_loop pt st (si + 1) (pi + 1)
         | MultiWildcard \<Rightarrow> length st > si)
      else pi = length pt \<and> si = length st)"
  by pat_completeness auto
termination by (relation "measure (\<lambda>(pt, st, si, pi). length pt - pi)") auto

declare matches_loop.simps [simp del]

definition matches :: "subject_pattern \<Rightarrow> subject \<Rightarrow> bool" where
  "matches p s = matches_loop (p_tokens p) (s_tokens s) 0 0"

section \<open>Reference semantics of patterns\<close>

fun token_match :: "pattern_token list \<Rightarrow> str list \<Rightarrow> bool" where
  "token_match [] [] = True"
| "token_match (Literal l # ps) (t # ts) = (t = l \<and> token_match ps ts)"
| "token_match (SingleWildcard # ps) (t # ts) = token_match ps ts"
| "token_match (MultiWildcard # ps) (t # ts) = True"
| "token_match _ _ = False"

lemma matches_loop_token_match:
  "matches_loop pt st k k = token_match (drop k pt) (drop k st)"
  if "k \<le> length pt" "k \<le> length st"
  using that
proof (induction "length pt - k" arbitrary: k)
  case 0
  then have "k = length pt" by simp
  with 0 show ?case by (cases "drop k st") (auto simp: matches_loop.simps)
next
  case (Suc n)
  show ?case
  proof (cases "k < length st")
    case True
    moreover from Suc have "k < length pt" by simp
    moreover from calculation have "drop k pt = pt ! k # drop (Suc k) pt"
      and "drop k st = st ! k # drop (Suc k) st" by (simp_all add: Cons_nth_drop_Suc)
    moreover have "matches_loop pt st (Suc k) (Suc k)
        = token_match (drop (Suc k) pt) (drop (Suc k) st)"
      using Suc.hyps(2) calculation by (intro Suc.hyps(1)) auto
    ultimately show ?thesis
      by (subst matches_loop.simps) (auto split: pattern_token.splits)
  next
    case False
    with Suc have k: "k = length st" "k < length pt" by auto
    then obtain p ps where "drop k pt = p # ps" by (cases "drop k pt") auto
    with k show ?thesis by (cases p) (auto simp: matches_loop.simps)
  qed
qed

lemma matches_token_match: "matches p s = token_match (p_tokens p) (s_tokens s)"
  by (simp add: matches_def matches_loop_token_match)

text \<open>The text a token stands for, and the wildcard tests of the routing engine.\<close>

fun token_str :: "pattern_token \<Rightarrow> str" where
  "token_str (Literal l) = l"
| "token_str SingleWildcard = star_str"
| "token_str MultiWildcard = gt_str"

definition literal_ok :: "str \<Rightarrow> bool" where
  "literal_ok l \<longleftrightarrow> l \<noteq> [] \<and> l \<noteq> star_str \<and> l \<noteq> gt_str \<and> dot \<notin> set l"

fun token_ok :: "pattern_token \<Rightarrow> bool" where
  "token_ok (Literal l) = literal_ok l"
| "token_ok _ = True"

definition tokens_wf :: "pattern_token list \<Rightarrow> bool" where
  "tokens_wf ts \<longleftrightarrow> ts \<noteq> [] \<and> list_all token_ok ts \<and> MultiWildcard \<notin> set (butlast ts)"

definition pattern_wf :: "subject_pattern \<Rightarrow> bool" where
  "pattern_wf p \<longleftrightarrow>
     trim (p_raw p) = p_raw p \<and> p_raw p \<noteq> [] \<and> length (p_raw p) \<le> MAX_PATTERN_LEN \<and>
     length (p_tokens p) \<le> MAX_TOKENS \<and> tokens_wf (p_tokens p) \<and>
     map token_str (p_tokens p) = split_on dot (p_raw p)"

lemma parse_tokens_sound:
  assumes "parse_tokens i n ts = Inr ps" and "n = i + length ts"
    and "\<forall>t \<in> set ts. dot \<notin> set t"
  shows "map token_str ps = ts \<and> list_all token_ok ps \<and> MultiWildcard \<notin> set (butlast ps)"
  using assms
proof (induction ts arbitrary: i ps)
  case (Cons t ts)
  obtain qs where qs: "parse_tokens (Suc i) n ts = Inr qs"
    using Cons.prems(1) by (cases "parse_tokens (Suc i) n ts") (auto split: if_splits)
  from Cons.IH [OF qs] Cons.prems
  have IH: "map token_str qs = ts \<and> list_all token_ok qs \<and> MultiWildcard \<notin> set (butlast qs)"
    by simp
  then have "qs = [] \<longleftrightarrow> ts = []" by auto
  with IH qs Cons.prems show ?case by (auto simp: literal_ok_def split: if_splits)
qed simp

lemma parse_tokens_complete:
  assumes "list_all token_ok ps" and "MultiWildcard \<notin> set (butlast ps)" and "n = i + length ps"
  shows "parse_tokens i n (map token_str ps) = Inr ps"
  using assms
proof (induction ps arbitrary: i)
  case (Cons p ps)
  from Cons have "parse_tokens (Suc i) n (map token_str ps) = Inr ps"
    by (cases ps) (auto split: if_splits)
  moreover from Cons.prems have "p = MultiWildcard \<Longrightarrow> ps = []"
    by (cases ps) auto
  ultimately show ?case using Cons.prems by (cases p) (auto simp: literal_ok_def)
qed simp

lemma pattern_parse_wf: "pattern_parse input = Inr p \<Longrightarrow> pattern_wf p \<and> p_raw p = trim input"
proof -
  assume "pattern_parse input = Inr p"
  then obtain ts where ts: "parse_tokens 0 (length (split_on dot (trim input)))
        (split_on dot (trim input)) = Inr ts"
    and p: "p = \<lparr>p_raw = trim input, p_tokens = ts\<rparr>" and ne: "trim input \<noteq> []"
    and len: "length (trim input) \<le> MAX_PATTERN_LEN"
      "length (split_on dot (trim input)) \<le> MAX_TOKENS"
    by (auto simp: pattern_parse_def Let_def not_less split: if_splits sum.splits)
  have "\<forall>t \<in> set (split_on dot (trim input)). dot \<notin> set t"
    by (intro ballI) (rule split_on_no_sep)
  with parse_tokens_sound [OF ts]
  have "map token_str ts = split_on dot (trim input) \<and> list_all token_ok ts \<and>
      MultiWildcard \<notin> set (butlast ts)" by simp
  moreover from this have "length ts = length (split_on dot (trim input))"
    by (metis length_map)
  ultimately show ?thesis using p ne len by (auto simp: pattern_wf_def tokens_wf_def)
qed

lemma pattern_parse_raw: "pattern_wf p \<Longrightarrow> pattern_parse (p_raw p) = Inr p"
proof -
  assume wf: "pattern_wf p"
  then have "split_on dot (p_raw p) = map token_str (p_tokens p)" by (simp add: pattern_wf_def)
  with wf parse_tokens_complete [of "p_tokens p" "length (p_tokens p)" 0] show ?thesis
    by (auto simp: pattern_wf_def pattern_parse_def Let_def tokens_wf_def)
qed

lemma pattern_parse_Inr_iff:
  "pattern_parse input = Inr p \<longleftrightarrow> pattern_wf p \<and> p_raw p = trim input"
proof
  assume "pattern_wf p \<and> p_raw p = trim input"
  then have "pattern_parse (trim input) = Inr p" using pattern_parse_raw [of p] by simp
  then show "pattern_parse input = Inr p" by (simp add: pattern_parse_def)
qed (rule pattern_parse_wf)

lemma pattern_raw_join: "pattern_wf p \<Longrightarrow> p_raw p = join dot (map token_str (p_tokens p))"
  by (simp add: pattern_wf_def)

definition has_wildcard :: "subject_pattern \<Rightarrow> bool" where
  "has_wildcard p \<longleftrightarrow> (\<exists>t \<in> set (p_tokens p). t = SingleWildcard \<or> t = MultiWildcard)"

definition has_multi :: "subject_pattern \<Rightarrow> bool" where
  "has_multi p \<longleftrightarrow> (\<exists>t \<in> set (p_tokens p). t = MultiWildcard)"

lemma token_match_literals:
  "\<forall>t \<in> set ps. t \<noteq> SingleWildcard \<and> t \<noteq> MultiWildcard \<Longrightarrow>
     token_match ps ts \<longleftrightarrow> map token_str ps = ts"
  by (induction ps ts rule: token_match.induct) auto

lemma matches_exact:
  assumes "pattern_wf p" and "subject_wf s" and "\<not> has_wildcard p"
  shows "matches p s \<longleftrightarrow> p_raw p = s_raw s"
proof -
  have "matches p s \<longleftrightarrow> map token_str (p_tokens p) = s_tokens s"
    using assms(3) by (simp add: matches_token_match token_match_literals has_wildcard_def)
  also have "\<dots> \<longleftrightarrow> split_on dot (p_raw p) = split_on dot (s_raw s)"
    using assms(1,2) by (simp add: pattern_wf_def subject_wf_def)
  finally show ?thesis by (simp add: split_on_eq_iff)
qed

text \<open>What the documentation says of the wildcards: \<open>*\<close> stands for one token, a final \<open>>\<close> for one or more.\<close>

definition tok_fits :: "pattern_token \<Rightarrow> str \<Rightarrow> bool" where
  "tok_fits p t \<longleftrightarrow> p = SingleWildcard \<or> p = Literal t"

lemma token_match_no_multi:
  "MultiWildcard \<notin> set ps \<Longrightarrow> token_match ps ts \<longleftrightarrow> list_all2 tok_fits ps ts"
  by (induction ps ts rule: token_match.induct) (auto simp: tok_fits_def)

lemma token_match_multi:
  "MultiWildcard \<notin> set ps \<Longrightarrow> token_match (ps @ [MultiWildcard]) ts \<longleftrightarrow>
     length ps < length ts \<and> list_all2 tok_fits ps (take (length ps) ts)"
proof (induction ps arbitrary: ts)
  case Nil
  then show ?case by (cases ts) auto
next
  case (Cons p ps)
  then show ?case by (cases ts; cases p) (auto simp: tok_fits_def)
qed

end
