(* ===== verification/Routing.thy ===== *)
theory Routing
  imports Subjects
begin

text \<open>
  The routing engine (\<open>zetmq-core/src/routing/trie.rs\<close>, \<open>engine.rs\<close>): a hash map for patterns without
  wildcards, a trie for the others, and the flag that lets a publish skip the trie.

  The interface is the locale \<open>router\<close>: a router represents a finite map from subscription ids
  to patterns, and a lookup returns, without duplicates, exactly the ids whose pattern
  matches.  The engine is an interpretation (\<open>engine\<close>); its invariant \<open>routes\<close> places every
  subscription at its path in the trie or at its text in the hash map.
\<close>

section \<open>Subject trie\<close>

datatype trie_node = TrieNode
  (children: "str \<rightharpoonup> trie_node")
  (multi_wildcard_subs: "subscription_id list")
  (exact_subs: "subscription_id list")

definition trie_node_default :: trie_node where
  "trie_node_default = TrieNode Map.empty [] []"

record subject_trie =
  root :: trie_node
  subscriber_count :: nat

definition trie_new :: subject_trie where
  "trie_new = \<lparr>root = trie_node_default, subscriber_count = 0\<rparr>"

definition trie_is_empty :: "subject_trie \<Rightarrow> bool" where
  "trie_is_empty t \<longleftrightarrow> subscriber_count t = 0"

text \<open>The descent of \<open>insert\<close>: the last token of a multi-wildcard pattern is not descended into.\<close>

fun node_insert :: "str list \<Rightarrow> subscription_id \<Rightarrow> bool \<Rightarrow> trie_node \<Rightarrow> trie_node" where
  "node_insert [] i has_mw (TrieNode ch mw ex) = TrieNode ch mw (ex @ [i])"
| "node_insert (t # ts) i has_mw (TrieNode ch mw ex) =
     (if has_mw \<and> ts = [] then TrieNode ch (mw @ [i]) ex
      else TrieNode
        (ch(t \<mapsto> node_insert ts i has_mw (case ch t of None \<Rightarrow> trie_node_default | Some c \<Rightarrow> c)))
        mw ex)"

definition trie_insert :: "str list \<Rightarrow> subscription_id \<Rightarrow> bool \<Rightarrow> subject_trie \<Rightarrow> subject_trie" where
  "trie_insert ts i has_mw t =
     \<lparr>root = node_insert ts i has_mw (root t), subscriber_count = subscriber_count t + 1\<rparr>"

definition retain_not :: "subscription_id \<Rightarrow> subscription_id list \<Rightarrow> subscription_id list" where
  "retain_not i xs = filter (\<lambda>j. j \<noteq> i) xs"

text \<open>The descent of \<open>remove\<close>; the flag says whether some list became shorter.\<close>

fun node_remove :: "str list \<Rightarrow> subscription_id \<Rightarrow> bool \<Rightarrow> trie_node \<Rightarrow> trie_node \<times> bool" where
  "node_remove [] i has_mw (TrieNode ch mw ex) =
     (TrieNode ch mw (retain_not i ex), length (retain_not i ex) < length ex)"
| "node_remove (t # ts) i has_mw (TrieNode ch mw ex) =
     (if has_mw \<and> ts = [] then
        (TrieNode ch (retain_not i mw) ex, length (retain_not i mw) < length mw)
      else (case ch t of
          None \<Rightarrow> (TrieNode ch mw ex, False)
        | Some c \<Rightarrow> (let (c', r) = node_remove ts i has_mw c in (TrieNode (ch(t \<mapsto> c')) mw ex, r))))"

definition trie_remove :: "str list \<Rightarrow> subscription_id \<Rightarrow> bool \<Rightarrow> subject_trie \<Rightarrow> subject_trie" where
  "trie_remove ts i has_mw t =
     (let (n, r) = node_remove ts i has_mw (root t) in
      \<lparr>root = n, subscriber_count = (if r then subscriber_count t - 1 else subscriber_count t)\<rparr>)"

text \<open>\<open>match_recursive\<close>; its \<open>index\<close> is the number of tokens already consumed, here the list \<open>ts\<close> is the rest.\<close>

fun match_recursive :: "trie_node \<Rightarrow> str list \<Rightarrow> subscription_id list" where
  "match_recursive n [] = exact_subs n"
| "match_recursive n (t # ts) =
     (if multi_wildcard_subs n \<noteq> [] then multi_wildcard_subs n else [])
     @ (case children n t of None \<Rightarrow> [] | Some c \<Rightarrow> match_recursive c ts)
     @ (case children n star_str of
          None \<Rightarrow> []
        | Some c \<Rightarrow> if t \<noteq> star_str then match_recursive c ts else [])"

definition trie_match_subject :: "subject_trie \<Rightarrow> subject \<Rightarrow> subscription_id list" where
  "trie_match_subject t s = match_recursive (root t) (s_tokens s)"

section \<open>What a trie stores\<close>

text \<open>The subscriptions at a path: \<open>True\<close> selects the multi-wildcard list, \<open>False\<close> the exact list.\<close>

fun node_at :: "bool \<Rightarrow> trie_node \<Rightarrow> str list \<Rightarrow> subscription_id list" where
  "node_at k n [] = (if k then multi_wildcard_subs n else exact_subs n)"
| "node_at k n (t # ts) = (case children n t of None \<Rightarrow> [] | Some c \<Rightarrow> node_at k c ts)"

lemma node_at_default [simp]: "node_at k trie_node_default p = []"
  by (cases p) (auto simp: trie_node_default_def)

lemma node_at_insert_exact:
  "node_at k (node_insert ts i False n) p =
     node_at k n p @ (if \<not> k \<and> p = ts then [i] else [])"
proof (induction ts arbitrary: n p)
  case Nil
  then show ?case by (cases n; cases p) auto
next
  case (Cons t ts)
  then show ?case by (cases n; cases p) (auto split: option.splits)
qed

lemma node_at_insert_multi:
  "ts \<noteq> [] \<Longrightarrow> node_at k (node_insert ts i True n) p =
     node_at k n p @ (if k \<and> p = butlast ts then [i] else [])"
proof (induction ts arbitrary: n p)
  case (Cons t ts)
  then show ?case
    by (cases n; cases p; cases "ts = []") (auto split: option.splits)
qed simp

lemma length_retain_not: "length (retain_not i xs) < length xs \<longleftrightarrow> i \<in> set xs"
  by (auto simp: retain_not_def intro: length_filter_less)
    (metis (mono_tags, lifting) filter_True less_irrefl)

lemma retain_not_id [simp]: "i \<notin> set xs \<Longrightarrow> retain_not i xs = xs"
  by (auto simp: retain_not_def intro: filter_True)

lemma set_retain_not [simp]: "set (retain_not i xs) = set xs - {i}"
  by (auto simp: retain_not_def)

lemma distinct_retain_not [simp]: "distinct xs \<Longrightarrow> distinct (retain_not i xs)"
  by (simp add: retain_not_def)

lemma retain_not_Nil [simp]: "retain_not i [] = []"
  by (simp add: retain_not_def)

lemma node_at_remove_exact:
  "node_at k (fst (node_remove ts i False n)) p =
     (if \<not> k \<and> p = ts then retain_not i (node_at k n p) else node_at k n p)"
proof (induction ts arbitrary: n p)
  case Nil
  then show ?case by (cases n; cases p) auto
next
  case (Cons t ts)
  then show ?case by (cases n; cases p) (auto split: option.splits simp: Let_def case_prod_beta)
qed

lemma node_at_remove_multi:
  "ts \<noteq> [] \<Longrightarrow> node_at k (fst (node_remove ts i True n)) p =
     (if k \<and> p = butlast ts then retain_not i (node_at k n p) else node_at k n p)"
proof (induction ts arbitrary: n p)
  case (Cons t ts)
  then show ?case
    by (cases n; cases p; cases "ts = []") (auto split: option.splits simp: Let_def case_prod_beta)
qed simp

lemma node_remove_exact_flag: "snd (node_remove ts i False n) \<longleftrightarrow> i \<in> set (node_at False n ts)"
proof (induction ts arbitrary: n)
  case Nil
  then show ?case by (cases n) (auto simp: length_retain_not)
next
  case (Cons t ts)
  then show ?case by (cases n) (auto split: option.splits simp: Let_def case_prod_beta)
qed

lemma node_remove_multi_flag:
  "ts \<noteq> [] \<Longrightarrow> snd (node_remove ts i True n) \<longleftrightarrow> i \<in> set (node_at True n (butlast ts))"
proof (induction ts arbitrary: n)
  case (Cons t ts)
  then show ?case
    by (cases n; cases "ts = []") (auto simp: length_retain_not Let_def case_prod_beta split: option.splits)
qed simp


section \<open>Matching against the stored paths\<close>

definition covers :: "str list \<Rightarrow> str list \<Rightarrow> bool" where
  "covers p ts \<longleftrightarrow> list_all2 (\<lambda>a t. a = t \<or> a = star_str) p ts"

lemma covers_simps [simp]:
  "covers [] ts \<longleftrightarrow> ts = []"
  "covers p [] \<longleftrightarrow> p = []"
  "covers (a # p) (t # ts) \<longleftrightarrow> (a = t \<or> a = star_str) \<and> covers p ts"
  by (auto simp: covers_def)

lemma covers_Cons_right:
  "covers p (t # ts) \<longleftrightarrow> (\<exists>a q. p = a # q \<and> (a = t \<or> a = star_str) \<and> covers q ts)"
  by (auto simp: covers_def list_all2_Cons2)

lemma covers_take_length: "covers p (take m ts) \<Longrightarrow> m < length ts \<Longrightarrow> length p = m"
  by (auto simp: covers_def dest: list_all2_lengthD)

text \<open>
  The places a match for \<open>ts\<close> can come from: exact lists at a path that covers \<open>ts\<close>, and
  multi-wildcard lists at a path that covers a proper prefix of \<open>ts\<close>.
\<close>

definition hits :: "bool \<Rightarrow> str list \<Rightarrow> str list \<Rightarrow> bool" where
  "hits k p ts \<longleftrightarrow> (if k then \<exists>m < length ts. covers p (take m ts) else covers p ts)"

lemma hits_Nil [simp]: "hits k p [] \<longleftrightarrow> \<not> k \<and> p = []"
  by (simp add: hits_def)

lemma hits_Cons:
  "hits k p (t # ts) \<longleftrightarrow>
     (k \<and> p = []) \<or> (\<exists>a q. p = a # q \<and> (a = t \<or> a = star_str) \<and> hits k q ts)"
proof (cases k)
  case True
  have "(\<exists>m < Suc (length ts). covers p (take m (t # ts))) \<longleftrightarrow>
      p = [] \<or> (\<exists>m < length ts. covers p (t # take m ts))"
    by (auto simp: less_Suc_eq_0_disj)
  then show ?thesis using True by (auto simp: hits_def covers_Cons_right)
qed (auto simp: hits_def covers_Cons_right)

lemma ex_path:
  "(\<exists>p. (A \<and> p = [] \<or> (\<exists>a q. p = a # q \<and> B a \<and> C q)) \<and> Q p) \<longleftrightarrow>
     (A \<and> Q []) \<or> (\<exists>a. B a \<and> (\<exists>q. C q \<and> Q (a # q)))"
  by blast

lemma set_match_recursive:
  "i \<in> set (match_recursive n ts) \<longleftrightarrow> (\<exists>k p. hits k p ts \<and> i \<in> set (node_at k n p))"
proof (induction ts arbitrary: n)
  case Nil
  show ?case by auto
next
  case (Cons t ts)
  have child: "(\<exists>q. hits k q ts \<and> i \<in> set (node_at k n (a # q))) \<longleftrightarrow>
      (\<exists>c. children n a = Some c \<and> (\<exists>q. hits k q ts \<and> i \<in> set (node_at k c q)))" for k a
    by (cases "children n a") auto
  define B where "B a \<longleftrightarrow> a = t \<or> a = star_str" for a
  have step: "(\<exists>p. hits k p (t # ts) \<and> i \<in> set (node_at k n p)) \<longleftrightarrow>
      (k \<and> i \<in> set (multi_wildcard_subs n)) \<or>
      (\<exists>a. B a \<and> (\<exists>q. hits k q ts \<and> i \<in> set (node_at k n (a # q))))" for k
    unfolding hits_Cons ex_path B_def by simp
  have "(\<exists>k p. hits k p (t # ts) \<and> i \<in> set (node_at k n p)) \<longleftrightarrow>
      i \<in> set (multi_wildcard_subs n) \<or>
      (\<exists>a c. B a \<and> children n a = Some c \<and> i \<in> set (match_recursive c ts))"
    unfolding step child Cons.IH ex_bool_eq by blast
  also have "\<dots> \<longleftrightarrow> i \<in> set (match_recursive n (t # ts))"
    by (cases "children n t"; cases "children n star_str") (auto simp: B_def)
  finally show ?case by blast
qed

definition node_unique :: "trie_node \<Rightarrow> bool" where
  "node_unique n \<longleftrightarrow>
     (\<forall>k p. distinct (node_at k n p)) \<and>
     (\<forall>i k p k' p'. i \<in> set (node_at k n p) \<longrightarrow> i \<in> set (node_at k' n p') \<longrightarrow> k = k' \<and> p = p')"

lemma node_unique_child: "node_unique n \<Longrightarrow> children n t = Some c \<Longrightarrow> node_unique c"
proof -
  assume u: "node_unique n" and c: "children n t = Some c"
  then have "node_at k c p = node_at k n (t # p)" for k p by simp
  then show ?thesis using u unfolding node_unique_def by (metis list.inject)
qed

lemma match_child_location:
  "children n a = Some c \<Longrightarrow> i \<in> set (match_recursive c ts) \<Longrightarrow>
     \<exists>k q. i \<in> set (node_at k n (a # q))"
  by (auto simp: set_match_recursive)

lemma distinct_match_recursive: "node_unique n \<Longrightarrow> distinct (match_recursive n ts)"
proof (induction ts arbitrary: n)
  case Nil
  then have "distinct (node_at False n [])" unfolding node_unique_def by blast
  then show ?case by simp
next
  case (Cons t ts)
  have uniq: "i \<in> set (node_at k n p) \<Longrightarrow> i \<in> set (node_at k' n p') \<Longrightarrow> p = p'" for i k p k' p'
    using Cons.prems unfolding node_unique_def by blast
  have root: "i \<in> set (multi_wildcard_subs n) \<Longrightarrow> i \<in> set (node_at True n [])" for i by simp
  have "distinct (node_at True n [])" using Cons.prems unfolding node_unique_def by blast
  moreover have "distinct (match_recursive c ts)" if "children n a = Some c" for a c
    using Cons that node_unique_child by blast
  moreover have "i \<notin> set (match_recursive c ts)"
    if "children n a = Some c" "i \<in> set (multi_wildcard_subs n)" for a c i
    using match_child_location [OF that(1)] root [OF that(2)] uniq by blast
  moreover have "i \<notin> set (match_recursive d ts)"
    if "children n t = Some c" "children n star_str = Some d" "t \<noteq> star_str"
      "i \<in> set (match_recursive c ts)" for c d i
    using match_child_location [OF that(1,4)] match_child_location [OF that(2)] that(3) uniq
    by (metis list.inject)
  ultimately show ?case by (auto split: option.splits)
qed


section \<open>Routing engine\<close>

record routing_engine =
  exact :: "str \<rightharpoonup> subscription_id list"
  wildcard_trie :: subject_trie
  has_wildcards :: bool

definition engine_new :: routing_engine where
  "engine_new = \<lparr>exact = Map.empty, wildcard_trie = trie_new, has_wildcards = False\<rparr>"

definition engine_insert :: "subject_pattern \<Rightarrow> subscription_id \<Rightarrow> routing_engine \<Rightarrow> routing_engine" where
  "engine_insert p i e =
     (if \<not> has_wildcard p then
        e\<lparr>exact := (exact e)(p_raw p \<mapsto>
            (case exact e (p_raw p) of None \<Rightarrow> [] | Some xs \<Rightarrow> xs) @ [i])\<rparr>
      else
        e\<lparr>wildcard_trie := trie_insert (map token_str (p_tokens p)) i (has_multi p) (wildcard_trie e),
          has_wildcards := True\<rparr>)"

definition engine_remove :: "subject_pattern \<Rightarrow> subscription_id \<Rightarrow> routing_engine \<Rightarrow> routing_engine" where
  "engine_remove p i e =
     (if \<not> has_wildcard p then
        (case exact e (p_raw p) of
           None \<Rightarrow> e
         | Some xs \<Rightarrow> e\<lparr>exact := (exact e)(p_raw p \<mapsto> retain_not i xs)\<rparr>)
      else
        (let t = trie_remove (map token_str (p_tokens p)) i (has_multi p) (wildcard_trie e) in
         e\<lparr>wildcard_trie := t,
           has_wildcards := (if trie_is_empty t then False else has_wildcards e)\<rparr>))"

definition exact_matches :: "routing_engine \<Rightarrow> str \<Rightarrow> subscription_id list" where
  "exact_matches e k = (case exact e k of None \<Rightarrow> [] | Some xs \<Rightarrow> xs)"

definition match_wildcards :: "routing_engine \<Rightarrow> subject \<Rightarrow> subscription_id list" where
  "match_wildcards e s = (if has_wildcards e then trie_match_subject (wildcard_trie e) s else [])"

definition engine_match_subject :: "routing_engine \<Rightarrow> subject \<Rightarrow> subscription_id list" where
  "engine_match_subject e s =
     exact_matches e (s_raw s)
     @ (if has_wildcards e then trie_match_subject (wildcard_trie e) s else [])"

definition match_subject_str :: "routing_engine \<Rightarrow> str \<Rightarrow> subscription_id list \<times> bool" where
  "match_subject_str e str = (exact_matches e str, has_wildcards e)"

definition exact_is_empty :: "routing_engine \<Rightarrow> str \<Rightarrow> bool" where
  "exact_is_empty e str = (case exact e str of None \<Rightarrow> True | Some xs \<Rightarrow> xs = [])"

definition exact_single_subscriber :: "routing_engine \<Rightarrow> subject \<Rightarrow> subscription_id option" where
  "exact_single_subscriber e s =
     (case exact e (s_raw s) of
        None \<Rightarrow> None
      | Some xs \<Rightarrow> if length xs = 1 then Some (xs ! 0) else None)"

section \<open>The interface of a router\<close>

locale router =
  fixes new :: 'r
    and insert :: "subject_pattern \<Rightarrow> subscription_id \<Rightarrow> 'r \<Rightarrow> 'r"
    and remove :: "subject_pattern \<Rightarrow> subscription_id \<Rightarrow> 'r \<Rightarrow> 'r"
    and lookup :: "'r \<Rightarrow> subject \<Rightarrow> subscription_id list"
    and rep :: "'r \<Rightarrow> (subscription_id \<rightharpoonup> subject_pattern) \<Rightarrow> bool"
  assumes rep_new: "rep new Map.empty"
    and rep_insert: "rep r S \<Longrightarrow> S i = None \<Longrightarrow> pattern_wf p \<Longrightarrow> rep (insert p i r) (S(i \<mapsto> p))"
    and rep_remove: "rep r S \<Longrightarrow> S i = Some p \<Longrightarrow> rep (remove p i r) (S(i := None))"
    and set_lookup: "rep r S \<Longrightarrow> subject_wf s \<Longrightarrow>
      set (lookup r s) = {i. \<exists>p. S i = Some p \<and> matches p s}"
    and distinct_lookup: "rep r S \<Longrightarrow> distinct (lookup r s)"
begin

lemma lookup_new: "subject_wf s \<Longrightarrow> lookup new s = []"
  using set_lookup [OF rep_new, of s] by simp

lemma lookup_insert:
  assumes "rep r S" and "S i = None" and "pattern_wf p" and "subject_wf s"
  shows "set (lookup (insert p i r) s) = set (lookup r s) \<union> (if matches p s then {i} else {})"
  using set_lookup [OF rep_insert [OF assms(1,2,3)] assms(4)] set_lookup [OF assms(1,4)] assms(2)
  by auto

lemma lookup_remove:
  assumes "rep r S" and "S i = Some p" and "subject_wf s"
  shows "set (lookup (remove p i r) s) = set (lookup r s) - {i}"
  using set_lookup [OF rep_remove [OF assms(1,2)] assms(3)] set_lookup [OF assms(1,3)]
  by auto

lemma lookup_remove_all:
  assumes "rep r S" and "distinct is" and "\<forall>i \<in> set is. S i \<noteq> None"
  shows "rep (fold (\<lambda>i r. remove (the (S i)) i r) is r) (\<lambda>i. if i \<in> set is then None else S i)"
  using assms
proof (induction "is" arbitrary: r S)
  case (Cons i js)
  from Cons.prems obtain p where p: "S i = Some p" by auto
  let ?S = "S(i := None)"
  have "rep (fold (\<lambda>j r. remove (the (?S j)) j r) js (remove p i r))
      (\<lambda>j. if j \<in> set js then None else ?S j)"
    using Cons.prems p by (intro Cons.IH rep_remove) auto
  moreover have "fold (\<lambda>j r. remove (the (?S j)) j r) js (remove p i r)
      = fold (\<lambda>j r. remove (the (S j)) j r) js (remove p i r)"
    using Cons.prems(2) by (intro List.fold_cong) auto
  moreover have "(\<lambda>j. if j \<in> set js then None else ?S j)
      = (\<lambda>j. if j \<in> set (i # js) then None else S j)" by auto
  ultimately show ?case using p by simp
qed simp

end

section \<open>The engine implements the interface\<close>

text \<open>Where a wildcard pattern is stored in the trie.\<close>

definition trie_path :: "subject_pattern \<Rightarrow> str list" where
  "trie_path p = (let ts = map token_str (p_tokens p) in if has_multi p then butlast ts else ts)"

lemma tok_fits_token_str:
  "token_ok p \<Longrightarrow> p \<noteq> MultiWildcard \<Longrightarrow> tok_fits p t \<longleftrightarrow> token_str p = t \<or> token_str p = star_str"
  by (cases p) (auto simp: tok_fits_def literal_ok_def)

lemma list_all2_tok_fits_covers:
  "list_all token_ok ps \<Longrightarrow> MultiWildcard \<notin> set ps \<Longrightarrow>
     list_all2 tok_fits ps ts \<longleftrightarrow> covers (map token_str ps) ts"
  by (induction ps ts rule: list_induct2') (auto simp: tok_fits_token_str)

lemma matches_hits:
  assumes wf: "pattern_wf p"
  shows "matches p s \<longleftrightarrow> hits (has_multi p) (trie_path p) (s_tokens s)"
proof (cases "has_multi p")
  case False
  then have "MultiWildcard \<notin> set (p_tokens p)" by (auto simp: has_multi_def)
  with wf False show ?thesis
    by (simp add: matches_token_match token_match_no_multi list_all2_tok_fits_covers
        hits_def trie_path_def pattern_wf_def tokens_wf_def)
next
  case True
  let ?ps = "butlast (p_tokens p)"
  have ne: "p_tokens p \<noteq> []" and no: "MultiWildcard \<notin> set ?ps"
    and ok: "list_all token_ok (p_tokens p)"
    using wf by (auto simp: pattern_wf_def tokens_wf_def)
  have "p_tokens p = ?ps @ [last (p_tokens p)]" using ne by simp
  moreover have "MultiWildcard \<in> set (p_tokens p)" using True by (auto simp: has_multi_def)
  ultimately have split: "p_tokens p = ?ps @ [MultiWildcard]" and okp: "list_all token_ok ?ps"
    using no ok by (metis Un_iff set_append set_ConsD empty_iff list.set(1), metis list_all_append)
  have "matches p s \<longleftrightarrow> length ?ps < length (s_tokens s) \<and>
      covers (map token_str ?ps) (take (length ?ps) (s_tokens s))"
    using token_match_multi [OF no, of "s_tokens s"] list_all2_tok_fits_covers [OF okp no] split
    by (simp add: matches_token_match)
  also have "\<dots> \<longleftrightarrow> (\<exists>m < length (s_tokens s). covers (map token_str ?ps) (take m (s_tokens s)))"
    using covers_take_length [of "map token_str ?ps" _ "s_tokens s"] by (metis length_map)
  finally show ?thesis using True by (simp add: hits_def trie_path_def Let_def map_butlast)
qed

definition in_trie :: "(subscription_id \<rightharpoonup> subject_pattern) \<Rightarrow> bool \<Rightarrow> str list \<Rightarrow> subscription_id set" where
  "in_trie S k path =
     {i. \<exists>p. S i = Some p \<and> has_wildcard p \<and> has_multi p = k \<and> trie_path p = path}"

definition wildcard_ids :: "(subscription_id \<rightharpoonup> subject_pattern) \<Rightarrow> subscription_id set" where
  "wildcard_ids S = {i. \<exists>p. S i = Some p \<and> has_wildcard p}"

definition in_exact :: "(subscription_id \<rightharpoonup> subject_pattern) \<Rightarrow> str \<Rightarrow> subscription_id set" where
  "in_exact S k = {i. \<exists>p. S i = Some p \<and> \<not> has_wildcard p \<and> p_raw p = k}"

definition routes :: "routing_engine \<Rightarrow> (subscription_id \<rightharpoonup> subject_pattern) \<Rightarrow> bool" where
  "routes e S \<longleftrightarrow>
     finite (dom S) \<and> (\<forall>i p. S i = Some p \<longrightarrow> pattern_wf p) \<and>
     (\<forall>k. distinct (exact_matches e k) \<and> set (exact_matches e k) = in_exact S k) \<and>
     (\<forall>k path. distinct (node_at k (root (wildcard_trie e)) path) \<and>
        set (node_at k (root (wildcard_trie e)) path) = in_trie S k path) \<and>
     subscriber_count (wildcard_trie e) = card (wildcard_ids S) \<and>
     has_wildcards e = (subscriber_count (wildcard_trie e) > 0)"

lemma wildcard_ids_finite: "finite (dom S) \<Longrightarrow> finite (wildcard_ids S)"
  by (rule finite_subset [of _ "dom S"]) (auto simp: wildcard_ids_def)

lemma routes_trie_unique: "routes e S \<Longrightarrow> node_unique (root (wildcard_trie e))"
  unfolding routes_def node_unique_def by (auto simp: in_trie_def)

lemma has_multi_wildcard: "has_multi p \<Longrightarrow> has_wildcard p"
  by (auto simp: has_multi_def has_wildcard_def)

lemma routes_trie_match:
  assumes "routes e S"
  shows "set (trie_match_subject (wildcard_trie e) s)
      = {i. \<exists>p. S i = Some p \<and> has_wildcard p \<and> matches p s}"
proof -
  have at: "set (node_at k (root (wildcard_trie e)) path) = in_trie S k path" for k path
    using assms by (simp add: routes_def)
  have "i \<in> set (trie_match_subject (wildcard_trie e) s) \<longleftrightarrow>
      (\<exists>p. S i = Some p \<and> has_wildcard p \<and> hits (has_multi p) (trie_path p) (s_tokens s))" for i
    unfolding trie_match_subject_def set_match_recursive at by (auto simp: in_trie_def)
  moreover have "S i = Some p \<Longrightarrow> hits (has_multi p) (trie_path p) (s_tokens s) = matches p s" for i p
    using assms matches_hits [of p s] by (auto simp: routes_def)
  ultimately show ?thesis by blast
qed

lemma routes_no_wildcards:
  assumes "routes e S" and "\<not> has_wildcards e"
  shows "wildcard_ids S = {}"
proof -
  have "card (wildcard_ids S) = 0" and "finite (wildcard_ids S)"
    using assms wildcard_ids_finite by (auto simp: routes_def)
  then show ?thesis by simp
qed

lemma routes_match_wildcards:
  assumes "routes e S"
  shows "set (match_wildcards e s) = {i. \<exists>p. S i = Some p \<and> has_wildcard p \<and> matches p s}"
  using routes_trie_match [OF assms] routes_no_wildcards [OF assms]
  by (auto simp: match_wildcards_def wildcard_ids_def)

lemma routes_set_match:
  assumes "routes e S" and "subject_wf s"
  shows "set (engine_match_subject e s) = {i. \<exists>p. S i = Some p \<and> matches p s}"
proof -
  have "set (exact_matches e (s_raw s)) = {i. \<exists>p. S i = Some p \<and> \<not> has_wildcard p \<and> matches p s}"
    using assms matches_exact [OF _ assms(2)] by (auto simp: routes_def in_exact_def)
  moreover have "engine_match_subject e s = exact_matches e (s_raw s) @ match_wildcards e s"
    by (simp add: engine_match_subject_def match_wildcards_def)
  ultimately show ?thesis using routes_match_wildcards [OF assms(1)] by auto
qed

lemma routes_distinct_match:
  assumes "routes e S"
  shows "distinct (engine_match_subject e s)"
proof -
  have "distinct (exact_matches e (s_raw s))" and ex: "set (exact_matches e (s_raw s)) = in_exact S (s_raw s)"
    using assms by (simp_all add: routes_def)
  moreover have "distinct (trie_match_subject (wildcard_trie e) s)"
    using distinct_match_recursive [OF routes_trie_unique [OF assms]]
    by (simp add: trie_match_subject_def)
  ultimately show ?thesis
    using routes_trie_match [OF assms, of s] by (auto simp: engine_match_subject_def in_exact_def)
qed


lemma routes_new: "routes engine_new Map.empty"
  by (simp add: routes_def engine_new_def exact_matches_def in_exact_def in_trie_def
      wildcard_ids_def trie_new_def)

lemma in_exact_upd:
  "S i = None \<Longrightarrow> in_exact (S(i \<mapsto> p)) k =
     in_exact S k \<union> (if \<not> has_wildcard p \<and> p_raw p = k then {i} else {})"
  by (auto simp: in_exact_def)

lemma in_trie_upd:
  "S i = None \<Longrightarrow> in_trie (S(i \<mapsto> p)) k path =
     in_trie S k path \<union> (if has_wildcard p \<and> has_multi p = k \<and> trie_path p = path then {i} else {})"
  by (auto simp: in_trie_def)

lemma wildcard_ids_upd:
  "S i = None \<Longrightarrow> wildcard_ids (S(i \<mapsto> p)) = wildcard_ids S \<union> (if has_wildcard p then {i} else {})"
  by (auto simp: wildcard_ids_def)

lemma in_exact_del: "in_exact (S(i := None)) k = in_exact S k - {i}"
  by (auto simp: in_exact_def)

lemma in_trie_del: "in_trie (S(i := None)) k path = in_trie S k path - {i}"
  by (auto simp: in_trie_def)

lemma wildcard_ids_del: "wildcard_ids (S(i := None)) = wildcard_ids S - {i}"
  by (auto simp: wildcard_ids_def)

lemmas route_upd_simps =
  in_exact_upd in_trie_upd wildcard_ids_upd in_exact_del in_trie_del wildcard_ids_del

lemma node_at_insert:
  assumes "pattern_wf p"
  shows "node_at k (node_insert (map token_str (p_tokens p)) i (has_multi p) n) path
      = node_at k n path @ (if k = has_multi p \<and> path = trie_path p then [i] else [])"
proof (cases "has_multi p")
  case True
  have "map token_str (p_tokens p) \<noteq> []" using assms by (simp add: pattern_wf_def)
  with True show ?thesis by (simp add: node_at_insert_multi trie_path_def Let_def)
qed (simp add: node_at_insert_exact trie_path_def Let_def)

lemma node_at_remove:
  assumes "pattern_wf p"
  shows "node_at k (fst (node_remove (map token_str (p_tokens p)) i (has_multi p) n)) path
      = (if k = has_multi p \<and> path = trie_path p then retain_not i (node_at k n path)
         else node_at k n path)"
    and "snd (node_remove (map token_str (p_tokens p)) i (has_multi p) n)
      \<longleftrightarrow> i \<in> set (node_at (has_multi p) n (trie_path p))"
proof -
  have ne: "map token_str (p_tokens p) \<noteq> []" using assms by (simp add: pattern_wf_def)
  show "node_at k (fst (node_remove (map token_str (p_tokens p)) i (has_multi p) n)) path
      = (if k = has_multi p \<and> path = trie_path p then retain_not i (node_at k n path)
         else node_at k n path)"
    using node_at_remove_multi [OF ne, of k i n path]
    by (cases "has_multi p") (simp_all add: node_at_remove_exact trie_path_def Let_def)
  show "snd (node_remove (map token_str (p_tokens p)) i (has_multi p) n)
      \<longleftrightarrow> i \<in> set (node_at (has_multi p) n (trie_path p))"
    using node_remove_multi_flag [OF ne, of i n]
    by (cases "has_multi p") (simp_all add: node_remove_exact_flag trie_path_def Let_def)
qed

lemma routes_insert:
  assumes r: "routes e S" and fresh: "S i = None" and wf: "pattern_wf p"
  shows "routes (engine_insert p i e) (S(i \<mapsto> p))"
proof -
  have S: "finite (dom S)" "\<And>j q. S j = Some q \<Longrightarrow> pattern_wf q"
    and ex: "\<And>k. distinct (exact_matches e k)" "\<And>k. set (exact_matches e k) = in_exact S k"
    and tr: "\<And>k path. distinct (node_at k (root (wildcard_trie e)) path)"
      "\<And>k path. set (node_at k (root (wildcard_trie e)) path) = in_trie S k path"
    and cnt: "subscriber_count (wildcard_trie e) = card (wildcard_ids S)"
      "has_wildcards e = (subscriber_count (wildcard_trie e) > 0)"
    using r by (simp_all add: routes_def)
  have ni: "i \<notin> in_exact S k" "i \<notin> in_trie S b path" "i \<notin> wildcard_ids S" for k b path
    using fresh by (auto simp: in_exact_def in_trie_def wildcard_ids_def)
  show ?thesis
  proof (cases "has_wildcard p")
    case False
    have "exact_matches (engine_insert p i e) k
        = exact_matches e k @ (if k = p_raw p then [i] else [])" for k
      using False by (simp add: engine_insert_def exact_matches_def)
    then show ?thesis
      using False S ex tr cnt ni wf fresh
      by (auto simp: routes_def engine_insert_def route_upd_simps split: if_splits)
  next
    case True
    let ?t = "trie_insert (map token_str (p_tokens p)) i (has_multi p) (wildcard_trie e)"
    have "node_at k (root ?t) path = node_at k (root (wildcard_trie e)) path
        @ (if k = has_multi p \<and> path = trie_path p then [i] else [])" for k path
      by (simp add: trie_insert_def node_at_insert [OF wf])
    then have "distinct (node_at k (root ?t) path)"
      "set (node_at k (root ?t) path) = in_trie (S(i \<mapsto> p)) k path" for k path
      using tr ni fresh True by (auto simp: in_trie_upd)
    moreover have "subscriber_count ?t = card (wildcard_ids (S(i \<mapsto> p)))"
      using cnt ni S(1) fresh True wildcard_ids_finite
      by (simp add: trie_insert_def wildcard_ids_upd)
    moreover have "exact_matches (engine_insert p i e) k = exact_matches e k" for k
      using True by (simp add: engine_insert_def exact_matches_def)
    moreover have "subscriber_count ?t > 0" by (simp add: trie_insert_def)
    ultimately show ?thesis
      using True S ex wf fresh
      by (auto simp: routes_def engine_insert_def in_exact_upd split: if_splits)
  qed
qed

lemma routes_remove:
  assumes r: "routes e S" and i: "S i = Some p"
  shows "routes (engine_remove p i e) (S(i := None))"
proof -
  have S: "finite (dom S)" "\<And>j q. S j = Some q \<Longrightarrow> pattern_wf q"
    and ex: "\<And>k. distinct (exact_matches e k)" "\<And>k. set (exact_matches e k) = in_exact S k"
    and tr: "\<And>k path. distinct (node_at k (root (wildcard_trie e)) path)"
      "\<And>k path. set (node_at k (root (wildcard_trie e)) path) = in_trie S k path"
    and cnt: "subscriber_count (wildcard_trie e) = card (wildcard_ids S)"
      "has_wildcards e = (subscriber_count (wildcard_trie e) > 0)"
    using r by (simp_all add: routes_def)
  have wf: "pattern_wf p" using S(2) i .
  show ?thesis
  proof (cases "has_wildcard p")
    case False
    have "exact_matches (engine_remove p i e) k
        = (if k = p_raw p then retain_not i (exact_matches e k) else exact_matches e k)" for k
      using False by (auto simp: engine_remove_def exact_matches_def split: option.splits)
    moreover have "i \<notin> in_trie S k path" "i \<notin> wildcard_ids S" "k' \<noteq> p_raw p \<Longrightarrow> i \<notin> in_exact S k'"
      for k path k' using False i by (auto simp: in_trie_def wildcard_ids_def in_exact_def)
    moreover have "wildcard_trie (engine_remove p i e) = wildcard_trie e"
      "has_wildcards (engine_remove p i e) = has_wildcards e"
      using False by (auto simp: engine_remove_def split: option.splits)
    ultimately show ?thesis
      using S ex tr cnt by (auto simp: routes_def route_upd_simps split: if_splits)
  next
    case True
    let ?t = "trie_remove (map token_str (p_tokens p)) i (has_multi p) (wildcard_trie e)"
    have "node_at k (root ?t) path =
        (if k = has_multi p \<and> path = trie_path p
         then retain_not i (node_at k (root (wildcard_trie e)) path)
         else node_at k (root (wildcard_trie e)) path)" for k path
      by (simp add: trie_remove_def case_prod_beta Let_def node_at_remove [OF wf])
    moreover have "k \<noteq> has_multi p \<or> path \<noteq> trie_path p \<Longrightarrow> i \<notin> in_trie S k path" for k path
      using i by (auto simp: in_trie_def)
    ultimately have "distinct (node_at k (root ?t) path)"
      "set (node_at k (root ?t) path) = in_trie (S(i := None)) k path" for k path
      using tr by (auto simp: in_trie_del)
    moreover have "i \<in> in_trie S (has_multi p) (trie_path p)" and iw: "i \<in> wildcard_ids S"
      using i True by (auto simp: in_trie_def wildcard_ids_def)
    then have c: "subscriber_count ?t = card (wildcard_ids (S(i := None)))"
      using cnt tr(2) wildcard_ids_finite [OF S(1)]
      by (simp add: trie_remove_def case_prod_beta Let_def node_at_remove(2) [OF wf] wildcard_ids_del)
    moreover have "exact_matches (engine_remove p i e) k = exact_matches e k" for k
      using True by (simp add: engine_remove_def exact_matches_def Let_def)
    moreover have "i \<notin> in_exact S k" for k using i True by (auto simp: in_exact_def)
    moreover have "has_wildcards e" using cnt iw wildcard_ids_finite [OF S(1)] by (auto simp: card_gt_0_iff)
    ultimately show ?thesis
      using True S ex
      by (auto simp: routes_def engine_remove_def Let_def in_exact_del trie_is_empty_def)
  qed
qed

interpretation engine: router engine_new engine_insert engine_remove engine_match_subject routes
  by unfold_locales
    (simp_all add: routes_new routes_insert routes_remove routes_set_match routes_distinct_match)

end
