(* ===== verification/Delivery.thy ===== *)
theory Delivery
  imports Subjects
begin

text \<open>
  Messages and the delivery interface (\<open>zetmq-core/src/message.rs\<close>, \<open>delivery.rs\<close>).

  The trait \<open>DeliveryHandle\<close> is code the broker only calls through a trait object, so it is a
  parameter: a function \<open>dv\<close> that takes a handle, a message and the state of the world behind all
  handles.  The locale \<open>delivery_handle\<close> states the contract the broker's clients rely on: a message is
  appended to the handle's log when the status is \<open>Delivered\<close>, and nothing is logged otherwise.
  A header map is represented by one enumeration of its entries with distinct keys.
\<close>

type_synonym header_map = "(str \<times> str) list"

record publish_item =
  i_subject :: subject
  i_payload :: bytes
  i_reply_to :: "subject option"
  i_headers :: "header_map option"

record message =
  m_id :: message_id
  m_subject :: subject
  m_payload :: bytes
  m_headers :: "header_map option"
  m_reply_to :: "subject option"
  m_timestamp_ns :: u64

definition message_new :: "subject \<Rightarrow> bytes \<Rightarrow> message" where
  "message_new s payload = \<lparr>m_id = 0, m_subject = s, m_payload = payload, m_headers = None,
     m_reply_to = None, m_timestamp_ns = 0\<rparr>"

definition publish_item_new :: "subject \<Rightarrow> bytes \<Rightarrow> publish_item" where
  "publish_item_new s payload =
     \<lparr>i_subject = s, i_payload = payload, i_reply_to = None, i_headers = None\<rparr>"

text \<open>The message that \<open>publish_batch\<close> and \<open>publish_with_str\<close> build.\<close>

definition item_message :: "publish_item \<Rightarrow> message" where
  "item_message it = \<lparr>m_id = 0, m_subject = i_subject it, m_payload = i_payload it,
     m_headers = i_headers it, m_reply_to = i_reply_to it, m_timestamp_ns = 0\<rparr>"

record delivery_message =
  d_subscription_id :: subscription_id
  d_connection_id :: connection_id
  d_subject :: subject
  d_payload :: bytes
  d_reply_to :: "subject option"
  d_headers :: "header_map option"

definition make_delivery :: "subscription_id \<Rightarrow> connection_id \<Rightarrow> message \<Rightarrow> delivery_message" where
  "make_delivery i c m = \<lparr>d_subscription_id = i, d_connection_id = c, d_subject = m_subject m,
     d_payload = m_payload m, d_reply_to = m_reply_to m, d_headers = m_headers m\<rparr>"

datatype delivery_status = Delivered | ChannelFull | Failed str

type_synonym ('h, 'w) deliverer = "'h \<Rightarrow> delivery_message \<Rightarrow> 'w \<Rightarrow> delivery_status \<times> 'w"

text \<open>The default method of the trait: stop at the first message that is not accepted.\<close>

fun deliver_batch :: "('h, 'w) deliverer \<Rightarrow> 'h \<Rightarrow> delivery_message list \<Rightarrow> 'w \<Rightarrow> nat \<times> 'w" where
  "deliver_batch dv h [] w = (0, w)"
| "deliver_batch dv h (m # ms) w =
     (case dv h m w of (st, w') \<Rightarrow>
        (case st of
           Delivered \<Rightarrow> (let (n, w'') = deliver_batch dv h ms w' in (n + 1, w''))
         | _ \<Rightarrow> (0, w')))"

lemma deliver_batch_le: "deliver_batch dv h ms w = (n, w') \<Longrightarrow> n \<le> length ms"
  by (induction ms arbitrary: n w)
    (auto split: prod.splits delivery_status.splits simp: Let_def)

locale delivery_handle =
  fixes dv :: "('h, 'w) deliverer"
    and log :: "'w \<Rightarrow> 'h \<Rightarrow> delivery_message list"
  assumes accepted: "dv h m w = (Delivered, w') \<Longrightarrow> log w' = (log w)(h := log w h @ [m])"
    and rejected: "dv h m w = (st, w') \<Longrightarrow> st \<noteq> Delivered \<Longrightarrow> log w' = log w"
begin

lemma deliver_log:
  "dv h m w = (st, w') \<Longrightarrow>
     log w' = (log w)(h := log w h @ (if st = Delivered then [m] else []))"
  by (cases "st = Delivered") (auto dest: accepted rejected)

lemma deliver_batch_log:
  "deliver_batch dv h ms w = (n, w') \<Longrightarrow> log w' = (log w)(h := log w h @ take n ms)"
proof (induction ms arbitrary: n w w')
  case (Cons m ms)
  obtain st w1 where d: "dv h m w = (st, w1)" by (cases "dv h m w")
  show ?case
  proof (cases "st = Delivered")
    case True
    obtain k w2 where b: "deliver_batch dv h ms w1 = (k, w2)" by (cases "deliver_batch dv h ms w1")
    with Cons.IH [OF b] Cons.prems d True show ?thesis by (auto simp: accepted [OF d [unfolded True]])
  next
    case False
    with d Cons.prems rejected [OF d False] show ?thesis
      by (auto split: delivery_status.splits)
  qed
qed simp

end

end
