(* ===== verification/Registry.thy ===== *)
theory Registry
  imports Routing Delivery
begin

text \<open>
  Subscriptions and their registry (\<open>zetmq-core/src/subscription/mod.rs\<close>, \<open>registry.rs\<close>).  The routing
  engine is shared by the registry and the broker (an \<open>Arc\<close>); the model keeps the one copy here.
  An \<open>Arc<QueueGroupKey>\<close> is its value with the identity of its allocation, because the publish
  path compares keys with \<open>Arc::ptr_eq\<close>.
\<close>

datatype arc_key = ArcKey (arc_ptr: nat) (arc_val: queue_group_key)

record 'h subscription =
  sub_id :: subscription_id
  sub_connection_id :: connection_id
  sub_pattern :: subject_pattern
  sub_queue_group :: "queue_group_name option"
  sub_queue_group_key :: "arc_key option"
  sub_delivery :: 'h

definition subscription_new ::
  "subscription_id \<Rightarrow> connection_id \<Rightarrow> subject_pattern \<Rightarrow> queue_group_name option \<Rightarrow>
   arc_key option \<Rightarrow> 'h \<Rightarrow> 'h subscription" where
  "subscription_new i c p qg key h =
     \<lparr>sub_id = i, sub_connection_id = c, sub_pattern = p, sub_queue_group = qg,
      sub_queue_group_key = key, sub_delivery = h\<rparr>"

record 'h registry =
  subscriptions :: "subscription_id \<rightharpoonup> 'h subscription"
  by_connection :: "connection_id \<rightharpoonup> subscription_id list"
  reg_router :: routing_engine

definition registry_new :: "routing_engine \<Rightarrow> 'h registry" where
  "registry_new e = \<lparr>subscriptions = Map.empty, by_connection = Map.empty, reg_router = e\<rparr>"

definition conn_ids :: "'h registry \<Rightarrow> connection_id \<Rightarrow> subscription_id list" where
  "conn_ids r c = (case by_connection r c of None \<Rightarrow> [] | Some is \<Rightarrow> is)"

definition registry_add ::
  "subscription_id \<Rightarrow> connection_id \<Rightarrow> subject_pattern \<Rightarrow> queue_group_name option \<Rightarrow>
   arc_key option \<Rightarrow> 'h \<Rightarrow> 'h registry \<Rightarrow> 'h registry" where
  "registry_add i c p qg key h r =
     (let sub = subscription_new i c p qg key h in
      r\<lparr>reg_router := engine_insert p i (reg_router r),
        subscriptions := (subscriptions r)(i \<mapsto> sub),
        by_connection := (by_connection r)(c \<mapsto> conn_ids r c @ [i])\<rparr>)"

definition registry_remove :: "subscription_id \<Rightarrow> 'h registry \<Rightarrow> 'h subscription option \<times> 'h registry" where
  "registry_remove i r =
     (case subscriptions r i of
        None \<Rightarrow> (None, r)
      | Some sub \<Rightarrow>
          (Some sub,
           r\<lparr>subscriptions := (subscriptions r)(i := None),
             reg_router := engine_remove (sub_pattern sub) i (reg_router r),
             by_connection :=
               (case by_connection r (sub_connection_id sub) of
                  None \<Rightarrow> by_connection r
                | Some is \<Rightarrow> (by_connection r)(sub_connection_id sub \<mapsto> retain_not i is))\<rparr>))"

text \<open>The loop of \<open>remove_all_for_connection\<close> over the ids taken out of \<open>by_connection\<close>.\<close>

fun remove_each :: "subscription_id list \<Rightarrow> 'h registry \<Rightarrow> 'h subscription list \<times> 'h registry" where
  "remove_each [] r = ([], r)"
| "remove_each (i # is) r =
     (case subscriptions r i of
        None \<Rightarrow> remove_each is r
      | Some sub \<Rightarrow>
          (let (removed, r') = remove_each is
             (r\<lparr>subscriptions := (subscriptions r)(i := None),
                reg_router := engine_remove (sub_pattern sub) i (reg_router r)\<rparr>)
           in (sub # removed, r')))"

definition remove_all_for_connection :: "connection_id \<Rightarrow> 'h registry \<Rightarrow> 'h subscription list \<times> 'h registry" where
  "remove_all_for_connection c r =
     remove_each (conn_ids r c) (r\<lparr>by_connection := (by_connection r)(c := None)\<rparr>)"

definition get_by_connection :: "'h registry \<Rightarrow> connection_id \<Rightarrow> subscription_id list" where
  "get_by_connection r c = conn_ids r c"

definition registry_count :: "'h registry \<Rightarrow> nat" where
  "registry_count r = card (dom (subscriptions r))"

definition count_for_connection :: "'h registry \<Rightarrow> connection_id \<Rightarrow> nat" where
  "count_for_connection r c = (case by_connection r c of None \<Rightarrow> 0 | Some is \<Rightarrow> length is)"

section \<open>Invariant\<close>

definition patterns_of :: "'h registry \<Rightarrow> subscription_id \<rightharpoonup> subject_pattern" where
  "patterns_of r = (\<lambda>i. map_option sub_pattern (subscriptions r i))"

definition subs_of_conn :: "'h registry \<Rightarrow> connection_id \<Rightarrow> subscription_id set" where
  "subs_of_conn r c = {i. \<exists>s. subscriptions r i = Some s \<and> sub_connection_id s = c}"

definition registry_inv :: "'h registry \<Rightarrow> bool" where
  "registry_inv r \<longleftrightarrow>
     routes (reg_router r) (patterns_of r) \<and>
     (\<forall>i s. subscriptions r i = Some s \<longrightarrow> sub_id s = i) \<and>
     (\<forall>c. distinct (conn_ids r c) \<and> set (conn_ids r c) = subs_of_conn r c)"

lemma patterns_of_Some: "patterns_of r i = Some p \<longleftrightarrow> (\<exists>s. subscriptions r i = Some s \<and> sub_pattern s = p)"
  by (auto simp: patterns_of_def)

lemma registry_finite: "registry_inv r \<Longrightarrow> finite (dom (subscriptions r))"
proof -
  assume "registry_inv r"
  then have "finite (dom (patterns_of r))" by (simp add: registry_inv_def routes_def)
  moreover have "dom (patterns_of r) = dom (subscriptions r)" by (auto simp: patterns_of_def)
  ultimately show ?thesis by simp
qed

lemma registry_pattern_wf: "registry_inv r \<Longrightarrow> subscriptions r i = Some s \<Longrightarrow> pattern_wf (sub_pattern s)"
  by (auto simp: registry_inv_def routes_def patterns_of_def)

lemma registry_new_inv: "registry_inv (registry_new engine_new)"
  using engine.rep_new
  by (simp add: registry_inv_def registry_new_def patterns_of_def conn_ids_def subs_of_conn_def)

lemma registry_add_inv:
  assumes inv: "registry_inv r" and fresh: "subscriptions r i = None" and wf: "pattern_wf p"
  shows "registry_inv (registry_add i c p qg key h r)"
proof -
  let ?r = "registry_add i c p qg key h r"
  have "patterns_of ?r = (patterns_of r)(i \<mapsto> p)"
    by (auto simp: registry_add_def patterns_of_def subscription_new_def Let_def)
  moreover have "routes (engine_insert p i (reg_router r)) ((patterns_of r)(i \<mapsto> p))"
    using inv fresh wf by (intro engine.rep_insert) (auto simp: registry_inv_def patterns_of_def)
  ultimately have "routes (reg_router ?r) (patterns_of ?r)"
    by (simp add: registry_add_def Let_def)
  moreover have "conn_ids ?r c' = conn_ids r c' @ (if c' = c then [i] else [])" for c'
    by (auto simp: registry_add_def conn_ids_def Let_def split: option.splits)
  moreover have "subs_of_conn ?r c' = subs_of_conn r c' \<union> (if c' = c then {i} else {})" for c'
    using fresh by (auto simp: subs_of_conn_def registry_add_def subscription_new_def Let_def)
  moreover have "i \<notin> subs_of_conn r c'" for c' using fresh by (simp add: subs_of_conn_def)
  ultimately show ?thesis
    using inv by (auto simp: registry_inv_def registry_add_def subscription_new_def Let_def)
qed

lemma registry_remove_inv:
  assumes inv: "registry_inv r"
  shows "registry_inv (snd (registry_remove i r))"
proof (cases "subscriptions r i")
  case None
  with inv show ?thesis by (simp add: registry_remove_def)
next
  case (Some s)
  let ?r = "snd (registry_remove i r)"
  have "patterns_of ?r = (patterns_of r)(i := None)"
    using Some by (auto simp: registry_remove_def patterns_of_def)
  moreover have "routes (engine_remove (sub_pattern s) i (reg_router r)) ((patterns_of r)(i := None))"
    using inv Some by (intro engine.rep_remove) (auto simp: registry_inv_def patterns_of_def)
  ultimately have "routes (reg_router ?r) (patterns_of ?r)"
    using Some by (simp add: registry_remove_def)
  moreover have "conn_ids ?r c = (if c = sub_connection_id s then retain_not i (conn_ids r c) else conn_ids r c)" for c
    using Some by (auto simp: registry_remove_def conn_ids_def split: option.splits)
  moreover have "subs_of_conn ?r c = subs_of_conn r c - {i}" for c
    using Some by (auto simp: subs_of_conn_def registry_remove_def)
  moreover have "c \<noteq> sub_connection_id s \<Longrightarrow> i \<notin> subs_of_conn r c" for c
    using Some by (simp add: subs_of_conn_def)
  ultimately show ?thesis
    using inv Some by (auto simp: registry_inv_def registry_remove_def)
qed


lemma remove_each_result:
  assumes "routes (reg_router r) (patterns_of r)" and "distinct is"
    and "remove_each is r = (removed, r')"
  shows "subscriptions r' = (\<lambda>j. if j \<in> set is then None else subscriptions r j)"
    and "by_connection r' = by_connection r"
    and "routes (reg_router r') (patterns_of r')"
    and "removed = List.map_filter (subscriptions r) is"
proof -
  have "subscriptions r' = (\<lambda>j. if j \<in> set is then None else subscriptions r j) \<and>
      by_connection r' = by_connection r \<and> routes (reg_router r') (patterns_of r') \<and>
      removed = List.map_filter (subscriptions r) is"
    using assms
  proof (induction "is" arbitrary: r removed)
    case (Cons i js)
    show ?case
    proof (cases "subscriptions r i")
      case None
      with Cons show ?thesis by (auto simp: List.map_filter_simps fun_eq_iff)
    next
      case (Some s)
      let ?r = "r\<lparr>subscriptions := (subscriptions r)(i := None),
                reg_router := engine_remove (sub_pattern s) i (reg_router r)\<rparr>"
      have pat: "patterns_of ?r = (patterns_of r)(i := None)" by (auto simp: patterns_of_def)
      have "routes (reg_router ?r) (patterns_of ?r)"
        unfolding pat using Cons.prems(1) Some by (simp add: engine.rep_remove patterns_of_Some)
      moreover obtain rem where rem: "remove_each js ?r = (rem, r')" and "removed = s # rem"
        using Cons.prems(3) Some by (auto split: prod.splits)
      moreover have mf: "List.map_filter (subscriptions ?r) js = List.map_filter (subscriptions r) js"
        using Cons.prems(2) by (auto simp: List.map_filter_def intro!: map_cong filter_cong)
      ultimately have IH: "subscriptions r' = (\<lambda>j. if j \<in> set js then None else subscriptions ?r j)"
          "by_connection r' = by_connection r" "routes (reg_router r') (patterns_of r')"
          "rem = List.map_filter (subscriptions r) js"
        using Cons.IH [of ?r rem] Cons.prems(2) unfolding mf by simp_all
      have "subscriptions r' = (\<lambda>j. if j \<in> set (i # js) then None else subscriptions r j)"
        unfolding IH(1) by auto
      then show ?thesis using IH(2-4) \<open>removed = s # rem\<close> Some by (simp add: List.map_filter_simps)
    qed
  qed (simp add: List.map_filter_simps)
  then show "subscriptions r' = (\<lambda>j. if j \<in> set is then None else subscriptions r j)"
    and "by_connection r' = by_connection r" and "routes (reg_router r') (patterns_of r')"
    and "removed = List.map_filter (subscriptions r) is" by simp_all
qed

lemma remove_all_result:
  assumes inv: "registry_inv r" and rem: "remove_all_for_connection c r = (removed, r')"
  shows "subscriptions r' = (\<lambda>j. if j \<in> subs_of_conn r c then None else subscriptions r j)"
    and "by_connection r' = (by_connection r)(c := None)"
    and "removed = List.map_filter (subscriptions r) (conn_ids r c)"
    and "registry_inv r'"
proof -
  let ?r = "r\<lparr>by_connection := (by_connection r)(c := None)\<rparr>"
  have ids: "distinct (conn_ids r c)" "set (conn_ids r c) = subs_of_conn r c"
    using inv by (simp_all add: registry_inv_def)
  have "patterns_of ?r = patterns_of r" by (simp add: patterns_of_def)
  then have rt: "routes (reg_router ?r) (patterns_of ?r)" using inv by (simp add: registry_inv_def)
  have call: "remove_each (conn_ids r c) ?r = (removed, r')"
    using rem by (simp add: remove_all_for_connection_def)
  note res = remove_each_result [OF rt ids(1) call]
  show subs: "subscriptions r' = (\<lambda>j. if j \<in> subs_of_conn r c then None else subscriptions r j)"
    and byc: "by_connection r' = (by_connection r)(c := None)"
    and "removed = List.map_filter (subscriptions r) (conn_ids r c)"
    using res ids(2) by auto
  have "conn_ids r' c' = (if c' = c then [] else conn_ids r c')" for c'
    using byc by (simp add: conn_ids_def)
  moreover have "subs_of_conn r' c' = (if c' = c then {} else subs_of_conn r c')" for c'
    unfolding subs_of_conn_def subs by (auto simp: subs_of_conn_def)
  moreover have "subscriptions r' i = Some s \<Longrightarrow> sub_id s = i" for i s
    using inv subs by (auto simp: registry_inv_def split: if_splits)
  ultimately show "registry_inv r'" using inv res(3) by (auto simp: registry_inv_def)
qed

lemma length_removed:
  "registry_inv r \<Longrightarrow>
     length (List.map_filter (subscriptions r) (conn_ids r c)) = card (subs_of_conn r c)"
proof -
  assume inv: "registry_inv r"
  then have ids: "distinct (conn_ids r c)" "set (conn_ids r c) = subs_of_conn r c"
    by (simp_all add: registry_inv_def)
  have "filter (\<lambda>i. subscriptions r i \<noteq> None) (conn_ids r c) = conn_ids r c"
    using ids(2) by (auto simp: subs_of_conn_def intro!: filter_True)
  then show ?thesis using ids by (simp add: List.map_filter_def distinct_card [symmetric])
qed

end
