(* ===== verification/Broker.thy ===== *)
theory Broker
  imports Registry "HOL-Library.Multiset"
begin

text \<open>
  The broker core (\<open>zetmq-core/src/broker/core.rs\<close>): subject cache, subscribe and unsubscribe, the three
  publish paths, queue groups, and the removal of a connection.  Deliveries go through the
  parameter \<open>dv\<close> (the trait \<open>DeliveryHandle\<close>) and thread the state \<open>'w\<close> of the world behind the
  handles, so every publish operation maps a pair of a broker and a world to such a pair.
  \<open>iter\<close> is the iteration order of the \<open>HashMap\<close> of pending batches in \<open>publish_batch\<close>.
\<close>

section \<open>State\<close>

record queue_group_state =
  members :: "subscription_id list"
  current_index :: u64

text \<open>
  \<open>next_arc\<close> numbers the allocations of interned keys, it stands for the allocator.  The router
  is the one inside the registry (the source shares it through an \<open>Arc\<close>).
\<close>

record 'h broker =
  b_registry :: "'h registry"
  b_metrics :: core_metrics
  sub_id_gen :: id_generator
  queue_groups :: "queue_group_key \<rightharpoonup> queue_group_state"
  queue_group_keys :: "queue_group_key \<rightharpoonup> arc_key"
  subject_cache :: "str \<rightharpoonup> subject"
  next_arc :: nat

abbreviation b_router :: "'h broker \<Rightarrow> routing_engine" where
  "b_router b \<equiv> reg_router (b_registry b)"

abbreviation get_ref :: "'h broker \<Rightarrow> subscription_id \<Rightarrow> 'h subscription option" where
  "get_ref b \<equiv> subscriptions (b_registry b)"

definition broker_new :: "'h broker" where
  "broker_new = \<lparr>b_registry = registry_new engine_new, b_metrics = core_metrics_new,
     sub_id_gen = id_generator_new 1, queue_groups = Map.empty, queue_group_keys = Map.empty,
     subject_cache = Map.empty, next_arc = 0\<rparr>"

section \<open>Subject cache\<close>

definition parse_subject :: "str \<Rightarrow> 'h broker \<Rightarrow> (core_error + subject) \<times> 'h broker" where
  "parse_subject input b =
     (case subject_cache b input of
        Some subj \<Rightarrow> (Inr subj, b)
      | None \<Rightarrow>
          (case subject_parse input of
             Inl e \<Rightarrow> (Inl e, b)
           | Inr subj \<Rightarrow> (Inr subj, b\<lparr>subject_cache := (subject_cache b)(input \<mapsto> subj)\<rparr>)))"

definition build_publish_item :: "str \<Rightarrow> bytes \<Rightarrow> 'h broker \<Rightarrow> (core_error + publish_item) \<times> 'h broker" where
  "build_publish_item s payload b =
     (case parse_subject s b of
        (Inl e, b') \<Rightarrow> (Inl e, b')
      | (Inr subj, b') \<Rightarrow>
          (Inr \<lparr>i_subject = subj, i_payload = payload, i_reply_to = None, i_headers = None\<rparr>, b'))"

definition has_active_subscriptions :: "'h broker \<Rightarrow> bool" where
  "has_active_subscriptions b \<longleftrightarrow> active_subscriptions (b_metrics b) > 0"

definition router_has_wildcards :: "'h broker \<Rightarrow> bool" where
  "router_has_wildcards b = has_wildcards (b_router b)"

section \<open>Subscribing\<close>

text \<open>Interning of a queue-group key: \<open>entry(key).or_insert_with(Arc::new)\<close>.\<close>

definition intern_key :: "queue_group_key \<Rightarrow> 'h broker \<Rightarrow> arc_key \<times> 'h broker" where
  "intern_key k b =
     (case queue_group_keys b k of
        Some a \<Rightarrow> (a, b)
      | None \<Rightarrow>
          (let a = ArcKey (next_arc b) k in
           (a, b\<lparr>queue_group_keys := (queue_group_keys b)(k \<mapsto> a), next_arc := next_arc b + 1\<rparr>)))"

definition join_group :: "queue_group_key \<Rightarrow> subscription_id \<Rightarrow> 'h broker \<Rightarrow> 'h broker" where
  "join_group k i b =
     (let g = (case queue_groups b k of Some g \<Rightarrow> g | None \<Rightarrow> \<lparr>members = [], current_index = 0\<rparr>) in
      b\<lparr>queue_groups := (queue_groups b)(k \<mapsto> g\<lparr>members := members g @ [i]\<rparr>)\<rparr>)"

definition subscribe ::
  "connection_id \<Rightarrow> subject_pattern \<Rightarrow> queue_group_name option \<Rightarrow> 'h \<Rightarrow> 'h broker \<Rightarrow>
   subscription_id \<times> 'h broker" where
  "subscribe c p qg h b =
     (let (i, gen) = id_generator_next (sub_id_gen b);
          b1 = b\<lparr>sub_id_gen := gen\<rparr>;
          (key, b2) = (case qg of
              None \<Rightarrow> (None, b1)
            | Some q \<Rightarrow> (let (a, b') = intern_key (p_raw p, q) b1 in (Some a, b')));
          b3 = (case key of None \<Rightarrow> b2 | Some a \<Rightarrow> join_group (arc_val a) i b2)
      in (i, b3\<lparr>b_registry := registry_add i c p qg key h (b_registry b3),
                b_metrics := inc_subscriptions (b_metrics b3)\<rparr>))"

definition leave_group :: "queue_group_key \<Rightarrow> subscription_id \<Rightarrow> 'h broker \<Rightarrow> 'h broker" where
  "leave_group k i b =
     (case queue_groups b k of
        None \<Rightarrow> b
      | Some g \<Rightarrow> b\<lparr>queue_groups := (queue_groups b)(k \<mapsto> g\<lparr>members := retain_not i (members g)\<rparr>)\<rparr>)"

text \<open>The connection id is an argument the source does not look at (\<open>_connection_id\<close>).\<close>

definition unsubscribe :: "connection_id \<Rightarrow> subscription_id \<Rightarrow> 'h broker \<Rightarrow> 'h broker" where
  "unsubscribe c i b =
     (case registry_remove i (b_registry b) of
        (None, r) \<Rightarrow> b\<lparr>b_registry := r\<rparr>
      | (Some sub, r) \<Rightarrow>
          (let b1 = b\<lparr>b_registry := r\<rparr>;
               b2 = (case sub_queue_group_key sub of None \<Rightarrow> b1 | Some a \<Rightarrow> leave_group (arc_val a) i b1)
           in b2\<lparr>b_metrics := dec_subscriptions (b_metrics b2)\<rparr>))"

section \<open>Delivery\<close>

fun handle_delivery_status :: "delivery_status \<Rightarrow> 'h broker \<Rightarrow> 'h broker" where
  "handle_delivery_status Delivered b = b\<lparr>b_metrics := inc_delivered (b_metrics b)\<rparr>"
| "handle_delivery_status ChannelFull b = b\<lparr>b_metrics := inc_dropped (b_metrics b)\<rparr>"
| "handle_delivery_status (Failed e) b = b\<lparr>b_metrics := inc_dropped (b_metrics b)\<rparr>"

definition deliver_to_subscriber ::
  "('h, 'w) deliverer \<Rightarrow> subscription_id \<Rightarrow> message \<Rightarrow> 'h broker \<times> 'w \<Rightarrow> 'h broker \<times> 'w" where
  "deliver_to_subscriber dv i m = (\<lambda>(b, w).
     case get_ref b i of
       None \<Rightarrow> (b, w)
     | Some sub \<Rightarrow>
         (let (st, w') = dv (sub_delivery sub) (make_delivery i (sub_connection_id sub) m) w
          in (handle_delivery_status st b, w')))"

text \<open>\<open>current_index.fetch_add(1) % members_len\<close>, then \<open>members.get(idx)\<close>.\<close>

definition choose_member :: "queue_group_key \<Rightarrow> 'h broker \<Rightarrow> subscription_id option \<times> 'h broker" where
  "choose_member k b =
     (case queue_groups b k of
        None \<Rightarrow> (None, b)
      | Some g \<Rightarrow>
          (let members_len = length (members g) in
           if members_len = 0 then (None, b)
           else
             (let idx' = unat (current_index g) mod members_len in
              (idx (members g) idx',
               b\<lparr>queue_groups := (queue_groups b)(k \<mapsto> g\<lparr>current_index := current_index g + 1\<rparr>)\<rparr>))))"

definition deliver_queue_group ::
  "('h, 'w) deliverer \<Rightarrow> arc_key \<Rightarrow> subscription_id list \<Rightarrow> message \<Rightarrow> 'h broker \<times> 'w \<Rightarrow> 'h broker \<times> 'w" where
  "deliver_queue_group dv key ms m = (\<lambda>(b, w).
     if ms = [] then (b, w)
     else
       (case choose_member (arc_val key) b of
          (None, b') \<Rightarrow> (b', w)
        | (Some i, b') \<Rightarrow> deliver_to_subscriber dv i m (b', w)))"

text \<open>The classification loop of \<open>deliver_matches\<close>: fan-out targets, members of the current group, its key.\<close>

record 'h match_state =
  fanout :: "(subscription_id \<times> connection_id \<times> 'h) list"
  group_members :: "subscription_id list"
  last_key :: "arc_key option"

definition classify_match ::
  "('h, 'w) deliverer \<Rightarrow> message \<Rightarrow> subscription_id \<Rightarrow>
   'h match_state \<times> 'h broker \<times> 'w \<Rightarrow> 'h match_state \<times> 'h broker \<times> 'w" where
  "classify_match dv m i = (\<lambda>(st, b, w).
     case get_ref b i of
       None \<Rightarrow> (st, b, w)
     | Some sub \<Rightarrow>
         (case sub_queue_group_key sub of
            None \<Rightarrow> (st\<lparr>fanout := fanout st @ [(i, sub_connection_id sub, sub_delivery sub)]\<rparr>, b, w)
          | Some key \<Rightarrow>
              (let same_group = (case last_key st of None \<Rightarrow> False | Some k \<Rightarrow> arc_ptr k = arc_ptr key);
                   (st', b', w') =
                     (if same_group then (st, b, w)
                      else
                        (case last_key st of
                           None \<Rightarrow> (st\<lparr>last_key := Some key\<rparr>, b, w)
                         | Some prev_key \<Rightarrow>
                             (let (b1, w1) = deliver_queue_group dv prev_key (group_members st) m (b, w)
                              in (st\<lparr>group_members := [], last_key := Some key\<rparr>, b1, w1))))
               in (st'\<lparr>group_members := group_members st' @ [i]\<rparr>, b', w'))))"

definition deliver_fanout ::
  "('h, 'w) deliverer \<Rightarrow> message \<Rightarrow> subscription_id \<times> connection_id \<times> 'h \<Rightarrow> 'h broker \<times> 'w \<Rightarrow> 'h broker \<times> 'w" where
  "deliver_fanout dv m = (\<lambda>(i, c, h) (b, w).
     let (st, w') = dv h (make_delivery i c m) w in (handle_delivery_status st b, w'))"

definition deliver_matches ::
  "('h, 'w) deliverer \<Rightarrow> message \<Rightarrow> subscription_id list \<Rightarrow> 'h broker \<times> 'w \<Rightarrow> 'h broker \<times> 'w" where
  "deliver_matches dv m ids = (\<lambda>(b, w).
     let (st, b1, w1) = fold (classify_match dv m) ids
           (\<lparr>fanout = [], group_members = [], last_key = None\<rparr>, b, w);
         (b2, w2) = (case last_key st of
             None \<Rightarrow> (b1, w1)
           | Some key \<Rightarrow> deliver_queue_group dv key (group_members st) m (b1, w1))
     in fold (deliver_fanout dv m) (fanout st) (b2, w2))"

section \<open>Publishing\<close>

definition publish :: "('h, 'w) deliverer \<Rightarrow> message \<Rightarrow> 'h broker \<times> 'w \<Rightarrow> 'h broker \<times> 'w" where
  "publish dv m = (\<lambda>(b, w).
     let b1 = b\<lparr>b_metrics := inc_published (b_metrics b)\<rparr>;
         sub_ids = engine_match_subject (b_router b1) (m_subject m)
     in deliver_matches dv m sub_ids (b1, w))"

definition publish_with_str ::
  "('h, 'w) deliverer \<Rightarrow> str \<Rightarrow> bytes \<Rightarrow> subject option \<Rightarrow> header_map option \<Rightarrow>
   'h broker \<times> 'w \<Rightarrow> 'h broker \<times> 'w" where
  "publish_with_str dv subject_str payload reply_to headers = (\<lambda>(b, w).
     let b1 = b\<lparr>b_metrics := inc_published (b_metrics b)\<rparr>;
         (exact_ms, needs_wildcard_parse) = match_subject_str (b_router b1) subject_str
     in if exact_ms = [] \<and> \<not> needs_wildcard_parse then (b1, w)
        else
          (case parse_subject subject_str b1 of
             (Inl e, b2) \<Rightarrow> (b2, w)
           | (Inr subj, b2) \<Rightarrow>
               (let sub_ids = exact_ms @
                      (if needs_wildcard_parse then match_wildcards (b_router b2) subj else []);
                    m = \<lparr>m_id = 0, m_subject = subj, m_payload = payload, m_headers = headers,
                         m_reply_to = reply_to, m_timestamp_ns = 0\<rparr>
                in deliver_matches dv m sub_ids (b2, w))))"

section \<open>Batches\<close>

text \<open>The locals of stage 1: \<open>pending\<close>, the last subject with its matches, and \<open>sub_cache\<close>.\<close>

record batch_state =
  pending :: "(subscription_id \<times> delivery_message list) list"
  last_match :: "(subject \<times> subscription_id list) option"
  sub_cache :: "(subscription_id \<times> connection_id \<times> bool) list"

text \<open>\<open>pending.entry(id).or_default().push(msg)\<close>.\<close>

fun push_pending ::
  "subscription_id \<Rightarrow> delivery_message \<Rightarrow> (subscription_id \<times> delivery_message list) list \<Rightarrow>
   (subscription_id \<times> delivery_message list) list" where
  "push_pending i d [] = [(i, [d])]"
| "push_pending i d ((j, ds) # ps) =
     (if j = i then (j, ds @ [d]) # ps else (j, ds) # push_pending i d ps)"

definition cached_info :: "'h broker \<Rightarrow> subscription_id \<Rightarrow> batch_state \<Rightarrow> (connection_id \<times> bool) option \<times> batch_state" where
  "cached_info b i st =
     (case find (\<lambda>(j, _, _). j = i) (sub_cache st) of
        Some (_, conn, qg) \<Rightarrow> (Some (conn, qg), st)
      | None \<Rightarrow>
          (case get_ref b i of
             None \<Rightarrow> (None, st)
           | Some sub \<Rightarrow>
               (let conn = sub_connection_id sub; qg = (sub_queue_group_key sub \<noteq> None)
                in (Some (conn, qg), st\<lparr>sub_cache := sub_cache st @ [(i, conn, qg)]\<rparr>))))"

definition batch_match ::
  "('h, 'w) deliverer \<Rightarrow> publish_item \<Rightarrow> subscription_id \<Rightarrow>
   batch_state \<times> 'h broker \<times> 'w \<Rightarrow> batch_state \<times> 'h broker \<times> 'w" where
  "batch_match dv it i = (\<lambda>(st, b, w).
     case cached_info b i st of
       (None, st') \<Rightarrow> (st', b, w)
     | (Some (conn, is_queue_group), st') \<Rightarrow>
         if is_queue_group then (st', deliver_matches dv (item_message it) [i] (b, w))
         else (st'\<lparr>pending := push_pending i (make_delivery i conn (item_message it)) (pending st')\<rparr>, b, w))"

definition batch_item ::
  "('h, 'w) deliverer \<Rightarrow> publish_item \<Rightarrow> batch_state \<times> 'h broker \<times> 'w \<Rightarrow> batch_state \<times> 'h broker \<times> 'w" where
  "batch_item dv it = (\<lambda>(st, b, w).
     let (sub_ids, st') =
           (case last_match st of
              Some (s, ids) \<Rightarrow>
                if s = i_subject it then (ids, st)
                else (let ids' = engine_match_subject (b_router b) (i_subject it)
                      in (ids', st\<lparr>last_match := Some (i_subject it, ids')\<rparr>))
            | None \<Rightarrow> (let ids' = engine_match_subject (b_router b) (i_subject it)
                      in (ids', st\<lparr>last_match := Some (i_subject it, ids')\<rparr>)))
     in fold (batch_match dv it) sub_ids (st', b, w))"

text \<open>Adding up what a batch delivered and dropped; \<open>total - accepted\<close> is on \<open>usize\<close>.\<close>

definition count_batch :: "nat \<Rightarrow> nat \<Rightarrow> 'h broker \<Rightarrow> 'h broker" where
  "count_batch accepted msgs_len b =
     b\<lparr>b_metrics := add_dropped (of_nat (msgs_len - accepted)) (add_delivered (of_nat accepted) (b_metrics b))\<rparr>"

definition flush_pending ::
  "('h, 'w) deliverer \<Rightarrow> subscription_id \<times> delivery_message list \<Rightarrow> 'h broker \<times> 'w \<Rightarrow> 'h broker \<times> 'w" where
  "flush_pending dv = (\<lambda>(i, msgs) (b, w).
     case get_ref b i of
       None \<Rightarrow> (b, w)
     | Some sub \<Rightarrow>
         (let (accepted, w') =
                (if length msgs = 1 then
                   (let (st, w1) = dv (sub_delivery sub) (hd msgs) w
                    in ((case st of Delivered \<Rightarrow> 1 | _ \<Rightarrow> 0), w1))
                 else deliver_batch dv (sub_delivery sub) msgs w)
          in (count_batch accepted (length msgs) b, w')))"

text \<open>The slow path of \<open>publish_batch\<close>: stage 1 and stage 2.\<close>

definition publish_batch_stages ::
  "('h, 'w) deliverer \<Rightarrow> ((subscription_id \<times> delivery_message list) list \<Rightarrow> (subscription_id \<times> delivery_message list) list) \<Rightarrow>
   publish_item list \<Rightarrow> 'h broker \<times> 'w \<Rightarrow> 'h broker \<times> 'w" where
  "publish_batch_stages dv iter items = (\<lambda>(b, w).
     let (st, b1, w1) = fold (batch_item dv) items (\<lparr>pending = [], last_match = None, sub_cache = []\<rparr>, b, w)
     in fold (flush_pending dv) (iter (pending st)) (b1, w1))"

text \<open>The conditions of the fast path, with the subscription it would use.\<close>

definition batch_single :: "publish_item list \<Rightarrow> 'h broker \<Rightarrow> (subscription_id \<times> 'h subscription) option" where
  "batch_single items b =
     (if router_has_wildcards b then None
      else
        (case exact_single_subscriber (b_router b) (i_subject (hd items)) of
           None \<Rightarrow> None
         | Some i \<Rightarrow>
             (case get_ref b i of
                None \<Rightarrow> None
              | Some sub \<Rightarrow>
                  if sub_queue_group_key sub = None \<and>
                     list_all (\<lambda>it. i_subject it = i_subject (hd items)) items
                  then Some (i, sub) else None)))"

definition publish_batch ::
  "('h, 'w) deliverer \<Rightarrow> ((subscription_id \<times> delivery_message list) list \<Rightarrow> (subscription_id \<times> delivery_message list) list) \<Rightarrow>
   publish_item list \<Rightarrow> 'h broker \<times> 'w \<Rightarrow> 'h broker \<times> 'w" where
  "publish_batch dv iter items = (\<lambda>(b, w).
     if items = [] then (b, w)
     else
       (let b1 = b\<lparr>b_metrics := inc_published_by (of_nat (length items)) (b_metrics b)\<rparr> in
        case batch_single items b1 of
          Some (i, sub) \<Rightarrow>
            (let msgs = map (\<lambda>it. make_delivery i (sub_connection_id sub) (item_message it)) items;
                 (accepted, w') = deliver_batch dv (sub_delivery sub) msgs w
             in (count_batch accepted (length items) b1, w'))
        | None \<Rightarrow> publish_batch_stages dv iter items (b1, w)))"

section \<open>Removing a connection\<close>

definition cleanup_group :: "subscription_id list \<Rightarrow> 'h subscription \<Rightarrow> 'h broker \<Rightarrow> 'h broker" where
  "cleanup_group removed_ids sub b =
     (case sub_queue_group_key sub of
        None \<Rightarrow> b
      | Some a \<Rightarrow>
          (case queue_groups b (arc_val a) of
             None \<Rightarrow> b
           | Some g \<Rightarrow>
               (let ms = filter (\<lambda>i. i \<notin> set removed_ids) (members g) in
                if ms = [] then
                  b\<lparr>queue_groups := (queue_groups b)(arc_val a := None),
                    queue_group_keys := (queue_group_keys b)(arc_val a := None)\<rparr>
                else b\<lparr>queue_groups := (queue_groups b)(arc_val a \<mapsto> g\<lparr>members := ms\<rparr>)\<rparr>)))"

definition remove_connection :: "connection_id \<Rightarrow> 'h broker \<Rightarrow> 'h broker" where
  "remove_connection c b =
     (let (removed, r) = remove_all_for_connection c (b_registry b);
          b1 = b\<lparr>b_registry := r\<rparr>;
          b2 = (if removed \<noteq> [] then fold (cleanup_group (map sub_id removed)) removed b1 else b1)
      in b2\<lparr>b_metrics := dec_active_connections ((dec_subscriptions ^^ length removed) (b_metrics b2))\<rparr>)"

definition subscription_count_for_connection :: "connection_id \<Rightarrow> 'h broker \<Rightarrow> nat" where
  "subscription_count_for_connection c b = count_for_connection (b_registry b) c"

end
