(* ===== verification/Broker_Plan.thy ===== *)
theory Broker_Plan
  imports Broker
begin

text \<open>
  What one call of \<open>deliver_matches\<close> does, as a plan that does not depend on the world: one
  round-robin pick for each run of matches that share a queue-group key, then the matches
  without a key, in order.  The classification loop of the source, which interleaves grouping and
  delivery and compares keys by address, refines this plan when keys are interned.
\<close>

section \<open>The plan\<close>

definition group_key_of :: "'h registry \<Rightarrow> subscription_id \<Rightarrow> arc_key option" where
  "group_key_of r i = (case subscriptions r i of None \<Rightarrow> None | Some s \<Rightarrow> sub_queue_group_key s)"

definition plan_groups :: "'h registry \<Rightarrow> subscription_id list \<Rightarrow> arc_key list" where
  "plan_groups r ids = remdups_adj (List.map_filter (group_key_of r) ids)"

definition plan_fanout :: "'h registry \<Rightarrow> subscription_id list \<Rightarrow> subscription_id list" where
  "plan_fanout r ids = filter (\<lambda>i. subscriptions r i \<noteq> None \<and> group_key_of r i = None) ids"

text \<open>The round-robin pick of a group: the chosen member, and the groups afterwards.\<close>

definition pick :: "queue_group_key \<Rightarrow> (queue_group_key \<rightharpoonup> queue_group_state) \<Rightarrow>
    subscription_id list \<times> (queue_group_key \<rightharpoonup> queue_group_state)" where
  "pick k gs =
     (case gs k of
        None \<Rightarrow> ([], gs)
      | Some g \<Rightarrow>
          if members g = [] then ([], gs)
          else ([members g ! (unat (current_index g) mod length (members g))],
                gs(k \<mapsto> g\<lparr>current_index := current_index g + 1\<rparr>)))"

fun pick_all :: "queue_group_key list \<Rightarrow> (queue_group_key \<rightharpoonup> queue_group_state) \<Rightarrow>
    subscription_id list \<times> (queue_group_key \<rightharpoonup> queue_group_state)" where
  "pick_all [] gs = ([], gs)"
| "pick_all (k # ks) gs =
     (let (i, gs1) = pick k gs; (js, gs2) = pick_all ks gs1 in (i @ js, gs2))"

definition targets :: "'h broker \<Rightarrow> subscription_id list \<Rightarrow>
    subscription_id list \<times> (queue_group_key \<rightharpoonup> queue_group_state)" where
  "targets b ids =
     (let (is, gs) = pick_all (map arc_val (plan_groups (b_registry b) ids)) (queue_groups b)
      in (is @ plan_fanout (b_registry b) ids, gs))"

text \<open>Keys are interned: equal addresses mean equal keys.\<close>

definition interned :: "arc_key set \<Rightarrow> bool" where
  "interned K \<longleftrightarrow> (\<forall>a \<in> K. \<forall>a' \<in> K. arc_ptr a = arc_ptr a' \<longrightarrow> a = a')"

definition registry_keys :: "'h registry \<Rightarrow> arc_key set" where
  "registry_keys r = {a. \<exists>i. group_key_of r i = Some a}"

section \<open>Deliveries leave everything but metrics alone\<close>

abbreviation deliver_each :: "('h, 'w) deliverer \<Rightarrow> message \<Rightarrow> subscription_id list \<Rightarrow> 'h broker \<times> 'w \<Rightarrow> 'h broker \<times> 'w" where
  "deliver_each dv m \<equiv> fold (\<lambda>i. deliver_to_subscriber dv i m)"

lemma handle_delivery_status_eq:
  "handle_delivery_status st b =
     b\<lparr>b_metrics := (if st = Delivered then inc_delivered else inc_dropped) (b_metrics b)\<rparr>"
  by (cases st) simp_all

lemma b_registry_deliver [simp]: "b_registry (fst (deliver_to_subscriber dv i m (b, w))) = b_registry b"
  by (simp add: deliver_to_subscriber_def handle_delivery_status_eq split: option.split prod.split)

lemma b_registry_choose [simp]: "b_registry (snd (choose_member k b)) = b_registry b"
  by (simp add: choose_member_def Let_def split: option.split)

lemma b_registry_group [simp]: "b_registry (fst (deliver_queue_group dv k ms m (b, w))) = b_registry b"
proof -
  obtain oi b' where c: "choose_member (arc_val k) b = (oi, b')" by (cases "choose_member (arc_val k) b")
  then have "b_registry b' = b_registry b" using b_registry_choose [of "arc_val k" b] by simp
  with c show ?thesis by (cases oi) (simp_all add: deliver_queue_group_def)
qed

lemma choose_member_pick:
  "choose_member k b =
     (let (is, gs) = pick k (queue_groups b)
      in (case is of [] \<Rightarrow> None | i # _ \<Rightarrow> Some i, b\<lparr>queue_groups := gs\<rparr>))"
  by (auto simp: choose_member_def pick_def idx_def Let_def split: option.split)

lemma deliver_to_subscriber_groups:
  "deliver_to_subscriber dv i m (b\<lparr>queue_groups := gs\<rparr>, w) =
     (let (b', w') = deliver_to_subscriber dv i m (b, w) in (b'\<lparr>queue_groups := gs\<rparr>, w'))"
  by (simp add: deliver_to_subscriber_def handle_delivery_status_eq split: option.split prod.split)

lemma deliver_each_groups:
  "deliver_each dv m is (b\<lparr>queue_groups := gs\<rparr>, w) =
     (let (b', w') = deliver_each dv m is (b, w) in (b'\<lparr>queue_groups := gs\<rparr>, w'))"
proof (induction "is" arbitrary: b w)
  case (Cons i js)
  obtain b1 w1 where d: "deliver_to_subscriber dv i m (b, w) = (b1, w1)" by fastforce
  show ?case by (simp add: deliver_to_subscriber_groups d Cons)
qed simp

lemma pick_length: "pick k gs = (is, gs') \<Longrightarrow> length is \<le> 1"
  by (auto simp: pick_def split: option.splits if_splits)

lemma deliver_queue_group_pick:
  assumes "ms \<noteq> []"
  shows "deliver_queue_group dv key ms m (b, w) =
     (let (is, gs) = pick (arc_val key) (queue_groups b)
      in deliver_each dv m is (b\<lparr>queue_groups := gs\<rparr>, w))"
proof -
  obtain "is" gs where p: "pick (arc_val key) (queue_groups b) = (is, gs)" by fastforce
  with pick_length [OF p] assms show ?thesis
    by (cases "is") (auto simp: deliver_queue_group_def choose_member_pick)
qed

lemma queue_groups_deliver [simp]:
  "queue_groups (fst (deliver_to_subscriber dv i m (b, w))) = queue_groups b"
  by (simp add: deliver_to_subscriber_def handle_delivery_status_eq split: option.split prod.split)

lemma deliver_each_frame:
  "queue_groups (fst (deliver_each dv m is (b, w))) = queue_groups b \<and>
   b_registry (fst (deliver_each dv m is (b, w))) = b_registry b"
proof (induction "is" arbitrary: b w)
  case (Cons i js)
  obtain b1 w1 where d: "deliver_to_subscriber dv i m (b, w) = (b1, w1)" by fastforce
  have "queue_groups b1 = queue_groups b \<and> b_registry b1 = b_registry b"
    using queue_groups_deliver [of dv i m b w] b_registry_deliver [of dv i m b w] d by simp
  with Cons [of b1 w1] d show ?case by simp
qed simp

section \<open>The loop refines the plan\<close>

text \<open>What \<open>deliver_matches\<close> does after its loop.\<close>

definition finish_matches :: "('h, 'w) deliverer \<Rightarrow> message \<Rightarrow> 'h match_state \<times> 'h broker \<times> 'w \<Rightarrow> 'h broker \<times> 'w" where
  "finish_matches dv m = (\<lambda>(st, b1, w1).
     fold (deliver_fanout dv m) (fanout st)
       (case last_key st of
          None \<Rightarrow> (b1, w1)
        | Some key \<Rightarrow> deliver_queue_group dv key (group_members st) m (b1, w1)))"

lemma deliver_matches_finish:
  "deliver_matches dv m ids (b, w) =
     finish_matches dv m (fold (classify_match dv m) ids
       (\<lparr>fanout = [], group_members = [], last_key = None\<rparr>, b, w))"
  by (simp add: deliver_matches_def finish_matches_def Let_def split: prod.split option.split)

definition group_step :: "('h, 'w) deliverer \<Rightarrow> message \<Rightarrow> arc_key \<Rightarrow> 'h broker \<times> 'w \<Rightarrow> 'h broker \<times> 'w" where
  "group_step dv m key = (\<lambda>(b, w).
     let (is, gs) = pick (arc_val key) (queue_groups b)
     in deliver_each dv m is (b\<lparr>queue_groups := gs\<rparr>, w))"

definition fan_entries :: "'h registry \<Rightarrow> subscription_id list \<Rightarrow> (subscription_id \<times> connection_id \<times> 'h) list" where
  "fan_entries r ids = map (\<lambda>i. case subscriptions r i of Some s \<Rightarrow> (i, sub_connection_id s, sub_delivery s))
     (plan_fanout r ids)"

lemma group_step_registry: "b_registry (fst (group_step dv m k (b, w))) = b_registry b"
  using deliver_each_frame [of dv m _ _ w]
  by (simp add: group_step_def split: prod.split)

text \<open>A match of another queue group: the group before it is served.\<close>

lemma classify_other_group:
  assumes sub: "subscriptions (b_registry b) i = Some sub" "sub_queue_group_key sub = Some key"
    and other: "\<And>prev. last_key st = Some prev \<Longrightarrow> arc_ptr prev \<noteq> arc_ptr key"
    and st: "last_key st \<noteq> None \<Longrightarrow> group_members st \<noteq> []" "last_key st = None \<Longrightarrow> group_members st = []"
  shows "\<exists>b' w'. classify_match dv m i (st, b, w) = (st\<lparr>group_members := [i], last_key := Some key\<rparr>, b', w') \<and>
     (b', w') = fold (group_step dv m) (case_option [] (\<lambda>k. [k]) (last_key st)) (b, w) \<and> b_registry b' = b_registry b"
proof (cases "last_key st")
  case None
  then show ?thesis using sub st(2) by (simp add: classify_match_def Let_def)
next
  case (Some prev)
  obtain b' w' where d: "deliver_queue_group dv prev (group_members st) m (b, w) = (b', w')" by fastforce
  then have "b_registry b' = b_registry b" by (metis b_registry_group fst_conv)
  moreover have "(b', w') = fold (group_step dv m) (case_option [] (\<lambda>k. [k]) (last_key st)) (b, w)"
    using d st(1) Some by (simp add: group_step_def deliver_queue_group_pick)
  moreover have "classify_match dv m i (st, b, w) = (st\<lparr>group_members := [i], last_key := Some key\<rparr>, b', w')"
    using sub other [OF Some] Some d by (simp add: classify_match_def Let_def)
  ultimately show ?thesis by blast
qed

lemma classify_loop_plan:
  assumes "interned (registry_keys (b_registry b) \<union> set_option (last_key st))"
    and "last_key st \<noteq> None \<Longrightarrow> group_members st \<noteq> []"
    and "last_key st = None \<Longrightarrow> group_members st = []"
  shows "finish_matches dv m (fold (classify_match dv m) ids (st, b, w)) =
     fold (deliver_fanout dv m) (fanout st @ fan_entries (b_registry b) ids)
       (fold (group_step dv m)
          (remdups_adj (case_option [] (\<lambda>k. [k]) (last_key st)
             @ List.map_filter (group_key_of (b_registry b)) ids)) (b, w))"
  using assms
proof (induction ids arbitrary: st b w)
  case Nil
  then show ?case
    by (auto simp: finish_matches_def fan_entries_def plan_fanout_def List.map_filter_simps
        group_step_def deliver_queue_group_pick split: option.split)
next
  case (Cons i ids)
  note defs = classify_match_def group_key_of_def fan_entries_def plan_fanout_def
  consider (gone) "subscriptions (b_registry b) i = None"
    | (fan) sub where "subscriptions (b_registry b) i = Some sub" "sub_queue_group_key sub = None"
    | (same) sub key where "subscriptions (b_registry b) i = Some sub" "sub_queue_group_key sub = Some key" "last_key st = Some key"
    | (other) sub key where "subscriptions (b_registry b) i = Some sub" "sub_queue_group_key sub = Some key" "last_key st \<noteq> Some key"
    by (cases "subscriptions (b_registry b) i") (blast | metis option.exhaust)+
  then show ?case
  proof cases
    case gone
    then have "classify_match dv m i (st, b, w) = (st, b, w)" "group_key_of (b_registry b) i = None"
      "fan_entries (b_registry b) (i # ids) = fan_entries (b_registry b) ids" by (simp_all add: defs)
    with Cons show ?thesis by (simp add: List.map_filter_simps)
  next
    case fan
    let ?st = "st\<lparr>fanout := fanout st @ [(i, sub_connection_id sub, sub_delivery sub)]\<rparr>"
    from fan have "classify_match dv m i (st, b, w) = (?st, b, w)" "group_key_of (b_registry b) i = None"
      "fan_entries (b_registry b) (i # ids) = (i, sub_connection_id sub, sub_delivery sub) # fan_entries (b_registry b) ids"
      by (simp_all add: defs)
    with Cons.IH [of b ?st w] Cons.prems show ?thesis by (simp add: List.map_filter_simps)
  next
    case same
    then have "classify_match dv m i (st, b, w) = (st\<lparr>group_members := group_members st @ [i]\<rparr>, b, w)"
      "group_key_of (b_registry b) i = Some key" "fan_entries (b_registry b) (i # ids) = fan_entries (b_registry b) ids"
      by (simp_all add: defs)
    with Cons.IH [of b "st\<lparr>group_members := group_members st @ [i]\<rparr>" w] Cons.prems same(3)
    show ?thesis by (simp add: List.map_filter_simps)
  next
    case other
    let ?st = "st\<lparr>group_members := [i], last_key := Some key\<rparr>"
    have k: "group_key_of (b_registry b) i = Some key" "fan_entries (b_registry b) (i # ids) = fan_entries (b_registry b) ids"
      using other by (simp_all add: defs)
    then have key: "key \<in> registry_keys (b_registry b)" by (auto simp: registry_keys_def)
    have "last_key st = Some prev \<Longrightarrow> arc_ptr prev \<noteq> arc_ptr key" for prev
      using Cons.prems(1) key other(3) unfolding interned_def by auto
    from classify_other_group [OF other(1,2) this Cons.prems(2,3), of dv m w] obtain b' w' where
      c: "classify_match dv m i (st, b, w) = (?st, b', w')" "b_registry b' = b_registry b"
      and step: "(b', w') = fold (group_step dv m) (case_option [] (\<lambda>k. [k]) (last_key st)) (b, w)" by blast
    have "interned (registry_keys (b_registry b') \<union> set_option (last_key ?st))"
      using Cons.prems(1) key c(2) by (auto simp: interned_def)
    with Cons.IH [of b' ?st w'] c k step other(3) show ?thesis
      by (cases "last_key st") (auto simp: List.map_filter_simps)
  qed
qed

lemma group_steps_pick_all:
  "fold (group_step dv m) ks (b, w) =
     (let (is, gs) = pick_all (map arc_val ks) (queue_groups b)
      in deliver_each dv m is (b\<lparr>queue_groups := gs\<rparr>, w))"
proof (induction ks arbitrary: b w)
  case (Cons k ks)
  obtain "is" gs where p: "pick (arc_val k) (queue_groups b) = (is, gs)" by fastforce
  obtain js gs' where ps: "pick_all (map arc_val ks) gs = (js, gs')" by fastforce
  obtain b1 w1 where d: "deliver_each dv m is (b\<lparr>queue_groups := gs\<rparr>, w) = (b1, w1)" by fastforce
  have q: "queue_groups b1 = gs" using deliver_each_frame [of dv m "is" "b\<lparr>queue_groups := gs\<rparr>" w] d by simp
  have "deliver_each dv m is (b\<lparr>queue_groups := gs\<rparr>\<lparr>queue_groups := gs'\<rparr>, w) = (b1\<lparr>queue_groups := gs'\<rparr>, w1)"
    by (subst deliver_each_groups) (simp add: d)
  moreover have "group_step dv m k (b, w) = (b1, w1)" by (simp add: group_step_def p d)
  ultimately show ?case by (simp add: p ps Cons q)
qed simp

lemma fan_entries_deliver:
  "b_registry b = r \<Longrightarrow>
   fold (deliver_fanout dv m) (fan_entries r ids) (b, w) = deliver_each dv m (plan_fanout r ids) (b, w)"
proof (induction ids arbitrary: b w)
  case (Cons i ids)
  show ?case
  proof (cases "subscriptions r i \<noteq> None \<and> group_key_of r i = None")
    case True
    then obtain sub where sub: "subscriptions r i = Some sub" by auto
    obtain b1 w1 where d: "deliver_to_subscriber dv i m (b, w) = (b1, w1)" by fastforce
    have "b_registry b1 = r" using b_registry_deliver [of dv i m b w] d Cons.prems by simp
    moreover have "deliver_fanout dv m (i, sub_connection_id sub, sub_delivery sub) (b, w) = (b1, w1)"
      using d sub Cons.prems by (simp add: deliver_to_subscriber_def deliver_fanout_def)
    ultimately show ?thesis using Cons.IH [of b1 w1] True sub d by (simp add: fan_entries_def plan_fanout_def)
  next
    case False
    then have "plan_fanout r (i # ids) = plan_fanout r ids" by (auto simp: plan_fanout_def)
    then show ?thesis using Cons by (simp add: fan_entries_def)
  qed
qed (simp add: fan_entries_def plan_fanout_def)

lemma deliver_matches_targets:
  assumes "interned (registry_keys (b_registry b))"
  shows "deliver_matches dv m ids (b, w) =
     (let (ts, gs) = targets b ids in deliver_each dv m ts (b\<lparr>queue_groups := gs\<rparr>, w))"
proof -
  obtain "is" gs where p: "pick_all (map arc_val (plan_groups (b_registry b) ids)) (queue_groups b) = (is, gs)"
    by fastforce
  obtain b1 w1 where d: "deliver_each dv m is (b\<lparr>queue_groups := gs\<rparr>, w) = (b1, w1)" by fastforce
  have reg: "b_registry b1 = b_registry b"
    using deliver_each_frame [of dv m "is" "b\<lparr>queue_groups := gs\<rparr>" w] d by simp
  have "deliver_matches dv m ids (b, w) =
      fold (deliver_fanout dv m) (fan_entries (b_registry b) ids)
        (fold (group_step dv m) (plan_groups (b_registry b) ids) (b, w))"
    unfolding deliver_matches_finish plan_groups_def using assms
    by (subst classify_loop_plan) simp_all
  also have "\<dots> = fold (deliver_fanout dv m) (fan_entries (b_registry b) ids) (b1, w1)"
    by (simp add: group_steps_pick_all p d)
  also have "\<dots> = deliver_each dv m (plan_fanout (b_registry b) ids) (b1, w1)"
    by (rule fan_entries_deliver [OF reg])
  finally show ?thesis by (simp add: targets_def p d)
qed

end
