(* ===== verification/Broker_Inv.thy ===== *)
theory Broker_Inv
  imports Broker_Plan
begin

text \<open>
  The invariant of the broker core and its preservation by every operation: fresh subscription
  ids, interned queue-group keys, the members of a queue group are exactly the live subscriptions
  with that pattern text and group name, the subject cache holds only parse results, and the
  gauge of active subscriptions counts the registry.
\<close>

text \<open>Keys of queue groups are pairs; quantifiers over them are kept whole.\<close>

declare split_paired_All [simp del] split_paired_Ex [simp del]

section \<open>Invariant\<close>

definition key_of_sub :: "'h subscription \<Rightarrow> queue_group_key option" where
  "key_of_sub s = map_option (\<lambda>q. (p_raw (sub_pattern s), q)) (sub_queue_group s)"

definition group_subs :: "'h broker \<Rightarrow> queue_group_key \<Rightarrow> subscription_id set" where
  "group_subs b k = {i. \<exists>s. get_ref b i = Some s \<and> key_of_sub s = Some k}"

definition ids_ok :: "'h broker \<Rightarrow> bool" where
  "ids_ok b \<longleftrightarrow> (\<forall>i s. get_ref b i = Some s \<longrightarrow> i < counter (sub_id_gen b))"

text \<open>The interned key of a subscription is the one stored for its pattern text and group.\<close>

definition sub_key_ok :: "(queue_group_key \<rightharpoonup> arc_key) \<Rightarrow> 'h subscription \<Rightarrow> bool" where
  "sub_key_ok keys s \<longleftrightarrow>
     (case key_of_sub s of
        None \<Rightarrow> sub_queue_group_key s = None
      | Some k \<Rightarrow> sub_queue_group_key s \<noteq> None \<and> sub_queue_group_key s = keys k)"

definition keys_ok :: "'h broker \<Rightarrow> bool" where
  "keys_ok b \<longleftrightarrow>
     (\<forall>k a. queue_group_keys b k = Some a \<longrightarrow> arc_val a = k \<and> arc_ptr a < next_arc b) \<and>
     interned (ran (queue_group_keys b)) \<and>
     (\<forall>i s. get_ref b i = Some s \<longrightarrow> sub_key_ok (queue_group_keys b) s)"

definition members_ok :: "'h broker \<Rightarrow> bool" where
  "members_ok b \<longleftrightarrow>
     dom (queue_groups b) = dom (queue_group_keys b) \<and>
     (\<forall>k g. queue_groups b k = Some g \<longrightarrow> distinct (members g) \<and> set (members g) = group_subs b k)"

definition cache_ok :: "'h broker \<Rightarrow> bool" where
  "cache_ok b \<longleftrightarrow> (\<forall>t s. subject_cache b t = Some s \<longrightarrow> subject_parse t = Inr s)"

definition count_ok :: "'h broker \<Rightarrow> bool" where
  "count_ok b \<longleftrightarrow> active_subscriptions (b_metrics b) = of_nat (card (dom (get_ref b)))"

definition broker_inv :: "'h broker \<Rightarrow> bool" where
  "broker_inv b \<longleftrightarrow> registry_inv (b_registry b) \<and> ids_ok b \<and> keys_ok b \<and> members_ok b \<and>
     cache_ok b \<and> count_ok b"

lemmas broker_inv_defs = broker_inv_def ids_ok_def keys_ok_def members_ok_def cache_ok_def count_ok_def

lemma broker_new_inv: "broker_inv broker_new"
proof -
  have "broker_inv (broker_new :: 'h broker)"
    using registry_new_inv [where 'a = 'h]
    by (simp add: broker_inv_defs broker_new_def interned_def)
      (simp add: registry_new_def core_metrics_new_def)
  then show ?thesis .
qed

lemma broker_inv_interned: "broker_inv b \<Longrightarrow> interned (registry_keys (b_registry b))"
proof -
  assume inv: "broker_inv b"
  have "registry_keys (b_registry b) \<subseteq> ran (queue_group_keys b)"
  proof
    fix a assume "a \<in> registry_keys (b_registry b)"
    then obtain i s where s: "get_ref b i = Some s" "sub_queue_group_key s = Some a"
      by (auto simp: registry_keys_def group_key_of_def split: option.splits)
    then have "sub_key_ok (queue_group_keys b) s"
      using inv by (simp add: broker_inv_def keys_ok_def)
    with s show "a \<in> ran (queue_group_keys b)" by (auto simp: sub_key_ok_def ran_def split: option.splits dest: sym)
  qed
  moreover have "interned (ran (queue_group_keys b))" using inv by (simp add: broker_inv_def keys_ok_def)
  ultimately show ?thesis unfolding interned_def by blast
qed

lemma group_key_of_sub:
  assumes "broker_inv b" and "get_ref b i = Some s"
  shows "map_option arc_val (group_key_of (b_registry b) i) = key_of_sub s"
proof -
  have k: "sub_key_ok (queue_group_keys b) s"
    and v: "queue_group_keys b k = Some a \<Longrightarrow> arc_val a = k" for k a
    using assms by (simp_all add: broker_inv_def keys_ok_def)
  show ?thesis
  proof (cases "key_of_sub s")
    case (Some q)
    with k obtain a where "sub_queue_group_key s = Some a" "queue_group_keys b q = Some a"
      by (auto simp: sub_key_ok_def dest: sym)
    with v [of q a] Some assms(2) show ?thesis by (simp add: group_key_of_def)
  qed (use k assms(2) in \<open>simp add: group_key_of_def sub_key_ok_def\<close>)
qed

section \<open>Frames\<close>

text \<open>What the publish paths leave unchanged: everything but round-robin indices, counters and cache.\<close>

definition broker_frame :: "'h broker \<Rightarrow> 'h broker \<Rightarrow> bool" where
  "broker_frame b b' \<longleftrightarrow>
     b_registry b' = b_registry b \<and> sub_id_gen b' = sub_id_gen b \<and>
     queue_group_keys b' = queue_group_keys b \<and> next_arc b' = next_arc b \<and>
     (\<forall>k. map_option members (queue_groups b' k) = map_option members (queue_groups b k)) \<and>
     active_subscriptions (b_metrics b') = active_subscriptions (b_metrics b) \<and>
     active_connections (b_metrics b') = active_connections (b_metrics b)"

lemma broker_frame_refl [simp]: "broker_frame b b"
  by (simp add: broker_frame_def)

lemma broker_frame_trans [trans]: "broker_frame a b \<Longrightarrow> broker_frame b c \<Longrightarrow> broker_frame a c"
  by (simp add: broker_frame_def)

lemma broker_frame_inv:
  assumes f: "broker_frame b b'" and inv: "broker_inv b" and c: "cache_ok b'"
  shows "broker_inv b'"
proof -
  have gs: "map_option members (queue_groups b' k) = map_option members (queue_groups b k)" for k
    using f by (simp add: broker_frame_def)
  have grp: "group_subs b' = group_subs b" using f by (simp add: broker_frame_def group_subs_def fun_eq_iff)
  have "queue_groups b' k = None \<longleftrightarrow> queue_groups b k = None" for k
    using gs [of k] by (metis option.map_disc_iff)
  then have "dom (queue_groups b') = dom (queue_groups b)" by (simp add: dom_def)
  moreover have "distinct (members g) \<and> set (members g) = group_subs b k" if "queue_groups b' k = Some g" for k g
  proof -
    from gs [of k] that obtain g' where "queue_groups b k = Some g'" "members g' = members g"
      by (cases "queue_groups b k") auto
    with inv show ?thesis by (force simp: broker_inv_def members_ok_def)
  qed
  ultimately have "members_ok b'" using inv f grp by (simp add: members_ok_def broker_inv_def broker_frame_def)
  moreover have "b_registry b' = b_registry b" "sub_id_gen b' = sub_id_gen b"
    "queue_group_keys b' = queue_group_keys b" "next_arc b' = next_arc b"
    "active_subscriptions (b_metrics b') = active_subscriptions (b_metrics b)"
    using f by (simp_all add: broker_frame_def)
  then have "ids_ok b' = ids_ok b" "keys_ok b' = keys_ok b" "count_ok b' = count_ok b"
    "registry_inv (b_registry b') = registry_inv (b_registry b)"
    by (simp_all only: ids_ok_def keys_ok_def count_ok_def)
  ultimately show ?thesis using inv c by (simp add: broker_inv_def)
qed

lemma broker_frame_cache_inv:
  "broker_frame b b' \<Longrightarrow> subject_cache b' = subject_cache b \<Longrightarrow> broker_inv b \<Longrightarrow> broker_inv b'"
  by (rule broker_frame_inv) (simp_all add: broker_inv_def cache_ok_def)

lemma frame_deliver: "broker_frame b (fst (deliver_to_subscriber dv i m (b, w)))"
  by (simp add: broker_frame_def deliver_to_subscriber_def handle_delivery_status_eq metrics_defs
      split: option.split prod.split)

lemma cache_deliver [simp]: "subject_cache (fst (deliver_to_subscriber dv i m (b, w))) = subject_cache b"
  by (simp add: deliver_to_subscriber_def handle_delivery_status_eq split: option.split prod.split)

lemma frame_deliver_each:
  "broker_frame b (fst (deliver_each dv m is (b, w))) \<and>
   subject_cache (fst (deliver_each dv m is (b, w))) = subject_cache b"
proof (induction "is" arbitrary: b w)
  case (Cons i js)
  obtain b1 w1 where d: "deliver_to_subscriber dv i m (b, w) = (b1, w1)" by fastforce
  have "broker_frame b b1" "subject_cache b1 = subject_cache b"
    using frame_deliver [of b dv i m w] cache_deliver [of dv i m b w] d by simp_all
  with Cons [of b1 w1] d show ?case by (auto intro: broker_frame_trans)
qed simp

lemma pick_members: "pick k gs = (is, gs') \<Longrightarrow> map_option members (gs' j) = map_option members (gs j)"
  by (auto simp: pick_def split: option.splits if_splits)

lemma pick_all_members: "pick_all ks gs = (is, gs') \<Longrightarrow> map_option members (gs' j) = map_option members (gs j)"
proof (induction ks arbitrary: gs "is")
  case (Cons k ks)
  obtain i1 gs1 where p: "pick k gs = (i1, gs1)" by fastforce
  with Cons pick_members [OF p] show ?case by (auto split: prod.splits)
qed simp

lemma targets_members: "targets b ids = (ts, gs) \<Longrightarrow> map_option members (gs j) = map_option members (queue_groups b j)"
  by (auto simp: targets_def split: prod.splits dest: pick_all_members)

lemma frame_deliver_matches:
  assumes "broker_inv b"
  shows "broker_frame b (fst (deliver_matches dv m ids (b, w))) \<and>
     subject_cache (fst (deliver_matches dv m ids (b, w))) = subject_cache b"
proof -
  obtain ts gs where t: "targets b ids = (ts, gs)" by fastforce
  have "broker_frame b (b\<lparr>queue_groups := gs\<rparr>)"
    using targets_members [OF t] by (simp add: broker_frame_def)
  with frame_deliver_each [of "b\<lparr>queue_groups := gs\<rparr>" dv m ts w]
  show ?thesis
    by (simp add: deliver_matches_targets [OF broker_inv_interned [OF assms]] t)
      (blast intro: broker_frame_trans)
qed

lemma deliver_matches_inv:
  assumes "broker_inv b" shows "broker_inv (fst (deliver_matches dv m ids (b, w)))"
  using frame_deliver_matches [OF assms, of dv m ids w] assms by (blast intro: broker_frame_cache_inv)

lemma published_frame:
  "broker_frame b (b\<lparr>b_metrics := inc_published (b_metrics b)\<rparr>)"
  "broker_frame b (b\<lparr>b_metrics := inc_published_by n (b_metrics b)\<rparr>)"
  "broker_frame b (count_batch x y b)"
  by (simp_all add: broker_frame_def metrics_defs count_batch_def)

lemma published_inv:
  assumes "broker_inv b"
  shows "broker_inv (b\<lparr>b_metrics := inc_published (b_metrics b)\<rparr>)"
    and "broker_inv (b\<lparr>b_metrics := inc_published_by n (b_metrics b)\<rparr>)"
    and "broker_inv (count_batch x y b)"
  using published_frame [THEN broker_frame_cache_inv, OF _ assms] by (simp_all add: count_batch_def)

lemma parse_subject_spec:
  assumes "cache_ok b"
  shows "fst (parse_subject t b) = subject_parse t" and "cache_ok (snd (parse_subject t b))"
    and "broker_frame b (snd (parse_subject t b))"
  using assms by (auto simp: parse_subject_def cache_ok_def broker_frame_def split: option.splits sum.splits)

lemma parse_subject_inv: "broker_inv b \<Longrightarrow> broker_inv (snd (parse_subject t b))"
  using parse_subject_spec [of b t] broker_frame_inv [of b "snd (parse_subject t b)"]
  unfolding broker_inv_def by blast

section \<open>Publishing keeps the invariant\<close>

lemma publish_inv: "broker_inv b \<Longrightarrow> broker_inv (fst (publish dv m (b, w)))"
  by (simp add: publish_def Let_def deliver_matches_inv published_inv)

lemma publish_with_str_inv:
  assumes inv: "broker_inv b"
  shows "broker_inv (fst (publish_with_str dv t payload reply hs (b, w)))"
proof -
  let ?b = "b\<lparr>b_metrics := inc_published (b_metrics b)\<rparr>"
  have b1: "broker_inv ?b" by (rule published_inv [OF inv])
  obtain res b2 where p: "parse_subject t ?b = (res, b2)" by fastforce
  have "broker_inv b2" using parse_subject_inv [OF b1, of t] p by simp
  with b1 p show ?thesis
    by (auto simp: publish_with_str_def Let_def deliver_matches_inv split: sum.split prod.split)
qed

lemma batch_match_inv:
  "broker_inv b \<Longrightarrow> batch_match dv it i (st, b, w) = (st', b', w') \<Longrightarrow> broker_inv b' \<and> broker_frame b b'"
  using deliver_matches_inv [of b dv "item_message it" "[i]" w]
    frame_deliver_matches [of b dv "item_message it" "[i]" w]
  by (auto simp: batch_match_def split: prod.splits option.splits if_splits)

lemma batch_matches_inv:
  "broker_inv b \<Longrightarrow> fold (batch_match dv it) is (st, b, w) = (st', b', w') \<Longrightarrow>
     broker_inv b' \<and> broker_frame b b'"
proof (induction "is" arbitrary: st b w)
  case (Cons i js)
  obtain st1 b1 w1 where d: "batch_match dv it i (st, b, w) = (st1, b1, w1)"
    by (cases "batch_match dv it i (st, b, w)")
  with Cons.IH [of b1 st1 w1] Cons.prems batch_match_inv [OF Cons.prems(1) d] show ?case
    by (auto intro: broker_frame_trans)
qed simp

text \<open>The matches an item is processed with: those remembered for the last subject, or fresh ones.\<close>

definition item_ids :: "'h broker \<Rightarrow> publish_item \<Rightarrow> batch_state \<Rightarrow> subscription_id list" where
  "item_ids b it st =
     (case last_match st of
        Some (s, ids) \<Rightarrow> if s = i_subject it then ids else engine_match_subject (b_router b) (i_subject it)
      | None \<Rightarrow> engine_match_subject (b_router b) (i_subject it))"

lemma batch_item_fold:
  "batch_item dv it (st, b, w) =
     fold (batch_match dv it) (item_ids b it st)
       (st\<lparr>last_match := Some (i_subject it, item_ids b it st)\<rparr>, b, w)"
  by (cases st) (auto simp: batch_item_def item_ids_def Let_def split: option.split)

lemma batch_items_inv:
  "broker_inv b \<Longrightarrow> fold (batch_item dv) its (st, b, w) = (st', b', w') \<Longrightarrow>
     broker_inv b' \<and> broker_frame b b'"
proof (induction its arbitrary: st b w)
  case (Cons it its)
  obtain st1 b1 w1 where d: "batch_item dv it (st, b, w) = (st1, b1, w1)"
    by (cases "batch_item dv it (st, b, w)")
  then have "broker_inv b1 \<and> broker_frame b b1"
    unfolding batch_item_fold by (rule batch_matches_inv [OF Cons.prems(1)])
  with Cons.IH [of b1 st1 w1] Cons.prems d show ?case by (auto intro: broker_frame_trans)
qed simp

lemma flush_pending_frame:
  "flush_pending dv e (b, w) = (b', w') \<Longrightarrow> broker_frame b b' \<and> subject_cache b' = subject_cache b"
  using published_frame(3)
  by (cases e) (auto simp: flush_pending_def count_batch_def Let_def broker_frame_def metrics_defs
      split: option.splits prod.splits)

lemma flush_all_frame:
  "fold (flush_pending dv) es (b, w) = (b', w') \<Longrightarrow> broker_frame b b' \<and> subject_cache b' = subject_cache b"
proof (induction es arbitrary: b w)
  case (Cons e es)
  obtain b1 w1 where d: "flush_pending dv e (b, w) = (b1, w1)" by fastforce
  with Cons.IH [of b1 w1] Cons.prems flush_pending_frame [OF d] show ?case
    by (auto intro: broker_frame_trans)
qed simp

lemma publish_batch_stages_inv:
  assumes inv: "broker_inv b"
  shows "broker_inv (fst (publish_batch_stages dv iter items (b, w)))"
proof -
  obtain st b1 w1 where s1: "fold (batch_item dv) items (\<lparr>pending = [], last_match = None, sub_cache = []\<rparr>, b, w)
      = (st, b1, w1)" by (cases "fold (batch_item dv) items (\<lparr>pending = [], last_match = None, sub_cache = []\<rparr>, b, w)")
  obtain b2 w2 where s2: "fold (flush_pending dv) (iter (pending st)) (b1, w1) = (b2, w2)" by fastforce
  have b1: "broker_inv b1" using batch_items_inv [OF inv s1] by simp
  have "broker_inv b2"
    using flush_all_frame [OF s2] b1 by (blast intro: broker_frame_cache_inv)
  with s1 s2 show ?thesis by (simp add: publish_batch_stages_def)
qed

lemma publish_batch_inv:
  assumes "broker_inv b" shows "broker_inv (fst (publish_batch dv iter items (b, w)))"
  using assms
  by (auto simp: publish_batch_def Let_def published_inv publish_batch_stages_inv
      split: option.split prod.split)

section \<open>Subscribing keeps the invariant\<close>

lemma intern_key_spec:
  assumes "keys_ok b" and "intern_key k b = (a, b')"
  obtains n where "b' = b\<lparr>queue_group_keys := (queue_group_keys b)(k \<mapsto> a), next_arc := n\<rparr>"
    and "next_arc b \<le> n" and "arc_val a = k" and "arc_ptr a < n"
    and "interned (ran ((queue_group_keys b)(k \<mapsto> a)))"
    and "queue_group_keys b k = None \<or> queue_group_keys b k = Some a"
proof (cases "queue_group_keys b k")
  case (Some a')
  then have "b' = b" and "a' = a" using assms(2) by (simp_all add: intern_key_def)
  moreover from this have "(queue_group_keys b)(k \<mapsto> a) = queue_group_keys b" using Some by auto
  ultimately show thesis using that [of "next_arc b"] assms(1) Some by (simp add: keys_ok_def)
next
  case None
  then have a: "a = ArcKey (next_arc b) k"
    and b': "b' = b\<lparr>queue_group_keys := (queue_group_keys b)(k \<mapsto> a), next_arc := next_arc b + 1\<rparr>"
    using assms(2) by (auto simp: intern_key_def Let_def)
  have "arc_ptr c < next_arc b" if "c \<in> ran (queue_group_keys b)" for c
    using assms(1) that by (auto simp: keys_ok_def ran_def)
  then have "interned (ran ((queue_group_keys b)(k \<mapsto> a)))"
    using assms(1) None unfolding keys_ok_def interned_def ran_map_upd [of "queue_group_keys b", OF None]
    by (metis a arc_key.sel(1) insert_iff less_irrefl)
  with a b' None show thesis by (intro that [of "next_arc b + 1"]) simp_all
qed

lemma keys_ok_sub_key: "keys_ok b \<Longrightarrow> get_ref b i = Some s \<Longrightarrow> sub_key_ok (queue_group_keys b) s"
  by (simp add: keys_ok_def)

lemma keys_ok_sub:
  assumes "keys_ok b" and "get_ref b i = Some s" and "key_of_sub s = Some k"
  shows "\<exists>a. sub_queue_group_key s = Some a \<and> queue_group_keys b k = Some a"
  using keys_ok_sub_key [OF assms(1,2)] assms(3)
  by (cases "queue_group_keys b k") (auto simp: sub_key_ok_def)

lemma keys_ok_no_key:
  "keys_ok b \<Longrightarrow> get_ref b i = Some s \<Longrightarrow> key_of_sub s = None \<Longrightarrow> sub_queue_group_key s = None"
  using keys_ok_sub_key [of b i s] by (simp add: sub_key_ok_def)

lemma registry_add_subscriptions:
  "subscriptions (registry_add i c p qg key h r) = (subscriptions r)(i \<mapsto> subscription_new i c p qg key h)"
  by (simp add: registry_add_def Let_def)

lemma fresh_id: "broker_inv b \<Longrightarrow> get_ref b (counter (sub_id_gen b)) = None"
  by (cases "get_ref b (counter (sub_id_gen b))") (auto simp: broker_inv_def ids_ok_def)

lemma less_counter_next:
  fixes i c :: u64
  assumes "unat c + 1 < 2 ^ 64"
  shows "i < c \<Longrightarrow> i < c + 1" and "c < c + 1"
proof -
  have "unat (c + 1) = unat c + 1" using assms unat_add_lem [of c 1] by simp
  then show "i < c \<Longrightarrow> i < c + 1" and "c < c + 1" by (simp_all add: word_less_nat_alt)
qed

text \<open>The state after a subscription, with the key entry and the group it joined.\<close>

lemma subscribe_shape:
  assumes inv: "broker_inv b" and s: "subscribe c p qg h b = (i, b')"
  obtains key where "i = counter (sub_id_gen b)"
    and "b_registry b' = registry_add i c p qg key h (b_registry b)"
    and "counter (sub_id_gen b') = counter (sub_id_gen b) + 1"
    and "b_metrics b' = inc_subscriptions (b_metrics b)"
    and "subject_cache b' = subject_cache b"
    and "next_arc b \<le> next_arc b'"
    and "case qg of
        None \<Rightarrow> key = None \<and> queue_group_keys b' = queue_group_keys b \<and> queue_groups b' = queue_groups b
      | Some q \<Rightarrow> (\<exists>a g. key = Some a \<and> arc_val a = (p_raw p, q) \<and> arc_ptr a < next_arc b' \<and>
          queue_group_keys b' = (queue_group_keys b)((p_raw p, q) \<mapsto> a) \<and>
          interned (ran (queue_group_keys b')) \<and>
          queue_group_keys b (p_raw p, q) \<in> {None, Some a} \<and>
          queue_groups b' = (queue_groups b)((p_raw p, q) \<mapsto> g\<lparr>members := members g @ [i]\<rparr>) \<and>
          (case queue_groups b (p_raw p, q) of None \<Rightarrow> members g = [] | Some g' \<Rightarrow> g = g'))"
proof (cases qg)
  case None
  then show thesis using s that [of None] by (auto simp: subscribe_def id_generator_next_def Let_def)
next
  case (Some q)
  let ?b = "b\<lparr>sub_id_gen := (sub_id_gen b)\<lparr>counter := counter (sub_id_gen b) + 1\<rparr>\<rparr>"
  obtain a b1 where k: "intern_key (p_raw p, q) ?b = (a, b1)" by fastforce
  have "keys_ok ?b" using inv by (simp add: broker_inv_def keys_ok_def)
  from intern_key_spec [OF this k] obtain n where
    b1: "b1 = ?b\<lparr>queue_group_keys := (queue_group_keys b)((p_raw p, q) \<mapsto> a), next_arc := n\<rparr>"
    and n: "next_arc b \<le> n" "arc_val a = (p_raw p, q)" "arc_ptr a < n"
      "interned (ran ((queue_group_keys b)((p_raw p, q) \<mapsto> a)))"
      "queue_group_keys b (p_raw p, q) = None \<or> queue_group_keys b (p_raw p, q) = Some a"
    by auto
  let ?g = "case queue_groups b (p_raw p, q) of Some g \<Rightarrow> g | None \<Rightarrow> \<lparr>members = [], current_index = 0\<rparr>"
  have eqs: "i = counter (sub_id_gen b)" "b_registry b' = registry_add i c p qg (Some a) h (b_registry b)"
      "counter (sub_id_gen b') = counter (sub_id_gen b) + 1"
      "b_metrics b' = inc_subscriptions (b_metrics b)" "subject_cache b' = subject_cache b"
      "next_arc b' = n" "queue_group_keys b' = (queue_group_keys b)((p_raw p, q) \<mapsto> a)"
      "queue_groups b' = (queue_groups b)((p_raw p, q) \<mapsto> ?g\<lparr>members := members ?g @ [i]\<rparr>)"
    using s Some k n(2) by (auto simp: b1 subscribe_def id_generator_next_def join_group_def Let_def)
  have "case queue_groups b (p_raw p, q) of None \<Rightarrow> members ?g = [] | Some g' \<Rightarrow> ?g = g'"
    by (simp split: option.split)
  with eqs n Some show thesis by (intro that [of "Some a"]) (auto intro!: exI [of _ ?g])
qed

lemma group_subs_add:
  assumes "get_ref b i = None" and "b_registry b' = registry_add i c p qg key h (b_registry b)"
  shows "group_subs b' k = group_subs b k \<union> (if map_option (Pair (p_raw p)) qg = Some k then {i} else {})"
  using assms by (auto simp: group_subs_def registry_add_subscriptions key_of_sub_def subscription_new_def)

lemma join_keys_ok:
  assumes keys: "keys_ok b" and arc: "next_arc b \<le> next_arc b'" and a: "arc_val a = (p_raw p, q)" "arc_ptr a < next_arc b'"
    and subs: "get_ref b' = (get_ref b)(i \<mapsto> subscription_new i c p (Some q) (Some a) h)"
    and qk: "queue_group_keys b' = (queue_group_keys b)((p_raw p, q) \<mapsto> a)" "interned (ran (queue_group_keys b'))"
      "queue_group_keys b (p_raw p, q) \<in> {None, Some a}"
  shows "keys_ok b'"
  unfolding keys_ok_def
proof (intro conjI allI impI)
  fix k x assume "queue_group_keys b' k = Some x"
  with a keys arc show "arc_val x = k" "arc_ptr x < next_arc b'"
    unfolding keys_ok_def by (auto simp: qk(1) split: if_splits dest: order.strict_trans2)
next
  fix j t assume t: "get_ref b' j = Some t"
  show "sub_key_ok (queue_group_keys b') t"
  proof (cases "j = i")
    case True
    with t have "t = subscription_new i c p (Some q) (Some a) h" by (simp add: subs)
    then show ?thesis by (simp add: sub_key_ok_def key_of_sub_def subscription_new_def qk(1))
  next
    case False
    with t have t': "get_ref b j = Some t" by (simp add: subs)
    with keys_ok_sub [OF keys t'] keys_ok_no_key [OF keys t'] qk(3)
    show ?thesis by (auto simp: sub_key_ok_def qk(1) split: option.split)
  qed
qed (rule qk(2))

text \<open>The new member is appended to the members of its group, which are the subscriptions it had.\<close>

lemma join_members_ok:
  assumes keys: "keys_ok b" and mem: "members_ok b" and fresh: "get_ref b i = None"
    and dom: "dom (queue_group_keys b') = insert k (dom (queue_group_keys b))"
    and gsub: "\<And>j. group_subs b' j = group_subs b j \<union> (if j = k then {i} else {})"
    and qg: "queue_groups b' = (queue_groups b)(k \<mapsto> g\<lparr>members := members g @ [i]\<rparr>)"
      "case queue_groups b k of None \<Rightarrow> members g = [] | Some g' \<Rightarrow> g = g'"
  shows "members_ok b'"
  unfolding members_ok_def
proof (intro conjI allI impI)
  have M: "dom (queue_groups b) = dom (queue_group_keys b)"
    "\<And>k x. queue_groups b k = Some x \<Longrightarrow> distinct (members x) \<and> set (members x) = group_subs b k"
    using mem by (simp_all add: members_ok_def)
  show "dom (queue_groups b') = dom (queue_group_keys b')" using M(1) by (simp add: qg dom)
  have new: "distinct (members g) \<and> set (members g) = group_subs b k"
  proof (cases "queue_groups b k")
    case None
    then have "queue_group_keys b k = None" using M(1) by (auto simp: domIff)
    then have "group_subs b k = {}" using keys_ok_sub [OF keys] by (fastforce simp: group_subs_def)
    with None qg(2) show ?thesis by simp
  next
    case (Some x)
    with M(2) [OF Some] qg(2) show ?thesis by simp
  qed
  have "i \<notin> group_subs b k" using fresh by (simp add: group_subs_def)
  with new M(2) show "distinct (members x)" "set (members x) = group_subs b' j"
    if "queue_groups b' j = Some x" for j x
    using that unfolding gsub by (auto simp: qg split: if_splits)
qed

lemma subscribe_inv:
  assumes inv: "broker_inv b" and wf: "pattern_wf p" and room: "unat (counter (sub_id_gen b)) + 1 < 2 ^ 64"
    and s: "subscribe c p qg h b = (i, b')"
  shows "broker_inv b'"
proof -
  from subscribe_shape [OF inv s] obtain key where
    i: "i = counter (sub_id_gen b)" and reg: "b_registry b' = registry_add i c p qg key h (b_registry b)"
    and cnt: "counter (sub_id_gen b') = counter (sub_id_gen b) + 1"
    and met: "b_metrics b' = inc_subscriptions (b_metrics b)"
    and cache: "subject_cache b' = subject_cache b" and arc: "next_arc b \<le> next_arc b'"
    and grp: "case qg of
        None \<Rightarrow> key = None \<and> queue_group_keys b' = queue_group_keys b \<and> queue_groups b' = queue_groups b
      | Some q \<Rightarrow> (\<exists>a g. key = Some a \<and> arc_val a = (p_raw p, q) \<and> arc_ptr a < next_arc b' \<and>
          queue_group_keys b' = (queue_group_keys b)((p_raw p, q) \<mapsto> a) \<and>
          interned (ran (queue_group_keys b')) \<and>
          queue_group_keys b (p_raw p, q) \<in> {None, Some a} \<and>
          queue_groups b' = (queue_groups b)((p_raw p, q) \<mapsto> g\<lparr>members := members g @ [i]\<rparr>) \<and>
          (case queue_groups b (p_raw p, q) of None \<Rightarrow> members g = [] | Some g' \<Rightarrow> g = g'))" .
  have fresh: "get_ref b i = None" using fresh_id [OF inv] i by simp
  note subs = registry_add_subscriptions [of i c p qg key h "b_registry b", folded reg]
  note gsub = group_subs_add [OF fresh reg]
  have I: "registry_inv (b_registry b)" "ids_ok b" "keys_ok b" "members_ok b" "cache_ok b" "count_ok b"
    using inv by (simp_all add: broker_inv_def)
  have "registry_inv (b_registry b')" unfolding reg by (rule registry_add_inv [OF I(1) fresh wf])
  moreover have "ids_ok b'"
    using I(2) less_counter_next [OF room] i unfolding ids_ok_def subs cnt by (auto split: if_splits)
  moreover have "cache_ok b'" using I(5) by (simp add: cache_ok_def cache)
  moreover have "count_ok b'"
    using I(6) fresh registry_finite [OF I(1)]
    by (simp add: count_ok_def met metrics_defs subs domIff)
  moreover have "keys_ok b' \<and> members_ok b'"
  proof (cases qg)
    case None
    with grp have "keys_ok b'"
      using I(3) arc fresh unfolding keys_ok_def subs
      by (auto simp: sub_key_ok_def key_of_sub_def subscription_new_def split: if_splits dest: order.strict_trans2)
    moreover from None grp have "members_ok b'" using I(4) by (simp add: members_ok_def gsub)
    ultimately show ?thesis ..
  next
    case (Some q)
    from Some grp obtain a g where key: "key = Some a" and a: "arc_val a = (p_raw p, q)" "arc_ptr a < next_arc b'"
      and qk: "queue_group_keys b' = (queue_group_keys b)((p_raw p, q) \<mapsto> a)" "interned (ran (queue_group_keys b'))"
        "queue_group_keys b (p_raw p, q) \<in> {None, Some a}"
      and qg: "queue_groups b' = (queue_groups b)((p_raw p, q) \<mapsto> g\<lparr>members := members g @ [i]\<rparr>)"
        "case queue_groups b (p_raw p, q) of None \<Rightarrow> members g = [] | Some g' \<Rightarrow> g = g'"
      by auto
    have "dom (queue_group_keys b') = insert (p_raw p, q) (dom (queue_group_keys b))" by (simp add: qk(1))
    moreover have "group_subs b' k = group_subs b k \<union> (if k = (p_raw p, q) then {i} else {})" for k using Some by (auto simp: gsub)
    ultimately have "members_ok b'" by (rule join_members_ok [OF I(3,4) fresh _ _ qg])
    with join_keys_ok [OF I(3) arc a subs [unfolded Some key] qk] show ?thesis ..
  qed
  ultimately show ?thesis by (simp add: broker_inv_def)
qed

section \<open>Unsubscribing keeps the invariant\<close>

lemma card_dom_remove:
  assumes "finite (dom f)" and "f i = Some s"
  shows "(of_nat (card (dom f)) :: u64) - 1 = of_nat (card (dom (f(i := None))))"
proof -
  have "card (dom f) = Suc (card (dom f - {i}))"
    using assms by (metis card.remove domI)
  then show ?thesis by simp
qed

lemma unsubscribe_shape:
  assumes "get_ref b i = Some s"
  shows "get_ref (unsubscribe c i b) = (get_ref b)(i := None)"
    and "b_registry (unsubscribe c i b) = snd (registry_remove i (b_registry b))"
    and "sub_id_gen (unsubscribe c i b) = sub_id_gen b"
    and "queue_group_keys (unsubscribe c i b) = queue_group_keys b"
    and "next_arc (unsubscribe c i b) = next_arc b"
    and "subject_cache (unsubscribe c i b) = subject_cache b"
    and "b_metrics (unsubscribe c i b) = dec_subscriptions (b_metrics b)"
    and "queue_groups (unsubscribe c i b) k =
      (if map_option arc_val (sub_queue_group_key s) = Some k
       then map_option (\<lambda>g. g\<lparr>members := retain_not i (members g)\<rparr>) (queue_groups b k)
       else queue_groups b k)"
  using assms
  by (auto simp: unsubscribe_def registry_remove_def leave_group_def Let_def split: option.split)

lemma unsubscribe_inv:
  assumes inv: "broker_inv b"
  shows "broker_inv (unsubscribe c i b)"
proof (cases "get_ref b i")
  case None
  then have "unsubscribe c i b = b" by (simp add: unsubscribe_def registry_remove_def)
  with inv show ?thesis by simp
next
  case (Some s)
  note sh = unsubscribe_shape [OF Some, of c]
  let ?b = "unsubscribe c i b"
  have I: "registry_inv (b_registry b)" "ids_ok b" "keys_ok b" "members_ok b" "cache_ok b" "count_ok b"
    using inv by (simp_all add: broker_inv_def)
  have gsub: "group_subs ?b k = group_subs b k - {i}" for k
    unfolding group_subs_def sh(1) by auto
  have key: "map_option arc_val (sub_queue_group_key s) = key_of_sub s"
    using group_key_of_sub [OF inv Some] Some by (simp add: group_key_of_def)
  have "registry_inv (b_registry ?b)" unfolding sh(2) by (rule registry_remove_inv [OF I(1)])
  moreover have "ids_ok ?b" "cache_ok ?b" using I(2,5) by (auto simp: ids_ok_def cache_ok_def sh(1,3,6))
  moreover have "keys_ok ?b" using I(3) by (auto simp: keys_ok_def sh(1,4,5))
  moreover have "count_ok ?b"
    using I(6) card_dom_remove [OF registry_finite [OF I(1)] Some]
    by (simp add: count_ok_def metrics_defs sh(1,7) del: dom_fun_upd)
  moreover have "members_ok ?b" unfolding members_ok_def
  proof (intro conjI allI impI)
    show "dom (queue_groups ?b) = dom (queue_group_keys ?b)"
      using I(4) by (auto simp: members_ok_def sh dom_def)
    fix k g assume g: "queue_groups ?b k = Some g"
    show "distinct (members g)" and "set (members g) = group_subs ?b k"
    proof -
      obtain g' where g': "queue_groups b k = Some g'"
        and m: "members g = (if key_of_sub s = Some k then retain_not i (members g') else members g')"
        using g unfolding sh(8) key by (auto split: if_splits)
      have M: "distinct (members g')" "set (members g') = group_subs b k"
        using I(4) g' by (simp_all add: members_ok_def)
      have "i \<in> group_subs b k \<longleftrightarrow> key_of_sub s = Some k" using Some by (simp add: group_subs_def)
      with M m show "distinct (members g)" and "set (members g) = group_subs ?b k" unfolding gsub by auto
    qed
  qed
  ultimately show ?thesis by (simp add: broker_inv_def)
qed

section \<open>Removing a connection keeps the invariant\<close>

definition prune :: "subscription_id set \<Rightarrow> queue_group_state option \<Rightarrow> queue_group_state option" where
  "prune R g =
     (case g of
        None \<Rightarrow> None
      | Some g \<Rightarrow> (let ms = filter (\<lambda>i. i \<notin> R) (members g) in
          if ms = [] then None else Some (g\<lparr>members := ms\<rparr>)))"

lemma prune_idem [simp]: "prune R (prune R g) = prune R g"
  by (auto simp: prune_def Let_def split: option.splits if_splits)

definition sub_key_vals :: "'h subscription list \<Rightarrow> queue_group_key set" where
  "sub_key_vals subs = {k. \<exists>s \<in> set subs. map_option arc_val (sub_queue_group_key s) = Some k}"

lemma cleanup_group_shape:
  "cleanup_group ids s b =
     b\<lparr>queue_groups := (\<lambda>k. if map_option arc_val (sub_queue_group_key s) = Some k
                           then prune (set ids) (queue_groups b k) else queue_groups b k),
       queue_group_keys := (\<lambda>k. if map_option arc_val (sub_queue_group_key s) = Some k \<and>
                               queue_groups b k \<noteq> None \<and> prune (set ids) (queue_groups b k) = None
                               then None else queue_group_keys b k)\<rparr>"
proof (cases "sub_queue_group_key s")
  case (Some a)
  then show ?thesis
    by (cases "queue_groups b (arc_val a)")
      (auto simp: cleanup_group_def prune_def Let_def fun_eq_iff intro!: broker.equality)
qed (simp add: cleanup_group_def)

lemma cleanup_groups_shape:
  assumes "dom (queue_groups b) = dom (queue_group_keys b)"
  shows "fold (cleanup_group ids) subs b =
     b\<lparr>queue_groups := (\<lambda>k. if k \<in> sub_key_vals subs then prune (set ids) (queue_groups b k)
                           else queue_groups b k),
       queue_group_keys := (\<lambda>k. if k \<in> sub_key_vals subs \<and> prune (set ids) (queue_groups b k) = None
                               then None else queue_group_keys b k)\<rparr>"
  using assms
proof (induction subs arbitrary: b)
  case Nil
  show ?case by (simp add: sub_key_vals_def)
next
  case (Cons s subs)
  let ?b = "cleanup_group ids s b"
  have none: "queue_groups b k = None \<longleftrightarrow> queue_group_keys b k = None" for k
    using Cons.prems by (metis domIff)
  let ?hit = "\<lambda>k. map_option arc_val (sub_queue_group_key s) = Some k"
  have g: "queue_groups ?b k = (if ?hit k then prune (set ids) (queue_groups b k) else queue_groups b k)"
    "queue_group_keys ?b k = (if ?hit k \<and> prune (set ids) (queue_groups b k) = None then None
       else queue_group_keys b k)" for k
    using none [of k] by (auto simp: cleanup_group_shape)
  have rest: "b_registry ?b = b_registry b" "b_metrics ?b = b_metrics b" "sub_id_gen ?b = sub_id_gen b"
    "subject_cache ?b = subject_cache b" "next_arc ?b = next_arc b"
    by (simp_all add: cleanup_group_shape)
  have "queue_groups ?b k = None \<longleftrightarrow> queue_group_keys ?b k = None" for k
    using none [of k] by (auto simp: g prune_def split: option.splits)
  then have "dom (queue_groups ?b) = dom (queue_group_keys ?b)" by (simp add: dom_def)
  note IH = Cons.IH [OF this]
  have v: "k \<in> sub_key_vals (s # subs) \<longleftrightarrow> ?hit k \<or> k \<in> sub_key_vals subs" for k
    by (auto simp: sub_key_vals_def)
  show ?case
  proof (rule broker.equality)
    show "queue_groups (fold (cleanup_group ids) (s # subs) b) = queue_groups (b\<lparr>queue_groups := \<lambda>k. if k \<in> sub_key_vals (s # subs) then prune (set ids) (queue_groups b k)
                           else queue_groups b k,
       queue_group_keys := \<lambda>k. if k \<in> sub_key_vals (s # subs) \<and> prune (set ids) (queue_groups b k) = None
                               then None else queue_group_keys b k\<rparr>)"
      by (rule ext) (auto simp: IH g v)
    show "queue_group_keys (fold (cleanup_group ids) (s # subs) b) = queue_group_keys (b\<lparr>queue_groups := \<lambda>k. if k \<in> sub_key_vals (s # subs) then prune (set ids) (queue_groups b k)
                           else queue_groups b k,
       queue_group_keys := \<lambda>k. if k \<in> sub_key_vals (s # subs) \<and> prune (set ids) (queue_groups b k) = None
                               then None else queue_group_keys b k\<rparr>)"
      by (rule ext) (auto simp: IH g v)
  qed (simp_all add: IH rest)
qed

lemma group_of_removed:
  assumes inv: "broker_inv b" and R: "removed = List.map_filter (get_ref b) ids"
  shows "k \<in> sub_key_vals removed \<longleftrightarrow> group_subs b k \<inter> set ids \<noteq> {}"
proof -
  have key: "map_option arc_val (sub_queue_group_key s) = key_of_sub s" if "get_ref b i = Some s" for i s
    using group_key_of_sub [OF inv that] that by (simp add: group_key_of_def)
  have "set removed = {s. \<exists>i \<in> set ids. get_ref b i = Some s}"
    unfolding R by (induction ids) (auto simp: List.map_filter_simps split: option.split)
  then show ?thesis using key by (fastforce simp: sub_key_vals_def group_subs_def)
qed

lemma removed_ids:
  assumes inv: "registry_inv r" and R: "removed = List.map_filter (subscriptions r) (conn_ids r c)"
  shows "map sub_id removed = conn_ids r c"
proof -
  have "\<forall>i \<in> set (conn_ids r c). \<exists>s. subscriptions r i = Some s \<and> sub_id s = i"
    using inv by (auto simp: registry_inv_def subs_of_conn_def)
  then have "map sub_id (List.map_filter (subscriptions r) is) = is" if "set is \<subseteq> set (conn_ids r c)" for "is"
    using that by (induction "is") (auto simp: List.map_filter_simps)
  then show ?thesis by (simp add: R)
qed

text \<open>The state after a disconnection.\<close>

lemma dec_subscriptions_pow:
  "(dec_subscriptions ^^ n) m = m\<lparr>active_subscriptions := active_subscriptions m - of_nat n\<rparr>"
  by (induction n) (simp_all add: metrics_defs algebra_simps)

lemma remove_connection_shape:
  fixes b :: "'h broker" and c :: connection_id
  assumes inv: "broker_inv b"
  defines "R \<equiv> subs_of_conn (b_registry b) c"
  shows "get_ref (remove_connection c b) = (\<lambda>i. if i \<in> R then None else get_ref b i)"
    and "registry_inv (b_registry (remove_connection c b))"
    and "by_connection (b_registry (remove_connection c b)) = (by_connection (b_registry b))(c := None)"
    and "queue_groups (remove_connection c b) k =
      (if group_subs b k \<inter> R \<noteq> {} then prune R (queue_groups b k) else queue_groups b k)"
    and "queue_group_keys (remove_connection c b) k =
      (if group_subs b k \<inter> R \<noteq> {} \<and> prune R (queue_groups b k) = None then None
       else queue_group_keys b k)"
    and "sub_id_gen (remove_connection c b) = sub_id_gen b"
    and "next_arc (remove_connection c b) = next_arc b"
    and "subject_cache (remove_connection c b) = subject_cache b"
    and "b_metrics (remove_connection c b) = (b_metrics b)\<lparr>
      active_subscriptions := active_subscriptions (b_metrics b) - of_nat (card R),
      active_connections := active_connections (b_metrics b) - 1\<rparr>"
proof -
  obtain removed r where rem: "remove_all_for_connection c (b_registry b) = (removed, r)" by fastforce
  have reg: "registry_inv (b_registry b)" using inv by (simp add: broker_inv_def)
  note res = remove_all_result [OF reg rem]
  have ids: "map sub_id removed = conn_ids (b_registry b) c" by (rule removed_ids [OF reg res(3)])
  have set_ids: "set (conn_ids (b_registry b) c) = R" using reg by (simp add: registry_inv_def R_def)
  have len: "length removed = card R" using length_removed [OF reg, of c] res(3) by (simp add: R_def)
  have vals: "k \<in> sub_key_vals removed \<longleftrightarrow> group_subs b k \<inter> R \<noteq> {}" for k
    using group_of_removed [OF inv res(3)] by (simp add: set_ids)
  let ?b = "b\<lparr>b_registry := r\<rparr>"
  have dom: "dom (queue_groups ?b) = dom (queue_group_keys ?b)"
    using inv by (simp add: broker_inv_def members_ok_def)
  have fold: "(if removed \<noteq> [] then fold (cleanup_group (map sub_id removed)) removed ?b else ?b)
      = fold (cleanup_group (conn_ids (b_registry b) c)) removed ?b"
    unfolding ids by (cases "removed = []") simp_all
  have eq: "remove_connection c b = (fold (cleanup_group (conn_ids (b_registry b) c)) removed ?b)
      \<lparr>b_metrics := dec_active_connections ((dec_subscriptions ^^ card R) (b_metrics b))\<rparr>"
    unfolding remove_connection_def rem Let_def prod.case fold
    by (simp add: len cleanup_groups_shape [OF dom])
  show "get_ref (remove_connection c b) = (\<lambda>i. if i \<in> R then None else get_ref b i)"
    "registry_inv (b_registry (remove_connection c b))"
    "by_connection (b_registry (remove_connection c b)) = (by_connection (b_registry b))(c := None)"
    "queue_groups (remove_connection c b) k =
      (if group_subs b k \<inter> R \<noteq> {} then prune R (queue_groups b k) else queue_groups b k)"
    "queue_group_keys (remove_connection c b) k =
      (if group_subs b k \<inter> R \<noteq> {} \<and> prune R (queue_groups b k) = None then None
       else queue_group_keys b k)"
    "sub_id_gen (remove_connection c b) = sub_id_gen b"
    "next_arc (remove_connection c b) = next_arc b"
    "subject_cache (remove_connection c b) = subject_cache b"
    "b_metrics (remove_connection c b) = (b_metrics b)\<lparr>
      active_subscriptions := active_subscriptions (b_metrics b) - of_nat (card R),
      active_connections := active_connections (b_metrics b) - 1\<rparr>"
    using res(1,2,4)
    by (simp_all add: eq cleanup_groups_shape [OF dom] vals set_ids R_def dec_subscriptions_pow metrics_defs)
qed

lemma prune_Some:
  "prune R g = Some g' \<longleftrightarrow> (\<exists>x. g = Some x \<and> filter (\<lambda>i. i \<notin> R) (members x) \<noteq> [] \<and>
     g' = x\<lparr>members := filter (\<lambda>i. i \<notin> R) (members x)\<rparr>)"
  by (auto simp: prune_def Let_def split: option.splits if_splits)

lemma card_dom_remove_set:
  assumes "finite (dom f)" and "R \<subseteq> dom f"
  shows "(of_nat (card (dom f)) :: u64) - of_nat (card R) = of_nat (card (dom (\<lambda>i. if i \<in> R then None else f i)))"
proof -
  have "dom (\<lambda>i. if i \<in> R then None else f i) = dom f - R" by (auto split: if_splits)
  moreover have "card R + card (dom f - R) = card (dom f)"
    using assms by (metis card_Diff_subset card_mono finite_subset le_add_diff_inverse)
  ultimately show ?thesis by (metis add_diff_cancel_left' of_nat_add)
qed

lemma groups_iff_keys: "members_ok b \<Longrightarrow> queue_groups b k = None \<longleftrightarrow> queue_group_keys b k = None"
  by (metis members_ok_def domIff)

text \<open>A key stays interned while one of its subscriptions stays.\<close>

lemma remove_connection_key_kept:
  assumes inv: "broker_inv b" and s: "get_ref (remove_connection c b) i = Some s" and k: "key_of_sub s = Some k"
  shows "queue_group_keys (remove_connection c b) k = queue_group_keys b k"
proof -
  let ?R = "subs_of_conn (b_registry b) c"
  note sh = remove_connection_shape [OF inv, of c]
  have I: "keys_ok b" "members_ok b" using inv by (simp_all add: broker_inv_def)
  have s': "get_ref b i = Some s" and i: "i \<notin> ?R" using s by (simp_all add: sh(1) split: if_splits)
  have "i \<in> group_subs b k" using s' k by (simp add: group_subs_def)
  moreover obtain a where "queue_group_keys b k = Some a" using keys_ok_sub [OF I(1) s' k] by blast
  then obtain g where g: "queue_groups b k = Some g" using groups_iff_keys [OF I(2), of k] by auto
  moreover have "set (members g) = group_subs b k" using I(2) g by (simp add: members_ok_def)
  ultimately have "i \<in> set (filter (\<lambda>i. i \<notin> ?R) (members g))" using i by simp
  then have "prune ?R (queue_groups b k) \<noteq> None" using g by (auto simp: prune_def Let_def filter_empty_conv)
  then show ?thesis by (auto simp: sh(5))
qed

lemma remove_connection_keys:
  assumes inv: "broker_inv b"
  shows "keys_ok (remove_connection c b)" (is "keys_ok ?b")
  unfolding keys_ok_def
proof (intro conjI allI impI)
  note sh = remove_connection_shape [OF inv, of c]
  have I: "keys_ok b" using inv by (simp add: broker_inv_def)
  have sub: "queue_group_keys ?b k = Some a \<Longrightarrow> queue_group_keys b k = Some a" for k a
    by (simp add: sh(5) split: if_splits)
  then have "ran (queue_group_keys ?b) \<subseteq> ran (queue_group_keys b)" by (fastforce simp: ran_def)
  moreover have "interned (ran (queue_group_keys b))" using I by (simp add: keys_ok_def)
  ultimately show "interned (ran (queue_group_keys ?b))" unfolding interned_def by blast
  show "arc_val a = k" "arc_ptr a < next_arc ?b" if "queue_group_keys ?b k = Some a" for k a
    using sub [OF that] I by (simp_all add: keys_ok_def sh(7))
  fix i s assume s: "get_ref ?b i = Some s"
  then have s': "get_ref b i = Some s" by (simp add: sh(1) split: if_splits)
  show "sub_key_ok (queue_group_keys ?b) s"
  proof (cases "key_of_sub s")
    case None
    then show ?thesis using keys_ok_no_key [OF I s'] by (simp add: sub_key_ok_def)
  next
    case (Some k)
    then show ?thesis
      using keys_ok_sub [OF I s' Some] remove_connection_key_kept [OF inv s Some] by (auto simp: sub_key_ok_def)
  qed
qed

lemma remove_connection_members:
  assumes inv: "broker_inv b"
  shows "members_ok (remove_connection c b)" (is "members_ok ?b")
  unfolding members_ok_def
proof (intro conjI allI impI)
  note sh = remove_connection_shape [OF inv, of c]
  have I: "members_ok b" using inv by (simp add: broker_inv_def)
  have gsub: "group_subs ?b k = group_subs b k - subs_of_conn (b_registry b) c" for k
    unfolding group_subs_def sh(1) by auto
  have M: "distinct (members g)" "set (members g) = group_subs b k" if "queue_groups b k = Some g" for k g
    using I that by (simp_all add: members_ok_def)
  have "queue_groups ?b k = None \<longleftrightarrow> queue_group_keys ?b k = None" for k
    using groups_iff_keys [OF I, of k] by (auto simp: sh(4,5) prune_def)
  then show "dom (queue_groups ?b) = dom (queue_group_keys ?b)" by (simp add: dom_def)
  show "distinct (members g)" "set (members g) = group_subs ?b k" if "queue_groups ?b k = Some g" for k g
    using that M [of k] unfolding gsub by (auto simp: sh(4) prune_Some split: if_splits)
qed

lemma remove_connection_inv:
  assumes inv: "broker_inv b"
  shows "broker_inv (remove_connection c b)"
proof -
  let ?b = "remove_connection c b" and ?R = "subs_of_conn (b_registry b) c"
  note sh = remove_connection_shape [OF inv, of c]
  have I: "registry_inv (b_registry b)" "ids_ok b" "cache_ok b" "count_ok b" using inv by (simp_all add: broker_inv_def)
  have "ids_ok ?b" "cache_ok ?b" using I(2,3) by (auto simp: ids_ok_def cache_ok_def sh(1,6,8))
  moreover have "?R \<subseteq> dom (get_ref b)" by (auto simp: subs_of_conn_def)
  then have "count_ok ?b" using card_dom_remove_set [OF registry_finite [OF I(1)], of ?R] I(4) by (simp add: count_ok_def sh(1,9))
  ultimately show ?thesis
    using sh(2) remove_connection_keys [OF inv] remove_connection_members [OF inv] by (simp add: broker_inv_def)
qed

section \<open>Reachable brokers\<close>

text \<open>
  The operations other threads and connections can call, in any order.  The only guard is on
  the 64-bit id counter of \<open>subscribe\<close>: the last id before it wraps around is not given out.
\<close>

inductive broker_step :: "('h, 'w) deliverer \<Rightarrow> ((subscription_id \<times> delivery_message list) list \<Rightarrow> (subscription_id \<times> delivery_message list) list) \<Rightarrow>
    'h broker \<times> 'w \<Rightarrow> 'h broker \<times> 'w \<Rightarrow> bool" for dv iter where
  step_subscribe: "pattern_wf p \<Longrightarrow> unat (counter (sub_id_gen b)) + 1 < 2 ^ 64 \<Longrightarrow>
     broker_step dv iter (b, w) (snd (subscribe c p qg h b), w)"
| step_unsubscribe: "broker_step dv iter (b, w) (unsubscribe c i b, w)"
| step_publish: "broker_step dv iter (b, w) (publish dv m (b, w))"
| step_publish_with_str: "broker_step dv iter (b, w) (publish_with_str dv t payload reply hs (b, w))"
| step_publish_batch: "broker_step dv iter (b, w) (publish_batch dv iter items (b, w))"
| step_build_item: "broker_step dv iter (b, w) (snd (build_publish_item t payload b), w)"
| step_parse_subject: "broker_step dv iter (b, w) (snd (parse_subject t b), w)"
| step_remove_connection: "broker_step dv iter (b, w) (remove_connection c b, w)"

inductive broker_reach :: "('h, 'w) deliverer \<Rightarrow> ((subscription_id \<times> delivery_message list) list \<Rightarrow> (subscription_id \<times> delivery_message list) list) \<Rightarrow>
    'w \<Rightarrow> 'h broker \<times> 'w \<Rightarrow> bool" for dv iter w0 where
  reach_new: "broker_reach dv iter w0 (broker_new, w0)"
| reach_step: "broker_reach dv iter w0 s \<Longrightarrow> broker_step dv iter s s' \<Longrightarrow> broker_reach dv iter w0 s'"

inductive_cases broker_stepE: "broker_step dv iter s s'"

lemma broker_step_inv: "broker_step dv iter s s' \<Longrightarrow> broker_inv (fst s) \<Longrightarrow> broker_inv (fst s')"
proof (induction rule: broker_step.induct)
  case (step_subscribe p b w c qg h)
  then show ?case by (auto intro: subscribe_inv [of b p c qg h "fst (subscribe c p qg h b)"])
next
  case (step_build_item b w t payload)
  have "snd (build_publish_item t payload b) = snd (parse_subject t b)"
    by (simp add: build_publish_item_def split: prod.split sum.split)
  with step_build_item show ?case by (simp add: parse_subject_inv)
qed (simp_all add: unsubscribe_inv publish_inv publish_with_str_inv publish_batch_inv
    parse_subject_inv remove_connection_inv)

lemma broker_reach_inv: "broker_reach dv iter w0 s \<Longrightarrow> broker_inv (fst s)"
  by (induction rule: broker_reach.induct) (auto intro: broker_step_inv simp: broker_new_inv)

end
