(* ===== verification/Broker_Publish.thy ===== *)
theory Broker_Publish
  imports Broker_Inv
begin

text \<open>
  What publishing does: who receives a message, how the counters move, what a batch puts on the
  logs of the delivery handles, and how the three publish paths compare.
\<close>

section \<open>Targets of one message\<close>

lemma pick_Some:
  assumes "gs k = Some g" and "members g \<noteq> []"
  shows "\<exists>i gs'. pick k gs = ([i], gs') \<and> i \<in> set (members g)"
  using assms by (simp add: pick_def)

lemma pick_all_groups:
  assumes "\<And>k. k \<in> set ks \<Longrightarrow> \<exists>ms. map_option members (gs k) = Some ms \<and> ms \<noteq> [] \<and> set ms = G k"
    and "pick_all ks gs = (is, gs')"
  shows "list_all2 (\<lambda>k i. i \<in> G k) ks is"
  using assms
proof (induction ks arbitrary: gs "is" gs')
  case (Cons k ks)
  from Cons.prems(1) [of k] obtain g where g: "gs k = Some g" "members g \<noteq> []" "set (members g) = G k"
    by auto
  from pick_Some [of gs k g] g obtain i gs1 where p: "pick k gs = ([i], gs1)" "i \<in> G k" by auto
  obtain js gs2 where ps: "pick_all ks gs1 = (js, gs2)" by fastforce
  have "list_all2 (\<lambda>k i. i \<in> G k) ks js"
    using Cons.prems(1) pick_members [OF p(1)] by (intro Cons.IH [OF _ ps]) auto
  with p ps Cons.prems(2) show ?case by auto
qed simp

lemma list_all2_setD2: "list_all2 P xs ys \<Longrightarrow> y \<in> set ys \<Longrightarrow> \<exists>x \<in> set xs. P x y"
  by (induction rule: list_all2_induct) auto

lemma set_group_keys:
  "set (List.map_filter (group_key_of r) ids) = {a. \<exists>i \<in> set ids. group_key_of r i = Some a}"
  by (induction ids) (auto simp: List.map_filter_simps split: option.split)

lemma group_key_live:
  assumes "broker_inv b" and "group_key_of (b_registry b) i = Some a"
  shows "i \<in> group_subs b (arc_val a)"
proof -
  obtain s where s: "get_ref b i = Some s" using assms(2) by (auto simp: group_key_of_def split: option.splits)
  then show ?thesis using group_key_of_sub [OF assms(1) s] assms(2) by (simp add: group_subs_def)
qed

lemma group_live:
  assumes inv: "broker_inv b" and i: "i \<in> group_subs b k"
  shows "\<exists>ms. map_option members (queue_groups b k) = Some ms \<and> ms \<noteq> [] \<and> set ms = group_subs b k"
proof -
  obtain s where s: "get_ref b i = Some s" "key_of_sub s = Some k" using i by (auto simp: group_subs_def)
  then obtain a where "queue_group_keys b k = Some a"
    using keys_ok_sub [of b i s k] inv by (auto simp: broker_inv_def)
  then obtain g where g: "queue_groups b k = Some g"
    using inv unfolding broker_inv_def members_ok_def by (metis domD domI)
  then have "set (members g) = group_subs b k" using inv by (simp add: broker_inv_def members_ok_def)
  with g i show ?thesis by auto
qed

lemma picks_of_plan:
  assumes inv: "broker_inv b"
    and p: "pick_all (map arc_val (plan_groups (b_registry b) ids)) (queue_groups b) = (is, gs)"
  shows "list_all2 (\<lambda>k i. i \<in> group_subs b k) (map arc_val (plan_groups (b_registry b) ids)) is"
proof (rule pick_all_groups [OF _ p])
  fix k assume "k \<in> set (map arc_val (plan_groups (b_registry b) ids))"
  then obtain i a where "i \<in> set ids" "group_key_of (b_registry b) i = Some a" "k = arc_val a"
    by (auto simp: plan_groups_def set_group_keys)
  then have "i \<in> group_subs b k" using group_key_live [OF inv] by simp
  then show "\<exists>ms. map_option members (queue_groups b k) = Some ms \<and> ms \<noteq> [] \<and> set ms = group_subs b k"
    by (rule group_live [OF inv])
qed

text \<open>Two subscriptions of one queue group have the same pattern.\<close>

lemma group_same_pattern:
  assumes inv: "broker_inv b" and "i \<in> group_subs b k" "j \<in> group_subs b k"
    and "get_ref b i = Some s" "get_ref b j = Some t"
  shows "sub_pattern s = sub_pattern t"
proof -
  have "p_raw (sub_pattern s) = p_raw (sub_pattern t)"
    using assms by (auto simp: group_subs_def key_of_sub_def)
  moreover have "pattern_wf (sub_pattern s)" "pattern_wf (sub_pattern t)"
    using assms registry_pattern_wf [of "b_registry b"] by (auto simp: broker_inv_def)
  ultimately have "pattern_parse (p_raw (sub_pattern s)) = Inr (sub_pattern s)"
    "pattern_parse (p_raw (sub_pattern s)) = Inr (sub_pattern t)"
    using pattern_parse_raw by metis+
  then show ?thesis by simp
qed

definition matching :: "'h broker \<Rightarrow> subject \<Rightarrow> subscription_id set" where
  "matching b s = {i. \<exists>t. get_ref b i = Some t \<and> matches (sub_pattern t) s}"

lemma set_match_ids:
  assumes "broker_inv b" and "subject_wf s"
  shows "set (engine_match_subject (b_router b) s) = matching b s"
    and "distinct (engine_match_subject (b_router b) s)"
proof -
  have r: "routes (b_router b) (patterns_of (b_registry b))"
    using assms(1) by (simp add: broker_inv_def registry_inv_def)
  show "set (engine_match_subject (b_router b) s) = matching b s"
    using engine.set_lookup [OF r assms(2)] by (auto simp: matching_def patterns_of_Some)
  show "distinct (engine_match_subject (b_router b) s)" by (rule engine.distinct_lookup [OF r])
qed

lemma group_matching_closed:
  assumes inv: "broker_inv b" and "i \<in> group_subs b k" "j \<in> group_subs b k" and "i \<in> matching b s"
  shows "j \<in> matching b s"
proof -
  obtain x y where x: "get_ref b i = Some x" and y: "get_ref b j = Some y"
    using assms by (auto simp: group_subs_def)
  then have "sub_pattern x = sub_pattern y" by (rule group_same_pattern [OF inv assms(2,3)])
  with assms(4) x y show ?thesis by (auto simp: matching_def)
qed

lemma fanout_key: "broker_inv b \<Longrightarrow> get_ref b i = Some s \<Longrightarrow>
    group_key_of (b_registry b) i = None \<longleftrightarrow> key_of_sub s = None"
  using group_key_of_sub [of b i s] by (metis option.map_disc_iff)

lemma targets_matching:
  assumes inv: "broker_inv b" and ids: "set ids = matching b s" and t: "targets b ids = (ts, gs)"
  shows "set ts \<subseteq> matching b s"
proof -
  obtain "is" where p: "pick_all (map arc_val (plan_groups (b_registry b) ids)) (queue_groups b) = (is, gs)"
    and ts: "ts = is @ plan_fanout (b_registry b) ids"
    using t by (auto simp: targets_def split: prod.splits)
  have "i \<in> matching b s" if i: "i \<in> set is" for i
  proof -
    obtain k where k: "k \<in> set (map arc_val (plan_groups (b_registry b) ids))" and ik: "i \<in> group_subs b k"
      using list_all2_setD2 [OF picks_of_plan [OF inv p] i] by blast
    then obtain j a where "j \<in> set ids" "group_key_of (b_registry b) j = Some a" "k = arc_val a"
      by (auto simp: plan_groups_def set_group_keys)
    then show ?thesis
      using group_matching_closed [OF inv _ ik, of j s] group_key_live [OF inv] ids by simp
  qed
  then show ?thesis using ids by (auto simp: ts plan_fanout_def)
qed

lemma group_subs_unique: "i \<in> group_subs b k \<Longrightarrow> i \<in> group_subs b k' \<longleftrightarrow> k' = k"
  by (auto simp: group_subs_def)

lemma count_picks:
  "list_all2 (\<lambda>k i. i \<in> group_subs b k) ks is \<Longrightarrow>
     length (filter (\<lambda>i. i \<in> group_subs b k) is) = count_list ks k"
  by (induction rule: list_all2_induct) (auto dest: group_subs_unique)

lemma targets_group_count:
  assumes inv: "broker_inv b" and t: "targets b ids = (ts, gs)"
  shows "length (filter (\<lambda>i. i \<in> group_subs b k) ts) =
     count_list (map arc_val (plan_groups (b_registry b) ids)) k"
proof -
  obtain "is" where p: "pick_all (map arc_val (plan_groups (b_registry b) ids)) (queue_groups b) = (is, gs)"
    and ts: "ts = is @ plan_fanout (b_registry b) ids"
    using t by (auto simp: targets_def split: prod.splits)
  have "filter (\<lambda>i. i \<in> group_subs b k) (plan_fanout (b_registry b) ids) = []"
    using fanout_key [OF inv] by (auto simp: filter_empty_conv plan_fanout_def group_subs_def)
  then show ?thesis using count_picks [OF picks_of_plan [OF inv p]] by (simp add: ts)
qed

text \<open>A group is hit when, and only when, one of its members is among the matches.\<close>

lemma targets_group_hit:
  assumes inv: "broker_inv b" and t: "targets b ids = (ts, gs)"
  shows "(\<exists>i \<in> set ts. i \<in> group_subs b k) \<longleftrightarrow> group_subs b k \<inter> set ids \<noteq> {}"
proof -
  let ?ks = "map arc_val (plan_groups (b_registry b) ids)"
  have "(\<exists>i \<in> set ts. i \<in> group_subs b k) \<longleftrightarrow> filter (\<lambda>i. i \<in> group_subs b k) ts \<noteq> []"
    by (auto simp: filter_empty_conv)
  also have "\<dots> \<longleftrightarrow> count_list ?ks k \<noteq> 0"
    using targets_group_count [OF inv t, of k] by (metis length_0_conv)
  also have "\<dots> \<longleftrightarrow> k \<in> set ?ks" by (simp add: count_list_0_iff)
  also have "\<dots> \<longleftrightarrow> (\<exists>i \<in> set ids. \<exists>a. group_key_of (b_registry b) i = Some a \<and> arc_val a = k)"
    by (auto simp: plan_groups_def set_group_keys)
  also have "\<dots> \<longleftrightarrow> (\<exists>i \<in> set ids. i \<in> group_subs b k)"
  proof (intro bex_cong refl iffI)
    fix i assume "i \<in> group_subs b k"
    then obtain s where s: "get_ref b i = Some s" "key_of_sub s = Some k" by (auto simp: group_subs_def)
    then show "\<exists>a. group_key_of (b_registry b) i = Some a \<and> arc_val a = k"
      using group_key_of_sub [OF inv s(1)] by simp
  qed (use group_key_live [OF inv] in blast)
  finally show ?thesis by blast
qed

lemma count_list_distinct: "distinct xs \<Longrightarrow> count_list xs x = (if x \<in> set xs then 1 else 0)"
  by (induction xs) auto

lemma targets_fanout_count:
  assumes inv: "broker_inv b" and d: "distinct ids" and t: "targets b ids = (ts, gs)"
    and s: "get_ref b i = Some s" "key_of_sub s = None"
  shows "count_list ts i = (if i \<in> set ids then 1 else 0)"
proof -
  obtain "is" where p: "pick_all (map arc_val (plan_groups (b_registry b) ids)) (queue_groups b) = (is, gs)"
    and ts: "ts = is @ plan_fanout (b_registry b) ids"
    using t by (auto simp: targets_def split: prod.splits)
  have "i \<notin> group_subs b k" for k using s by (simp add: group_subs_def)
  then have "i \<notin> set is"
    using list_all2_setD2 [OF picks_of_plan [OF inv p]] by blast
  moreover have "distinct (plan_fanout (b_registry b) ids)" using d by (simp add: plan_fanout_def)
  moreover have "i \<in> set (plan_fanout (b_registry b) ids) \<longleftrightarrow> i \<in> set ids"
    using s fanout_key [OF inv s(1)] by (auto simp: plan_fanout_def)
  ultimately show ?thesis by (simp add: ts count_list_0_iff count_list_distinct)
qed

text \<open>A group whose matches are consecutive is served exactly once; in general once for each run.\<close>

lemma plan_groups_single:
  assumes inv: "broker_inv b" and one: "\<And>i k. i \<in> set ids \<Longrightarrow> i \<in> group_subs b k \<Longrightarrow> k = k0"
  shows "length (plan_groups (b_registry b) ids) \<le> 1"
proof -
  let ?ks = "List.map_filter (group_key_of (b_registry b)) ids"
  have "a = a'" if a: "a \<in> set ?ks" and a': "a' \<in> set ?ks" for a a'
  proof -
    have A: "\<exists>s i. get_ref b i = Some s \<and> key_of_sub s = Some k0 \<and> sub_queue_group_key s = Some x"
      if "x \<in> set ?ks" for x
      using that group_key_live [OF inv] one
      by (fastforce simp: set_group_keys group_subs_def group_key_of_def split: option.splits)
    have "queue_group_keys b k0 = Some x" if "x \<in> set ?ks" for x
    proof -
      from A [OF that] obtain t i where "get_ref b i = Some t" "key_of_sub t = Some k0"
        "sub_queue_group_key t = Some x" by blast
      with keys_ok_sub [of b i t k0] inv show ?thesis by (simp add: broker_inv_def)
    qed
    from this [OF a] this [OF a'] show ?thesis by simp
  qed
  then have "card (set ?ks) \<le> 1" by (simp add: card_le_Suc0_iff_eq)
  moreover have "length (remdups_adj xs) \<le> 1" if "card (set xs) \<le> 1" for xs :: "arc_key list"
  proof (cases xs)
    case (Cons a ys)
    then have "set xs = {a}" using that by (intro card_seteq [symmetric]) auto
    then have "xs = replicate (length xs) a" by (intro replicate_eqI) auto
    then show ?thesis by (metis remdups_adj_replicate length_Cons list.size(3) One_nat_def le_refl le0)
  qed simp
  ultimately show ?thesis by (simp add: plan_groups_def)
qed

lemma targets_length:
  assumes inv: "broker_inv b" and t: "targets b ids = (ts, gs)"
  shows "length ts = length (plan_groups (b_registry b) ids) + length (plan_fanout (b_registry b) ids)"
proof -
  obtain "is" where p: "pick_all (map arc_val (plan_groups (b_registry b) ids)) (queue_groups b) = (is, gs)"
    and ts: "ts = is @ plan_fanout (b_registry b) ids"
    using t by (auto simp: targets_def split: prod.splits)
  from list_all2_lengthD [OF picks_of_plan [OF inv p]] show ?thesis by (simp add: ts)
qed

section \<open>Counters\<close>

text \<open>What a run of deliveries does to the counters, with the number of accepted messages.\<close>

definition counted :: "nat \<Rightarrow> nat \<Rightarrow> 'h broker \<Rightarrow> 'h broker \<Rightarrow> bool" where
  "counted ok bad b b' \<longleftrightarrow>
     b_metrics b' = (b_metrics b)\<lparr>messages_delivered := messages_delivered (b_metrics b) + of_nat ok,
       messages_dropped := messages_dropped (b_metrics b) + of_nat bad\<rparr>"

lemma counted_refl: "counted 0 0 b b"
  by (simp add: counted_def)

lemma counted_trans: "counted a x b b' \<Longrightarrow> counted c y b' b'' \<Longrightarrow> counted (a + c) (x + y) b b''"
  by (simp add: counted_def)

lemma deliver_counted:
  assumes "get_ref b i \<noteq> None" and "deliver_to_subscriber dv i m (b, w) = (b', w')"
  shows "\<exists>ok \<le> 1. counted ok (1 - ok) b b'"
proof -
  from assms obtain s st where "get_ref b i = Some s" and b': "b' = handle_delivery_status st b"
    by (auto simp: deliver_to_subscriber_def split: prod.splits)
  show ?thesis
  proof (cases "st = Delivered")
    case True
    then show ?thesis by (intro exI [of _ 1]) (simp add: b' handle_delivery_status_eq counted_def metrics_defs)
  next
    case False
    then show ?thesis by (intro exI [of _ 0]) (simp add: b' handle_delivery_status_eq counted_def metrics_defs)
  qed
qed

lemma deliver_each_counted:
  assumes "\<forall>i \<in> set ts. get_ref b i \<noteq> None" and "deliver_each dv m ts (b, w) = (b', w')"
  shows "\<exists>ok \<le> length ts. counted ok (length ts - ok) b b'"
  using assms
proof (induction ts arbitrary: b w)
  case (Cons i ts)
  obtain b1 w1 where d: "deliver_to_subscriber dv i m (b, w) = (b1, w1)" by fastforce
  have reg: "b_registry b1 = b_registry b" using b_registry_deliver [of dv i m b w] d by simp
  from deliver_counted [OF _ d] Cons.prems obtain ok1 where 1: "ok1 \<le> 1" "counted ok1 (1 - ok1) b b1" by auto
  from Cons.IH [of b1 w1] Cons.prems d reg obtain ok where
    2: "ok \<le> length ts" "counted ok (length ts - ok) b1 b'" by auto
  from counted_trans [OF 1(2) 2(2)] 1(1) 2(1) have "counted (ok1 + ok) (length (i # ts) - (ok1 + ok)) b b'"
    by (simp add: Suc_diff_le algebra_simps)
  with 1(1) 2(1) show ?case by (intro exI [of _ "ok1 + ok"]) simp
qed (auto simp: counted_refl)

text \<open>All targets of a message are registered, so every one of them is counted.\<close>

lemma deliver_matches_counted:
  assumes inv: "broker_inv b" and ids: "set ids = matching b s" and t: "targets b ids = (ts, gs)"
    and d: "deliver_matches dv m ids (b, w) = (b', w')"
  shows "\<exists>ok \<le> length ts. counted ok (length ts - ok) b b'"
proof -
  have "deliver_each dv m ts (b\<lparr>queue_groups := gs\<rparr>, w) = (b', w')"
    using d by (simp add: deliver_matches_targets [OF broker_inv_interned [OF inv]] t)
  moreover have "\<forall>i \<in> set ts. get_ref (b\<lparr>queue_groups := gs\<rparr>) i \<noteq> None"
    using targets_matching [OF inv ids t] by (auto simp: matching_def)
  ultimately show ?thesis
    using deliver_each_counted [of ts "b\<lparr>queue_groups := gs\<rparr>" dv m w b' w'] by (simp add: counted_def)
qed

section \<open>Logs\<close>

text \<open>The part of a handle's log that is addressed to one subscription.\<close>

abbreviation for_sub :: "subscription_id \<Rightarrow> delivery_message list \<Rightarrow> delivery_message list" where
  "for_sub i \<equiv> filter (\<lambda>d. d_subscription_id d = i)"

context delivery_handle
begin

lemma deliver_each_subseq:
  assumes "deliver_each dv m ts (b, w) = (b', w')"
  shows "\<exists>ds. log w' h = log w h @ ds \<and>
     subseq ds (map (\<lambda>i. make_delivery i (sub_connection_id (the (get_ref b i))) m)
       (filter (\<lambda>i. map_option sub_delivery (get_ref b i) = Some h) ts))"
  using assms
proof (induction ts arbitrary: b w)
  case (Cons i ts)
  obtain b1 w1 where d: "deliver_to_subscriber dv i m (b, w) = (b1, w1)" by fastforce
  have reg: "b_registry b1 = b_registry b" using b_registry_deliver [of dv i m b w] d by simp
  from Cons.IH [of b1 w1] Cons.prems d reg obtain ds where
    ds: "log w' h = log w1 h @ ds" "subseq ds (map (\<lambda>i. make_delivery i (sub_connection_id (the (get_ref b i))) m)
       (filter (\<lambda>i. map_option sub_delivery (get_ref b i) = Some h) ts))" by auto
  show ?case
  proof (cases "get_ref b i")
    case None
    with d have "w1 = w" by (simp add: deliver_to_subscriber_def)
    with ds None show ?thesis by auto
  next
    case (Some s)
    let ?d = "make_delivery i (sub_connection_id s) m"
    obtain st where st: "dv (sub_delivery s) ?d w = (st, w1)"
      using d Some by (auto simp: deliver_to_subscriber_def split: prod.splits)
    from deliver_log [OF st] have
      "log w1 h = log w h @ (if sub_delivery s = h \<and> st = Delivered then [?d] else [])" by simp
    then show ?thesis
      using ds Some
      by (cases "sub_delivery s = h \<and> st = Delivered")
        (auto intro!: exI [of _ "?d # ds"] exI [of _ ds] list_emb_Cons)
  qed
qed simp

lemma deliver_each_other:
  assumes "deliver_each dv m ts (b, w) = (b', w')" and "j \<notin> set ts"
  shows "for_sub j (log w' h) = for_sub j (log w h)"
proof -
  from deliver_each_subseq [OF assms(1), of h] obtain ds where l: "log w' h = log w h @ ds"
    and sub: "subseq ds (map (\<lambda>i. make_delivery i (sub_connection_id (the (get_ref b i))) m)
       (filter (\<lambda>i. map_option sub_delivery (get_ref b i) = Some h) ts))" by blast
  have "d_subscription_id d \<noteq> j" if d: "d \<in> set ds" for d
  proof -
    obtain i where "i \<in> set ts" "d_subscription_id d = i"
      by (rule list_emb_set [OF sub d]) (auto simp: make_delivery_def)
    with assms(2) show ?thesis by auto
  qed
  then have "for_sub j ds = []" by (simp add: filter_empty_conv)
  with l show ?thesis by simp
qed

end

section \<open>The string path\<close>

lemma deliver_to_subscriber_cache:
  "deliver_to_subscriber dv i m (b\<lparr>subject_cache := ca\<rparr>, w) =
     (let (b', w') = deliver_to_subscriber dv i m (b, w) in (b'\<lparr>subject_cache := ca\<rparr>, w'))"
  by (simp add: deliver_to_subscriber_def handle_delivery_status_eq split: option.split prod.split)

lemma deliver_each_cache:
  "deliver_each dv m is (b\<lparr>subject_cache := ca\<rparr>, w) =
     (let (b', w') = deliver_each dv m is (b, w) in (b'\<lparr>subject_cache := ca\<rparr>, w'))"
proof (induction "is" arbitrary: b w)
  case (Cons i js)
  obtain b1 w1 where d: "deliver_to_subscriber dv i m (b, w) = (b1, w1)" by fastforce
  show ?case by (simp add: deliver_to_subscriber_cache d Cons)
qed simp

lemma deliver_matches_cache:
  assumes "broker_inv b" and "broker_inv (b\<lparr>subject_cache := ca\<rparr>)"
  shows "deliver_matches dv m ids (b\<lparr>subject_cache := ca\<rparr>, w) =
     (let (b', w') = deliver_matches dv m ids (b, w) in (b'\<lparr>subject_cache := ca\<rparr>, w'))"
proof -
  obtain ts gs where t: "targets b ids = (ts, gs)" by fastforce
  then have t': "targets (b\<lparr>subject_cache := ca\<rparr>) ids = (ts, gs)" by (simp add: targets_def)
  show ?thesis
    by (simp add: deliver_matches_targets [OF broker_inv_interned [OF assms(1)]]
        deliver_matches_targets [OF broker_inv_interned [OF assms(2)]] t t'
        deliver_each_cache [where b = "b\<lparr>queue_groups := gs\<rparr>", symmetric]) (cases b, simp)
qed

text \<open>
  The string path looks the exact matches up by the text as it came, and the wildcard matches by the parsed subject.
\<close>

lemma publish_with_str_delivers:
  assumes inv: "broker_inv b" and s: "subject_parse t = Inr s"
    and m: "m = item_message \<lparr>i_subject = s, i_payload = payload, i_reply_to = reply, i_headers = hs\<rparr>"
    and ids: "ids = exact_matches (b_router b) t @ match_wildcards (b_router b) s"
  shows "(let (b', w') = publish_with_str dv t payload reply hs (b, w)
      in (b'\<lparr>subject_cache := subject_cache b\<rparr>, w')) =
     deliver_matches dv m ids (b\<lparr>b_metrics := inc_published (b_metrics b)\<rparr>, w)"
proof -
  let ?b = "b\<lparr>b_metrics := inc_published (b_metrics b)\<rparr>"
  have inv1: "broker_inv ?b" by (rule published_inv [OF inv])
  obtain res b2 where p: "parse_subject t ?b = (res, b2)" by fastforce
  have res: "res = Inr s" using parse_subject_spec(1) [of ?b t] inv1 p s by (simp add: broker_inv_def)
  have b2: "b2 = ?b\<lparr>subject_cache := subject_cache b2\<rparr>"
    using p by (auto simp: parse_subject_def split: option.splits sum.splits)
  have inv2: "broker_inv b2" using parse_subject_inv [OF inv1, of t] p by simp
  have ids': "exact_matches (b_router b) t @ (if has_wildcards (b_router b) then match_wildcards (b_router b) s else []) = ids"
    by (simp add: ids match_wildcards_def)
  have router: "b_router b2 = b_router b" by (subst b2) simp
  show ?thesis
  proof (cases "exact_matches (b_router b) t = [] \<and> \<not> has_wildcards (b_router b)")
    case True
    then have "ids = []" using ids' by auto
    then show ?thesis
      using True by (simp add: publish_with_str_def match_subject_str_def deliver_matches_def)
  next
    case False
    obtain b' w' where d: "deliver_matches dv m ids (?b, w) = (b', w')" by fastforce
    have "subject_cache b' = subject_cache b" using frame_deliver_matches [OF inv1, of dv m ids w] d by simp
    moreover have "publish_with_str dv t payload reply hs (b, w) = deliver_matches dv m ids (b2, w)"
      using False p by (auto simp: publish_with_str_def match_subject_str_def res router m item_message_def ids' [symmetric])
    moreover have "deliver_matches dv m ids (b2, w) = (b'\<lparr>subject_cache := subject_cache b2\<rparr>, w')"
      using deliver_matches_cache [of ?b "subject_cache b2" dv m ids w] inv1 inv2 d b2 by simp
    ultimately show ?thesis using d by simp
  qed
qed

lemma publish_with_str_invalid:
  assumes inv: "broker_inv b" and s: "subject_parse t = Inl e"
  shows "publish_with_str dv t payload reply hs (b, w) = (b\<lparr>b_metrics := inc_published (b_metrics b)\<rparr>, w)"
proof -
  let ?b = "b\<lparr>b_metrics := inc_published (b_metrics b)\<rparr>"
  have "cache_ok ?b" using published_inv [OF inv] by (simp add: broker_inv_def)
  then have "subject_cache ?b t = None"
    using s by (cases "subject_cache ?b t") (auto simp: cache_ok_def)
  then have "parse_subject t ?b = (Inl e, ?b)" using s by (simp add: parse_subject_def)
  then show ?thesis by (simp add: publish_with_str_def match_subject_str_def Let_def)
qed

text \<open>Patterns are trimmed when they are parsed, so no exact subscription has a text with blanks around it.\<close>

lemma exact_matches_untrimmed:
  assumes inv: "broker_inv b" and t: "trim t \<noteq> t"
  shows "exact_matches (b_router b) t = []"
proof -
  have "set (exact_matches (b_router b) t) = in_exact (patterns_of (b_registry b)) t"
    using inv by (simp add: broker_inv_def registry_inv_def routes_def)
  also have "\<dots> = {}"
    using t registry_pattern_wf [of "b_registry b"] inv
    by (auto simp: in_exact_def patterns_of_Some broker_inv_def pattern_wf_def)
  finally show ?thesis by simp
qed

lemma match_wildcards_ids:
  assumes "broker_inv b"
  shows "set (match_wildcards (b_router b) s) =
    {i. \<exists>u. get_ref b i = Some u \<and> has_wildcard (sub_pattern u) \<and> matches (sub_pattern u) s}"
  using routes_match_wildcards [of "b_router b" "patterns_of (b_registry b)" s] assms
  by (auto simp: broker_inv_def registry_inv_def patterns_of_Some)

end
