(* ===== verification/Broker_Batch.thy ===== *)
theory Broker_Batch
  imports Broker_Publish
begin

text \<open>
  \<open>publish_batch\<close>: the two caches of stage 1 are transparent, the pending map holds for each
  fan-out subscription its messages in publication order, and the flush delivers a prefix of
  them whatever the iteration order of the map.
\<close>

section \<open>Stage 1\<close>

definition cache_sound :: "'h broker \<Rightarrow> batch_state \<Rightarrow> bool" where
  "cache_sound b st \<longleftrightarrow>
     (\<forall>s ids. last_match st = Some (s, ids) \<longrightarrow> ids = engine_match_subject (b_router b) s) \<and>
     (\<forall>i c q. (i, c, q) \<in> set (sub_cache st) \<longrightarrow>
        (\<exists>s. get_ref b i = Some s \<and> c = sub_connection_id s \<and> q = (sub_queue_group_key s \<noteq> None)))"

lemma cache_sound_frame: "broker_frame b b' \<Longrightarrow> cache_sound b' st = cache_sound b st"
  by (simp add: broker_frame_def cache_sound_def)

lemma cached_info_sound:
  assumes c: "cache_sound b st" and i: "cached_info b i st = (r, st')"
  shows "r = map_option (\<lambda>s. (sub_connection_id s, sub_queue_group_key s \<noteq> None)) (get_ref b i)"
    and "cache_sound b st'" and "pending st' = pending st" and "last_match st' = last_match st"
proof -
  have "find (\<lambda>(j, _, _). j = i) (sub_cache st) = Some (j, x, q) \<Longrightarrow> j = i \<and> (i, x, q) \<in> set (sub_cache st)" for j x q
    by (auto simp: find_Some_iff in_set_conv_nth)
  with c i show "r = map_option (\<lambda>s. (sub_connection_id s, sub_queue_group_key s \<noteq> None)) (get_ref b i)"
    by (fastforce simp: cached_info_def cache_sound_def Let_def split: option.splits prod.splits)
  from c i show "cache_sound b st'" "pending st' = pending st" "last_match st' = last_match st"
    by (auto simp: cached_info_def cache_sound_def Let_def split: option.splits prod.splits)
qed

definition pend :: "batch_state \<Rightarrow> subscription_id \<Rightarrow> delivery_message list" where
  "pend st i = (case map_of (pending st) i of None \<Rightarrow> [] | Some ds \<Rightarrow> ds)"

lemma map_of_push:
  "map_of (push_pending i d ps) j =
     (if j = i then Some ((case map_of ps i of None \<Rightarrow> [] | Some ds \<Rightarrow> ds) @ [d]) else map_of ps j)"
  by (induction ps rule: push_pending.induct) auto

lemma keys_push: "fst ` set (push_pending i d ps) = insert i (fst ` set ps)"
  by (induction i d ps rule: push_pending.induct) auto

lemma distinct_push: "distinct (map fst ps) \<Longrightarrow> distinct (map fst (push_pending i d ps))"
  by (induction i d ps rule: push_pending.induct) (auto simp: keys_push image_iff [symmetric])

text \<open>Well-formed pending map: one non-empty entry for each fan-out subscription in it.\<close>

definition pending_wf :: "'h broker \<Rightarrow> batch_state \<Rightarrow> bool" where
  "pending_wf b st \<longleftrightarrow>
     distinct (map fst (pending st)) \<and>
     (\<forall>(i, ds) \<in> set (pending st).
        ds \<noteq> [] \<and> (\<exists>s. get_ref b i = Some s \<and> sub_queue_group_key s = None) \<and>
        (\<forall>d \<in> set ds. d_subscription_id d = i))"

lemma set_push:
  "x \<in> set (push_pending i d ps) \<Longrightarrow>
     x \<in> set ps \<or> x = (i, [d]) \<or> (\<exists>ds. (i, ds) \<in> set ps \<and> x = (i, ds @ [d]))"
  by (induction i d ps rule: push_pending.induct) (auto split: if_splits)

lemma pending_wf_frame: "broker_frame b b' \<Longrightarrow> pending_wf b' st = pending_wf b st"
  by (simp add: broker_frame_def pending_wf_def)

text \<open>What stage 1 should queue for a subscription.\<close>

definition wants :: "'h broker \<Rightarrow> subscription_id \<Rightarrow> publish_item \<Rightarrow> bool" where
  "wants b i it \<longleftrightarrow> i \<in> set (engine_match_subject (b_router b) (i_subject it))"

definition is_fanout :: "'h broker \<Rightarrow> subscription_id \<Rightarrow> bool" where
  "is_fanout b i \<longleftrightarrow> (\<exists>s. get_ref b i = Some s \<and> sub_queue_group_key s = None)"

definition batch_msgs :: "'h broker \<Rightarrow> subscription_id \<Rightarrow> publish_item list \<Rightarrow> delivery_message list" where
  "batch_msgs b i items =
     (if is_fanout b i then
        map (\<lambda>it. make_delivery i (sub_connection_id (the (get_ref b i))) (item_message it))
          (filter (wants b i) items)
      else [])"

lemma batch_match_pend:
  assumes inv: "broker_inv b" and c: "cache_sound b st" and p: "pending_wf b st"
    and m: "batch_match dv it i (st, b, w) = (st', b', w')"
  shows "cache_sound b st'" "pending_wf b st'" "last_match st' = last_match st"
    and "pend st' j = pend st j @ (if j = i \<and> is_fanout b i then
          [make_delivery i (sub_connection_id (the (get_ref b i))) (item_message it)] else [])"
    and "is_fanout b i \<longrightarrow> b' = b \<and> w' = w"
    and "\<not> is_fanout b i \<longrightarrow> get_ref b i \<noteq> None \<longrightarrow> (b', w') = deliver_matches dv (item_message it) [i] (b, w)"
    and "get_ref b i = None \<longrightarrow> b' = b \<and> w' = w"
proof -
  obtain r st1 where ci: "cached_info b i st = (r, st1)" by fastforce
  note cs = cached_info_sound [OF c ci]
  have pw1: "pending_wf b st1" using p cs(3) by (simp add: pending_wf_def)
  have "cache_sound b st' \<and> pending_wf b st' \<and> last_match st' = last_match st \<and>
      pend st' j = pend st j @ (if j = i \<and> is_fanout b i then
          [make_delivery i (sub_connection_id (the (get_ref b i))) (item_message it)] else []) \<and>
      (is_fanout b i \<longrightarrow> b' = b \<and> w' = w) \<and>
      (\<not> is_fanout b i \<longrightarrow> get_ref b i \<noteq> None \<longrightarrow> (b', w') = deliver_matches dv (item_message it) [i] (b, w)) \<and>
      (get_ref b i = None \<longrightarrow> b' = b \<and> w' = w)"
  proof (cases "is_fanout b i")
    case True
    then obtain s where s: "get_ref b i = Some s" "sub_queue_group_key s = None" by (auto simp: is_fanout_def)
    let ?d = "make_delivery i (sub_connection_id s) (item_message it)"
    have st': "st' = st1\<lparr>pending := push_pending i ?d (pending st1)\<rparr>" and "b' = b" "w' = w"
      using m ci cs(1) s by (auto simp: batch_match_def)
    moreover have "pending_wf b st'"
      using pw1 s distinct_push [of "pending st1" i ?d] unfolding pending_wf_def st'
      by (fastforce simp: make_delivery_def dest!: set_push)
    ultimately show ?thesis using True cs s by (auto simp: pend_def map_of_push cache_sound_def)
  next
    case False
    show ?thesis
    proof (cases "get_ref b i")
      case None
      with m ci cs(1) have "st' = st1" "b' = b" "w' = w" by (auto simp: batch_match_def)
      with False None cs pw1 show ?thesis by (simp add: pend_def)
    next
      case (Some s)
      with False have "sub_queue_group_key s \<noteq> None" by (auto simp: is_fanout_def)
      with m ci cs(1) Some have "st' = st1" "(b', w') = deliver_matches dv (item_message it) [i] (b, w)"
        by (auto simp: batch_match_def)
      with False Some cs pw1 show ?thesis by (simp add: pend_def)
    qed
  qed
  then show "cache_sound b st'" "pending_wf b st'" "last_match st' = last_match st"
    "pend st' j = pend st j @ (if j = i \<and> is_fanout b i then
          [make_delivery i (sub_connection_id (the (get_ref b i))) (item_message it)] else [])"
    "is_fanout b i \<longrightarrow> b' = b \<and> w' = w"
    "\<not> is_fanout b i \<longrightarrow> get_ref b i \<noteq> None \<longrightarrow> (b', w') = deliver_matches dv (item_message it) [i] (b, w)"
    "get_ref b i = None \<longrightarrow> b' = b \<and> w' = w" by blast+
qed

lemma is_fanout_frame: "broker_frame b b' \<Longrightarrow> is_fanout b' i = is_fanout b i"
  by (simp add: is_fanout_def broker_frame_def)

lemma batch_matches_pend:
  assumes "broker_inv b" and "cache_sound b st" and "pending_wf b st" and "distinct is"
    and "fold (batch_match dv it) is (st, b, w) = (st', b', w')"
  shows "cache_sound b st' \<and> pending_wf b st' \<and> last_match st' = last_match st \<and>
     (\<forall>j. pend st' j = pend st j @ (if j \<in> set is \<and> is_fanout b j then
        [make_delivery j (sub_connection_id (the (get_ref b j))) (item_message it)] else []))"
  using assms
proof (induction "is" arbitrary: st b w)
  case (Cons i js)
  obtain st1 b1 w1 where m: "batch_match dv it i (st, b, w) = (st1, b1, w1)"
    by (cases "batch_match dv it i (st, b, w)")
  note one = batch_match_pend [OF Cons.prems(1-3) m]
  have f: "broker_inv b1" "broker_frame b b1" using batch_match_inv [OF Cons.prems(1) m] by simp_all
  have reg: "b_registry b1 = b_registry b" using f(2) by (simp add: broker_frame_def)
  have "cache_sound b st' \<and> pending_wf b st' \<and> last_match st' = last_match st1 \<and>
     (\<forall>j. pend st' j = pend st1 j @ (if j \<in> set js \<and> is_fanout b j then
        [make_delivery j (sub_connection_id (the (get_ref b j))) (item_message it)] else []))"
    using Cons.IH [OF f(1), of st1 w1] one(1,2) Cons.prems(4,5) m
    by (simp add: cache_sound_frame [OF f(2)] pending_wf_frame [OF f(2)] is_fanout_frame [OF f(2)] reg)
  with one(3,4) Cons.prems(4) show ?case by auto
qed simp

lemma batch_items_pend:
  assumes "broker_inv b" and "cache_sound b st" and "pending_wf b st"
    and "fold (batch_item dv) items (st, b, w) = (st', b', w')"
  shows "pending_wf b st' \<and> (\<forall>j. pend st' j = pend st j @ batch_msgs b j items)"
  using assms
proof (induction items arbitrary: st b w)
  case (Cons it items)
  let ?st = "st\<lparr>last_match := Some (i_subject it, item_ids b it st)\<rparr>"
  obtain st1 b1 w1 where m: "batch_item dv it (st, b, w) = (st1, b1, w1)"
    by (cases "batch_item dv it (st, b, w)")
  have ids: "item_ids b it st = engine_match_subject (b_router b) (i_subject it)"
    using Cons.prems(2) by (auto simp: item_ids_def cache_sound_def split: option.split)
  have call: "fold (batch_match dv it) (item_ids b it st) (?st, b, w) = (st1, b1, w1)"
    using m by (simp add: batch_item_fold)
  have d: "distinct (item_ids b it st)"
    unfolding ids using Cons.prems(1) engine.distinct_lookup by (auto simp: broker_inv_def registry_inv_def)
  have c: "cache_sound b ?st" "pending_wf b ?st"
    using Cons.prems(2,3) by (simp_all add: cache_sound_def pending_wf_def ids)
  note one = batch_matches_pend [OF Cons.prems(1) c d call]
  have f: "broker_inv b1" "broker_frame b b1" using batch_matches_inv [OF Cons.prems(1) call] by simp_all
  have reg: "b_registry b1 = b_registry b" using f(2) by (simp add: broker_frame_def)
  have "wants b1 j = wants b j" for j by (simp add: wants_def reg fun_eq_iff)
  then have msgs: "batch_msgs b1 j its = batch_msgs b j its" for j its
    by (simp add: batch_msgs_def is_fanout_frame [OF f(2)] reg)
  have "pending_wf b st' \<and> (\<forall>j. pend st' j = pend st1 j @ batch_msgs b j items)"
    using Cons.IH [OF f(1), of st1 w1] one Cons.prems(4) m
    by (simp add: cache_sound_frame [OF f(2)] pending_wf_frame [OF f(2)] msgs)
  with one show ?case by (auto simp: batch_msgs_def wants_def ids pend_def)
qed (simp add: batch_msgs_def)

section \<open>Attempts are counted\<close>

definition queued :: "batch_state \<Rightarrow> nat" where
  "queued st = sum_list (map (\<lambda>e. length (snd e)) (pending st))"

lemma queued_push:
  "sum_list (map (\<lambda>e. length (snd e)) (push_pending i d ps)) = Suc (sum_list (map (\<lambda>e. length (snd e)) ps))"
  by (induction i d ps rule: push_pending.induct) simp_all

text \<open>A single match of a queue group is delivered to one member.\<close>

lemma targets_single_group:
  assumes inv: "broker_inv b" and i: "get_ref b i = Some s" "sub_queue_group_key s \<noteq> None"
    and t: "targets b [i] = (ts, gs)"
  shows "length ts = 1" and "set ts \<subseteq> group_subs b (the (key_of_sub s))"
proof -
  obtain a where a: "group_key_of (b_registry b) i = Some a" using i by (auto simp: group_key_of_def)
  then have plan: "plan_groups (b_registry b) [i] = [a]" "plan_fanout (b_registry b) [i] = []"
    by (simp_all add: plan_groups_def plan_fanout_def List.map_filter_simps)
  then obtain "is" where p: "pick_all (map arc_val (plan_groups (b_registry b) [i])) (queue_groups b) = (is, gs)"
    and ts: "ts = is" using t by (auto simp: targets_def split: prod.splits)
  have "list_all2 (\<lambda>k i. i \<in> group_subs b k) [arc_val a] ts"
    using picks_of_plan [OF inv p] by (simp add: plan ts)
  moreover have "key_of_sub s = Some (arc_val a)" using group_key_of_sub [OF inv i(1)] a by simp
  ultimately show "length ts = 1" "set ts \<subseteq> group_subs b (the (key_of_sub s))"
    by (auto simp: list_all2_Cons1)
qed

lemma deliver_single_counted:
  assumes inv: "broker_inv b" and i: "get_ref b i = Some s" "sub_queue_group_key s \<noteq> None"
    and d: "deliver_matches dv m [i] (b, w) = (b', w')"
  shows "\<exists>ok bad. ok + bad = 1 \<and> counted ok bad b b'"
proof -
  obtain ts gs where t: "targets b [i] = (ts, gs)" by fastforce
  note ts = targets_single_group [OF inv i t]
  have "deliver_each dv m ts (b\<lparr>queue_groups := gs\<rparr>, w) = (b', w')"
    using d by (simp add: deliver_matches_targets [OF broker_inv_interned [OF inv]] t)
  moreover have "\<forall>j \<in> set ts. get_ref (b\<lparr>queue_groups := gs\<rparr>) j \<noteq> None"
    using ts(2) by (auto simp: group_subs_def)
  ultimately obtain ok where "ok \<le> 1" "counted ok (1 - ok) (b\<lparr>queue_groups := gs\<rparr>) b'"
    using deliver_each_counted [of ts "b\<lparr>queue_groups := gs\<rparr>" dv m w b' w'] ts(1) by auto
  then show ?thesis by (intro exI [of _ ok] exI [of _ "1 - ok"]) (simp add: counted_def)
qed

lemma batch_match_counted:
  assumes inv: "broker_inv b" and c: "cache_sound b st" and p: "pending_wf b st"
    and i: "get_ref b i \<noteq> None" and m: "batch_match dv it i (st, b, w) = (st', b', w')"
  shows "\<exists>ok bad. queued st' + ok + bad = Suc (queued st) \<and> counted ok bad b b'"
proof -
  obtain r st1 where ci: "cached_info b i st = (r, st1)" by fastforce
  note cs = cached_info_sound [OF c ci]
  obtain s where s: "get_ref b i = Some s" using i by auto
  show ?thesis
  proof (cases "sub_queue_group_key s")
    case None
    then have "b' = b" "queued st' = Suc (queued st)"
      using m ci cs s by (auto simp: batch_match_def queued_def queued_push)
    then show ?thesis by (intro exI [of _ 0]) (simp add: counted_refl)
  next
    case (Some a)
    then have st': "st' = st1" and d: "deliver_matches dv (item_message it) [i] (b, w) = (b', w')"
      using m ci cs s by (auto simp: batch_match_def)
    have "queued st' = queued st" using cs(3) st' by (simp add: queued_def)
    with deliver_single_counted [OF inv s _ d] Some show ?thesis by auto
  qed
qed

lemma batch_matches_counted:
  assumes "broker_inv b" and "cache_sound b st" and "pending_wf b st"
    and "\<forall>i \<in> set is. get_ref b i \<noteq> None"
    and "fold (batch_match dv it) is (st, b, w) = (st', b', w')"
  shows "\<exists>ok bad. queued st' + ok + bad = queued st + length is \<and> counted ok bad b b'"
  using assms
proof (induction "is" arbitrary: st b w)
  case (Cons i js)
  obtain st1 b1 w1 where m: "batch_match dv it i (st, b, w) = (st1, b1, w1)"
    by (cases "batch_match dv it i (st, b, w)")
  have f: "broker_inv b1" "broker_frame b b1" using batch_match_inv [OF Cons.prems(1) m] by simp_all
  have reg: "b_registry b1 = b_registry b" using f(2) by (simp add: broker_frame_def)
  have "cache_sound b1 st1" "pending_wf b1 st1"
    using batch_match_pend(1,2) [OF Cons.prems(1-3) m] by (simp_all add: cache_sound_frame [OF f(2)] pending_wf_frame [OF f(2)])
  from Cons.IH [OF f(1) this, of w1] Cons.prems(4,5) m reg obtain ok bad where
    2: "queued st' + ok + bad = queued st1 + length js" "counted ok bad b1 b'" by auto
  from batch_match_counted [OF Cons.prems(1-3) _ m] Cons.prems(4) obtain ok1 bad1 where
    1: "queued st1 + ok1 + bad1 = Suc (queued st)" "counted ok1 bad1 b b1" by auto
  from 1(1) 2(1) have "queued st' + (ok1 + ok) + (bad1 + bad) = queued st + length (i # js)" by simp
  with counted_trans [OF 1(2) 2(2)] show ?case by blast
qed (auto intro: exI [of _ 0] simp: counted_refl)

lemma match_ids_live:
  "broker_inv b \<Longrightarrow> subject_wf s \<Longrightarrow> i \<in> set (engine_match_subject (b_router b) s) \<Longrightarrow> get_ref b i \<noteq> None"
  using set_match_ids(1) [of b s] by (auto simp: matching_def)

definition fan_size :: "'h broker \<Rightarrow> publish_item \<Rightarrow> nat" where
  "fan_size b it = length (engine_match_subject (b_router b) (i_subject it))"

lemma batch_items_counted:
  assumes "broker_inv b" and "cache_sound b st" and "pending_wf b st"
    and "\<forall>it \<in> set items. subject_wf (i_subject it)"
    and "fold (batch_item dv) items (st, b, w) = (st', b', w')"
  shows "\<exists>ok bad. queued st' + ok + bad = queued st + sum_list (map (fan_size b) items) \<and> counted ok bad b b'"
  using assms
proof (induction items arbitrary: st b w)
  case (Cons it items)
  let ?st = "st\<lparr>last_match := Some (i_subject it, item_ids b it st)\<rparr>"
  obtain st1 b1 w1 where m: "batch_item dv it (st, b, w) = (st1, b1, w1)"
    by (cases "batch_item dv it (st, b, w)")
  have ids: "item_ids b it st = engine_match_subject (b_router b) (i_subject it)"
    using Cons.prems(2) by (auto simp: item_ids_def cache_sound_def split: option.split)
  have call: "fold (batch_match dv it) (item_ids b it st) (?st, b, w) = (st1, b1, w1)"
    using m by (simp add: batch_item_fold)
  have d: "distinct (item_ids b it st)"
    unfolding ids using Cons.prems(1) engine.distinct_lookup by (auto simp: broker_inv_def registry_inv_def)
  have c: "cache_sound b ?st" "pending_wf b ?st" "queued ?st = queued st"
    using Cons.prems(2,3) by (simp_all add: cache_sound_def pending_wf_def ids queued_def)
  have f: "broker_inv b1" "broker_frame b b1" using batch_matches_inv [OF Cons.prems(1) call] by simp_all
  have fan: "fan_size b1 = fan_size b" using f(2) by (simp add: fan_size_def broker_frame_def fun_eq_iff)
  have live: "\<forall>i \<in> set (item_ids b it st). get_ref b i \<noteq> None"
    using match_ids_live [OF Cons.prems(1)] Cons.prems(4) by (auto simp: ids)
  have cp: "cache_sound b1 st1" "pending_wf b1 st1"
    using batch_matches_pend [OF Cons.prems(1) c(1,2) d call]
    by (simp_all add: cache_sound_frame [OF f(2)] pending_wf_frame [OF f(2)])
  from batch_matches_counted [OF Cons.prems(1) c(1,2) live call] obtain ok1 bad1 where
    1: "queued st1 + ok1 + bad1 = queued st + fan_size b it" "counted ok1 bad1 b b1"
    by (auto simp: c(3) [unfolded ids] ids fan_size_def)
  from Cons.IH [OF f(1) cp, of w1] Cons.prems(4,5) m obtain ok bad where
    2: "queued st' + ok + bad = queued st1 + sum_list (map (fan_size b) items)" "counted ok bad b1 b'"
    by (auto simp: fan)
  from 1(1) 2(1) have "queued st' + (ok1 + ok) + (bad1 + bad) = queued st + sum_list (map (fan_size b) (it # items))"
    by simp
  with counted_trans [OF 1(2) 2(2)] show ?case by blast
qed (auto intro: exI [of _ 0] simp: counted_refl)

section \<open>Stage 2\<close>

definition reliable :: "('h, 'w) deliverer \<Rightarrow> bool" where
  "reliable dv \<longleftrightarrow> (\<forall>h m w. fst (dv h m w) = Delivered)"

lemma deliver_batch_reliable:
  assumes "reliable dv"
  shows "deliver_batch dv h ms w = (n, w') \<Longrightarrow> n = length ms"
proof (induction ms arbitrary: n w)
  case (Cons m ms)
  obtain w1 where d: "dv h m w = (Delivered, w1)"
    using assms by (metis reliable_def prod.collapse)
  from Cons show ?case by (auto simp: d split: prod.splits)
qed simp

text \<open>How many messages of an entry the flush gets through.\<close>

lemma flush_pending_deliver:
  assumes s: "get_ref b i = Some s" and ds: "ds \<noteq> []" and f: "flush_pending dv (i, ds) (b, w) = (b', w')"
  obtains n where "deliver_batch dv (sub_delivery s) ds w = (n, w')" and "b' = count_batch n (length ds) b"
proof (cases "length ds = 1")
  case True
  then obtain d where d: "ds = [d]" by (cases ds) auto
  obtain st w1 where st: "dv (sub_delivery s) d w = (st, w1)" by fastforce
  with s f d show thesis
    by (intro that [of "case st of Delivered \<Rightarrow> 1 | _ \<Rightarrow> 0"])
      (auto simp: flush_pending_def split: delivery_status.split)
next
  case False
  obtain n w1 where "deliver_batch dv (sub_delivery s) ds w = (n, w1)" by fastforce
  with False s f show thesis by (intro that [of n]) (auto simp: flush_pending_def)
qed

lemma flush_all_counted:
  assumes "\<forall>(i, ds) \<in> set es. ds \<noteq> [] \<and> get_ref b i \<noteq> None"
    and "fold (flush_pending dv) es (b, w) = (b', w')"
  shows "\<exists>ok bad. ok + bad = sum_list (map (\<lambda>e. length (snd e)) es) \<and> counted ok bad b b'"
  using assms
proof (induction es arbitrary: b w)
  case (Cons e es)
  obtain i ds where e: "e = (i, ds)" by fastforce
  obtain b1 w1 where d: "flush_pending dv (i, ds) (b, w) = (b1, w1)" by fastforce
  obtain s where s: "get_ref b i = Some s" and ne: "ds \<noteq> []" using Cons.prems(1) e by auto
  from flush_pending_deliver [OF s ne d] obtain n where
    n: "deliver_batch dv (sub_delivery s) ds w = (n, w1)" "b1 = count_batch n (length ds) b" .
  have 1: "n + (length ds - n) = length ds" "counted n (length ds - n) b b1"
    using deliver_batch_le [OF n(1)] by (simp_all add: n(2) counted_def count_batch_def metrics_defs)
  have "b_registry b1 = b_registry b" by (simp add: n(2) count_batch_def)
  with Cons.IH [of b1 w1] Cons.prems d e
  have "\<exists>ok bad. ok + bad = sum_list (map (\<lambda>e. length (snd e)) es) \<and> counted ok bad b1 b'" by simp
  then obtain ok bad where 2: "ok + bad = sum_list (map (\<lambda>e. length (snd e)) es)" "counted ok bad b1 b'" by blast
  have "(n + ok) + ((length ds - n) + bad) = sum_list (map (\<lambda>e. length (snd e)) (e # es))"
    using 1(1) 2(1) e by simp
  with counted_trans [OF 1(2) 2(2)] show ?case by blast
qed (auto intro: exI [of _ 0] simp: counted_refl)

lemma iter_pending:
  fixes xs ps :: "(subscription_id \<times> delivery_message list) list"
  assumes "mset xs = mset ps"
  shows "sum_list (map (\<lambda>e. length (snd e)) xs) = sum_list (map (\<lambda>e. length (snd e)) ps)"
    and "set xs = set ps" and "distinct (map fst xs) = distinct (map fst ps)"
proof -
  have "sum_mset (mset (map (\<lambda>e. length (snd e)) xs)) = sum_mset (mset (map (\<lambda>e. length (snd e)) ps))"
    using assms by simp
  then show "sum_list (map (\<lambda>e. length (snd e)) xs) = sum_list (map (\<lambda>e. length (snd e)) ps)"
    by (simp only: sum_mset_sum_list)
  show "set xs = set ps" using assms by (rule mset_eq_setD)
  have "mset (map fst xs) = mset (map fst ps)" using assms by simp
  then show "distinct (map fst xs) = distinct (map fst ps)" by (rule mset_eq_imp_distinct_iff)
qed

lemma initial_batch_state:
  "cache_sound b \<lparr>pending = [], last_match = None, sub_cache = []\<rparr>"
  "pending_wf b \<lparr>pending = [], last_match = None, sub_cache = []\<rparr>"
  "queued \<lparr>pending = [], last_match = None, sub_cache = []\<rparr> = 0"
  "pend \<lparr>pending = [], last_match = None, sub_cache = []\<rparr> i = []"
  by (simp_all add: cache_sound_def pending_wf_def queued_def pend_def)

lemma publish_batch_stages_counted:
  assumes inv: "broker_inv b" and wf: "\<forall>it \<in> set items. subject_wf (i_subject it)"
    and iter: "\<And>ps. mset (iter ps) = mset ps"
    and p: "publish_batch_stages dv iter items (b, w) = (b', w')"
  shows "\<exists>ok bad. ok + bad = sum_list (map (fan_size b) items) \<and> counted ok bad b b'"
proof -
  obtain st b1 w1 where s1: "fold (batch_item dv) items (\<lparr>pending = [], last_match = None, sub_cache = []\<rparr>, b, w)
      = (st, b1, w1)" by (cases "fold (batch_item dv) items (\<lparr>pending = [], last_match = None, sub_cache = []\<rparr>, b, w)")
  have s2: "fold (flush_pending dv) (iter (pending st)) (b1, w1) = (b', w')"
    using p s1 by (simp add: publish_batch_stages_def)
  from batch_items_counted [OF inv initial_batch_state(1,2) wf s1] obtain ok1 bad1 where
    1: "queued st + ok1 + bad1 = sum_list (map (fan_size b) items)" "counted ok1 bad1 b b1"
    by (auto simp: initial_batch_state)
  have reg: "b_registry b1 = b_registry b" using batch_items_inv [OF inv s1] by (simp add: broker_frame_def)
  have "pending_wf b st" using batch_items_pend [OF inv initial_batch_state(1,2) s1] by simp
  then have "\<forall>(i, ds) \<in> set (iter (pending st)). ds \<noteq> [] \<and> get_ref b1 i \<noteq> None"
    by (fastforce simp: pending_wf_def iter_pending(2) [OF iter [of "pending st"]] reg)
  from flush_all_counted [OF this s2] obtain ok bad where
    2: "ok + bad = queued st" "counted ok bad b1 b'"
    unfolding iter_pending(1) [OF iter [of "pending st"]] queued_def by blast
  have "(ok1 + ok) + (bad1 + bad) = sum_list (map (fan_size b) items)" using 1(1) 2(1) by simp
  with counted_trans [OF 1(2) 2(2)] show ?thesis by blast
qed

lemma batch_single_fan:
  assumes inv: "broker_inv b" and s: "batch_single items b = Some (i, sub)" and it: "it \<in> set items"
  shows "engine_match_subject (b_router b) (i_subject it) = [i]"
proof -
  have "i_subject it = i_subject (hd items)" and "\<not> has_wildcards (b_router b)"
    and ex: "exact_single_subscriber (b_router b) (i_subject (hd items)) = Some i"
    using s it by (auto simp: batch_single_def router_has_wildcards_def list_all_iff split: if_splits option.splits)
  moreover from ex have "exact_matches (b_router b) (s_raw (i_subject (hd items))) = [i]"
    by (auto simp: exact_single_subscriber_def exact_matches_def length_Suc_conv split: option.splits if_splits)
  ultimately show ?thesis by (simp add: engine_match_subject_def)
qed

lemma publish_batch_counted:
  assumes inv: "broker_inv b" and wf: "\<forall>it \<in> set items. subject_wf (i_subject it)"
    and iter: "\<And>ps. mset (iter ps) = mset ps"
    and p: "publish_batch dv iter items (b, w) = (b', w')"
  shows "\<exists>ok bad. ok + bad = sum_list (map (fan_size b) items) \<and>
     b_metrics b' = (b_metrics b)\<lparr>messages_published := messages_published (b_metrics b) + of_nat (length items),
       messages_delivered := messages_delivered (b_metrics b) + of_nat ok,
       messages_dropped := messages_dropped (b_metrics b) + of_nat bad\<rparr>"
proof (cases "items = []")
  case True
  with p show ?thesis by (auto simp: publish_batch_def)
next
  case False
  let ?b = "b\<lparr>b_metrics := inc_published_by (of_nat (length items)) (b_metrics b)\<rparr>"
  have inv1: "broker_inv ?b" by (rule published_inv [OF inv])
  have fan: "fan_size ?b = fan_size b" by (simp add: fan_size_def fun_eq_iff)
  have "\<exists>ok bad. ok + bad = sum_list (map (fan_size b) items) \<and> counted ok bad ?b b'"
  proof (cases "batch_single items ?b")
    case None
    with p False have "publish_batch_stages dv iter items (?b, w) = (b', w')" by (simp add: publish_batch_def)
    from publish_batch_stages_counted [OF inv1 wf iter this] show ?thesis by (simp add: fan)
  next
    case (Some x)
    then obtain i sub where x: "batch_single items ?b = Some (i, sub)" by (cases x) auto
    let ?ms = "map (\<lambda>it. make_delivery i (sub_connection_id sub) (item_message it)) items"
    obtain n w1 where n: "deliver_batch dv (sub_delivery sub) ?ms w = (n, w1)" by fastforce
    have b': "b' = count_batch n (length items) ?b" using p False x n by (simp add: publish_batch_def Let_def)
    have "\<forall>it \<in> set items. fan_size b it = 1"
      using batch_single_fan [OF inv1 x] by (auto simp: fan_size_def)
    then have "map (fan_size b) items = replicate (length items) 1" by (intro replicate_eqI) auto
    then have "sum_list (map (fan_size b) items) = length items" by (simp add: sum_list_replicate)
    moreover have "n \<le> length items" using deliver_batch_le [OF n] by simp
    ultimately show ?thesis
      by (intro exI [of _ n] exI [of _ "length items - n"])
        (simp add: b' counted_def count_batch_def metrics_defs)
  qed
  then show ?thesis by (auto simp: counted_def metrics_defs)
qed

section \<open>Order within a batch\<close>

context delivery_handle
begin

text \<open>Stage 1 delivers nothing to a fan-out subscription: its queue-group deliveries go elsewhere.\<close>

lemma batch_match_quiet:
  assumes inv: "broker_inv b" and c: "cache_sound b st" and p: "pending_wf b st" and j: "is_fanout b j"
    and m: "batch_match dv it i (st, b, w) = (st', b', w')"
  shows "for_sub j (log w' h) = for_sub j (log w h)"
proof (cases "\<not> is_fanout b i \<and> get_ref b i \<noteq> None")
  case True
  then obtain s where s: "get_ref b i = Some s" "sub_queue_group_key s \<noteq> None" by (auto simp: is_fanout_def)
  obtain ts gs where t: "targets b [i] = (ts, gs)" by fastforce
  have "deliver_matches dv (item_message it) [i] (b, w) = (b', w')"
    using batch_match_pend(6) [OF inv c p m] True by simp
  then have d: "deliver_each dv (item_message it) ts (b\<lparr>queue_groups := gs\<rparr>, w) = (b', w')"
    by (simp add: deliver_matches_targets [OF broker_inv_interned [OF inv]] t)
  have "j \<notin> set ts"
    using targets_single_group(2) [OF inv s t] j keys_ok_sub [of b j] inv
    by (fastforce simp: group_subs_def is_fanout_def broker_inv_def)
  from deliver_each_other [OF d this] show ?thesis .
next
  case False
  then have "w' = w" using batch_match_pend(5,7) [OF inv c p m] by blast
  then show ?thesis by simp
qed

lemma batch_matches_quiet:
  assumes "broker_inv b" and "cache_sound b st" and "pending_wf b st" and "is_fanout b j"
    and "fold (batch_match dv it) is (st, b, w) = (st', b', w')"
  shows "for_sub j (log w' h) = for_sub j (log w h)"
  using assms
proof (induction "is" arbitrary: st b w)
  case (Cons i js)
  obtain st1 b1 w1 where m: "batch_match dv it i (st, b, w) = (st1, b1, w1)"
    by (cases "batch_match dv it i (st, b, w)")
  have f: "broker_inv b1" "broker_frame b b1" using batch_match_inv [OF Cons.prems(1) m] by simp_all
  have "cache_sound b1 st1" "pending_wf b1 st1" "is_fanout b1 j"
    using batch_match_pend(1,2) [OF Cons.prems(1-3) m] Cons.prems(4)
    by (simp_all add: cache_sound_frame [OF f(2)] pending_wf_frame [OF f(2)] is_fanout_frame [OF f(2)])
  from Cons.IH [OF f(1) this, of w1] Cons.prems(5) m batch_match_quiet [OF Cons.prems(1-4) m]
  show ?case by simp
qed simp

lemma batch_items_quiet:
  assumes "broker_inv b" and "cache_sound b st" and "pending_wf b st" and "is_fanout b j"
    and "fold (batch_item dv) items (st, b, w) = (st', b', w')"
  shows "for_sub j (log w' h) = for_sub j (log w h)"
  using assms
proof (induction items arbitrary: st b w)
  case (Cons it items)
  let ?st = "st\<lparr>last_match := Some (i_subject it, item_ids b it st)\<rparr>"
  obtain st1 b1 w1 where m: "batch_item dv it (st, b, w) = (st1, b1, w1)"
    by (cases "batch_item dv it (st, b, w)")
  have ids: "item_ids b it st = engine_match_subject (b_router b) (i_subject it)"
    using Cons.prems(2) by (auto simp: item_ids_def cache_sound_def split: option.split)
  have call: "fold (batch_match dv it) (item_ids b it st) (?st, b, w) = (st1, b1, w1)"
    using m by (simp add: batch_item_fold)
  have d: "distinct (item_ids b it st)"
    unfolding ids using Cons.prems(1) engine.distinct_lookup by (auto simp: broker_inv_def registry_inv_def)
  have c: "cache_sound b ?st" "pending_wf b ?st"
    using Cons.prems(2,3) by (simp_all add: cache_sound_def pending_wf_def ids)
  have f: "broker_inv b1" "broker_frame b b1" using batch_matches_inv [OF Cons.prems(1) call] by simp_all
  have "cache_sound b1 st1" "pending_wf b1 st1" "is_fanout b1 j"
    using batch_matches_pend [OF Cons.prems(1) c d call] Cons.prems(4)
    by (simp_all add: cache_sound_frame [OF f(2)] pending_wf_frame [OF f(2)] is_fanout_frame [OF f(2)])
  from Cons.IH [OF f(1) this, of w1] Cons.prems(5) m batch_matches_quiet [OF Cons.prems(1) c Cons.prems(4) call]
  show ?case by simp
qed simp

text \<open>The flush puts a prefix of each entry on its handle, and nothing else for that subscription.\<close>

lemma flush_all_log:
  assumes "\<forall>(i, ds) \<in> set es. ds \<noteq> [] \<and> get_ref b i \<noteq> None \<and> (\<forall>d \<in> set ds. d_subscription_id d = i)"
    and "distinct (map fst es)" and "get_ref b j = Some s"
    and "fold (flush_pending dv) es (b, w) = (b', w')"
  shows "\<exists>n \<le> length (case_option [] id (map_of es j)).
     (reliable dv \<longrightarrow> n = length (case_option [] id (map_of es j))) \<and>
     for_sub j (log w' (sub_delivery s)) =
       for_sub j (log w (sub_delivery s)) @ take n (case_option [] id (map_of es j))"
  using assms
proof (induction es arbitrary: b w)
  case (Cons e es)
  obtain i ds where e: "e = (i, ds)" by fastforce
  obtain b1 w1 where d: "flush_pending dv (i, ds) (b, w) = (b1, w1)" by fastforce
  obtain t where t: "get_ref b i = Some t" and ne: "ds \<noteq> []" and to: "\<forall>d \<in> set ds. d_subscription_id d = i"
    using Cons.prems(1) e by auto
  from flush_pending_deliver [OF t ne d] obtain n where
    n: "deliver_batch dv (sub_delivery t) ds w = (n, w1)" "b1 = count_batch n (length ds) b" .
  have reg: "b_registry b1 = b_registry b" by (simp add: n(2) count_batch_def)
  have log1: "log w1 = (log w)(sub_delivery t := log w (sub_delivery t) @ take n ds)"
    by (rule deliver_batch_log [OF n(1)])
  let ?P = "case_option [] id (map_of es j)"
  from Cons.IH [of b1 w1] Cons.prems d e reg obtain k where k: "k \<le> length ?P"
    "reliable dv \<longrightarrow> k = length ?P"
    "for_sub j (log w' (sub_delivery s)) = for_sub j (log w1 (sub_delivery s)) @ take k ?P" by auto
  have sub: "d_subscription_id x = i" if "x \<in> set (take n ds)" for x using to that by (meson in_set_takeD)
  show ?case
  proof (cases "i = j")
    case True
    then have "map_of es j = None" using Cons.prems(2) e by (auto simp: map_of_eq_None_iff)
    moreover have "for_sub j (take n ds) = take n ds" using sub True by (auto intro: filter_True)
    ultimately show ?thesis
      using True e k(3) log1 deliver_batch_le [OF n(1)] deliver_batch_reliable [OF _ n(1)] Cons.prems(3) t
      by (intro exI [of _ n]) auto
  next
    case False
    then have "for_sub j (take n ds) = []" using sub by (auto simp: filter_empty_conv)
    with False e k log1 show ?thesis by (intro exI [of _ k]) (auto simp: fun_upd_def)
  qed
qed simp

text \<open>The fast path: all items are for one subscription.\<close>

lemma single_order:
  assumes inv: "broker_inv b" and s: "get_ref b j = Some s" "sub_queue_group_key s = None"
    and x: "batch_single items b = Some (i, sub)"
    and n: "deliver_batch dv (sub_delivery sub) (map (\<lambda>it. make_delivery i (sub_connection_id sub) (item_message it)) items) w = (n, w')"
  shows "\<exists>k \<le> length (batch_msgs b j items). (reliable dv \<longrightarrow> k = length (batch_msgs b j items)) \<and>
     for_sub j (log w' (sub_delivery s)) = for_sub j (log w (sub_delivery s)) @ take k (batch_msgs b j items)"
proof -
  let ?ms = "map (\<lambda>it. make_delivery i (sub_connection_id sub) (item_message it)) items"
  have sub: "get_ref b i = Some sub" "sub_queue_group_key sub = None"
    using x by (auto simp: batch_single_def split: if_splits option.splits)
  have log1: "log w' = (log w)(sub_delivery sub := log w (sub_delivery sub) @ take n ?ms)" by (rule deliver_batch_log [OF n])
  have ids: "d_subscription_id d = i" if "d \<in> set (take n ?ms)" for d
    using in_set_takeD [OF that] by (auto simp: make_delivery_def)
  have want: "it \<in> set items \<Longrightarrow> wants b j it \<longleftrightarrow> j = i" for it
    using batch_single_fan [OF inv x] by (simp add: wants_def)
  show ?thesis
  proof (cases "j = i")
    case True
    have "filter (wants b j) items = items" using want True by (simp add: filter_id_conv)
    then have "batch_msgs b j items = ?ms" using True sub by (simp add: batch_msgs_def is_fanout_def)
    moreover have "for_sub j (take n ?ms) = take n ?ms" using ids True by (intro filter_True) blast
    ultimately show ?thesis
      using True s sub log1 deliver_batch_le [OF n] deliver_batch_reliable [OF _ n]
      by (intro exI [of _ n]) simp
  next
    case False
    have "filter (wants b j) items = []" using want False by (simp add: filter_empty_conv)
    then have "batch_msgs b j items = []" by (simp add: batch_msgs_def)
    moreover have "for_sub j (take n ?ms) = []" using ids False by (auto simp: filter_empty_conv)
    ultimately show ?thesis using log1 by simp
  qed
qed

lemma publish_batch_order:
  assumes inv: "broker_inv b" and iter: "\<And>ps. mset (iter ps) = mset ps"
    and s: "get_ref b j = Some s" "sub_queue_group_key s = None"
    and p: "publish_batch dv iter items (b, w) = (b', w')"
  shows "\<exists>n \<le> length (batch_msgs b j items).
     (reliable dv \<longrightarrow> n = length (batch_msgs b j items)) \<and>
     for_sub j (log w' (sub_delivery s)) = for_sub j (log w (sub_delivery s)) @ take n (batch_msgs b j items)"
proof (cases "items = []")
  case True
  with p show ?thesis by (simp add: publish_batch_def batch_msgs_def)
next
  case False
  let ?b = "b\<lparr>b_metrics := inc_published_by (of_nat (length items)) (b_metrics b)\<rparr>"
  have inv1: "broker_inv ?b" by (rule published_inv [OF inv])
  have fan: "is_fanout ?b j" using s by (simp add: is_fanout_def)
  have "wants ?b j = wants b j" by (simp add: wants_def fun_eq_iff)
  then have msgs: "batch_msgs ?b j items = batch_msgs b j items" using s by (auto simp: batch_msgs_def is_fanout_def)
  show ?thesis
  proof (cases "batch_single items ?b")
    case None
    obtain st b1 w1 where s1: "fold (batch_item dv) items (\<lparr>pending = [], last_match = None, sub_cache = []\<rparr>, ?b, w)
        = (st, b1, w1)" by (cases "fold (batch_item dv) items (\<lparr>pending = [], last_match = None, sub_cache = []\<rparr>, ?b, w)")
    have s2: "fold (flush_pending dv) (iter (pending st)) (b1, w1) = (b', w')"
      using p False None s1 by (simp add: publish_batch_def publish_batch_stages_def)
    have reg: "b_registry b1 = b_registry b" using batch_items_inv [OF inv1 s1] by (simp add: broker_frame_def)
    note pw = batch_items_pend [OF inv1 initial_batch_state(1,2) s1, THEN conjunct1]
    have pj: "case_option [] id (map_of (pending st) j) = batch_msgs b j items"
      using batch_items_pend [OF inv1 initial_batch_state(1,2) s1, THEN conjunct2, THEN spec, of j]
      by (simp add: msgs initial_batch_state pend_def split: option.splits)
    have it: "set (iter (pending st)) = set (pending st)" "distinct (map fst (iter (pending st)))"
      using iter_pending(2,3) [OF iter [of "pending st"]] pw by (simp_all add: pending_wf_def)
    then have mo: "map_of (iter (pending st)) = map_of (pending st)"
      using pw by (simp add: pending_wf_def map_of_inject_set)
    have wf: "\<forall>(i, ds) \<in> set (iter (pending st)). ds \<noteq> [] \<and> get_ref b1 i \<noteq> None \<and>
        (\<forall>d \<in> set ds. d_subscription_id d = i)"
      using pw by (fastforce simp: pending_wf_def it(1) reg)
    from flush_all_log [OF wf it(2) _ s2, of j s] s(1) reg
    show ?thesis using batch_items_quiet [OF inv1 initial_batch_state(1,2) fan s1] by (simp add: mo pj)
  next
    case (Some x)
    then obtain i sub where x: "batch_single items ?b = Some (i, sub)" by (cases x) auto
    obtain n w1 where n: "deliver_batch dv (sub_delivery sub)
        (map (\<lambda>it. make_delivery i (sub_connection_id sub) (item_message it)) items) w = (n, w1)" by fastforce
    have w': "w' = w1" using p False x n by (simp add: publish_batch_def Let_def)
    have s1: "get_ref ?b j = Some s" using s(1) by simp
    from single_order [OF inv1 s1 s(2) x n] show ?thesis by (simp only: msgs w')
  qed
qed

end

end
