(* ===== verification/Broker_Groups.thy ===== *)
theory Broker_Groups
  imports Broker_Batch
begin

text \<open>
  How often a queue group is served.  \<open>publish\<close> serves it once for each run of its members among the matches;
  \<open>publish_batch\<close> picks once for each matching member, so that a full turn of the round robin gives the message to all.
\<close>

section \<open>Runs of a group among the matches\<close>

lemma remdups_adj_map_inj_on: "inj_on f (set xs) \<Longrightarrow> remdups_adj (map f xs) = map f (remdups_adj xs)"
  by (induction xs rule: remdups_adj.induct) (auto simp: inj_on_def)

lemma map_filter_map_option: "List.map_filter (\<lambda>i. map_option f (g i)) xs = map f (List.map_filter g xs)"
  by (induction xs) (auto simp: List.map_filter_simps split: option.split)

definition group_runs :: "'h broker \<Rightarrow> subscription_id list \<Rightarrow> queue_group_key list" where
  "group_runs b ids = remdups_adj (List.map_filter (\<lambda>i. Option.bind (get_ref b i) key_of_sub) ids)"

lemma plan_group_runs:
  assumes inv: "broker_inv b"
  shows "map arc_val (plan_groups (b_registry b) ids) = group_runs b ids"
proof -
  let ?ks = "List.map_filter (group_key_of (b_registry b)) ids"
  have "Option.bind (get_ref b i) key_of_sub = map_option arc_val (group_key_of (b_registry b) i)" for i
    using group_key_of_sub [OF inv, of i] by (cases "get_ref b i") (simp_all add: group_key_of_def)
  then have "List.map_filter (\<lambda>i. Option.bind (get_ref b i) key_of_sub) ids = map arc_val ?ks"
    by (simp only: map_filter_map_option)
  moreover have "inj_on arc_val (set ?ks)"
  proof (rule inj_onI)
    fix a a' assume "a \<in> set ?ks" "a' \<in> set ?ks" "arc_val a = arc_val a'"
    moreover have "queue_group_keys b (arc_val x) = Some x" if x: "x \<in> set ?ks" for x
    proof -
      obtain i s where s: "get_ref b i = Some s" "sub_queue_group_key s = Some x" "key_of_sub s = Some (arc_val x)"
        using x group_key_of_sub [OF inv] by (fastforce simp: set_group_keys group_key_of_def split: option.splits)
      then show ?thesis using keys_ok_sub [of b i s] inv by (auto simp: broker_inv_def)
    qed
    ultimately show "a = a'" by (metis option.inject)
  qed
  ultimately show ?thesis by (simp add: group_runs_def plan_groups_def remdups_adj_map_inj_on)
qed

text \<open>A key that comes back after another one has two runs.\<close>

lemma two_runs:
  assumes "k \<in> set xs" and "k \<in> set ys" and "k' \<noteq> k"
  shows "2 \<le> count_list (remdups_adj (xs @ k' # ys)) k"
proof -
  have "remdups_adj (k' # ys) = k' # tl (remdups_adj (k' # ys))" by (cases ys) (simp_all add: remdups_adj_Cons split: list.split)
  then have "k \<in> set (tl (remdups_adj (k' # ys)))" using assms(2,3) remdups_adj_set [of "k' # ys"] by (metis list.set_intros(2) set_ConsD)
  moreover have "k \<in> set (remdups_adj (xs @ [k']))" using assms(1) by simp
  ultimately have "1 \<le> count_list (remdups_adj (xs @ [k'])) k" "1 \<le> count_list (tl (remdups_adj (k' # ys))) k"
    by (metis Suc_leI One_nat_def count_list_0_iff neq0_conv)+
  then show ?thesis unfolding remdups_adj_append [of xs k' ys] by simp
qed

lemma map_filter_append: "List.map_filter f (xs @ ys) = List.map_filter f xs @ List.map_filter f ys"
  by (induction xs) (auto simp: List.map_filter_simps split: option.split)

lemma interleaved_runs:
  assumes "ids = xs @ i # ys @ j # zs" and "i \<in> group_subs b k" and "j \<in> group_subs b k"
    and "y \<in> set ys" and "y \<in> group_subs b k'" and "k' \<noteq> k"
  shows "2 \<le> count_list (group_runs b ids) k"
proof -
  let ?f = "\<lambda>i. Option.bind (get_ref b i) key_of_sub"
  have f: "?f x = Some q" if "x \<in> group_subs b q" for x q using that by (auto simp: group_subs_def)
  obtain us vs where ys: "ys = us @ y # vs" using split_list [OF assms(4)] by blast
  have "List.map_filter ?f ids =
      (List.map_filter ?f xs @ k # List.map_filter ?f us) @ k' # (List.map_filter ?f vs @ k # List.map_filter ?f zs)"
    using f assms by (simp add: ys map_filter_append List.map_filter_simps)
  then show ?thesis unfolding group_runs_def by (simp only:) (intro two_runs, use assms(6) in auto)
qed

section \<open>One pick\<close>

lemma deliver_group_member:
  assumes inv: "broker_inv b" and i: "i \<in> group_subs b k" and g: "queue_groups b k = Some g"
  shows "deliver_matches dv m [i] (b, w) =
     deliver_to_subscriber dv (members g ! (unat (current_index g) mod length (members g))) m
       (b\<lparr>queue_groups := (queue_groups b)(k \<mapsto> g\<lparr>current_index := current_index g + 1\<rparr>)\<rparr>, w)"
proof -
  have "i \<in> set (members g)" using inv g i by (simp add: broker_inv_def members_ok_def)
  then have ne: "members g \<noteq> []" by auto
  have "group_runs b [i] = [k]" using i by (auto simp: group_runs_def group_subs_def List.map_filter_simps)
  moreover have "plan_fanout (b_registry b) [i] = []"
    using i fanout_key [OF inv] by (auto simp: plan_fanout_def group_subs_def)
  ultimately show ?thesis
    using g ne by (simp add: deliver_matches_targets [OF broker_inv_interned [OF inv]] targets_def plan_group_runs [OF inv] pick_def)
qed

context delivery_handle
begin

lemma deliver_reliable_log:
  assumes "reliable dv" and "get_ref b i = Some s" and "deliver_to_subscriber dv i m (b, w) = (b', w')"
  shows "log w' = (log w)(sub_delivery s := log w (sub_delivery s) @ [make_delivery i (sub_connection_id s) m])"
proof -
  let ?d = "make_delivery i (sub_connection_id s) m"
  obtain st w1 where d: "dv (sub_delivery s) ?d w = (st, w1)" by fastforce
  have "fst (dv (sub_delivery s) ?d w) = Delivered" using assms(1) unfolding reliable_def by blast
  then have "st = Delivered" by (simp add: d)
  moreover have "w' = w1" using assms(2,3) d by (simp add: deliver_to_subscriber_def)
  ultimately show ?thesis using deliver_log [OF d] by simp
qed

text \<open>What one match does for member \<open>j\<close> of group \<open>k\<close>: only a match of that group moves its index, and gives \<open>j\<close> the
  message when it is its turn.\<close>

lemma batch_match_group:
  assumes rel: "reliable dv" and inv: "broker_inv b" and c: "cache_sound b st" and p: "pending_wf b st"
    and j: "get_ref b j = Some s" "j \<in> group_subs b k" and g: "queue_groups b k = Some g"
    and m: "batch_match dv it i (st, b, w) = (st', b', w')"
  shows "queue_groups b' k = Some (if i \<in> group_subs b k then g\<lparr>current_index := current_index g + 1\<rparr> else g)"
    and "for_sub j (log w' (sub_delivery s)) = for_sub j (log w (sub_delivery s)) @
      (if i \<in> group_subs b k \<and> members g ! (unat (current_index g) mod length (members g)) = j
       then [make_delivery j (sub_connection_id s) (item_message it)] else [])"
proof -
  note bm = batch_match_pend [OF inv c p m]
  have not_fan: "\<not> is_fanout b x" if x: "x \<in> group_subs b q" for x q
  proof -
    obtain t where t: "get_ref b x = Some t" "key_of_sub t = Some q" using x by (auto simp: group_subs_def)
    then show ?thesis using keys_ok_sub [of b x t q] inv by (auto simp: is_fanout_def broker_inv_def)
  qed
  have one: "(b', w') = deliver_to_subscriber dv (members h ! (unat (current_index h) mod length (members h))) (item_message it)
       (b\<lparr>queue_groups := (queue_groups b)(q \<mapsto> h\<lparr>current_index := current_index h + 1\<rparr>)\<rparr>, w)"
    if "i \<in> group_subs b q" "queue_groups b q = Some h" for q h
  proof -
    have "get_ref b i \<noteq> None" using that(1) by (auto simp: group_subs_def)
    then show ?thesis using bm(6) not_fan [OF that(1)] deliver_group_member [OF inv that] by simp
  qed
  have pickd: "members h ! (unat (current_index h) mod length (members h)) \<in> group_subs b q"
    if "i \<in> group_subs b q" "queue_groups b q = Some h" for q h
  proof -
    have "set (members h) = group_subs b q" using inv that(2) by (simp add: broker_inv_def members_ok_def)
    moreover from this have "members h \<noteq> []" using that(1) by auto
    ultimately show ?thesis by (metis length_greater_0_conv mod_less_divisor nth_mem)
  qed
  have "queue_groups b' k = Some (if i \<in> group_subs b k then g\<lparr>current_index := current_index g + 1\<rparr> else g) \<and>
    for_sub j (log w' (sub_delivery s)) = for_sub j (log w (sub_delivery s)) @
      (if i \<in> group_subs b k \<and> members g ! (unat (current_index g) mod length (members g)) = j
       then [make_delivery j (sub_connection_id s) (item_message it)] else [])"
  proof (cases "\<exists>q. i \<in> group_subs b q")
    case True
    then obtain q where q: "i \<in> group_subs b q" by blast
    then obtain h where h: "queue_groups b q = Some h" using group_live [OF inv q] by auto
    let ?t = "members h ! (unat (current_index h) mod length (members h))"
    let ?b = "b\<lparr>queue_groups := (queue_groups b)(q \<mapsto> h\<lparr>current_index := current_index h + 1\<rparr>)\<rparr>"
    have d: "deliver_to_subscriber dv ?t (item_message it) (?b, w) = (b', w')" using one [OF q h] by simp
    have gs: "queue_groups b' = queue_groups ?b" using queue_groups_deliver [of dv ?t "item_message it" ?b w] d by simp
    obtain t where t: "get_ref b ?t = Some t" using pickd [OF q h] by (auto simp: group_subs_def)
    then have "get_ref ?b ?t = Some t" by simp
    from deliver_reliable_log [OF rel this d] have
      l: "log w' = (log w)(sub_delivery t := log w (sub_delivery t) @ [make_delivery ?t (sub_connection_id t) (item_message it)])" .
    have qk: "i \<in> group_subs b k \<longleftrightarrow> q = k" using group_subs_unique [OF q, of k] by auto
    have turn: "i \<in> group_subs b k \<and> members g ! (unat (current_index g) mod length (members g)) = j \<longleftrightarrow> ?t = j"
    proof (cases "q = k")
      case True
      then have "h = g" using h g by simp
      then show ?thesis unfolding qk using True by simp
    next
      case False
      then have "?t \<noteq> j" using pickd [OF q h] group_subs_unique [OF j(2), of q] by auto
      then show ?thesis unfolding qk using False by blast
    qed
    have d1: "for_sub j (log w' (sub_delivery s)) = for_sub j (log w (sub_delivery s)) @
        (if ?t = j then [make_delivery j (sub_connection_id s) (item_message it)] else [])"
    proof (cases "?t = j")
      case True
      then have "t = s" using t j(1) by simp
      then show ?thesis unfolding l True by (simp add: make_delivery_def)
    next
      case False
      then show ?thesis unfolding l by (simp add: make_delivery_def)
    qed
    have "queue_groups b' k = Some (if i \<in> group_subs b k then g\<lparr>current_index := current_index g + 1\<rparr> else g)"
      unfolding gs qk using g h by (cases "q = k") simp_all
    then show ?thesis unfolding turn d1 by simp
  next
    case False
    have "b' = b \<and> w' = w"
    proof (cases "get_ref b i")
      case None
      then show ?thesis using bm(7) by simp
    next
      case (Some t)
      then have "key_of_sub t = None" using False by (auto simp: group_subs_def)
      then have "is_fanout b i" using Some keys_ok_no_key [of b i t] inv by (auto simp: is_fanout_def broker_inv_def)
      then show ?thesis using bm(5) by simp
    qed
    then show ?thesis using False g by auto
  qed
  then show "queue_groups b' k = Some (if i \<in> group_subs b k then g\<lparr>current_index := current_index g + 1\<rparr> else g)"
    and "for_sub j (log w' (sub_delivery s)) = for_sub j (log w (sub_delivery s)) @
      (if i \<in> group_subs b k \<and> members g ! (unat (current_index g) mod length (members g)) = j
       then [make_delivery j (sub_connection_id s) (item_message it)] else [])" by blast+
qed

end

text \<open>The matches of one item: as many picks as the group has members among them, one after the other.\<close>

definition picked :: "queue_group_state \<Rightarrow> nat \<Rightarrow> subscription_id list" where
  "picked g n = map (\<lambda>q. members g ! ((unat (current_index g) + q) mod length (members g))) [0..<n]"

lemma unat_u64: "unat (x :: u64) < 2 ^ 64"
  using unsigned_less [of x] by simp

lemma unat_next: "unat (x :: u64) + Suc n \<le> 2 ^ 64 \<Longrightarrow> n = 0 \<or> unat (x + 1) = Suc (unat x)"
  by (cases "n = 0") (simp_all add: unat_word_ariths)

lemma picked_Suc:
  assumes "unat (current_index g) + Suc n \<le> 2 ^ 64"
  shows "picked g (Suc n) = members g ! (unat (current_index g) mod length (members g)) #
     picked (g\<lparr>current_index := current_index g + 1\<rparr>) n"
proof -
  have "n = 0 \<or> unat (current_index g + 1) = Suc (unat (current_index g))"
    using unat_next [OF assms] .
  moreover have "[0..<Suc n] = 0 # map Suc [0..<n]" by (simp add: upt_conv_Cons map_Suc_upt del: upt_Suc)
  ultimately show ?thesis by (auto simp: picked_def simp del: upt_Suc)
qed

lemma picked_cycle:
  assumes "distinct (members g)" and "j \<in> set (members g)"
  shows "count_list (picked g (length (members g))) j = 1"
proof -
  have "picked g (length (members g)) = rotate (unat (current_index g)) (members g)"
    by (rule nth_equalityI) (simp_all add: picked_def nth_rotate)
  then show ?thesis using assms by (simp add: count_list_distinct)
qed

context delivery_handle
begin

lemma batch_matches_group:
  assumes "reliable dv" and "broker_inv b" and "cache_sound b st" and "pending_wf b st"
    and "get_ref b j = Some s" and "j \<in> group_subs b k" and "queue_groups b k = Some g"
    and "unat (current_index g) + length (filter (\<lambda>i. i \<in> group_subs b k) is) \<le> 2 ^ 64"
    and "fold (batch_match dv it) is (st, b, w) = (st', b', w')"
  shows "queue_groups b' k = Some (g\<lparr>current_index := current_index g + of_nat (length (filter (\<lambda>i. i \<in> group_subs b k) is))\<rparr>) \<and>
    for_sub j (log w' (sub_delivery s)) = for_sub j (log w (sub_delivery s)) @
      replicate (count_list (picked g (length (filter (\<lambda>i. i \<in> group_subs b k) is))) j)
        (make_delivery j (sub_connection_id s) (item_message it))"
  using assms
proof (induction "is" arbitrary: st b w g)
  case (Cons i js)
  let ?n = "length (filter (\<lambda>i. i \<in> group_subs b k) js)"
  obtain st1 b1 w1 where m: "batch_match dv it i (st, b, w) = (st1, b1, w1)"
    by (cases "batch_match dv it i (st, b, w)")
  have f: "broker_inv b1" "broker_frame b b1" using batch_match_inv [OF Cons.prems(2) m] by simp_all
  have reg: "b_registry b1 = b_registry b" using f(2) by (simp add: broker_frame_def)
  have grp: "group_subs b1 k = group_subs b k" by (simp add: group_subs_def reg)
  have cp: "cache_sound b1 st1" "pending_wf b1 st1"
    using batch_match_pend(1,2) [OF Cons.prems(2-4) m] by (simp_all add: cache_sound_frame [OF f(2)] pending_wf_frame [OF f(2)])
  note one = batch_match_group [OF Cons.prems(1-7) m]
  have rest: "fold (batch_match dv it) js (st1, b1, w1) = (st', b', w')" using Cons.prems(9) m by simp
  have j1: "get_ref b1 j = Some s" "j \<in> group_subs b1 k" using Cons.prems(5,6) by (simp_all add: reg grp)
  show ?case
  proof (cases "i \<in> group_subs b k")
    case True
    let ?g = "g\<lparr>current_index := current_index g + 1\<rparr>"
    have le: "unat (current_index g) + Suc ?n \<le> 2 ^ 64" using Cons.prems(8) True by simp
    from unat_next [OF le] have "unat (current_index ?g) + ?n \<le> 2 ^ 64"
      using le less_imp_le [OF unat_u64 [of "current_index g + 1"]] by auto
    from Cons.IH [OF Cons.prems(1) f(1) cp j1 _ _ rest, of ?g] this one True
    show ?thesis by (simp add: grp picked_Suc [OF le])
  next
    case False
    from Cons.IH [OF Cons.prems(1) f(1) cp j1 _ _ rest, of g] Cons.prems(8) one False
    show ?thesis by (simp add: grp)
  qed
qed (simp add: picked_def)

lemma batch_items_group:
  assumes "reliable dv" and "broker_inv b" and "cache_sound b st" and "pending_wf b st"
    and "\<forall>it \<in> set items. subject_wf (i_subject it)"
    and "get_ref b j = Some s" and "j \<in> group_subs b k" and "queue_groups b k = Some g"
    and "unat (current_index g) + length (filter (wants b j) items) * length (members g) \<le> 2 ^ 64"
    and "fold (batch_item dv) items (st, b, w) = (st', b', w')"
  shows "for_sub j (log w' (sub_delivery s)) = for_sub j (log w (sub_delivery s)) @
      map (\<lambda>it. make_delivery j (sub_connection_id s) (item_message it)) (filter (wants b j) items)"
  using assms
proof (induction items arbitrary: st b w g)
  case (Cons it items)
  let ?st = "st\<lparr>last_match := Some (i_subject it, item_ids b it st)\<rparr>"
  let ?ids = "engine_match_subject (b_router b) (i_subject it)"
  obtain st1 b1 w1 where m: "batch_item dv it (st, b, w) = (st1, b1, w1)"
    by (cases "batch_item dv it (st, b, w)")
  have ids: "item_ids b it st = ?ids"
    using Cons.prems(3) by (auto simp: item_ids_def cache_sound_def split: option.split)
  have call: "fold (batch_match dv it) ?ids (?st, b, w) = (st1, b1, w1)"
    using m by (simp add: batch_item_fold ids)
  have wf: "subject_wf (i_subject it)" using Cons.prems(5) by simp
  note d = set_match_ids [OF Cons.prems(2) wf]
  have c: "cache_sound b ?st" "pending_wf b ?st"
    using Cons.prems(3,4) by (simp_all add: cache_sound_def pending_wf_def ids)
  have f: "broker_inv b1" "broker_frame b b1" using batch_matches_inv [OF Cons.prems(2) call] by simp_all
  have reg: "b_registry b1 = b_registry b" using f(2) by (simp add: broker_frame_def)
  have cp: "cache_sound b1 st1" "pending_wf b1 st1"
    using batch_matches_pend [OF Cons.prems(2) c d(2) call]
    by (simp_all add: cache_sound_frame [OF f(2)] pending_wf_frame [OF f(2)])
  have grp: "distinct (members g)" "set (members g) = group_subs b k"
    using Cons.prems(2,8) by (simp_all add: broker_inv_def members_ok_def)
  have n: "length (filter (\<lambda>i. i \<in> group_subs b k) ?ids) = (if wants b j it then length (members g) else 0)"
    (is "?n = _")
  proof -
    have "?n = card (group_subs b k \<inter> matching b (i_subject it))"
      using d distinct_card [of "filter (\<lambda>i. i \<in> group_subs b k) ?ids"] by (simp add: Int_def conj_commute)
    moreover have "group_subs b k \<inter> matching b (i_subject it) = (if wants b j it then group_subs b k else {})"
      using group_matching_closed [OF Cons.prems(2), of _ k _ "i_subject it"] Cons.prems(7)
      unfolding wants_def d(1) by (cases "j \<in> matching b (i_subject it)") (simp, blast)+
    ultimately show ?thesis using grp distinct_card [OF grp(1)] by simp
  qed
  have le: "unat (current_index g) + ?n \<le> 2 ^ 64" using Cons.prems(9) n by (auto split: if_splits)
  note one = batch_matches_group [OF Cons.prems(1,2) c Cons.prems(6-8) le call]
  have w1: "wants b1 = wants b" by (simp add: wants_def reg fun_eq_iff)
  let ?g = "g\<lparr>current_index := current_index g + of_nat ?n\<rparr>"
  have "unat (current_index ?g) + length (filter (wants b1 j) items) * length (members ?g) \<le> 2 ^ 64"
  proof (cases "unat (current_index g) + ?n < 2 ^ 64")
    case True
    then have "unat (current_index g + of_nat ?n) = unat (current_index g) + ?n"
      by (simp add: unat_word_ariths unat_of_nat)
    then show ?thesis using Cons.prems(9) n by (auto simp: w1 split: if_splits)
  next
    case False
    then have "wants b j it" using unat_u64 [of "current_index g"] n by (auto split: if_splits)
    then have "unat (current_index g) + (length (members g) + length (filter (wants b j) items) * length (members g)) \<le> 2 ^ 64"
      and "\<not> unat (current_index g) + length (members g) < 2 ^ 64" using False Cons.prems(9) n by simp_all
    then have "length (filter (wants b j) items) * length (members g) = 0" by linarith
    then show ?thesis using less_imp_le [OF unat_u64 [of "current_index g + of_nat ?n"]] by (auto simp: w1)
  qed
  moreover have "get_ref b1 j = Some s" "j \<in> group_subs b1 k" using Cons.prems(6,7) by (simp_all add: reg group_subs_def)
  moreover have "fold (batch_item dv) items (st1, b1, w1) = (st', b', w')" using Cons.prems(10) m by simp
  ultimately have "for_sub j (log w' (sub_delivery s)) = for_sub j (log w1 (sub_delivery s)) @
      map (\<lambda>it. make_delivery j (sub_connection_id s) (item_message it)) (filter (wants b1 j) items)"
    using Cons.IH [OF Cons.prems(1) f(1) cp, of ?g w1] Cons.prems(5) one by simp
  moreover have "count_list (picked g ?n) j = (if wants b j it then 1 else 0)"
    using picked_cycle [OF grp(1), of j] Cons.prems(7) grp(2) n by (simp add: picked_def)
  ultimately show ?case using one by (simp add: w1)
qed simp

text \<open>In a batch every member of a queue group receives every message its pattern matches.\<close>

lemma publish_batch_group:
  assumes rel: "reliable dv" and inv: "broker_inv b" and iter: "\<And>ps. mset (iter ps) = mset ps"
    and wf: "\<forall>it \<in> set items. subject_wf (i_subject it)"
    and j: "get_ref b j = Some s" "key_of_sub s = Some k" and g: "queue_groups b k = Some g"
    and room: "unat (current_index g) + length items * length (members g) \<le> 2 ^ 64"
    and p: "publish_batch dv iter items (b, w) = (b', w')"
  shows "for_sub j (log w' (sub_delivery s)) = for_sub j (log w (sub_delivery s)) @
      map (\<lambda>it. make_delivery j (sub_connection_id s) (item_message it)) (filter (wants b j) items)"
proof (cases "items = []")
  case True
  with p show ?thesis by (simp add: publish_batch_def)
next
  case False
  let ?b = "b\<lparr>b_metrics := inc_published_by (of_nat (length items)) (b_metrics b)\<rparr>"
  have inv1: "broker_inv ?b" by (rule published_inv [OF inv])
  have jk: "j \<in> group_subs ?b k" "get_ref ?b j = Some s" using j by (simp_all add: group_subs_def)
  have fan: "\<not> is_fanout b j" using keys_ok_sub [of b j s k] inv j by (auto simp: is_fanout_def broker_inv_def)
  have w1: "wants ?b = wants b" by (simp add: wants_def fun_eq_iff)
  show ?thesis
  proof (cases "batch_single items ?b")
    case None
    obtain st b1 w1 where s1: "fold (batch_item dv) items (\<lparr>pending = [], last_match = None, sub_cache = []\<rparr>, ?b, w)
        = (st, b1, w1)" by (cases "fold (batch_item dv) items (\<lparr>pending = [], last_match = None, sub_cache = []\<rparr>, ?b, w)")
    have s2: "fold (flush_pending dv) (iter (pending st)) (b1, w1) = (b', w')"
      using p False None s1 by (simp add: publish_batch_def publish_batch_stages_def)
    have reg: "b_registry b1 = b_registry b" using batch_items_inv [OF inv1 s1] by (simp add: broker_frame_def)
    note pw = batch_items_pend [OF inv1 initial_batch_state(1,2) s1]
    have "\<not> is_fanout ?b j" using fan by (simp add: is_fanout_def)
    then have "pend st j = []" using pw by (simp add: initial_batch_state batch_msgs_def)
    then have pj: "case_option [] id (map_of (pending st) j) = []" by (simp add: pend_def split: option.splits)
    have it: "set (iter (pending st)) = set (pending st)" "distinct (map fst (iter (pending st)))"
      using iter_pending(2,3) [OF iter [of "pending st"]] pw by (simp_all add: pending_wf_def)
    then have mo: "map_of (iter (pending st)) = map_of (pending st)"
      using pw by (simp add: pending_wf_def map_of_inject_set)
    have fw: "\<forall>(i, ds) \<in> set (iter (pending st)). ds \<noteq> [] \<and> get_ref b1 i \<noteq> None \<and> (\<forall>d \<in> set ds. d_subscription_id d = i)"
      using pw by (fastforce simp: pending_wf_def it(1) reg)
    have "for_sub j (log w' (sub_delivery s)) = for_sub j (log w1 (sub_delivery s))"
      using flush_all_log [OF fw it(2) _ s2, of j s] j(1) reg by (simp add: mo pj)
    moreover have "unat (current_index g) + length (filter (wants ?b j) items) * length (members g) \<le> 2 ^ 64"
      using room by (rule le_trans [rotated]) simp
    ultimately show ?thesis
      using batch_items_group [OF rel inv1 initial_batch_state(1,2) wf jk(2,1) _ _ s1, of g] g by (simp add: w1)
  next
    case (Some x)
    then obtain i sub where x: "batch_single items ?b = Some (i, sub)" by (cases x) auto
    let ?ms = "map (\<lambda>it. make_delivery i (sub_connection_id sub) (item_message it)) items"
    obtain n w1 where n: "deliver_batch dv (sub_delivery sub) ?ms w = (n, w1)" by fastforce
    have w': "w' = w1" using p False x n by (simp add: publish_batch_def Let_def)
    have "get_ref b i = Some sub" "sub_queue_group_key sub = None"
      using x by (auto simp: batch_single_def split: if_splits option.splits)
    then have ij: "j \<noteq> i" using fan by (auto simp: is_fanout_def)
    then have "filter (wants b j) items = []"
      using batch_single_fan [OF inv1 x] by (auto simp: filter_empty_conv wants_def)
    moreover have "for_sub j (take n ?ms) = []"
      using ij by (auto simp: filter_empty_conv make_delivery_def dest!: in_set_takeD)
    ultimately show ?thesis using deliver_batch_log [OF n] w' by simp
  qed
qed

end

end
