(* ===== verification/Core_Theorems.thy ===== *)
theory Core_Theorems
  imports Broker_Groups
begin

text \<open>
  The properties of the broker core.  Each is stated over the definitions of \<open>Broker\<close> and the
  theories below it; the concrete brokers of the witnesses are built with the model's own
  operations from \<open>broker_new\<close>.
\<close>

section \<open>Concrete brokers\<close>

text \<open>A deliverer that accepts everything and keeps a log per handle (the \<open>FakeDelivery\<close> of the tests).\<close>

definition log_deliver :: "nat \<Rightarrow> delivery_message \<Rightarrow> (nat \<Rightarrow> delivery_message list) \<Rightarrow>
    delivery_status \<times> (nat \<Rightarrow> delivery_message list)" where
  "log_deliver h d w = (Delivered, w(h := w h @ [d]))"

interpretation fake: delivery_handle log_deliver "\<lambda>w. w"
  by unfold_locales (auto simp: log_deliver_def)

definition tok_a :: str where "tok_a = [0x61]"
definition tok_b :: str where "tok_b = [0x62]"

definition subj_a :: subject where "subj_a = \<lparr>s_raw = tok_a, s_tokens = [tok_a]\<rparr>"
definition pat_a :: subject_pattern where "pat_a = \<lparr>p_raw = tok_a, p_tokens = [Literal tok_a]\<rparr>"

lemma trim_tok: "trim tok_a = tok_a" "trim tok_b = tok_b"
  by (simp_all add: tok_a_def tok_b_def trim_def trim_start_def trim_end_def strip_front_id stripped_def ws_encodings_def)

lemma subj_a_wf: "subject_wf subj_a"
  by (simp add: subject_wf_def subj_a_def trim_tok) (simp add: tok_a_def MAX_SUBJECT_LEN_def MAX_TOKENS_def)

lemma pat_a_wf: "pattern_wf pat_a"
  by (simp add: pattern_wf_def pat_a_def trim_tok)
    (simp add: tok_a_def MAX_PATTERN_LEN_def MAX_TOKENS_def tokens_wf_def literal_ok_def)

text \<open>One fan-out subscription, and two members of queue group \<open>b\<close>, all on subject \<open>a\<close>.\<close>

definition bk_fan :: "nat broker" where "bk_fan = snd (subscribe 1 pat_a None 0 broker_new)"
definition bk_group :: "nat broker" where
  "bk_group = snd (subscribe 2 pat_a (Some tok_b) 0 (snd (subscribe 1 pat_a (Some tok_b) 0 broker_new)))"
definition bk_mixed :: "nat broker" where
  "bk_mixed = snd (subscribe 1 pat_a (Some tok_b) 0 (snd (subscribe 2 pat_a (Some tok_a) 0
     (snd (subscribe 1 pat_a (Some tok_b) 0 broker_new)))))"

lemma subscribe_inv': "broker_inv b \<Longrightarrow> pattern_wf p \<Longrightarrow> unat (counter (sub_id_gen b)) + 1 < 2 ^ 64 \<Longrightarrow>
    broker_inv (snd (subscribe c p qg h b))"
  by (rule subscribe_inv [of b p c qg h "fst (subscribe c p qg h b)"]) simp_all

lemma subscribe_counter: "counter (sub_id_gen (snd (subscribe c p qg h b))) = counter (sub_id_gen b) + 1"
  by (auto simp: subscribe_def id_generator_next_def intern_key_def join_group_def Let_def split: option.split)

lemma new_counter: "counter (sub_id_gen broker_new) = 1"
  by (simp add: broker_new_def id_generator_new_def)

lemma bk_fan_inv: "broker_inv bk_fan"
  by (simp add: bk_fan_def subscribe_inv' broker_new_inv pat_a_wf new_counter)

lemma bk_group_inv: "broker_inv bk_group"
  by (simp add: bk_group_def subscribe_inv' broker_new_inv pat_a_wf new_counter subscribe_counter)

lemmas run_simps = subscribe_def id_generator_next_def intern_key_def join_group_def broker_new_def
  id_generator_new_def registry_new_def engine_new_def registry_add_def subscription_new_def
  engine_insert_def has_wildcard_def pat_a_def conn_ids_def Let_def

section \<open>Invariant\<close>

text \<open>
  C1: in every state the broker can reach from \<open>BrokerCore::new\<close> by any sequence of subscribe,
  unsubscribe, the three publish operations, subject parsing and connection removal, the
  invariant holds: the router holds exactly the registry's patterns, queue-group member lists are
  exactly the live subscriptions of the group without repetition, keys are interned, the subject
  cache holds only parse results, and \<open>active_subscriptions\<close> is the size of the registry.
\<close>

theorem reachable_broker_inv:
  assumes "broker_reach dv iter w0 (b, w)"
  shows "broker_inv b"
  using broker_reach_inv [OF assms] by simp

theorem reachable_broker_inv_witness:
  "broker_reach log_deliver (\<lambda>ps. ps) (\<lambda>_. []) (bk_fan, \<lambda>_. []) \<and> broker_inv bk_fan"
proof -
  have "broker_reach log_deliver (\<lambda>ps. ps) (\<lambda>_. []) (bk_fan, \<lambda>_. [])"
    unfolding bk_fan_def
    by (intro broker_reach.reach_step [OF broker_reach.reach_new] broker_step.step_subscribe)
      (simp_all add: pat_a_wf new_counter)
  with reachable_broker_inv [OF this] show ?thesis by simp
qed

section \<open>Publishing\<close>

text \<open>
  C3: \<open>publish\<close> delivers the message to a list of targets and does nothing else but count.  Every
  target is registered and its pattern matches the subject; a matching subscription without a queue
  group is a target exactly once, and never otherwise; a queue group with a matching member gets
  the message at least once, exactly once when no other queue group matches, and a group without
  one never.
\<close>

theorem publish_targets:
  fixes b :: "'h broker"
  assumes inv: "broker_inv b" and wf: "subject_wf (m_subject m)"
  shows "\<exists>ts gs. publish dv m (b, w) =
       fold (\<lambda>i. deliver_to_subscriber dv i m) ts
         (b\<lparr>b_metrics := inc_published (b_metrics b), queue_groups := gs\<rparr>, w) \<and>
     (\<forall>i \<in> set ts. \<exists>s. get_ref b i = Some s \<and> matches (sub_pattern s) (m_subject m)) \<and>
     (\<forall>i s. get_ref b i = Some s \<longrightarrow> key_of_sub s = None \<longrightarrow>
        count_list ts i = (if matches (sub_pattern s) (m_subject m) then 1 else 0)) \<and>
     (\<forall>k. (\<exists>i \<in> set ts. i \<in> group_subs b k) \<longleftrightarrow> group_subs b k \<inter> matching b (m_subject m) \<noteq> {}) \<and>
     (\<forall>k. group_subs b k \<inter> matching b (m_subject m) \<noteq> {} \<longrightarrow>
        (\<forall>k'. group_subs b k' \<inter> matching b (m_subject m) \<noteq> {} \<longrightarrow> k' = k) \<longrightarrow>
        length (filter (\<lambda>i. i \<in> group_subs b k) ts) = 1)"
proof -
  let ?b = "b\<lparr>b_metrics := inc_published (b_metrics b)\<rparr>"
  let ?ids = "engine_match_subject (b_router b) (m_subject m)"
  have inv1: "broker_inv ?b" by (rule published_inv [OF inv])
  obtain ts gs where t: "targets b ?ids = (ts, gs)" by fastforce
  have t1: "targets ?b ?ids = (ts, gs)" using t by (simp add: targets_def)
  note ids = set_match_ids [OF inv wf]
  have "publish dv m (b, w) = fold (\<lambda>i. deliver_to_subscriber dv i m) ts
      (b\<lparr>b_metrics := inc_published (b_metrics b), queue_groups := gs\<rparr>, w)"
    by (simp add: publish_def deliver_matches_targets [OF broker_inv_interned [OF inv1]] t1)
  moreover have "\<forall>i \<in> set ts. \<exists>s. get_ref b i = Some s \<and> matches (sub_pattern s) (m_subject m)"
    using targets_matching [OF inv ids(1) t] by (auto simp: matching_def)
  moreover have "count_list ts i = (if matches (sub_pattern s) (m_subject m) then 1 else 0)"
    if "get_ref b i = Some s" "key_of_sub s = None" for i s
    using targets_fanout_count [OF inv ids(2) t that] that(1) by (auto simp: ids(1) matching_def)
  moreover have grp: "(\<exists>i \<in> set ts. i \<in> group_subs b k) \<longleftrightarrow> group_subs b k \<inter> matching b (m_subject m) \<noteq> {}" for k
    using targets_group_hit [OF inv t, of k] by (simp add: ids(1))
  moreover have "length (filter (\<lambda>i. i \<in> group_subs b k) ts) = 1"
    if k: "group_subs b k \<inter> matching b (m_subject m) \<noteq> {}"
      and only: "\<And>k'. group_subs b k' \<inter> matching b (m_subject m) \<noteq> {} \<Longrightarrow> k' = k" for k
  proof -
    have "length (plan_groups (b_registry b) ?ids) \<le> 1"
      by (rule plan_groups_single [OF inv, of _ k]) (use only ids(1) in blast)
    then have "length (filter (\<lambda>i. i \<in> group_subs b k) ts) \<le> 1"
      using targets_group_count [OF inv t, of k] count_le_length [of "map arc_val (plan_groups (b_registry b) ?ids)" k]
      by simp
    moreover have "filter (\<lambda>i. i \<in> group_subs b k) ts \<noteq> []" using grp [of k] k by (auto simp: filter_empty_conv)
    then have "length (filter (\<lambda>i. i \<in> group_subs b k) ts) \<noteq> 0" by simp
    ultimately show ?thesis by linarith
  qed
  ultimately show ?thesis by blast
qed

theorem publish_targets_witness:
  "broker_inv bk_fan \<and> subject_wf (m_subject (message_new subj_a [])) \<and>
   (\<exists>ts gs. publish log_deliver (message_new subj_a []) (bk_fan, \<lambda>_. []) =
       fold (\<lambda>i. deliver_to_subscriber log_deliver i (message_new subj_a [])) ts
         (bk_fan\<lparr>b_metrics := inc_published (b_metrics bk_fan), queue_groups := gs\<rparr>, \<lambda>_. []))"
proof -
  have wf: "subject_wf (m_subject (message_new subj_a []))" by (simp add: message_new_def subj_a_wf)
  from publish_targets [OF bk_fan_inv wf, of log_deliver "\<lambda>_. []"] bk_fan_inv wf show ?thesis by blast
qed

text \<open>
  Every delivery attempt of \<open>publish\<close> is counted once.  \<open>messages_published\<close> grows by one, and
  \<open>messages_delivered\<close> and \<open>messages_dropped\<close> together grow by the number of targets: one for each
  run of matches with the same queue-group key and one for each match without a key.  No other
  counter moves.
\<close>

lemma publish_counts:
  assumes inv: "broker_inv b" and wf: "subject_wf (m_subject m)"
    and p: "publish dv m (b, w) = (b', w')"
  shows "\<exists>ok bad. ok + bad = length (plan_groups (b_registry b) (engine_match_subject (b_router b) (m_subject m)))
        + length (plan_fanout (b_registry b) (engine_match_subject (b_router b) (m_subject m))) \<and>
     b_metrics b' = (b_metrics b)\<lparr>messages_published := messages_published (b_metrics b) + 1,
       messages_delivered := messages_delivered (b_metrics b) + of_nat ok,
       messages_dropped := messages_dropped (b_metrics b) + of_nat bad\<rparr>"
proof -
  let ?b = "b\<lparr>b_metrics := inc_published (b_metrics b)\<rparr>"
  let ?ids = "engine_match_subject (b_router b) (m_subject m)"
  have inv1: "broker_inv ?b" by (rule published_inv [OF inv])
  obtain ts gs where t: "targets ?b ?ids = (ts, gs)" by fastforce
  have "matching ?b (m_subject m) = matching b (m_subject m)" by (simp add: matching_def)
  then have ids: "set ?ids = matching ?b (m_subject m)" using set_match_ids(1) [OF inv wf] by simp
  have "deliver_matches dv m ?ids (?b, w) = (b', w')" using p by (simp add: publish_def)
  from deliver_matches_counted [OF inv1 ids t this] obtain ok where
    ok: "ok \<le> length ts" "counted ok (length ts - ok) ?b b'" by blast
  moreover have "length ts = length (plan_groups (b_registry b) ?ids) + length (plan_fanout (b_registry b) ?ids)"
    using targets_length [OF inv1 t] by simp
  ultimately show ?thesis
    by (intro exI [of _ ok] exI [of _ "length ts - ok"]) (simp add: counted_def metrics_defs)
qed

lemma publish_counts_witness:
  "broker_inv bk_fan \<and> subject_wf (m_subject (message_new subj_a [])) \<and>
   (\<exists>b' w'. publish log_deliver (message_new subj_a []) (bk_fan, \<lambda>_. []) = (b', w') \<and>
     messages_published (b_metrics b') = messages_published (b_metrics bk_fan) + 1)"
proof -
  have wf: "subject_wf (m_subject (message_new subj_a []))" by (simp add: message_new_def subj_a_wf)
  obtain b' w' where p: "publish log_deliver (message_new subj_a []) (bk_fan, \<lambda>_. []) = (b', w')" by fastforce
  from publish_counts [OF bk_fan_inv wf p] bk_fan_inv wf p show ?thesis by auto
qed

text \<open>
  C5: \<open>publish_batch\<close> accounts for every match: over both its fast path and its two-stage path,
  delivered and dropped together grow by the sum over the items of the number of subscriptions that
  match the item (every member of a queue group counted), published grows by the number of items,
  and no other counter moves, for any iteration order of the pending map.
\<close>

theorem publish_batch_counts:
  assumes "broker_inv b" and "\<forall>it \<in> set items. subject_wf (i_subject it)"
    and "\<And>ps. mset (iter ps) = mset ps"
    and "publish_batch dv iter items (b, w) = (b', w')"
  shows "\<exists>ok bad. ok + bad = sum_list (map (\<lambda>it. length (engine_match_subject (b_router b) (i_subject it))) items) \<and>
     b_metrics b' = (b_metrics b)\<lparr>messages_published := messages_published (b_metrics b) + of_nat (length items),
       messages_delivered := messages_delivered (b_metrics b) + of_nat ok,
       messages_dropped := messages_dropped (b_metrics b) + of_nat bad\<rparr>"
  using publish_batch_counted [OF assms] by (simp add: fan_size_def [abs_def])

theorem publish_batch_counts_witness:
  "broker_inv bk_fan \<and> subject_wf (i_subject (publish_item_new subj_a [])) \<and>
   (\<exists>b' w'. publish_batch log_deliver (\<lambda>ps. ps) [publish_item_new subj_a []] (bk_fan, \<lambda>_. []) = (b', w') \<and>
     messages_published (b_metrics b') = messages_published (b_metrics bk_fan) + 1)"
proof -
  have wf: "\<forall>it \<in> set [publish_item_new subj_a []]. subject_wf (i_subject it)"
    by (simp add: publish_item_new_def subj_a_wf)
  obtain b' w' where p: "publish_batch log_deliver (\<lambda>ps. ps) [publish_item_new subj_a []] (bk_fan, \<lambda>_. []) = (b', w')"
    by fastforce
  from publish_batch_counts [OF bk_fan_inv wf _ p] bk_fan_inv wf p show ?thesis by auto
qed

text \<open>
  C8: \<open>publish_with_str\<close> for every subject text.  A text that is not a subject is counted and goes nowhere.  A trimmed
  one has the effect of \<open>publish\<close> on the parsed message: the same deliveries and the same broker state, up to the entry
  it may add to the subject cache.  A text with blanks around a subject reaches the wildcard subscriptions only: the
  exact ones are looked up by the text as it came, while \<open>publish\<close> on the parsed subject would reach them.
\<close>

theorem publish_with_str_is_publish:
  assumes inv: "broker_inv b"
  shows "(\<lambda>(b', w'). (b'\<lparr>subject_cache := subject_cache b\<rparr>, w')) (publish_with_str dv t payload reply hs (b, w)) =
     (case subject_parse t of
        Inl _ \<Rightarrow> (b\<lparr>b_metrics := inc_published (b_metrics b)\<rparr>, w)
      | Inr s \<Rightarrow>
          (let m = item_message \<lparr>i_subject = s, i_payload = payload, i_reply_to = reply, i_headers = hs\<rparr> in
           if trim t = t then publish dv m (b, w)
           else deliver_matches dv m (match_wildcards (b_router b) s) (b\<lparr>b_metrics := inc_published (b_metrics b)\<rparr>, w))) \<and>
     (\<forall>s. set (match_wildcards (b_router b) s) =
        {i. \<exists>u. get_ref b i = Some u \<and> has_wildcard (sub_pattern u) \<and> matches (sub_pattern u) s})"
proof (rule conjI)
  show "\<forall>s. set (match_wildcards (b_router b) s) =
      {i. \<exists>u. get_ref b i = Some u \<and> has_wildcard (sub_pattern u) \<and> matches (sub_pattern u) s}"
    using match_wildcards_ids [OF inv] by blast
  show "(\<lambda>(b', w'). (b'\<lparr>subject_cache := subject_cache b\<rparr>, w')) (publish_with_str dv t payload reply hs (b, w)) =
     (case subject_parse t of
        Inl _ \<Rightarrow> (b\<lparr>b_metrics := inc_published (b_metrics b)\<rparr>, w)
      | Inr s \<Rightarrow>
          (let m = item_message \<lparr>i_subject = s, i_payload = payload, i_reply_to = reply, i_headers = hs\<rparr> in
           if trim t = t then publish dv m (b, w)
           else deliver_matches dv m (match_wildcards (b_router b) s) (b\<lparr>b_metrics := inc_published (b_metrics b)\<rparr>, w)))"
  proof (cases "subject_parse t")
    case (Inl e)
    then show ?thesis using publish_with_str_invalid [OF inv Inl, of dv payload reply hs w] by simp
  next
    case (Inr s)
    have raw: "s_raw s = trim t" using subject_parse_wf [OF Inr] by simp
    have e: "engine_match_subject (b_router b) s = exact_matches (b_router b) (trim t) @ match_wildcards (b_router b) s"
      by (simp add: engine_match_subject_def match_wildcards_def raw)
    show ?thesis
      using publish_with_str_delivers [OF inv Inr refl refl, of dv payload reply hs w] exact_matches_untrimmed [OF inv, of t]
      by (cases "trim t = t") (simp_all add: Inr publish_def e item_message_def split_def Let_def)
  qed
qed

definition blank_a :: str where "blank_a = 0x20 # tok_a"

text \<open>With one exact subscription on \<open>a\<close>, the text \<open>a\<close> reaches it and the text with a blank in front does not.\<close>

theorem publish_with_str_is_publish_witness:
  "broker_inv bk_fan \<and> subject_parse tok_a = Inr subj_a \<and> subject_parse blank_a = Inr subj_a \<and>
   snd (publish_with_str log_deliver tok_a [7] None None (bk_fan, \<lambda>_. [])) =
     snd (publish log_deliver (item_message (publish_item_new subj_a [7])) (bk_fan, \<lambda>_. [])) \<and>
   snd (publish_with_str log_deliver blank_a [7] None None (bk_fan, \<lambda>_. [])) = (\<lambda>_. [])"
proof -
  have p: "subject_parse tok_a = Inr subj_a" using subject_parse_raw [OF subj_a_wf] by (simp add: subj_a_def)
  have "trim_start blank_a = trim_start tok_a"
    unfolding trim_start_def blank_a_def by (subst strip_front.simps) (simp add: ws_encodings_def)
  then have t: "trim blank_a = tok_a" using trim_tok(1) by (simp add: trim_def)
  then have q: "subject_parse blank_a = Inr subj_a" "trim blank_a \<noteq> blank_a"
    using p trim_tok(1) by (simp_all add: subject_parse_def blank_a_def tok_a_def)
  have nw: "match_wildcards (b_router bk_fan) subj_a = []" by (simp add: bk_fan_def run_simps match_wildcards_def)
  have "snd (publish_with_str log_deliver tok_a [7] None None (bk_fan, \<lambda>_. [])) =
      snd (publish log_deliver (item_message (publish_item_new subj_a [7])) (bk_fan, \<lambda>_. []))"
    using publish_with_str_is_publish [OF bk_fan_inv, of log_deliver tok_a "[7]" None None "\<lambda>_. []", THEN conjunct1] p trim_tok(1)
    by (simp add: split_def Let_def publish_item_new_def prod_eq_iff)
  moreover have "snd (publish_with_str log_deliver blank_a [7] None None (bk_fan, \<lambda>_. [])) = (\<lambda>_. [])"
    using publish_with_str_is_publish [OF bk_fan_inv, of log_deliver blank_a "[7]" None None "\<lambda>_. []", THEN conjunct1] q nw
    by (simp add: split_def Let_def prod_eq_iff deliver_matches_def)
  ultimately show ?thesis using p q bk_fan_inv by blast
qed

section \<open>Subscribing, unsubscribing, disconnecting\<close>

text \<open>
  C7: \<open>subscribe\<close> hands out an id that no live subscription has, and from then on exactly the
  subjects the pattern matches route to it; every other subscription routes as before.
  \<open>unsubscribe\<close> of that id takes it out of every subject again and touches no other.
\<close>

theorem subscribe_unsubscribe_routing:
  assumes inv: "broker_inv b" and p: "pattern_wf p" and room: "unat (counter (sub_id_gen b)) + 1 < 2 ^ 64"
    and sub: "subscribe c p qg h b = (i, b1)" and s: "subject_wf s"
  shows "get_ref b i = None \<and>
    set (engine_match_subject (b_router b1) s) =
      set (engine_match_subject (b_router b) s) \<union> (if matches p s then {i} else {}) \<and>
    set (engine_match_subject (b_router (unsubscribe c' i b1)) s) = set (engine_match_subject (b_router b) s)"
proof (intro conjI)
  have inv1: "broker_inv b1" by (rule subscribe_inv [OF inv p room sub])
  have inv2: "broker_inv (unsubscribe c' i b1)" by (rule unsubscribe_inv [OF inv1])
  from subscribe_shape [OF inv sub] obtain key where i: "i = counter (sub_id_gen b)"
    and reg: "b_registry b1 = registry_add i c p qg key h (b_registry b)" by metis
  show fresh: "get_ref b i = None" using fresh_id [OF inv] by (simp add: i)
  have ref: "get_ref b1 = (get_ref b)(i \<mapsto> subscription_new i c p qg key h)"
    by (simp add: reg registry_add_subscriptions)
  then have m1: "matching b1 s = matching b s \<union> (if matches p s then {i} else {})"
    using fresh by (auto simp: matching_def subscription_new_def)
  then show "set (engine_match_subject (b_router b1) s) =
      set (engine_match_subject (b_router b) s) \<union> (if matches p s then {i} else {})"
    by (simp add: set_match_ids(1) [OF inv s] set_match_ids(1) [OF inv1 s])
  have "get_ref (unsubscribe c' i b1) = get_ref b"
    using unsubscribe_shape(1) [of b1 i "subscription_new i c p qg key h" c'] ref fresh by (auto simp: fun_eq_iff)
  then show "set (engine_match_subject (b_router (unsubscribe c' i b1)) s) = set (engine_match_subject (b_router b) s)"
    by (simp add: set_match_ids(1) [OF inv s] set_match_ids(1) [OF inv2 s] matching_def)
qed

theorem subscribe_unsubscribe_routing_witness:
  "broker_inv (broker_new :: nat broker) \<and> pattern_wf pat_a \<and> subject_wf subj_a \<and>
   set (engine_match_subject (b_router bk_fan) subj_a) =
     set (engine_match_subject (b_router (broker_new :: nat broker)) subj_a) \<union> (if matches pat_a subj_a then {1} else {})"
proof -
  have sub: "subscribe 1 pat_a None 0 (broker_new :: nat broker) = (1, bk_fan)"
    by (simp add: bk_fan_def subscribe_def id_generator_next_def new_counter Let_def)
  have room: "unat (counter (sub_id_gen (broker_new :: nat broker))) + 1 < 2 ^ 64" by (simp add: new_counter)
  from subscribe_unsubscribe_routing [OF broker_new_inv pat_a_wf room sub subj_a_wf]
  show ?thesis using broker_new_inv pat_a_wf subj_a_wf by blast
qed

text \<open>
  C6: \<open>remove_connection\<close> removes the subscriptions of that connection and only those.  The others
  keep their registration, a later publish routes to exactly the matching subscriptions of other
  connections, no queue group keeps a removed member, and \<open>active_subscriptions\<close> falls by the
  number removed.
\<close>

theorem remove_connection_isolates:
  assumes inv: "broker_inv b" and s: "subject_wf s"
  shows "(\<forall>i. get_ref (remove_connection c b) i =
      (case get_ref b i of Some t \<Rightarrow> if sub_connection_id t = c then None else Some t | None \<Rightarrow> None)) \<and>
    set (engine_match_subject (b_router (remove_connection c b)) s) =
      set (engine_match_subject (b_router b) s) - subs_of_conn (b_registry b) c \<and>
    (\<forall>k g. queue_groups (remove_connection c b) k = Some g \<longrightarrow> set (members g) \<inter> subs_of_conn (b_registry b) c = {}) \<and>
    active_subscriptions (b_metrics (remove_connection c b)) =
      active_subscriptions (b_metrics b) - of_nat (card (subs_of_conn (b_registry b) c)) \<and>
    subscription_count_for_connection c (remove_connection c b) = 0"
proof (intro conjI allI impI)
  note sh = remove_connection_shape [OF inv, of c]
  have inv1: "broker_inv (remove_connection c b)" by (rule remove_connection_inv [OF inv])
  show "get_ref (remove_connection c b) i =
      (case get_ref b i of Some t \<Rightarrow> if sub_connection_id t = c then None else Some t | None \<Rightarrow> None)" for i
    by (simp add: sh(1) subs_of_conn_def split: option.split)
  show "set (engine_match_subject (b_router (remove_connection c b)) s) =
      set (engine_match_subject (b_router b) s) - subs_of_conn (b_registry b) c"
    by (auto simp: set_match_ids(1) [OF inv s] set_match_ids(1) [OF inv1 s] matching_def sh(1) split: if_splits)
  show "set (members g) \<inter> subs_of_conn (b_registry b) c = {}" if "queue_groups (remove_connection c b) k = Some g" for k g
  proof -
    have "set (members g) = group_subs (remove_connection c b) k"
      using inv1 that by (simp add: broker_inv_def members_ok_def)
    then show ?thesis by (auto simp: group_subs_def sh(1) split: if_splits)
  qed
  show "active_subscriptions (b_metrics (remove_connection c b)) =
      active_subscriptions (b_metrics b) - of_nat (card (subs_of_conn (b_registry b) c))"
    by (simp add: sh(9))
  show "subscription_count_for_connection c (remove_connection c b) = 0"
    by (simp add: subscription_count_for_connection_def count_for_connection_def sh(3))
qed

theorem remove_connection_isolates_witness:
  "broker_inv bk_group \<and> subject_wf subj_a \<and>
   set (engine_match_subject (b_router (remove_connection 1 bk_group)) subj_a) =
     set (engine_match_subject (b_router bk_group) subj_a) - subs_of_conn (b_registry bk_group) 1"
  using remove_connection_isolates [OF bk_group_inv subj_a_wf] bk_group_inv subj_a_wf by blast

section \<open>Queue groups\<close>

fun choose_times :: "nat \<Rightarrow> queue_group_key \<Rightarrow> 'h broker \<Rightarrow> subscription_id option list \<times> 'h broker" where
  "choose_times 0 k b = ([], b)"
| "choose_times (Suc n) k b =
     (let (i, b') = choose_member k b; (is, b'') = choose_times n k b' in (i # is, b''))"

lemma choose_times_rotate:
  assumes "queue_groups b k = Some g" and "members g \<noteq> []" and "unat (current_index g) + n \<le> 2 ^ 64"
  shows "fst (choose_times n k b) =
    map (\<lambda>j. Some (members g ! ((unat (current_index g) + j) mod length (members g)))) [0..<n]"
  using assms
proof (induction n arbitrary: b g)
  case (Suc n)
  let ?g = "g\<lparr>current_index := current_index g + 1\<rparr>" and ?c = "unat (current_index g)"
  let ?b = "b\<lparr>queue_groups := (queue_groups b)(k \<mapsto> ?g)\<rparr>"
  have ch: "choose_member k b = (Some (members g ! (?c mod length (members g))), ?b)"
    using Suc.prems(1,2) by (simp add: choose_member_def idx_def Let_def)
  have IH: "fst (choose_times n k ?b) =
      map (\<lambda>j. Some (members g ! ((?c + Suc j) mod length (members g)))) [0..<n]"
  proof (cases "n = 0")
    case False
    then have "unat (current_index g) + unat (1 :: u64) < 2 ^ 64" using Suc.prems(3) by simp
    then have "unat (current_index g + 1) = ?c + 1" using unat_add_lem [of "current_index g" 1] by simp
    then show ?thesis using Suc.IH [of ?b ?g] Suc.prems by simp
  qed simp
  have "[0..<Suc n] = 0 # map Suc [0..<n]" by (simp add: upt_conv_Cons map_Suc_upt del: upt_Suc)
  then show ?case by (simp add: ch IH split_def del: upt_Suc)
qed simp

text \<open>
  C9: round robin is fair.  As long as the 64-bit index of a group does not wrap, as many
  consecutive choices as the group has members choose every member exactly once, in the order of
  the member list starting at the current index.
\<close>

theorem round_robin_fair:
  assumes inv: "broker_inv b" and g: "queue_groups b k = Some g" "members g \<noteq> []"
    and "unat (current_index g) + length (members g) \<le> 2 ^ 64"
  shows "fst (choose_times (length (members g)) k b) = map Some (rotate (unat (current_index g)) (members g)) \<and>
    (\<forall>i. count_list (fst (choose_times (length (members g)) k b)) (Some i) =
      (if i \<in> group_subs b k then 1 else 0))"
proof (intro conjI)
  let ?n = "length (members g)" and ?c = "unat (current_index g)"
  show r: "fst (choose_times ?n k b) = map Some (rotate ?c (members g))"
    unfolding choose_times_rotate [OF assms(2-4)]
    by (rule nth_equalityI) (simp_all add: nth_rotate add.commute)
  have d: "distinct (members g)" "set (members g) = group_subs b k"
    using inv g by (simp_all add: broker_inv_def members_ok_def)
  have "distinct (map Some (rotate ?c (members g)))" using d(1) by (simp add: distinct_map)
  from count_list_distinct [OF this]
  show "\<forall>i. count_list (fst (choose_times ?n k b)) (Some i) = (if i \<in> group_subs b k then 1 else 0)"
    by (auto simp: r d(2) image_iff)
qed

lemma bk_group_state:
  "queue_groups bk_group (tok_a, tok_b) = Some \<lparr>members = [1, 2], current_index = 0\<rparr>"
  by (simp add: bk_group_def run_simps)

theorem round_robin_fair_witness:
  "broker_inv bk_group \<and> queue_groups bk_group (tok_a, tok_b) = Some \<lparr>members = [1, 2], current_index = 0\<rparr> \<and>
   fst (choose_times (Suc (Suc 0)) (tok_a, tok_b) bk_group) = [Some 1, Some 2]"
  using round_robin_fair [OF bk_group_inv bk_group_state] bk_group_inv bk_group_state by simp

text \<open>The matches of the broker with two groups, evaluated.\<close>

lemma bk_mixed_inv: "broker_inv bk_mixed"
  by (simp add: bk_mixed_def subscribe_inv' broker_new_inv pat_a_wf new_counter subscribe_counter)

lemma bk_mixed_routes: "engine_match_subject (b_router bk_mixed) subj_a = [1, 2, 3]"
  by (simp add: bk_mixed_def run_simps engine_match_subject_def exact_matches_def subj_a_def tok_a_def tok_b_def)

lemmas deliver_simps = deliver_matches_def classify_match_def deliver_queue_group_def choose_member_def
  deliver_to_subscriber_def deliver_fanout_def idx_def make_delivery_def log_deliver_def metrics_defs

text \<open>
  C10: \<open>publish\<close> serves a queue group once for each run of its members among the matches, in every broker state.  The
  matches are taken in the order of the router; consecutive members of one group are one run.  So when a member of
  another group stands between two members of a group, that group receives the message at least twice.
\<close>

theorem group_served_once_per_run:
  assumes inv: "broker_inv b" and wf: "subject_wf (m_subject m)"
  shows "\<exists>ts gs. publish dv m (b, w) =
       fold (\<lambda>i. deliver_to_subscriber dv i m) ts
         (b\<lparr>b_metrics := inc_published (b_metrics b), queue_groups := gs\<rparr>, w) \<and>
     (\<forall>k. length (filter (\<lambda>i. i \<in> group_subs b k) ts) =
        count_list (remdups_adj (List.map_filter (\<lambda>i. Option.bind (get_ref b i) key_of_sub)
          (engine_match_subject (b_router b) (m_subject m)))) k) \<and>
     (\<forall>xs i ys j zs y k k'. engine_match_subject (b_router b) (m_subject m) = xs @ i # ys @ j # zs \<longrightarrow>
        i \<in> group_subs b k \<longrightarrow> j \<in> group_subs b k \<longrightarrow> y \<in> set ys \<longrightarrow> y \<in> group_subs b k' \<longrightarrow> k' \<noteq> k \<longrightarrow>
        2 \<le> length (filter (\<lambda>i. i \<in> group_subs b k) ts))"
proof -
  let ?b = "b\<lparr>b_metrics := inc_published (b_metrics b)\<rparr>"
  let ?ids = "engine_match_subject (b_router b) (m_subject m)"
  have inv1: "broker_inv ?b" by (rule published_inv [OF inv])
  obtain ts gs where t: "targets b ?ids = (ts, gs)" by fastforce
  have t1: "targets ?b ?ids = (ts, gs)" using t by (simp add: targets_def)
  have pub: "publish dv m (b, w) = fold (\<lambda>i. deliver_to_subscriber dv i m) ts
      (b\<lparr>b_metrics := inc_published (b_metrics b), queue_groups := gs\<rparr>, w)"
    by (simp add: publish_def deliver_matches_targets [OF broker_inv_interned [OF inv1]] t1)
  have n: "length (filter (\<lambda>i. i \<in> group_subs b k) ts) = count_list (group_runs b ?ids) k" for k
    using targets_group_count [OF inv t, of k] by (simp add: plan_group_runs [OF inv])
  show ?thesis
    by (intro exI [of _ ts] exI [of _ gs] conjI allI impI pub)
      (simp add: n group_runs_def, unfold n, rule interleaved_runs)
qed

theorem group_served_once_per_run_witness:
  "\<exists>ts gs. publish log_deliver (message_new subj_a [7]) (bk_mixed, \<lambda>_. []) =
       fold (\<lambda>i. deliver_to_subscriber log_deliver i (message_new subj_a [7])) ts
         (bk_mixed\<lparr>b_metrics := inc_published (b_metrics bk_mixed), queue_groups := gs\<rparr>, \<lambda>_. []) \<and>
     2 \<le> length (filter (\<lambda>i. i \<in> group_subs bk_mixed (tok_a, tok_b)) ts)"
proof -
  have wf: "subject_wf (m_subject (message_new subj_a [7]))" by (simp add: message_new_def subj_a_wf)
  have r: "engine_match_subject (b_router bk_mixed) (m_subject (message_new subj_a [7])) = [] @ 1 # [2] @ 3 # []"
    by (simp add: message_new_def bk_mixed_routes)
  have g: "1 \<in> group_subs bk_mixed (tok_a, tok_b)" "3 \<in> group_subs bk_mixed (tok_a, tok_b)" "2 \<in> group_subs bk_mixed (tok_a, tok_a)"
    "(tok_a, tok_a) \<noteq> (tok_a, tok_b)"
    by (simp_all add: group_subs_def key_of_sub_def bk_mixed_def run_simps subscription_new_def tok_a_def tok_b_def)
  have two: "2 \<in> set [2 :: subscription_id]" by simp
  from group_served_once_per_run [OF bk_mixed_inv wf, of log_deliver "\<lambda>_. []"]
  show ?thesis using r g two by blast
qed

text \<open>
  C11: in a batch every member of a queue group receives every message.  For every broker state, every group and every
  member \<open>j\<close> of it, \<open>publish_batch\<close> on handles that accept what they are given puts on the handle of \<open>j\<close> each item
  that matches, in order, as if there were no group: it picks a member once for each matching member, and a full turn of
  the round robin serves them all.  The index of the group must not wrap on the way.
\<close>

theorem batch_serves_every_member:
  assumes "delivery_handle dv log" and "\<And>h d w. fst (dv h d w) = Delivered" and "broker_inv b"
    and "\<And>ps. mset (iter ps) = mset ps" and "\<forall>it \<in> set items. subject_wf (i_subject it)"
    and "get_ref b j = Some s" and "key_of_sub s = Some k" and "queue_groups b k = Some g"
    and "unat (current_index g) + length items * length (members g) \<le> 2 ^ 64"
    and "publish_batch dv iter items (b, w) = (b', w')"
  shows "for_sub j (log w' (sub_delivery s)) = for_sub j (log w (sub_delivery s)) @
      map (\<lambda>it. make_delivery j (sub_connection_id s) (item_message it))
        (filter (\<lambda>it. matches (sub_pattern s) (i_subject it)) items)"
proof -
  have "reliable dv" using assms(2) by (simp add: reliable_def)
  from delivery_handle.publish_batch_group [OF assms(1) this assms(3-10)]
  have "for_sub j (log w' (sub_delivery s)) = for_sub j (log w (sub_delivery s)) @
      map (\<lambda>it. make_delivery j (sub_connection_id s) (item_message it)) (filter (wants b j) items)" .
  moreover have "filter (wants b j) items = filter (\<lambda>it. matches (sub_pattern s) (i_subject it)) items"
    using assms(5,6) set_match_ids(1) [OF assms(3)] by (intro filter_cong refl) (auto simp: wants_def matching_def)
  ultimately show ?thesis by simp
qed

text \<open>The two members of \<open>bk_group\<close> both receive the one message of a batch.\<close>

theorem batch_serves_every_member_witness:
  "\<exists>b' w'. publish_batch log_deliver (\<lambda>ps. ps) [publish_item_new subj_a [7]] (bk_group, \<lambda>_. []) = (b', w') \<and>
     for_sub 1 (w' 0) = [make_delivery 1 1 (item_message (publish_item_new subj_a [7]))] \<and>
     for_sub 2 (w' 0) = [make_delivery 2 2 (item_message (publish_item_new subj_a [7]))]"
proof -
  let ?it = "publish_item_new subj_a [7]"
  obtain b' w' where p: "publish_batch log_deliver (\<lambda>ps. ps) [?it] (bk_group, \<lambda>_. []) = (b', w')" by fastforce
  have wf: "\<forall>it \<in> set [?it]. subject_wf (i_subject it)" by (simp add: publish_item_new_def subj_a_wf)
  have mt: "matches pat_a (i_subject ?it)"
    by (simp add: pat_a_def publish_item_new_def subj_a_def matches_token_match)
  have s: "\<exists>s. get_ref bk_group i = Some s \<and> key_of_sub s = Some (tok_a, tok_b) \<and> sub_delivery s = 0 \<and>
      sub_connection_id s = i \<and> sub_pattern s = pat_a" if "i = 1 \<or> i = 2" for i
    using that by (auto simp: bk_group_def run_simps subscription_new_def key_of_sub_def)
  have "for_sub i (w' 0) = [make_delivery i i (item_message ?it)]" if i: "i = 1 \<or> i = 2" for i
  proof -
    obtain s where s: "get_ref bk_group i = Some s" "key_of_sub s = Some (tok_a, tok_b)" "sub_delivery s = 0"
      "sub_connection_id s = i" "sub_pattern s = pat_a" using s [OF i] by blast
    have "for_sub i (w' (sub_delivery s)) = for_sub i ((\<lambda>_. []) (sub_delivery s)) @
        map (\<lambda>it. make_delivery i (sub_connection_id s) (item_message it))
          (filter (\<lambda>it. matches (sub_pattern s) (i_subject it)) [?it])"
      by (rule batch_serves_every_member [OF fake.delivery_handle_axioms _ bk_group_inv refl wf s(1,2) bk_group_state _ p])
        (simp_all add: log_deliver_def)
    then show ?thesis using s mt by simp
  qed
  then show ?thesis using p by blast
qed

end
