(* ===== verification/Threads.thy ===== *)
theory Threads
  imports Main "HOL-Library.Multiset"
begin

text \<open>
  Threads over shared state.  A program is a tree of atomic actions: \<open>Act f\<close> reads and changes the shared state in
  one step and goes on with what \<open>f\<close> returns.  \<open>run\<close> executes a program alone; \<open>exec\<close> executes a pool of programs
  under a schedule, the list of the threads in the order in which they take their steps.

  \<open>holds\<close> is the proof rule: a program keeps an invariant of the shared state at each of its steps, whatever the
  others do in between as long as they keep it too, and returns a result with a given property.
\<close>

section \<open>Programs\<close>

datatype ('s, 'r) prog = Ret 'r | Act "'s \<Rightarrow> 's \<times> ('s, 'r) prog"

lemma prog_induct [case_names Ret Act]:
  assumes "\<And>r. P (Ret r)" and "\<And>f. (\<And>s. P (snd (f s))) \<Longrightarrow> P (Act f)"
  shows "P p"
proof (induction p)
  case (Act f)
  have "P (snd (f s))" for s by (rule Act [of "f s"]) (auto simp: snds.simps)
  then show ?case by (rule assms(2))
qed (rule assms(1))

primrec bnd :: "('s, 'a) prog \<Rightarrow> ('a \<Rightarrow> ('s, 'b) prog) \<Rightarrow> ('s, 'b) prog" where
  "bnd (Ret r) k = k r"
| "bnd (Act f) k = Act (\<lambda>s. map_prod id (\<lambda>p. bnd p k) (f s))"

definition atomic :: "('s \<Rightarrow> 'r \<times> 's) \<Rightarrow> ('s, 'r) prog" where
  "atomic f = Act (\<lambda>s. let (r, s') = f s in (s', Ret r))"

text \<open>A program for each element in turn, with the local variables of the loop.\<close>

fun loop :: "('a \<Rightarrow> 'l \<Rightarrow> ('s, 'l) prog) \<Rightarrow> 'a list \<Rightarrow> 'l \<Rightarrow> ('s, 'l) prog" where
  "loop f [] l = Ret l"
| "loop f (x # xs) l = bnd (f x l) (loop f xs)"

section \<open>A thread alone\<close>

primrec run :: "('s, 'r) prog \<Rightarrow> 's \<Rightarrow> 'r \<times> 's" where
  "run (Ret r) = (\<lambda>s. (r, s))"
| "run (Act f) = (\<lambda>s. case map_prod id run (f s) of (s', g) \<Rightarrow> g s')"

lemma run_Act [simp]: "run (Act f) s = (case f s of (s', p) \<Rightarrow> run p s')"
  by (simp add: map_prod_def split_def)

declare run.simps(2) [simp del]

lemma run_bnd [simp]: "run (bnd p k) s = (case run p s of (r, s') \<Rightarrow> run (k r) s')"
  by (induction p arbitrary: s rule: prog_induct) (simp_all add: split_def map_prod_def)

lemma run_atomic [simp]: "run (atomic f) s = f s"
  by (simp add: atomic_def split: prod.split)

lemma run_loop: "run (loop f xs l) s = fold (\<lambda>x (l, s). run (f x l) s) xs (l, s)"
  by (induction xs arbitrary: l s) (auto split: prod.split)

section \<open>A pool of threads\<close>

fun exec :: "nat list \<Rightarrow> 's \<times> ('s, 'r) prog list \<Rightarrow> 's \<times> ('s, 'r) prog list" where
  "exec [] (s, ps) = (s, ps)"
| "exec (k # ks) (s, ps) =
     (if k < length ps then
        (case ps ! k of
           Ret r \<Rightarrow> exec ks (s, ps)
         | Act f \<Rightarrow> (case f s of (s', p) \<Rightarrow> exec ks (s', ps[k := p])))
      else exec ks (s, ps))"

text \<open>All states a schedule passes through satisfy \<open>C\<close>.\<close>

fun throughout :: "('s \<Rightarrow> bool) \<Rightarrow> nat list \<Rightarrow> 's \<times> ('s, 'r) prog list \<Rightarrow> bool" where
  "throughout C [] (s, ps) \<longleftrightarrow> C s"
| "throughout C (k # ks) (s, ps) \<longleftrightarrow> C s \<and> throughout C ks (exec [k] (s, ps))"

lemma exec_append: "exec (ks @ ls) \<sigma> = exec ls (exec ks \<sigma>)"
  by (induction ks \<sigma> rule: exec.induct) (auto split: prog.split prod.split)

section \<open>Invariants of a pool\<close>

primrec holds :: "('s \<Rightarrow> bool) \<Rightarrow> ('s \<Rightarrow> bool) \<Rightarrow> ('r \<Rightarrow> bool) \<Rightarrow> ('s, 'r) prog \<Rightarrow> bool" where
  "holds C I Q (Ret r) \<longleftrightarrow> Q r"
| "holds C I Q (Act f) \<longleftrightarrow> (\<forall>s. C s \<longrightarrow> I s \<longrightarrow> (case map_prod id (holds C I Q) (f s) of (s', ok) \<Rightarrow> I s' \<and> ok))"

lemma holds_Act [simp]:
  "holds C I Q (Act f) \<longleftrightarrow> (\<forall>s. C s \<longrightarrow> I s \<longrightarrow> I (fst (f s)) \<and> holds C I Q (snd (f s)))"
  by (simp add: map_prod_def split_def)

declare holds.simps(2) [simp del]

lemma holds_bnd [simp]: "holds C I Q (bnd p k) \<longleftrightarrow> holds C I (\<lambda>r. holds C I Q (k r)) p"
  by (induction p rule: prog_induct) (simp_all add: map_prod_def split_def)

lemma holds_atomic [simp]:
  "holds C I Q (atomic f) \<longleftrightarrow> (\<forall>s. C s \<longrightarrow> I s \<longrightarrow> I (snd (f s)) \<and> Q (fst (f s)))"
  by (simp add: atomic_def split_def Let_def)

lemma holds_weaken: "holds C I P p \<Longrightarrow> (\<And>r. P r \<Longrightarrow> Q r) \<Longrightarrow> holds C I Q p"
  by (induction p rule: prog_induct) simp_all

lemma holds_loop:
  assumes "\<And>x l. x \<in> set xs \<Longrightarrow> J l \<Longrightarrow> holds C I J (f x l)"
  shows "J l \<Longrightarrow> holds C I J (loop f xs l)"
  using assms
proof (induction xs arbitrary: l)
  case (Cons x xs)
  have x: "holds C I J (f x l)" and xs: "\<And>l. J l \<Longrightarrow> holds C I J (loop f xs l)" using Cons by simp_all
  from holds_weaken [OF x xs] show ?case by simp
qed simp

text \<open>Every thread of a pool keeps its promise under every schedule.\<close>

lemma exec_holds:
  assumes "list_all2 (holds C I) Qs ps" and "I s" and "throughout C ks (s, ps)"
  shows "I (fst (exec ks (s, ps))) \<and> list_all2 (holds C I) Qs (snd (exec ks (s, ps)))"
  using assms
proof (induction ks arbitrary: s ps)
  case (Cons k ks)
  show ?case
  proof (cases "k < length ps")
    case True
    show ?thesis
    proof (cases "ps ! k")
      case (Act f)
      obtain s' p where f: "f s = (s', p)" by fastforce
      have "holds C I (Qs ! k) (Act f)" using Cons.prems(1) True Act by (metis list_all2_nthD2)
      then have "I s'" "holds C I (Qs ! k) p" using Cons.prems f by (force, force)
      moreover have "list_all2 (holds C I) Qs (ps[k := p])"
        using Cons.prems(1) calculation(2) by (metis list_all2_update_cong list_update_id)
      ultimately show ?thesis using Cons.IH [of "ps[k := p]" s'] Cons.prems(3) True Act f by simp
    qed (use Cons True in simp)
  qed (use Cons in simp)
qed simp

lemma exec_result:
  assumes "list_all2 (holds C I) Qs ps" and "I s" and "throughout C ks (s, ps)"
    and "exec ks (s, ps) = (s', ps')" and "k < length ps" and "ps' ! k = Ret r"
  shows "(Qs ! k) r"
proof -
  have l: "list_all2 (holds C I) Qs ps'" using exec_holds [OF assms(1-3)] assms(4) by simp
  moreover have "length ps' = length ps" using l assms(1) by (metis list_all2_lengthD)
  ultimately have "holds C I (Qs ! k) (ps' ! k)" using assms(5) by (metis list_all2_nthD2)
  then show ?thesis by (simp add: assms(6))
qed

text \<open>
  The interface of an object that threads share: each of its operations, as a program, keeps the invariant at every step
  and returns what it promises.
\<close>

locale shared_object =
  fixes C :: "'s \<Rightarrow> bool" and I :: "'s \<Rightarrow> bool"
    and steps :: "'x \<Rightarrow> ('s, 'r) prog" and allowed :: "'x \<Rightarrow> bool" and promise :: "'x \<Rightarrow> 'r \<Rightarrow> bool"
  assumes op_holds: "allowed x \<Longrightarrow> holds C I (promise x) (steps x)"
begin

lemma pool_holds: "list_all allowed xs \<Longrightarrow> list_all2 (holds C I) (map promise xs) (map steps xs)"
  by (induction xs) (auto intro: op_holds)

lemma pool_keeps:
  assumes "list_all allowed xs" and "I s" and "throughout C ks (s, map steps xs)"
  shows "I (fst (exec ks (s, map steps xs)))"
  using exec_holds [OF pool_holds [OF assms(1)] assms(2,3)] by simp

lemma pool_result:
  assumes "list_all allowed xs" and "I s" and "throughout C ks (s, map steps xs)"
    and "exec ks (s, map steps xs) = (s', ps)" and "k < length xs" and "ps ! k = Ret r"
  shows "promise (xs ! k) r"
  using exec_result [OF pool_holds [OF assms(1)] assms(2-4), of k r] assms(5,6) by simp

end

section \<open>Pools end\<close>

text \<open>No schedule goes on for ever: a step replaces a program by one of its subtrees.\<close>

definition pool_step :: "'s \<times> ('s, 'r) prog list \<Rightarrow> 's \<times> ('s, 'r) prog list \<Rightarrow> bool" where
  "pool_step \<sigma> \<tau> \<longleftrightarrow> (\<exists>k f. k < length (snd \<sigma>) \<and> snd \<sigma> ! k = Act f \<and> \<tau> = exec [k] \<sigma>)"

definition subtree :: "(('s, 'r) prog \<times> ('s, 'r) prog) set" where
  "subtree = {(p, q). \<exists>f s. q = Act f \<and> p = snd (f s)}"

lemma wf_subtree: "wf subtree"
proof (rule wfUNIVI)
  fix P :: "('s, 'r) prog \<Rightarrow> bool" and p
  assume step: "\<forall>q. (\<forall>p. (p, q) \<in> subtree \<longrightarrow> P p) \<longrightarrow> P q"
  show "P p"
  proof (induction p rule: prog_induct)
    case (Ret r)
    have "(p, Ret r) \<notin> subtree" for p by (simp add: subtree_def)
    then show ?case using step by blast
  next
    case (Act f)
    have "P p" if "(p, Act f) \<in> subtree" for p using that Act by (auto simp: subtree_def)
    then show ?case using step by blast
  qed
qed

lemma pools_end: "wf {(\<tau>, \<sigma>). pool_step \<sigma> \<tau>}"
proof (rule wf_subset)
  show "wf (inv_image (mult subtree) (\<lambda>\<sigma>. mset (snd \<sigma>)))" by (intro wf_inv_image wf_mult wf_subtree)
  show "{(\<tau>, \<sigma>). pool_step \<sigma> \<tau>} \<subseteq> inv_image (mult subtree) (\<lambda>\<sigma>. mset (snd \<sigma>))"
  proof clarsimp
    fix s :: 's and ps :: "('s, 'r) prog list" and t qs
    assume "pool_step (s, ps) (t, qs)"
    then obtain k f where k: "k < length ps" "ps ! k = Act f" "(t, qs) = exec [k] (s, ps)" by (auto simp: pool_step_def)
    then have qs: "qs = ps[k := snd (f s)]" by (auto split: prod.splits)
    have "mset ps = mset (take k ps @ drop (Suc k) ps) + {#Act f#}"
      using k(1,2) by (subst id_take_nth_drop [of k ps]) simp_all
    moreover have "mset qs = mset (take k ps @ drop (Suc k) ps) + {#snd (f s)#}"
      using k(1) by (simp add: qs upd_conv_take_nth_drop)
    moreover have "(snd (f s), Act f) \<in> subtree" by (auto simp: subtree_def)
    ultimately show "(mset qs, mset ps) \<in> mult subtree"
      using one_step_implies_mult [of "{#Act f#}" "{#snd (f s)#}" subtree "mset (take k ps @ drop (Suc k) ps)"] by simp
  qed
qed

text \<open>A pool that cannot step has finished.\<close>

lemma pool_finished:
  fixes ps :: "('s, 'r) prog list"
  shows "(\<nexists>\<tau>. pool_step (s, ps) \<tau>) \<longleftrightarrow> list_all (\<lambda>p. \<exists>r. p = Ret r) ps"
proof -
  have "(\<exists>r. p = Ret r) \<longleftrightarrow> (\<nexists>f. p = Act f)" for p :: "('s, 'r) prog" by (cases p) auto
  moreover have "(\<exists>\<tau>. pool_step (s, ps) \<tau>) \<longleftrightarrow> (\<exists>k f. k < length ps \<and> ps ! k = Act f)"
    unfolding pool_step_def snd_conv by blast
  ultimately show ?thesis by (auto simp: list_all_length)
qed

end
