(* ===== verification/Broker_Steps.thy ===== *)
theory Broker_Steps
  imports Broker_Batch Threads
begin

text \<open>
  The operations of the broker core as the threads of the server execute them: \<open>broker/core.rs\<close>,
  \<open>subscription/registry.rs\<close> and \<open>routing/engine.rs\<close> once more, cut where the source releases a lock.  An access to a
  \<open>DashMap\<close> (an entry with what is done to it, a lookup, a removal), an operation on an atomic, a statement under the
  lock of the trie, and a call of \<open>deliver\<close> are one action each; atomics are sequentially consistent.  Where the
  source keeps the guard of a map across calls, the model lets go of it earlier, which only adds interleavings.

  The publishing programs return the calls of \<open>deliver\<close> they made; the source keeps no such list.
\<close>

type_synonym ('h, 'w) shared = "'h broker \<times> 'w"

type_synonym ('h, 'w, 'r) bprog = "('h broker \<times> 'w, 'r) prog"

type_synonym 'h calls = "('h \<times> delivery_message) list"

definition on_broker :: "('h broker \<Rightarrow> 'r \<times> 'h broker) \<Rightarrow> ('h, 'w, 'r) bprog" where
  "on_broker f = atomic (\<lambda>(b, w). let (r, b') = f b in (r, b', w))"

definition look :: "('h broker \<Rightarrow> 'r) \<Rightarrow> ('h, 'w, 'r) bprog" where
  "look f = on_broker (\<lambda>b. (f b, b))"

definition change :: "('h broker \<Rightarrow> 'h broker) \<Rightarrow> ('h, 'w, unit) bprog" where
  "change f = on_broker (\<lambda>b. ((), f b))"

definition on_registry :: "('h registry \<Rightarrow> 'h registry) \<Rightarrow> 'h broker \<Rightarrow> 'h broker" where
  "on_registry f b = b\<lparr>b_registry := f (b_registry b)\<rparr>"

definition on_router :: "(routing_engine \<Rightarrow> routing_engine) \<Rightarrow> 'h broker \<Rightarrow> 'h broker" where
  "on_router f = on_registry (\<lambda>r. r\<lparr>reg_router := f (reg_router r)\<rparr>)"

definition on_metrics :: "(core_metrics \<Rightarrow> core_metrics) \<Rightarrow> 'h broker \<Rightarrow> 'h broker" where
  "on_metrics f b = b\<lparr>b_metrics := f (b_metrics b)\<rparr>"

definition call_deliver :: "('h, 'w) deliverer \<Rightarrow> 'h \<Rightarrow> delivery_message \<Rightarrow> ('h, 'w, delivery_status) bprog" where
  "call_deliver dv h d = atomic (\<lambda>(b, w). let (st, w') = dv h d w in (st, b, w'))"

section \<open>Routing engine and registry\<close>

definition engine_insert_steps :: "subject_pattern \<Rightarrow> subscription_id \<Rightarrow> ('h, 'w, unit) bprog" where
  "engine_insert_steps p i =
     (if \<not> has_wildcard p then
        change (on_router (\<lambda>e. e\<lparr>exact := (exact e)(p_raw p \<mapsto> exact_matches e (p_raw p) @ [i])\<rparr>))
      else
        bnd (change (on_router (\<lambda>e. e\<lparr>wildcard_trie := trie_insert (map token_str (p_tokens p)) i (has_multi p) (wildcard_trie e)\<rparr>)))
          (\<lambda>_. change (on_router (\<lambda>e. e\<lparr>has_wildcards := True\<rparr>))))"

definition engine_remove_steps :: "subject_pattern \<Rightarrow> subscription_id \<Rightarrow> ('h, 'w, unit) bprog" where
  "engine_remove_steps p i =
     (if \<not> has_wildcard p then
        change (on_router (\<lambda>e. case exact e (p_raw p) of
            None \<Rightarrow> e
          | Some xs \<Rightarrow> e\<lparr>exact := (exact e)(p_raw p \<mapsto> retain_not i xs)\<rparr>))
      else
        bnd (change (on_router (\<lambda>e. e\<lparr>wildcard_trie := trie_remove (map token_str (p_tokens p)) i (has_multi p) (wildcard_trie e)\<rparr>)))
          (\<lambda>_. bnd (look (\<lambda>b. trie_is_empty (wildcard_trie (b_router b))))
          (\<lambda>empty. if empty then change (on_router (\<lambda>e. e\<lparr>has_wildcards := False\<rparr>)) else Ret ())))"

definition match_subject_steps :: "subject \<Rightarrow> ('h, 'w, subscription_id list) bprog" where
  "match_subject_steps s =
     bnd (look (\<lambda>b. exact_matches (b_router b) (s_raw s))) (\<lambda>results.
     bnd (look (\<lambda>b. has_wildcards (b_router b))) (\<lambda>flag.
     if flag then bnd (look (\<lambda>b. trie_match_subject (wildcard_trie (b_router b)) s)) (\<lambda>subs. Ret (results @ subs))
     else Ret results))"

definition match_wildcards_steps :: "subject \<Rightarrow> ('h, 'w, subscription_id list) bprog" where
  "match_wildcards_steps s =
     bnd (look (\<lambda>b. has_wildcards (b_router b))) (\<lambda>flag.
     if flag then look (\<lambda>b. trie_match_subject (wildcard_trie (b_router b)) s) else Ret [])"

definition registry_add_steps ::
  "subscription_id \<Rightarrow> connection_id \<Rightarrow> subject_pattern \<Rightarrow> queue_group_name option \<Rightarrow> arc_key option \<Rightarrow> 'h \<Rightarrow> ('h, 'w, unit) bprog" where
  "registry_add_steps i c p qg key h =
     bnd (engine_insert_steps p i) (\<lambda>_.
     bnd (change (on_registry (\<lambda>r. r\<lparr>subscriptions := (subscriptions r)(i \<mapsto> subscription_new i c p qg key h)\<rparr>))) (\<lambda>_.
     change (on_registry (\<lambda>r. r\<lparr>by_connection := (by_connection r)(c \<mapsto> conn_ids r c @ [i])\<rparr>))))"

text \<open>\<open>subscriptions.remove(id)\<close>.\<close>

definition take_subscription :: "subscription_id \<Rightarrow> 'h broker \<Rightarrow> 'h subscription option \<times> 'h broker" where
  "take_subscription i b = (get_ref b i, on_registry (\<lambda>r. r\<lparr>subscriptions := (subscriptions r)(i := None)\<rparr>) b)"

definition registry_remove_steps :: "subscription_id \<Rightarrow> ('h, 'w, 'h subscription option) bprog" where
  "registry_remove_steps i =
     bnd (on_broker (take_subscription i)) (\<lambda>found. case found of
       None \<Rightarrow> Ret None
     | Some sub \<Rightarrow>
         bnd (engine_remove_steps (sub_pattern sub) i) (\<lambda>_.
         bnd (change (on_registry (\<lambda>r. case by_connection r (sub_connection_id sub) of
             None \<Rightarrow> r
           | Some is \<Rightarrow> r\<lparr>by_connection := (by_connection r)(sub_connection_id sub \<mapsto> retain_not i is)\<rparr>))) (\<lambda>_.
         Ret (Some sub))))"

definition remove_one_steps :: "subscription_id \<Rightarrow> 'h subscription list \<Rightarrow> ('h, 'w, 'h subscription list) bprog" where
  "remove_one_steps i removed =
     bnd (on_broker (take_subscription i)) (\<lambda>found. case found of
       None \<Rightarrow> Ret removed
     | Some sub \<Rightarrow> bnd (engine_remove_steps (sub_pattern sub) i) (\<lambda>_. Ret (removed @ [sub])))"

definition remove_all_for_connection_steps :: "connection_id \<Rightarrow> ('h, 'w, 'h subscription list) bprog" where
  "remove_all_for_connection_steps c =
     bnd (on_broker (\<lambda>b. (conn_ids (b_registry b) c, on_registry (\<lambda>r. r\<lparr>by_connection := (by_connection r)(c := None)\<rparr>) b)))
       (\<lambda>ids. loop remove_one_steps ids [])"

section \<open>Subscribing\<close>

text \<open>\<open>sub_id_gen.next()\<close>.\<close>

definition next_id :: "'h broker \<Rightarrow> subscription_id \<times> 'h broker" where
  "next_id b = (let (i, gen) = id_generator_next (sub_id_gen b) in (i, b\<lparr>sub_id_gen := gen\<rparr>))"

definition subscribe_steps ::
  "connection_id \<Rightarrow> subject_pattern \<Rightarrow> queue_group_name option \<Rightarrow> 'h \<Rightarrow> ('h, 'w, subscription_id) bprog" where
  "subscribe_steps c p qg h =
     bnd (on_broker next_id) (\<lambda>i.
     bnd (case qg of
            None \<Rightarrow> Ret None
          | Some q \<Rightarrow> bnd (on_broker (intern_key (p_raw p, q))) (\<lambda>a. Ret (Some a))) (\<lambda>key.
     bnd (case key of None \<Rightarrow> Ret () | Some a \<Rightarrow> change (join_group (arc_val a) i)) (\<lambda>_.
     bnd (registry_add_steps i c p qg key h) (\<lambda>_.
     bnd (change (on_metrics inc_subscriptions)) (\<lambda>_. Ret i)))))"

definition unsubscribe_steps :: "connection_id \<Rightarrow> subscription_id \<Rightarrow> ('h, 'w, unit) bprog" where
  "unsubscribe_steps c i =
     bnd (registry_remove_steps i) (\<lambda>found. case found of
       None \<Rightarrow> Ret ()
     | Some sub \<Rightarrow>
         bnd (case sub_queue_group_key sub of None \<Rightarrow> Ret () | Some a \<Rightarrow> change (leave_group (arc_val a) i)) (\<lambda>_.
         change (on_metrics dec_subscriptions)))"

text \<open>The part of the cleanup under the guard of the group: it says whether the group is now empty.\<close>

definition retain_members :: "queue_group_key \<Rightarrow> subscription_id list \<Rightarrow> 'h broker \<Rightarrow> bool \<times> 'h broker" where
  "retain_members k removed_ids b =
     (case queue_groups b k of
        None \<Rightarrow> (False, b)
      | Some g \<Rightarrow>
          (let ms = filter (\<lambda>i. i \<notin> set removed_ids) (members g)
           in (ms = [], b\<lparr>queue_groups := (queue_groups b)(k \<mapsto> g\<lparr>members := ms\<rparr>)\<rparr>)))"

definition cleanup_group_steps :: "subscription_id list \<Rightarrow> 'h subscription \<Rightarrow> unit \<Rightarrow> ('h, 'w, unit) bprog" where
  "cleanup_group_steps removed_ids sub _ =
     (case sub_queue_group_key sub of
        None \<Rightarrow> Ret ()
      | Some a \<Rightarrow>
          bnd (on_broker (retain_members (arc_val a) removed_ids)) (\<lambda>empty.
          if empty then
            bnd (change (\<lambda>b. b\<lparr>queue_groups := (queue_groups b)(arc_val a := None)\<rparr>)) (\<lambda>_.
            change (\<lambda>b. b\<lparr>queue_group_keys := (queue_group_keys b)(arc_val a := None)\<rparr>))
          else Ret ()))"

definition remove_connection_steps :: "connection_id \<Rightarrow> ('h, 'w, unit) bprog" where
  "remove_connection_steps c =
     bnd (remove_all_for_connection_steps c) (\<lambda>removed.
     bnd (loop (cleanup_group_steps (map sub_id removed)) removed ()) (\<lambda>_.
     bnd (loop (\<lambda>_ _. change (on_metrics dec_subscriptions)) removed ()) (\<lambda>_.
     change (on_metrics dec_active_connections))))"

section \<open>Publishing\<close>

definition deliver_steps :: "('h, 'w) deliverer \<Rightarrow> 'h \<Rightarrow> delivery_message \<Rightarrow> ('h, 'w, 'h calls) bprog" where
  "deliver_steps dv h d =
     bnd (call_deliver dv h d) (\<lambda>st. bnd (change (handle_delivery_status st)) (\<lambda>_. Ret [(h, d)]))"

definition deliver_to_subscriber_steps ::
  "('h, 'w) deliverer \<Rightarrow> subscription_id \<Rightarrow> message \<Rightarrow> ('h, 'w, 'h calls) bprog" where
  "deliver_to_subscriber_steps dv i m =
     bnd (look (\<lambda>b. get_ref b i)) (\<lambda>found. case found of
       None \<Rightarrow> Ret []
     | Some sub \<Rightarrow> deliver_steps dv (sub_delivery sub) (make_delivery i (sub_connection_id sub) m))"

definition deliver_queue_group_steps ::
  "('h, 'w) deliverer \<Rightarrow> arc_key \<Rightarrow> subscription_id list \<Rightarrow> message \<Rightarrow> ('h, 'w, 'h calls) bprog" where
  "deliver_queue_group_steps dv key ms m =
     (if ms = [] then Ret []
      else bnd (on_broker (choose_member (arc_val key))) (\<lambda>chosen. case chosen of
          None \<Rightarrow> Ret []
        | Some i \<Rightarrow> deliver_to_subscriber_steps dv i m))"

definition classify_match_steps ::
  "('h, 'w) deliverer \<Rightarrow> message \<Rightarrow> subscription_id \<Rightarrow> 'h match_state \<times> 'h calls \<Rightarrow> ('h, 'w, 'h match_state \<times> 'h calls) bprog" where
  "classify_match_steps dv m i = (\<lambda>(st, ds).
     bnd (look (\<lambda>b. get_ref b i)) (\<lambda>found. case found of
       None \<Rightarrow> Ret (st, ds)
     | Some sub \<Rightarrow>
         (case sub_queue_group_key sub of
            None \<Rightarrow> Ret (st\<lparr>fanout := fanout st @ [(i, sub_connection_id sub, sub_delivery sub)]\<rparr>, ds)
          | Some key \<Rightarrow>
              bnd (if (case last_key st of None \<Rightarrow> False | Some k \<Rightarrow> arc_ptr k = arc_ptr key) then Ret (st, [])
                   else
                     (case last_key st of
                        None \<Rightarrow> Ret (st\<lparr>last_key := Some key\<rparr>, [])
                      | Some prev_key \<Rightarrow>
                          bnd (deliver_queue_group_steps dv prev_key (group_members st) m) (\<lambda>e.
                          Ret (st\<lparr>group_members := [], last_key := Some key\<rparr>, e))))
                (\<lambda>(st', e). Ret (st'\<lparr>group_members := group_members st' @ [i]\<rparr>, ds @ e)))))"

definition deliver_fanout_steps ::
  "('h, 'w) deliverer \<Rightarrow> message \<Rightarrow> subscription_id \<times> connection_id \<times> 'h \<Rightarrow> 'h calls \<Rightarrow> ('h, 'w, 'h calls) bprog" where
  "deliver_fanout_steps dv m = (\<lambda>(i, c, h) ds. bnd (deliver_steps dv h (make_delivery i c m)) (\<lambda>e. Ret (ds @ e)))"

definition deliver_matches_steps ::
  "('h, 'w) deliverer \<Rightarrow> message \<Rightarrow> subscription_id list \<Rightarrow> ('h, 'w, 'h calls) bprog" where
  "deliver_matches_steps dv m ids =
     bnd (loop (classify_match_steps dv m) ids (\<lparr>fanout = [], group_members = [], last_key = None\<rparr>, [])) (\<lambda>(st, ds).
     bnd (case last_key st of
            None \<Rightarrow> Ret []
          | Some key \<Rightarrow> deliver_queue_group_steps dv key (group_members st) m) (\<lambda>e.
     loop (deliver_fanout_steps dv m) (fanout st) (ds @ e)))"

definition publish_steps :: "('h, 'w) deliverer \<Rightarrow> message \<Rightarrow> ('h, 'w, 'h calls) bprog" where
  "publish_steps dv m =
     bnd (change (on_metrics inc_published)) (\<lambda>_.
     bnd (match_subject_steps (m_subject m)) (deliver_matches_steps dv m))"

text \<open>\<open>subject_cache.get(input)\<close>, and \<open>entry(input).or_insert(subj)\<close> after a miss.\<close>

definition parse_subject_steps :: "str \<Rightarrow> ('h, 'w, core_error + subject) bprog" where
  "parse_subject_steps input =
     bnd (look (\<lambda>b. subject_cache b input)) (\<lambda>hit. case hit of
       Some subj \<Rightarrow> Ret (Inr subj)
     | None \<Rightarrow>
         (case subject_parse input of
            Inl e \<Rightarrow> Ret (Inl e)
          | Inr subj \<Rightarrow>
              bnd (change (\<lambda>b. case subject_cache b input of
                  None \<Rightarrow> b\<lparr>subject_cache := (subject_cache b)(input \<mapsto> subj)\<rparr>
                | Some _ \<Rightarrow> b)) (\<lambda>_. Ret (Inr subj))))"

definition publish_with_str_steps ::
  "('h, 'w) deliverer \<Rightarrow> str \<Rightarrow> bytes \<Rightarrow> subject option \<Rightarrow> header_map option \<Rightarrow> ('h, 'w, 'h calls) bprog" where
  "publish_with_str_steps dv subject_str payload reply_to headers =
     bnd (change (on_metrics inc_published)) (\<lambda>_.
     bnd (look (\<lambda>b. exact_matches (b_router b) subject_str)) (\<lambda>exact_ms.
     bnd (look (\<lambda>b. has_wildcards (b_router b))) (\<lambda>needs_wildcard_parse.
     if exact_ms = [] \<and> \<not> needs_wildcard_parse then Ret []
     else bnd (parse_subject_steps subject_str) (\<lambda>parsed. case parsed of
         Inl e \<Rightarrow> Ret []
       | Inr subj \<Rightarrow>
           bnd (if needs_wildcard_parse then match_wildcards_steps subj else Ret []) (\<lambda>wild.
           deliver_matches_steps dv \<lparr>m_id = 0, m_subject = subj, m_payload = payload, m_headers = headers,
             m_reply_to = reply_to, m_timestamp_ns = 0\<rparr> (exact_ms @ wild))))))"

section \<open>Batches\<close>

text \<open>The conditions of the fast path: the flag, the exact entry and the registry are read one after the other.\<close>

definition batch_single_steps :: "publish_item list \<Rightarrow> ('h, 'w, (subscription_id \<times> 'h subscription) option) bprog" where
  "batch_single_steps items =
     bnd (look router_has_wildcards) (\<lambda>wild.
     if wild then Ret None
     else bnd (look (\<lambda>b. exact_single_subscriber (b_router b) (i_subject (hd items)))) (\<lambda>single. case single of
         None \<Rightarrow> Ret None
       | Some i \<Rightarrow> bnd (look (\<lambda>b. get_ref b i)) (\<lambda>found. Ret (case found of
             None \<Rightarrow> None
           | Some sub \<Rightarrow>
               if sub_queue_group_key sub = None \<and> list_all (\<lambda>it. i_subject it = i_subject (hd items)) items
               then Some (i, sub) else None))))"

fun deliver_batch_steps :: "('h, 'w) deliverer \<Rightarrow> 'h \<Rightarrow> delivery_message list \<Rightarrow> ('h, 'w, nat \<times> 'h calls) bprog" where
  "deliver_batch_steps dv h [] = Ret (0, [])"
| "deliver_batch_steps dv h (d # ds) =
     bnd (call_deliver dv h d) (\<lambda>st. case st of
       Delivered \<Rightarrow> bnd (deliver_batch_steps dv h ds) (\<lambda>(n, cs). Ret (n + 1, (h, d) # cs))
     | _ \<Rightarrow> Ret (0, [(h, d)]))"

definition count_batch_steps :: "nat \<Rightarrow> nat \<Rightarrow> ('h, 'w, unit) bprog" where
  "count_batch_steps accepted msgs_len =
     bnd (change (on_metrics (add_delivered (of_nat accepted)))) (\<lambda>_.
     change (on_metrics (add_dropped (of_nat (msgs_len - accepted)))))"

definition cached_info_steps :: "subscription_id \<Rightarrow> batch_state \<Rightarrow> ('h, 'w, (connection_id \<times> bool) option \<times> batch_state) bprog" where
  "cached_info_steps i st =
     (case find (\<lambda>(j, _, _). j = i) (sub_cache st) of
        Some (_, conn, qg) \<Rightarrow> Ret (Some (conn, qg), st)
      | None \<Rightarrow>
          bnd (look (\<lambda>b. get_ref b i)) (\<lambda>found. case found of
            None \<Rightarrow> Ret (None, st)
          | Some sub \<Rightarrow>
              (let conn = sub_connection_id sub; qg = (sub_queue_group_key sub \<noteq> None)
               in Ret (Some (conn, qg), st\<lparr>sub_cache := sub_cache st @ [(i, conn, qg)]\<rparr>))))"

definition batch_match_steps ::
  "('h, 'w) deliverer \<Rightarrow> publish_item \<Rightarrow> subscription_id \<Rightarrow> batch_state \<times> 'h calls \<Rightarrow> ('h, 'w, batch_state \<times> 'h calls) bprog" where
  "batch_match_steps dv it i = (\<lambda>(st, cs).
     bnd (cached_info_steps i st) (\<lambda>(info, st'). case info of
       None \<Rightarrow> Ret (st', cs)
     | Some (conn, is_queue_group) \<Rightarrow>
         if is_queue_group then bnd (deliver_matches_steps dv (item_message it) [i]) (\<lambda>e. Ret (st', cs @ e))
         else Ret (st'\<lparr>pending := push_pending i (make_delivery i conn (item_message it)) (pending st')\<rparr>, cs)))"

definition batch_item_steps ::
  "('h, 'w) deliverer \<Rightarrow> publish_item \<Rightarrow> batch_state \<times> 'h calls \<Rightarrow> ('h, 'w, batch_state \<times> 'h calls) bprog" where
  "batch_item_steps dv it = (\<lambda>(st, cs).
     bnd (if (case last_match st of None \<Rightarrow> False | Some (s, _) \<Rightarrow> s = i_subject it)
          then Ret (case last_match st of Some (_, ids) \<Rightarrow> ids | None \<Rightarrow> [])
          else match_subject_steps (i_subject it))
       (\<lambda>ids. loop (batch_match_steps dv it) ids (st\<lparr>last_match := Some (i_subject it, ids)\<rparr>, cs)))"

definition flush_pending_steps ::
  "('h, 'w) deliverer \<Rightarrow> subscription_id \<times> delivery_message list \<Rightarrow> 'h calls \<Rightarrow> ('h, 'w, 'h calls) bprog" where
  "flush_pending_steps dv = (\<lambda>(i, msgs) cs.
     bnd (look (\<lambda>b. get_ref b i)) (\<lambda>found. case found of
       None \<Rightarrow> Ret cs
     | Some sub \<Rightarrow>
         bnd (if length msgs = 1
              then bnd (call_deliver dv (sub_delivery sub) (hd msgs))
                     (\<lambda>st. Ret (case st of Delivered \<Rightarrow> 1 | _ \<Rightarrow> 0, [(sub_delivery sub, hd msgs)]))
              else deliver_batch_steps dv (sub_delivery sub) msgs)
           (\<lambda>(accepted, e). bnd (count_batch_steps accepted (length msgs)) (\<lambda>_. Ret (cs @ e)))))"

definition publish_batch_steps ::
  "('h, 'w) deliverer \<Rightarrow> ((subscription_id \<times> delivery_message list) list \<Rightarrow> (subscription_id \<times> delivery_message list) list) \<Rightarrow>
   publish_item list \<Rightarrow> ('h, 'w, 'h calls) bprog" where
  "publish_batch_steps dv iter items =
     (if items = [] then Ret []
      else
        bnd (change (on_metrics (inc_published_by (of_nat (length items))))) (\<lambda>_.
        bnd (batch_single_steps items) (\<lambda>single. case single of
          Some (i, sub) \<Rightarrow>
            bnd (deliver_batch_steps dv (sub_delivery sub) (map (\<lambda>it. make_delivery i (sub_connection_id sub) (item_message it)) items))
              (\<lambda>(accepted, cs). bnd (count_batch_steps accepted (length items)) (\<lambda>_. Ret cs))
        | None \<Rightarrow>
            bnd (loop (batch_item_steps dv) items (\<lparr>pending = [], last_match = None, sub_cache = []\<rparr>, [])) (\<lambda>(st, cs).
            loop (flush_pending_steps dv) (iter (pending st)) cs))))"

section \<open>Alone, the programs are the operations\<close>

lemma run_on_broker [simp]: "run (on_broker f) (b, w) = (case f b of (r, b') \<Rightarrow> (r, b', w))"
  by (simp add: on_broker_def Let_def split: prod.split)

lemma run_look [simp]: "run (look f) (b, w) = (f b, b, w)"
  by (simp add: look_def)

lemma run_change [simp]: "run (change f) (b, w) = ((), f b, w)"
  by (simp add: change_def)

lemma run_call_deliver [simp]: "run (call_deliver dv h d) (b, w) = (case dv h d w of (st, w') \<Rightarrow> (st, b, w'))"
  by (simp add: call_deliver_def Let_def split: prod.split)

lemmas on_defs = on_router_def on_registry_def on_metrics_def

lemma run_engine_insert: "run (engine_insert_steps p i) (b, w) = ((), on_router (engine_insert p i) b, w)"
  by (simp add: engine_insert_steps_def engine_insert_def on_defs exact_matches_def)

lemma run_engine_remove: "run (engine_remove_steps p i) (b, w) = ((), on_router (engine_remove p i) b, w)"
  by (auto simp: engine_remove_steps_def engine_remove_def on_defs Let_def split: option.split)

lemma run_match_subject: "run (match_subject_steps s) (b, w) = (engine_match_subject (b_router b) s, b, w)"
  by (simp add: match_subject_steps_def engine_match_subject_def)

lemma run_match_wildcards: "run (match_wildcards_steps s) (b, w) = (match_wildcards (b_router b) s, b, w)"
  by (simp add: match_wildcards_steps_def match_wildcards_def)

lemma run_registry_add:
  "run (registry_add_steps i c p qg key h) (b, w) = ((), on_registry (registry_add i c p qg key h) b, w)"
  by (simp add: registry_add_steps_def run_engine_insert registry_add_def on_defs Let_def conn_ids_def)

lemma take_subscription_None: "get_ref b i = None \<Longrightarrow> take_subscription i b = (None, b)"
  by (simp add: take_subscription_def on_registry_def fun_upd_idem)

lemma take_subscription_Some:
  "get_ref b i = Some sub \<Longrightarrow> take_subscription i b = (Some sub, on_registry (\<lambda>r. r\<lparr>subscriptions := (subscriptions r)(i := None)\<rparr>) b)"
  by (simp add: take_subscription_def)

lemma run_registry_remove:
  "run (registry_remove_steps i) (b, w) = (case registry_remove i (b_registry b) of (found, r) \<Rightarrow> (found, b\<lparr>b_registry := r\<rparr>, w))"
proof (cases "get_ref b i")
  case None
  then show ?thesis by (simp add: registry_remove_steps_def take_subscription_None registry_remove_def)
next
  case (Some sub)
  then show ?thesis
    by (auto simp: registry_remove_steps_def take_subscription_Some run_engine_remove registry_remove_def on_defs split: option.split)
qed

lemma run_remove_each:
  "run (loop remove_one_steps ids removed) (b, w) =
     (case remove_each ids (b_registry b) of (subs, r) \<Rightarrow> (removed @ subs, b\<lparr>b_registry := r\<rparr>, w))"
proof (induction ids arbitrary: removed b)
  case (Cons i ids)
  show ?case
  proof (cases "get_ref b i")
    case None
    then show ?thesis using Cons by (simp add: remove_one_steps_def take_subscription_None)
  next
    case (Some sub)
    then show ?thesis
      using Cons [of "removed @ [sub]"]
      by (simp add: remove_one_steps_def take_subscription_Some run_engine_remove on_defs Let_def split: prod.split)
  qed
qed simp

lemma run_remove_all:
  "run (remove_all_for_connection_steps c) (b, w) =
     (case remove_all_for_connection c (b_registry b) of (subs, r) \<Rightarrow> (subs, b\<lparr>b_registry := r\<rparr>, w))"
  by (simp add: remove_all_for_connection_steps_def remove_all_for_connection_def run_remove_each on_defs split: prod.split)

lemma run_cleanup_group: "run (cleanup_group_steps removed_ids sub u) (b, w) = ((), cleanup_group removed_ids sub b, w)"
  by (auto simp: cleanup_group_steps_def cleanup_group_def retain_members_def Let_def split: option.split)

lemma run_loop_unit:
  assumes "\<And>x u b. run (f x u) (b, w) = ((), g x b, w)"
  shows "run (loop f xs ()) (b, w) = ((), fold g xs b, w)"
  by (induction xs arbitrary: b) (simp_all add: assms)

lemma fold_on_metrics: "fold (\<lambda>_. on_metrics f) xs b = on_metrics (f ^^ length xs) b"
  by (induction xs arbitrary: b) (simp_all add: on_metrics_def funpow_swap1)

lemma run_remove_connection: "run (remove_connection_steps c) (b, w) = ((), remove_connection c b, w)"
  by (simp add: remove_connection_steps_def remove_connection_def run_remove_all run_loop_unit [OF run_cleanup_group]
      run_loop_unit [where g = "\<lambda>_. on_metrics dec_subscriptions"] fold_on_metrics on_metrics_def Let_def split: prod.split)

lemma run_subscribe:
  "run (subscribe_steps c p qg h) (b, w) = (case subscribe c p qg h b of (i, b') \<Rightarrow> (i, b', w))"
  by (auto simp: subscribe_steps_def subscribe_def next_id_def run_registry_add on_defs Let_def split: option.split prod.split)

lemma run_unsubscribe: "run (unsubscribe_steps c i) (b, w) = ((), unsubscribe c i b, w)"
  by (auto simp: unsubscribe_steps_def unsubscribe_def run_registry_remove on_defs Let_def leave_group_def split: option.split prod.split)


lemma run_deliver_steps:
  "run (deliver_steps dv h d) (b, w) = (case dv h d w of (st, w') \<Rightarrow> ([(h, d)], handle_delivery_status st b, w'))"
  by (simp add: deliver_steps_def split: prod.split)

lemma run_deliver_to_subscriber:
  "snd (run (deliver_to_subscriber_steps dv i m) (b, w)) = deliver_to_subscriber dv i m (b, w)"
  by (simp add: deliver_to_subscriber_steps_def deliver_to_subscriber_def run_deliver_steps Let_def split: option.split prod.split)

lemma run_deliver_queue_group:
  "snd (run (deliver_queue_group_steps dv k ms m) (b, w)) = deliver_queue_group dv k ms m (b, w)"
  by (auto simp: deliver_queue_group_steps_def deliver_queue_group_def run_deliver_to_subscriber split: option.split prod.split)

lemma run_classify_match:
  "(case run (classify_match_steps dv m i (st, ds)) (b, w) of ((st', _), s) \<Rightarrow> (st', s)) = classify_match dv m i (st, b, w)"
proof (cases "get_ref b i")
  case (Some sub)
  have g: "run (deliver_queue_group_steps dv k ms m) (b, w) = (e, s) \<Longrightarrow> s = deliver_queue_group dv k ms m (b, w)" for k ms e s
    using run_deliver_queue_group [of dv k ms m b w] by simp
  show ?thesis
    by (auto simp: Some classify_match_steps_def classify_match_def Let_def dest!: g split: option.split prod.split)
qed (simp add: classify_match_steps_def classify_match_def)

lemma run_classify_loop:
  "(case run (loop (classify_match_steps dv m) ids (st, ds)) (b, w) of ((st', _), s) \<Rightarrow> (st', s)) =
     fold (classify_match dv m) ids (st, b, w)"
proof (induction ids arbitrary: st ds b w)
  case (Cons i ids)
  obtain st1 e1 b1 w1 where r: "run (classify_match_steps dv m i (st, ds)) (b, w) = ((st1, e1), b1, w1)"
    by (metis prod.collapse)
  then have "classify_match dv m i (st, b, w) = (st1, b1, w1)" using run_classify_match [of dv m i st ds b w] by simp
  then show ?case using Cons [of st1 e1 b1 w1] r by simp
qed simp

lemma run_fanout: "snd (run (loop (deliver_fanout_steps dv m) fs ds) (b, w)) = fold (deliver_fanout dv m) fs (b, w)"
proof (induction fs arbitrary: ds b w)
  case (Cons f fs)
  obtain i c h where f: "f = (i, c, h)" by (metis prod.collapse)
  show ?case using Cons by (simp add: f deliver_fanout_steps_def deliver_fanout_def run_deliver_steps Let_def split: prod.split)
qed simp

lemma run_deliver_matches: "snd (run (deliver_matches_steps dv m ids) (b, w)) = deliver_matches dv m ids (b, w)"
proof -
  let ?st = "\<lparr>fanout = [], group_members = [], last_key = None\<rparr>"
  obtain st ds b1 w1 where r: "run (loop (classify_match_steps dv m) ids (?st, [])) (b, w) = ((st, ds), b1, w1)"
    by (metis prod.collapse)
  then have c: "fold (classify_match dv m) ids (?st, b, w) = (st, b1, w1)" using run_classify_loop [of dv m ids ?st "[]" b w] by simp
  show ?thesis
  proof (cases "last_key st")
    case None
    then show ?thesis by (simp add: deliver_matches_steps_def deliver_matches_def r c run_fanout)
  next
    case (Some k)
    obtain e b2 w2 where q: "run (deliver_queue_group_steps dv k (group_members st) m) (b1, w1) = (e, b2, w2)" by (metis prod.collapse)
    then have "deliver_queue_group dv k (group_members st) m (b1, w1) = (b2, w2)"
      using run_deliver_queue_group [of dv k "group_members st" m b1 w1] by simp
    then show ?thesis using Some by (simp add: deliver_matches_steps_def deliver_matches_def r c q run_fanout)
  qed
qed

lemma run_publish: "snd (run (publish_steps dv m) (b, w)) = publish dv m (b, w)"
  by (simp add: publish_steps_def publish_def run_match_subject run_deliver_matches on_metrics_def)

lemma run_parse_subject: "run (parse_subject_steps input) (b, w) = (case parse_subject input b of (r, b') \<Rightarrow> (r, b', w))"
  by (auto simp: parse_subject_steps_def parse_subject_def split: option.split sum.split)

lemma run_publish_with_str:
  "snd (run (publish_with_str_steps dv s payload reply hs) (b, w)) = publish_with_str dv s payload reply hs (b, w)"
proof -
  let ?b = "b\<lparr>b_metrics := inc_published (b_metrics b)\<rparr>"
  obtain r b2 where p: "parse_subject s ?b = (r, b2)" by fastforce
  show ?thesis
    by (cases r) (simp_all add: publish_with_str_steps_def publish_with_str_def match_subject_str_def on_metrics_def run_parse_subject p
        run_match_wildcards run_deliver_matches Let_def)
qed


lemma run_batch_single: "run (batch_single_steps items) (b, w) = (batch_single items b, b, w)"
  by (simp add: batch_single_steps_def batch_single_def split: option.split)

lemma run_deliver_batch:
  "\<exists>n cs w'. run (deliver_batch_steps dv h ds) (b, w) = ((n, cs), b, w') \<and> deliver_batch dv h ds w = (n, w')"
proof (induction ds arbitrary: w)
  case (Cons d ds)
  obtain st w1 where c: "dv h d w = (st, w1)" by fastforce
  from Cons [of w1] c show ?case by (cases st) auto
qed simp

lemma run_count_batch: "run (count_batch_steps n len) (b, w) = ((), count_batch n len b, w)"
  by (simp add: count_batch_steps_def count_batch_def on_metrics_def)

lemma run_cached_info: "run (cached_info_steps i st) (b, w) = (cached_info b i st, b, w)"
  by (auto simp: cached_info_steps_def cached_info_def Let_def split: option.split)

lemma run_batch_match:
  "(case run (batch_match_steps dv it i (st, cs)) (b, w) of ((st', _), s) \<Rightarrow> (st', s)) = batch_match dv it i (st, b, w)"
proof -
  obtain info st1 where c: "cached_info b i st = (info, st1)" by fastforce
  obtain e b1 w1 where d: "run (deliver_matches_steps dv (item_message it) [i]) (b, w) = (e, b1, w1)" by (metis prod.collapse)
  then have "deliver_matches dv (item_message it) [i] (b, w) = (b1, w1)"
    using run_deliver_matches [of dv "item_message it" "[i]" b w] by simp
  then show ?thesis
    by (simp add: batch_match_steps_def batch_match_def run_cached_info c d split: option.split prod.split)
qed

lemma run_batch_matches:
  "(case run (loop (batch_match_steps dv it) ids (st, cs)) (b, w) of ((st', _), s) \<Rightarrow> (st', s)) =
     fold (batch_match dv it) ids (st, b, w)"
proof (induction ids arbitrary: st cs b w)
  case (Cons i ids)
  obtain st1 e1 b1 w1 where r: "run (batch_match_steps dv it i (st, cs)) (b, w) = ((st1, e1), b1, w1)" by (metis prod.collapse)
  then have "batch_match dv it i (st, b, w) = (st1, b1, w1)" using run_batch_match [of dv it i st cs b w] by simp
  then show ?case using Cons [of st1 e1 b1 w1] r by simp
qed simp

lemma run_batch_item:
  "(case run (batch_item_steps dv it (st, cs)) (b, w) of ((st', _), s) \<Rightarrow> (st', s)) = batch_item dv it (st, b, w)"
proof -
  have "run (if (case last_match st of None \<Rightarrow> False | Some (s, _) \<Rightarrow> s = i_subject it)
          then Ret (case last_match st of Some (_, ids) \<Rightarrow> ids | None \<Rightarrow> []) else match_subject_steps (i_subject it)) (b, w) =
      (item_ids b it st, b, w)"
    by (auto simp: item_ids_def run_match_subject split: option.split)
  then show ?thesis
    unfolding batch_item_steps_def by (simp add: batch_item_fold run_batch_matches)
qed

lemma run_batch_items:
  "(case run (loop (batch_item_steps dv) items (st, cs)) (b, w) of ((st', _), s) \<Rightarrow> (st', s)) =
     fold (batch_item dv) items (st, b, w)"
proof (induction items arbitrary: st cs b w)
  case (Cons it items)
  obtain st1 e1 b1 w1 where r: "run (batch_item_steps dv it (st, cs)) (b, w) = ((st1, e1), b1, w1)" by (metis prod.collapse)
  then have "batch_item dv it (st, b, w) = (st1, b1, w1)" using run_batch_item [of dv it st cs b w] by simp
  then show ?case using Cons [of st1 e1 b1 w1] r by simp
qed simp

lemma run_flush_pending: "snd (run (flush_pending_steps dv e cs) (b, w)) = flush_pending dv e (b, w)"
proof -
  obtain i msgs where e: "e = (i, msgs)" by fastforce
  show ?thesis
  proof (cases "get_ref b i")
    case (Some sub)
    obtain cs' n w' where "run (deliver_batch_steps dv (sub_delivery sub) msgs) (b, w) = ((n, cs'), b, w')"
        "deliver_batch dv (sub_delivery sub) msgs w = (n, w')"
      using run_deliver_batch [of dv "sub_delivery sub" msgs b w] by blast
    then show ?thesis
      by (auto simp: e Some flush_pending_steps_def flush_pending_def run_count_batch Let_def split: prod.split)
  qed (simp add: e flush_pending_steps_def flush_pending_def)
qed

lemma run_flush_all: "snd (run (loop (flush_pending_steps dv) es cs) (b, w)) = fold (flush_pending dv) es (b, w)"
proof (induction es arbitrary: cs b w)
  case (Cons e es)
  obtain cs1 b1 w1 where r: "run (flush_pending_steps dv e cs) (b, w) = (cs1, b1, w1)" by (metis prod.collapse)
  then have "flush_pending dv e (b, w) = (b1, w1)" using run_flush_pending [of dv e cs b w] by simp
  then show ?case using Cons [of cs1 b1 w1] r by simp
qed simp

lemma run_publish_batch: "snd (run (publish_batch_steps dv iter items) (b, w)) = publish_batch dv iter items (b, w)"
proof (cases "items = []")
  case False
  let ?b = "on_metrics (inc_published_by (of_nat (length items))) b" and ?st = "\<lparr>pending = [], last_match = None, sub_cache = []\<rparr>"
  show ?thesis
  proof (cases "batch_single items ?b")
    case None
    obtain st cs b1 w1 where r: "run (loop (batch_item_steps dv) items (?st, [])) (?b, w) = ((st, cs), b1, w1)" by (metis prod.collapse)
    then have "fold (batch_item dv) items (?st, ?b, w) = (st, b1, w1)" using run_batch_items [of dv items ?st "[]" ?b w] by simp
    then show ?thesis
      using False None r
      by (simp add: publish_batch_steps_def publish_batch_def publish_batch_stages_def run_batch_single run_flush_all on_metrics_def)
  next
    case (Some x)
    obtain i sub where x: "x = (i, sub)" by fastforce
    let ?ms = "map (\<lambda>it. make_delivery i (sub_connection_id sub) (item_message it)) items"
    obtain cs n w' where "run (deliver_batch_steps dv (sub_delivery sub) ?ms) (?b, w) = ((n, cs), ?b, w')"
        "deliver_batch dv (sub_delivery sub) ?ms w = (n, w')"
      using run_deliver_batch [of dv "sub_delivery sub" ?ms ?b w] by blast
    then show ?thesis
      using False Some x by (simp add: publish_batch_steps_def publish_batch_def run_batch_single run_count_batch on_metrics_def Let_def)
  qed
qed (simp add: publish_batch_steps_def publish_batch_def)

end
