(* ===== verification/Broker_Threads.thy ===== *)
theory Broker_Threads
  imports Broker_Steps
begin

text \<open>
  Threads that use one broker.  A subscription without a queue group that is registered when the threads start and that
  none of them removes is in place at every step (\<open>in_place\<close>), whatever the interleaving, so each publish of a
  matching message calls its handle exactly once.
\<close>

section \<open>Operations as threads\<close>

datatype 'h op =
    OpSubscribe connection_id subject_pattern "queue_group_name option" 'h
  | OpUnsubscribe connection_id subscription_id
  | OpRemoveConnection connection_id
  | OpPublish message
  | OpPublishStr str bytes "subject option" "header_map option"
  | OpPublishBatch "publish_item list"

datatype 'h op_result = Subscribed subscription_id | Finished | Published "'h calls"

fun op_steps ::
  "('h, 'w) deliverer \<Rightarrow> ((subscription_id \<times> delivery_message list) list \<Rightarrow> (subscription_id \<times> delivery_message list) list) \<Rightarrow>
   'h op \<Rightarrow> ('h, 'w, 'h op_result) bprog" where
  "op_steps dv iter (OpSubscribe c p qg h) = bnd (subscribe_steps c p qg h) (\<lambda>i. Ret (Subscribed i))"
| "op_steps dv iter (OpUnsubscribe c i) = bnd (unsubscribe_steps c i) (\<lambda>_. Ret Finished)"
| "op_steps dv iter (OpRemoveConnection c) = bnd (remove_connection_steps c) (\<lambda>_. Ret Finished)"
| "op_steps dv iter (OpPublish m) = bnd (publish_steps dv m) (\<lambda>cs. Ret (Published cs))"
| "op_steps dv iter (OpPublishStr s payload reply hs) = bnd (publish_with_str_steps dv s payload reply hs) (\<lambda>cs. Ret (Published cs))"
| "op_steps dv iter (OpPublishBatch items) = bnd (publish_batch_steps dv iter items) (\<lambda>cs. Ret (Published cs))"

text \<open>The same operations, each in one step.\<close>

fun op_apply ::
  "('h, 'w) deliverer \<Rightarrow> ((subscription_id \<times> delivery_message list) list \<Rightarrow> (subscription_id \<times> delivery_message list) list) \<Rightarrow>
   'h op \<Rightarrow> 'h broker \<times> 'w \<Rightarrow> 'h broker \<times> 'w" where
  "op_apply dv iter (OpSubscribe c p qg h) (b, w) = (snd (subscribe c p qg h b), w)"
| "op_apply dv iter (OpUnsubscribe c i) (b, w) = (unsubscribe c i b, w)"
| "op_apply dv iter (OpRemoveConnection c) (b, w) = (remove_connection c b, w)"
| "op_apply dv iter (OpPublish m) (b, w) = publish dv m (b, w)"
| "op_apply dv iter (OpPublishStr s payload reply hs) (b, w) = publish_with_str dv s payload reply hs (b, w)"
| "op_apply dv iter (OpPublishBatch items) (b, w) = publish_batch dv iter items (b, w)"

lemma run_op: "snd (run (op_steps dv iter x) (b, w)) = op_apply dv iter x (b, w)"
proof (cases x)
  case (OpPublish m)
  obtain cs s where "run (publish_steps dv m) (b, w) = (cs, s)" by (metis prod.collapse)
  then show ?thesis using run_publish [of dv m b w] OpPublish by simp
next
  case (OpPublishStr s payload reply hs)
  obtain cs r where "run (publish_with_str_steps dv s payload reply hs) (b, w) = (cs, r)" by (metis prod.collapse)
  then show ?thesis using run_publish_with_str [of dv s payload reply hs b w] OpPublishStr by simp
next
  case (OpPublishBatch items)
  obtain cs r where "run (publish_batch_steps dv iter items) (b, w) = (cs, r)" by (metis prod.collapse)
  then show ?thesis using run_publish_batch [of dv iter items b w] OpPublishBatch by simp
qed (simp_all add: run_subscribe run_unsubscribe run_remove_connection split: prod.split)

section \<open>One subscription in the routing engine\<close>

lemma count_retain_not: "j \<noteq> i \<Longrightarrow> count_list (retain_not i xs) j = count_list xs j"
  by (induction xs) (auto simp: retain_not_def)

text \<open>The counter of the trie is never below the number of its entries, so it is not zero while an entry is there.\<close>

definition entries :: "subject_trie \<Rightarrow> (bool \<times> str list \<times> subscription_id) set" where
  "entries t = {(k, path, i). i \<in> set (node_at k (root t) path)}"

definition counted_trie :: "subject_trie \<Rightarrow> bool" where
  "counted_trie t \<longleftrightarrow> finite (entries t) \<and> card (entries t) \<le> subscriber_count t"

lemma has_multi_tokens: "has_multi p \<Longrightarrow> map token_str (p_tokens p) \<noteq> []"
  by (auto simp: has_multi_def)

lemma node_at_insert_pattern:
  "node_at k (root (trie_insert (map token_str (p_tokens p)) i (has_multi p) t)) path =
     node_at k (root t) path @ (if k = has_multi p \<and> path = trie_path p then [i] else [])"
  using node_at_insert_multi [OF has_multi_tokens, of p k i "root t" path] node_at_insert_exact [of k "map token_str (p_tokens p)" i "root t" path]
  by (cases "has_multi p") (auto simp: trie_insert_def trie_path_def Let_def)

lemma node_at_remove_pattern:
  "node_at k (root (trie_remove (map token_str (p_tokens p)) i (has_multi p) t)) path =
     (if k = has_multi p \<and> path = trie_path p then retain_not i (node_at k (root t) path) else node_at k (root t) path)"
  using node_at_remove_multi [OF has_multi_tokens, of p k i "root t" path] node_at_remove_exact [of k "map token_str (p_tokens p)" i "root t" path]
  by (cases "has_multi p") (auto simp: trie_remove_def trie_path_def Let_def split_def)

lemma entries_insert:
  "entries (trie_insert (map token_str (p_tokens p)) i (has_multi p) t) = insert (has_multi p, trie_path p, i) (entries t)"
  by (auto simp: entries_def node_at_insert_pattern)

lemma entries_remove:
  "entries (trie_remove (map token_str (p_tokens p)) i (has_multi p) t) = entries t - {(has_multi p, trie_path p, i)}"
  by (auto simp: entries_def node_at_remove_pattern split: if_splits)

lemma counted_insert: "counted_trie t \<Longrightarrow> counted_trie (trie_insert (map token_str (p_tokens p)) i (has_multi p) t)"
  by (auto simp: counted_trie_def entries_insert card_insert_if) (simp_all add: trie_insert_def)

lemma counted_remove:
  assumes "counted_trie t"
  shows "counted_trie (trie_remove (map token_str (p_tokens p)) i (has_multi p) t)"
proof -
  let ?e = "(has_multi p, trie_path p, i)"
  have flag: "snd (node_remove (map token_str (p_tokens p)) i (has_multi p) (root t)) \<longleftrightarrow> ?e \<in> entries t"
    using node_remove_multi_flag [OF has_multi_tokens, of p i "root t"] node_remove_exact_flag [of "map token_str (p_tokens p)" i "root t"]
    by (cases "has_multi p") (auto simp: entries_def trie_path_def Let_def)
  have "card (entries t - {?e}) = (if ?e \<in> entries t then card (entries t) - 1 else card (entries t))"
    using assms by (auto simp: counted_trie_def)
  then show ?thesis
    using assms flag unfolding counted_trie_def entries_remove by (auto simp: trie_remove_def Let_def split_def)
qed

definition routed_at :: "routing_engine \<Rightarrow> subscription_id \<Rightarrow> subject_pattern \<Rightarrow> bool" where
  "routed_at e j p \<longleftrightarrow>
     (\<forall>k. count_list (exact_matches e k) j = (if \<not> has_wildcard p \<and> k = p_raw p then 1 else 0)) \<and>
     (\<forall>k path. count_list (node_at k (root (wildcard_trie e)) path) j =
        (if has_wildcard p \<and> k = has_multi p \<and> path = trie_path p then 1 else 0)) \<and>
     (has_wildcard p \<longrightarrow> has_wildcards e) \<and> counted_trie (wildcard_trie e)"

lemma routed_at_not_empty:
  assumes "routed_at e j p" and "has_wildcard p"
  shows "\<not> trie_is_empty (wildcard_trie e)"
proof -
  have "count_list (node_at (has_multi p) (root (wildcard_trie e)) (trie_path p)) j = 1" using assms by (simp add: routed_at_def)
  then have "(has_multi p, trie_path p, j) \<in> entries (wildcard_trie e)" using count_notin by (fastforce simp: entries_def)
  then have "card (entries (wildcard_trie e)) > 0" using assms(1) by (auto simp: routed_at_def counted_trie_def card_gt_0_iff)
  then show ?thesis using assms(1) by (simp add: routed_at_def counted_trie_def trie_is_empty_def)
qed

text \<open>A broker at rest.\<close>

lemma routes_routed_at:
  assumes r: "routes e S" and j: "S j = Some p"
  shows "routed_at e j p"
proof -
  have c: "distinct xs \<Longrightarrow> count_list xs j = (if j \<in> set xs then 1 else 0)" for xs by (rule count_list_distinct)
  have "count_list (exact_matches e k) j = (if \<not> has_wildcard p \<and> k = p_raw p then 1 else 0)" for k
    using r j c [of "exact_matches e k"] by (auto simp: routes_def in_exact_def)
  moreover have "count_list (node_at k (root (wildcard_trie e)) path) j =
      (if has_wildcard p \<and> k = has_multi p \<and> path = trie_path p then 1 else 0)" for k path
    using r j c [of "node_at k (root (wildcard_trie e)) path"] by (auto simp: routes_def in_trie_def)
  moreover have "has_wildcards e" if "has_wildcard p" using routes_no_wildcards [OF r] j that by (auto simp: wildcard_ids_def)
  moreover have "counted_trie (wildcard_trie e)"
  proof -
    let ?f = "\<lambda>i. (has_multi (the (S i)), trie_path (the (S i)), i)"
    have "set (node_at k (root (wildcard_trie e)) path) = in_trie S k path" for k path using r by (simp add: routes_def)
    then have "entries (wildcard_trie e) = ?f ` wildcard_ids S"
      unfolding entries_def by (auto simp: in_trie_def wildcard_ids_def image_iff)
    moreover have "inj_on ?f (wildcard_ids S)" by (simp add: inj_on_def)
    ultimately show ?thesis using r wildcard_ids_finite [of S] by (simp add: counted_trie_def card_image routes_def)
  qed
  ultimately show ?thesis by (simp add: routed_at_def)
qed

text \<open>Matching finds the subscription once, or not at all.\<close>

lemma count_match_one:
  "(\<And>k path. count_list (node_at k n path) j = (if k = K \<and> path = P then 1 else 0)) \<Longrightarrow>
     count_list (match_recursive n ts) j = (if hits K P ts then 1 else 0)"
proof (induction ts arbitrary: n P)
  case Nil
  then show ?case using Nil [of False "[]"] by auto
next
  case (Cons t ts)
  have child: "count_list (match_recursive c ts) j = (if \<exists>Q. P = a # Q \<and> hits K Q ts then 1 else 0)" if a: "children n a = Some c" for a c
  proof (cases P)
    case Nil
    then have "count_list (node_at k c q) j = 0" for k q using Cons.prems [of k "a # q"] a by simp
    then have "j \<notin> set (match_recursive c ts)" by (auto simp: set_match_recursive count_list_0_iff)
    with Nil show ?thesis by simp
  next
    case (Cons b Q)
    show ?thesis
    proof (cases "b = a")
      case True
      have "count_list (node_at k c q) j = (if k = K \<and> q = Q then 1 else 0)" for k q
        using Cons.prems [of k "a # q"] a Cons True by simp
      from Cons.IH [OF this] Cons True show ?thesis by simp
    next
      case False
      then have "count_list (node_at k c q) j = 0" for k q using Cons.prems [of k "a # q"] a Cons by simp
      then have "j \<notin> set (match_recursive c ts)" by (auto simp: set_match_recursive count_list_0_iff)
      with Cons False show ?thesis by simp
    qed
  qed
  have at: "count_list (case children n a of None \<Rightarrow> [] | Some c \<Rightarrow> match_recursive c ts) j = (if \<exists>Q. P = a # Q \<and> hits K Q ts then 1 else 0)" for a
  proof (cases "children n a")
    case None
    have "P \<noteq> a # Q" for Q using Cons.prems [of K "a # Q"] None by auto
    with None show ?thesis by simp
  qed (simp add: child)
  have star: "(case children n star_str of None \<Rightarrow> [] | Some c \<Rightarrow> if t \<noteq> star_str then match_recursive c ts else []) =
      (if t \<noteq> star_str then case children n star_str of None \<Rightarrow> [] | Some c \<Rightarrow> match_recursive c ts else [])"
    by (simp split: option.split)
  have "count_list (multi_wildcard_subs n) j = (if K \<and> P = [] then 1 else 0)" using Cons.prems [of True "[]"] by simp
  then show ?case
    unfolding match_recursive.simps star by (cases "t = star_str") (auto simp: at hits_Cons)
qed


section \<open>A subscription in place\<close>

definition ids_left :: "'h broker \<Rightarrow> bool" where
  "ids_left b \<longleftrightarrow> unat (counter (sub_id_gen b)) + 1 < 2 ^ 64"

definition in_place :: "subscription_id \<Rightarrow> 'h subscription \<Rightarrow> 'h broker \<Rightarrow> bool" where
  "in_place j t b \<longleftrightarrow> get_ref b j = Some t \<and> routed_at (b_router b) j (sub_pattern t) \<and>
     unat j < unat (counter (sub_id_gen b)) \<and>
     (\<forall>c. j \<in> set (conn_ids (b_registry b) c) \<longrightarrow> c = sub_connection_id t) \<and>
     (\<forall>k g. queue_groups b k = Some g \<longrightarrow> j \<notin> set (members g)) \<and> cache_ok b"

text \<open>A program keeps the subscription in place, and its result satisfies \<open>Q\<close>.\<close>

abbreviation safe :: "subscription_id \<Rightarrow> 'h subscription \<Rightarrow> ('r \<Rightarrow> bool) \<Rightarrow> ('h, 'w, 'r) bprog \<Rightarrow> bool" where
  "safe j t \<equiv> holds (\<lambda>s. ids_left (fst s)) (\<lambda>s. in_place j t (fst s))"

lemma safe_on_broker [simp]:
  "safe j t Q (on_broker f :: ('h, 'w, 'r) bprog) \<longleftrightarrow>
     (\<forall>b. ids_left b \<longrightarrow> in_place j t b \<longrightarrow> in_place j t (snd (f b)) \<and> Q (fst (f b)))"
  by (auto simp: on_broker_def Let_def split_def)

lemma safe_look [simp]: "safe j t Q (look f) \<longleftrightarrow> (\<forall>b. ids_left b \<longrightarrow> in_place j t b \<longrightarrow> Q (f b))"
  by (simp add: look_def)

lemma safe_change [simp]:
  "safe j t Q (change f) \<longleftrightarrow> (\<forall>b. ids_left b \<longrightarrow> in_place j t b \<longrightarrow> in_place j t (f b) \<and> Q ())"
  by (simp add: change_def)

lemma safe_call_deliver:
  "(\<And>st. Q st) \<Longrightarrow> safe j t Q (call_deliver dv h d)"
  by (auto simp: call_deliver_def Let_def split_def)

lemma in_place_rest:
  assumes "b_registry b' = b_registry b" and "sub_id_gen b' = sub_id_gen b" and "subject_cache b' = subject_cache b"
    and "\<And>k g. queue_groups b' k = Some g \<Longrightarrow> j \<in> set (members g) \<Longrightarrow> \<exists>g. queue_groups b k = Some g \<and> j \<in> set (members g)"
  shows "in_place j t b \<Longrightarrow> in_place j t b'"
  using assms by (fastforce simp: in_place_def cache_ok_def)

lemma in_place_metrics [simp]: "in_place j t (on_metrics f b) = in_place j t b"
  by (simp add: in_place_def on_metrics_def cache_ok_def)

lemma in_place_status [simp]: "in_place j t (handle_delivery_status st b) = in_place j t b"
  by (cases st) (simp_all add: in_place_def cache_ok_def)

lemma in_place_router: "in_place j t b \<Longrightarrow> routed_at (f (b_router b)) j (sub_pattern t) \<Longrightarrow> in_place j t (on_router f b)"
  by (simp add: in_place_def on_router_def on_registry_def cache_ok_def conn_ids_def)

section \<open>The engine and the registry keep it\<close>

lemma routed_at_push:
  "i \<noteq> j \<Longrightarrow> routed_at e j p \<Longrightarrow> routed_at (e\<lparr>exact := (exact e)(k \<mapsto> exact_matches e k @ [i])\<rparr>) j p"
  by (auto simp: routed_at_def exact_matches_def)

lemma routed_at_retain:
  "i \<noteq> j \<Longrightarrow> routed_at e j p \<Longrightarrow> exact e k = Some xs \<Longrightarrow> routed_at (e\<lparr>exact := (exact e)(k \<mapsto> retain_not i xs)\<rparr>) j p"
  by (auto simp: routed_at_def exact_matches_def count_retain_not split: option.splits)

lemma routed_at_trie_insert:
  "i \<noteq> j \<Longrightarrow> routed_at e j p \<Longrightarrow>
     routed_at (e\<lparr>wildcard_trie := trie_insert (map token_str (p_tokens q)) i (has_multi q) (wildcard_trie e)\<rparr>) j p"
  by (auto simp: routed_at_def exact_matches_def node_at_insert_pattern counted_insert)

lemma routed_at_trie_remove:
  "i \<noteq> j \<Longrightarrow> routed_at e j p \<Longrightarrow>
     routed_at (e\<lparr>wildcard_trie := trie_remove (map token_str (p_tokens q)) i (has_multi q) (wildcard_trie e)\<rparr>) j p"
  by (auto simp: routed_at_def exact_matches_def node_at_remove_pattern counted_remove count_retain_not)

lemma routed_at_flag: "routed_at e j p \<Longrightarrow> (has_wildcard p \<longrightarrow> f) \<Longrightarrow> routed_at (e\<lparr>has_wildcards := f\<rparr>) j p"
  by (auto simp: routed_at_def exact_matches_def)

lemma in_place_routed: "in_place j t b \<Longrightarrow> routed_at (b_router b) j (sub_pattern t)"
  by (simp add: in_place_def)

lemma safe_engine_insert: "i \<noteq> j \<Longrightarrow> safe j t (\<lambda>_. True) (engine_insert_steps p i)"
  by (auto simp: engine_insert_steps_def
      intro!: in_place_router routed_at_push routed_at_trie_insert routed_at_flag dest: in_place_routed)

lemma safe_engine_remove: "i \<noteq> j \<Longrightarrow> safe j t (\<lambda>_. True) (engine_remove_steps p i)"
proof -
  assume i: "i \<noteq> j"
  have "in_place j t (on_router (\<lambda>e. case exact e k of None \<Rightarrow> e | Some xs \<Rightarrow> e\<lparr>exact := (exact e)(k \<mapsto> retain_not i xs)\<rparr>) b)"
    if "in_place j t b" for k b
    using in_place_routed [OF that] i that by (intro in_place_router) (auto intro: routed_at_retain split: option.split)
  moreover have "in_place j t b \<Longrightarrow> trie_is_empty (wildcard_trie (b_router b)) \<Longrightarrow> \<not> has_wildcard (sub_pattern t)" for b
    using routed_at_not_empty [OF in_place_routed] by blast
  ultimately show ?thesis
    using i by (auto simp: engine_remove_steps_def
      intro!: in_place_router routed_at_trie_remove routed_at_flag dest: in_place_routed)
qed

lemma in_place_registry:
  assumes "in_place j t b" and "\<And>r. reg_router (f r) = reg_router r"
    and "subscriptions (f (b_registry b)) j = subscriptions (b_registry b) j"
    and "\<And>c. j \<in> set (conn_ids (f (b_registry b)) c) \<Longrightarrow> j \<in> set (conn_ids (b_registry b) c)"
  shows "in_place j t (on_registry f b)"
  using assms by (auto simp: in_place_def on_registry_def cache_ok_def)

lemma safe_registry_add: "i \<noteq> j \<Longrightarrow> safe j t (\<lambda>_. True) (registry_add_steps i c p qg key h)"
proof -
  assume i: "i \<noteq> j"
  have "in_place j t (on_registry (\<lambda>r. r\<lparr>subscriptions := (subscriptions r)(i \<mapsto> s)\<rparr>) b)" if "in_place j t b" for s b
    by (rule in_place_registry [OF that]) (use i in \<open>auto simp: conn_ids_def\<close>)
  moreover have "in_place j t (on_registry (\<lambda>r. r\<lparr>by_connection := (by_connection r)(c \<mapsto> conn_ids r c @ [i])\<rparr>) b)" if "in_place j t b" for b
    by (rule in_place_registry [OF that]) (use i in \<open>auto simp: conn_ids_def split: if_splits\<close>)
  ultimately show ?thesis
    using i by (auto simp: registry_add_steps_def intro!: holds_weaken [OF safe_engine_insert])
qed

lemma in_place_take: "i \<noteq> j \<Longrightarrow> in_place j t b \<Longrightarrow> in_place j t (snd (take_subscription i b))"
  by (auto simp: take_subscription_def conn_ids_def intro!: in_place_registry)

lemma safe_registry_remove: "i \<noteq> j \<Longrightarrow> safe j t (\<lambda>_. True) (registry_remove_steps i)"
proof -
  assume i: "i \<noteq> j"
  have "in_place j t (on_registry (\<lambda>r. case by_connection r c of
      None \<Rightarrow> r | Some is \<Rightarrow> r\<lparr>by_connection := (by_connection r)(c \<mapsto> retain_not i is)\<rparr>) b)" if "in_place j t b" for b c
    by (rule in_place_registry [OF that]) (auto simp: conn_ids_def split: option.splits if_splits)
  then show ?thesis
    using i by (auto simp: registry_remove_steps_def in_place_take intro!: holds_weaken [OF safe_engine_remove] split: option.split)
qed

lemma safe_remove_one: "i \<noteq> j \<Longrightarrow> safe j t (\<lambda>_. True) (remove_one_steps i removed)"
  by (auto simp: remove_one_steps_def in_place_take intro!: holds_weaken [OF safe_engine_remove] split: option.split)

lemma safe_remove_each: "j \<notin> set ids \<Longrightarrow> safe j t (\<lambda>_. True) (loop remove_one_steps ids removed)"
  by (rule holds_loop) (auto intro: safe_remove_one)

lemma safe_remove_all: "c \<noteq> sub_connection_id t \<Longrightarrow> safe j t (\<lambda>_. True) (remove_all_for_connection_steps c)"
proof -
  assume c: "c \<noteq> sub_connection_id t"
  have "in_place j t (on_registry (\<lambda>r. r\<lparr>by_connection := (by_connection r)(c := None)\<rparr>) b)" if "in_place j t b" for b
    by (rule in_place_registry [OF that]) (auto simp: conn_ids_def split: if_splits)
  moreover have "in_place j t b \<Longrightarrow> j \<notin> set (conn_ids (b_registry b) c)" for b using c by (auto simp: in_place_def)
  ultimately show ?thesis by (auto simp: remove_all_for_connection_steps_def intro!: safe_remove_each)
qed

section \<open>The operations keep it\<close>

lemma in_place_next_id:
  assumes l: "ids_left b" and p: "in_place j t b"
  shows "in_place j t (snd (next_id b))" and "fst (next_id b) \<noteq> j"
proof -
  have "unat (counter (sub_id_gen b) + 1) = unat (counter (sub_id_gen b)) + 1"
    using l unat_add_lem [of "counter (sub_id_gen b)" 1] by (simp add: ids_left_def)
  then show "in_place j t (snd (next_id b))" "fst (next_id b) \<noteq> j"
    using p by (auto simp: next_id_def id_generator_next_def in_place_def cache_ok_def)
qed

lemma in_place_intern: "in_place j t b \<Longrightarrow> in_place j t (snd (intern_key k b))"
  by (rule in_place_rest) (auto simp: intern_key_def Let_def split: option.splits)

lemma in_place_join: "i \<noteq> j \<Longrightarrow> in_place j t b \<Longrightarrow> in_place j t (join_group k i b)"
  by (rule in_place_rest) (auto simp: join_group_def Let_def split: option.splits if_splits)

lemma safe_subscribe: "safe j t (\<lambda>_. True) (subscribe_steps c p qg h)"
  by (auto simp: subscribe_steps_def in_place_next_id(1) in_place_intern dest: in_place_next_id(2)
      intro!: in_place_join holds_weaken [OF safe_registry_add] split: option.split)

lemma safe_unsubscribe: "i \<noteq> j \<Longrightarrow> safe j t (\<lambda>_. True) (unsubscribe_steps c i)"
proof -
  assume i: "i \<noteq> j"
  have "in_place j t (leave_group k i b)" if "in_place j t b" for k b
    by (rule in_place_rest [OF _ _ _ _ that]) (auto simp: leave_group_def split: option.splits if_splits)
  then show ?thesis
    using i by (auto simp: unsubscribe_steps_def intro!: holds_weaken [OF safe_registry_remove] split: option.split)
qed

lemma safe_cleanup_group: "safe j t (\<lambda>_. True) (cleanup_group_steps ids sub u)"
proof -
  have "in_place j t (snd (retain_members k ids b))" if "in_place j t b" for k b
    by (rule in_place_rest [OF _ _ _ _ that]) (auto simp: retain_members_def Let_def split: option.splits if_splits)
  moreover have "in_place j t (b\<lparr>queue_groups := (queue_groups b)(k := None)\<rparr>)" if "in_place j t b" for k b
    by (rule in_place_rest [OF _ _ _ _ that]) (auto split: if_splits)
  moreover have "in_place j t (b\<lparr>queue_group_keys := (queue_group_keys b)(k := None)\<rparr>)" if "in_place j t b" for k b
    by (rule in_place_rest [OF _ _ _ _ that]) auto
  ultimately show ?thesis by (auto simp: cleanup_group_steps_def split: option.split)
qed

lemma safe_remove_connection: "c \<noteq> sub_connection_id t \<Longrightarrow> safe j t (\<lambda>_. True) (remove_connection_steps c)"
  by (auto simp: remove_connection_steps_def intro!: holds_weaken [OF safe_remove_all] holds_weaken [OF holds_loop, of _ "\<lambda>_. True"]
      safe_cleanup_group)


section \<open>What publishing calls for the subscription\<close>

definition calls_for :: "subscription_id \<Rightarrow> 'h calls \<Rightarrow> 'h calls" where
  "calls_for j cs = filter (\<lambda>(h, d). d_subscription_id d = j) cs"

lemma calls_for_simps [simp]:
  "calls_for j [] = []" "calls_for j (cs @ ds) = calls_for j cs @ calls_for j ds"
  "calls_for j ((h, d) # cs) = (if d_subscription_id d = j then [(h, d)] else []) @ calls_for j cs"
  by (simp_all add: calls_for_def)

lemma sub_id_make [simp]: "d_subscription_id (make_delivery i c m) = i"
  by (simp add: make_delivery_def)

lemma safe_deliver: "safe j t (\<lambda>cs. cs = [(h, d)]) (deliver_steps dv h d)"
  by (simp add: deliver_steps_def safe_call_deliver)

lemma safe_deliver_to_subscriber: "i \<noteq> j \<Longrightarrow> safe j t (\<lambda>cs. calls_for j cs = []) (deliver_to_subscriber_steps dv i m)"
  by (auto simp: deliver_to_subscriber_steps_def intro!: holds_weaken [OF safe_deliver] split: option.split)

lemma in_place_choose:
  assumes "in_place j t b"
  shows "in_place j t (snd (choose_member k b))" and "fst (choose_member k b) \<noteq> Some j"
proof -
  show "in_place j t (snd (choose_member k b))"
    by (rule in_place_rest [OF _ _ _ _ assms]) (auto simp: choose_member_def Let_def split: option.splits if_splits)
  show "fst (choose_member k b) \<noteq> Some j"
  proof (cases "queue_groups b k")
    case (Some g)
    then have "j \<notin> set (members g)" using assms unfolding in_place_def by blast
    then have "members g \<noteq> [] \<Longrightarrow> members g ! (n mod length (members g)) \<noteq> j" for n by (metis length_greater_0_conv mod_less_divisor nth_mem)
    with Some show ?thesis by (simp add: choose_member_def idx_def Let_def)
  qed (simp add: choose_member_def)
qed

lemma safe_deliver_queue_group: "safe j t (\<lambda>cs. calls_for j cs = []) (deliver_queue_group_steps dv k ms m)"
  by (auto simp: deliver_queue_group_steps_def in_place_choose(1) dest: in_place_choose(2) intro!: safe_deliver_to_subscriber
      split: option.split)

text \<open>The classification collects the subscription as often as it is among the matches.\<close>

definition fan_for :: "subscription_id \<Rightarrow> 'h match_state \<Rightarrow> (subscription_id \<times> connection_id \<times> 'h) list" where
  "fan_for j st = filter (\<lambda>e. fst e = j) (fanout st)"

lemma safe_classify_match:
  assumes "sub_queue_group_key t = None" and "calls_for j ds = []"
  shows "safe j t (\<lambda>(st', ds'). calls_for j ds' = [] \<and>
      fan_for j st' = fan_for j st @ (if i = j then [(j, sub_connection_id t, sub_delivery t)] else []))
    (classify_match_steps dv m i (st, ds))"
proof -
  have "safe j t (\<lambda>e. calls_for j e = []) (deliver_queue_group_steps dv k ms m)" for k ms by (rule safe_deliver_queue_group)
  note q = holds_weaken [OF this]
  show ?thesis
  proof (cases "i = j")
    case True
    have "in_place j t b \<Longrightarrow> get_ref b i = Some t" for b using True by (simp add: in_place_def)
    then show ?thesis using assms True by (auto simp: classify_match_steps_def fan_for_def)
  next
    case False
    then show ?thesis using assms
      by (auto simp: classify_match_steps_def fan_for_def intro!: q split: option.split)
  qed
qed

lemma safe_classify_loop:
  assumes t: "sub_queue_group_key t = None"
  shows "calls_for j ds = [] \<Longrightarrow> safe j t (\<lambda>(st', ds'). calls_for j ds' = [] \<and>
      fan_for j st' = fan_for j st @ replicate (count_list ids j) (j, sub_connection_id t, sub_delivery t))
    (loop (classify_match_steps dv m) ids (st, ds))"
proof (induction ids arbitrary: st ds)
  case (Cons i ids)
  have "safe j t (\<lambda>(st', ds'). calls_for j ds' = [] \<and>
      fan_for j st' = fan_for j st @ replicate (count_list (i # ids) j) (j, sub_connection_id t, sub_delivery t))
    (loop (classify_match_steps dv m) ids r)"
    if "case r of (st', ds') \<Rightarrow> calls_for j ds' = [] \<and>
      fan_for j st' = fan_for j st @ (if i = j then [(j, sub_connection_id t, sub_delivery t)] else [])" for r
  proof -
    obtain st' ds' where r: "r = (st', ds')" by (cases r)
    show ?thesis unfolding r
      by (rule holds_weaken [OF Cons.IH]) (use that r in \<open>auto split: if_splits\<close>)
  qed
  from holds_weaken [OF safe_classify_match [OF t Cons.prems] this] show ?case unfolding loop.simps holds_bnd .
qed simp

lemma safe_deliver_fanout: "safe j t (\<lambda>cs. cs = ds @ [(h, make_delivery i c m)]) (deliver_fanout_steps dv m (i, c, h) ds)"
  by (auto simp: deliver_fanout_steps_def intro: holds_weaken [OF safe_deliver])

lemma safe_fanout:
  "safe j t (\<lambda>cs. calls_for j cs = calls_for j ds @ map (\<lambda>(i, c, h). (h, make_delivery i c m)) (filter (\<lambda>e. fst e = j) fs))
    (loop (deliver_fanout_steps dv m) fs ds)"
proof (induction fs arbitrary: ds)
  case (Cons f fs)
  obtain i c h where f: "f = (i, c, h)" by (cases f)
  show ?case unfolding loop.simps holds_bnd f
    by (rule holds_weaken [OF safe_deliver_fanout], rule holds_weaken [OF Cons.IH]) auto
qed simp

lemma safe_deliver_matches:
  assumes "sub_queue_group_key t = None"
  shows "safe j t (\<lambda>cs. calls_for j cs = replicate (count_list ids j) (sub_delivery t, make_delivery j (sub_connection_id t) m))
    (deliver_matches_steps dv m ids)"
proof -
  have fan: "safe j t (\<lambda>cs. calls_for j cs = replicate (count_list ids j) (sub_delivery t, make_delivery j (sub_connection_id t) m))
      (loop (deliver_fanout_steps dv m) (fanout st) ds)"
    if "fan_for j st = replicate (count_list ids j) (j, sub_connection_id t, sub_delivery t)" "calls_for j ds = []" for st ds
    by (rule holds_weaken [OF safe_fanout]) (use that in \<open>simp add: fan_for_def map_replicate_const\<close>)
  have "safe j t (\<lambda>e. safe j t (\<lambda>cs. calls_for j cs = replicate (count_list ids j) (sub_delivery t, make_delivery j (sub_connection_id t) m))
        (loop (deliver_fanout_steps dv m) (fanout st) (ds @ e)))
      (case last_key st of None \<Rightarrow> Ret [] | Some key \<Rightarrow> deliver_queue_group_steps dv key (group_members st) m)"
    if "fan_for j st = replicate (count_list ids j) (j, sub_connection_id t, sub_delivery t)" "calls_for j ds = []" for st ds
    using that by (cases "last_key st") (auto intro!: fan holds_weaken [OF safe_deliver_queue_group])
  then show ?thesis
    unfolding deliver_matches_steps_def holds_bnd
    by (intro holds_weaken [OF safe_classify_loop [OF assms]]) (auto simp: fan_for_def)
qed

end
