(* ===== verification/Broker_Shared.thy ===== *)
theory Broker_Shared
  imports Broker_Threads
begin

text \<open>
  What the publishing operations call for a subscription in place: one call for each message its pattern matches, in
  every interleaving.  A batch may stop early at a handle that refuses a message.
\<close>

section \<open>One message\<close>

definition hit :: "'h subscription \<Rightarrow> subject \<Rightarrow> nat" where
  "hit t s = (if matches (sub_pattern t) s then 1 else 0)"

lemma count_exact:
  assumes "in_place j t b" and "pattern_wf (sub_pattern t)" and "subject_wf s"
  shows "count_list (exact_matches (b_router b) (s_raw s)) j = (if has_wildcard (sub_pattern t) then 0 else hit t s)"
  using in_place_routed [OF assms(1)] matches_exact [OF assms(2,3)] by (auto simp: routed_at_def hit_def)

lemma count_trie:
  assumes "in_place j t b" and wf: "pattern_wf (sub_pattern t)"
  shows "count_list (trie_match_subject (wildcard_trie (b_router b)) s) j = (if has_wildcard (sub_pattern t) then hit t s else 0)"
proof (cases "has_wildcard (sub_pattern t)")
  case True
  then have "count_list (node_at k (root (wildcard_trie (b_router b))) path) j =
      (if k = has_multi (sub_pattern t) \<and> path = trie_path (sub_pattern t) then 1 else 0)" for k path
    using in_place_routed [OF assms(1)] by (auto simp: routed_at_def)
  from count_match_one [OF this] True show ?thesis by (simp add: trie_match_subject_def hit_def matches_hits [OF wf])
next
  case False
  then have "j \<notin> set (node_at k (root (wildcard_trie (b_router b))) path)" for k path
    using in_place_routed [OF assms(1)] by (auto simp: routed_at_def count_list_0_iff)
  then show ?thesis using False by (simp add: trie_match_subject_def set_match_recursive)
qed

lemma in_place_flag: "in_place j t b \<Longrightarrow> has_wildcard (sub_pattern t) \<Longrightarrow> has_wildcards (b_router b)"
  using in_place_routed by (auto simp: routed_at_def)

lemma safe_match_subject:
  assumes "pattern_wf (sub_pattern t)" and "subject_wf s"
  shows "safe j t (\<lambda>ids. count_list ids j = hit t s) (match_subject_steps s)"
  using assms by (auto simp: match_subject_steps_def count_exact count_trie dest: in_place_flag)

lemma safe_match_wildcards:
  assumes "pattern_wf (sub_pattern t)"
  shows "safe j t (\<lambda>ids. count_list ids j = (if has_wildcard (sub_pattern t) then hit t s else 0)) (match_wildcards_steps s)"
  using assms by (auto simp: match_wildcards_steps_def count_trie dest: in_place_flag)

definition one_call :: "subscription_id \<Rightarrow> 'h subscription \<Rightarrow> message \<Rightarrow> 'h calls" where
  "one_call j t m = (if matches (sub_pattern t) (m_subject m) then [(sub_delivery t, make_delivery j (sub_connection_id t) m)] else [])"

lemma replicate_hit: "replicate (hit t (m_subject m)) (sub_delivery t, make_delivery j (sub_connection_id t) m) = one_call j t m"
  by (simp add: hit_def one_call_def)

lemma safe_publish:
  fixes dv :: "('h, 'w) deliverer"
  assumes "sub_queue_group_key t = None" and "pattern_wf (sub_pattern t)" and "subject_wf (m_subject m)"
  shows "safe j t (\<lambda>cs. calls_for j cs = one_call j t m) (publish_steps dv m)"
proof -
  have "safe j t (\<lambda>cs. calls_for j cs = one_call j t m) (deliver_matches_steps dv m ids)" if "count_list ids j = hit t (m_subject m)" for ids
    using safe_deliver_matches [OF assms(1), of j ids m dv] by (simp add: that replicate_hit)
  then have "safe j t (\<lambda>ids. safe j t (\<lambda>cs. calls_for j cs = one_call j t m) (deliver_matches_steps dv m ids))
      (match_subject_steps (m_subject m) :: ('h, 'w, _) bprog)"
    by (rule holds_weaken [OF safe_match_subject [OF assms(2,3)]])
  then show ?thesis by (simp add: publish_steps_def)
qed

lemma safe_parse_subject: "safe j t (\<lambda>r. r = subject_parse s) (parse_subject_steps s)"
proof -
  have "in_place j t (case subject_cache b s of None \<Rightarrow> b\<lparr>subject_cache := (subject_cache b)(s \<mapsto> subj)\<rparr> | Some _ \<Rightarrow> b)"
    if "in_place j t b" "subject_parse s = Inr subj" for b subj
    using that by (auto simp: in_place_def cache_ok_def split: option.split)
  moreover have "in_place j t b \<Longrightarrow> subject_cache b s = Some subj \<Longrightarrow> subject_parse s = Inr subj" for b subj
    by (auto simp: in_place_def cache_ok_def)
  ultimately show ?thesis by (auto simp: parse_subject_steps_def split: option.split sum.split)
qed

abbreviation str_message :: "subject \<Rightarrow> bytes \<Rightarrow> subject option \<Rightarrow> header_map option \<Rightarrow> message" where
  "str_message subj payload reply hs \<equiv>
     \<lparr>m_id = 0, m_subject = subj, m_payload = payload, m_headers = hs, m_reply_to = reply, m_timestamp_ns = 0\<rparr>"

text \<open>A name that is not trimmed has no exact subscribers, but wildcards see the trimmed subject.\<close>

fun str_calls :: "subscription_id \<Rightarrow> 'h subscription \<Rightarrow> str \<Rightarrow> bytes \<Rightarrow> subject option \<Rightarrow> header_map option \<Rightarrow> 'h calls" where
  "str_calls j t s payload reply hs =
     (case subject_parse s of
        Inl _ \<Rightarrow> []
      | Inr subj \<Rightarrow> if trim s = s \<or> has_wildcard (sub_pattern t) then one_call j t (str_message subj payload reply hs) else [])"

lemma count_exact_str:
  assumes "in_place j t b" and wf: "pattern_wf (sub_pattern t)" and p: "subject_parse s = Inr subj"
  shows "count_list (exact_matches (b_router b) s) j = (if trim s = s \<and> \<not> has_wildcard (sub_pattern t) then hit t subj else 0)"
proof (cases "trim s = s")
  case True
  then show ?thesis using count_exact [OF assms(1,2), of subj] subject_parse_wf [OF p] by simp
next
  case False
  then have "p_raw (sub_pattern t) \<noteq> s" using wf by (auto simp: pattern_wf_def)
  with False in_place_routed [OF assms(1)] show ?thesis by (auto simp: routed_at_def)
qed

lemma safe_str_matches:
  fixes dv :: "('h, 'w) deliverer"
  assumes t: "sub_queue_group_key t = None" "pattern_wf (sub_pattern t)" and p: "subject_parse s = Inr subj"
    and ex: "count_list ex j = (if trim s = s \<and> \<not> has_wildcard (sub_pattern t) then hit t subj else 0)"
    and flag: "has_wildcard (sub_pattern t) \<longrightarrow> flag"
  shows "safe j t (\<lambda>cs. calls_for j cs = str_calls j t s payload reply hs)
    (bnd (if flag then match_wildcards_steps subj else Ret [] :: ('h, 'w, _) bprog) (\<lambda>wild.
     deliver_matches_steps dv (str_message subj payload reply hs) (ex @ wild)))"
proof -
  have "safe j t (\<lambda>cs. calls_for j cs = str_calls j t s payload reply hs) (deliver_matches_steps dv (str_message subj payload reply hs) ids)"
    if "count_list ids j = (if trim s = s \<or> has_wildcard (sub_pattern t) then hit t subj else 0)" for ids
    using safe_deliver_matches [OF t(1), of j ids "str_message subj payload reply hs" dv] replicate_hit [of t "str_message subj payload reply hs" j]
    by (auto simp: that p split: if_splits)
  then show ?thesis
    using ex flag by (auto intro!: holds_weaken [OF safe_match_wildcards [OF t(2)]])
qed

lemma str_calls_none:
  assumes "subject_parse s = Inr subj" and "0 = (if trim s = s \<and> \<not> has_wildcard (sub_pattern t) then hit t subj else 0)"
    and "\<not> has_wildcard (sub_pattern t)"
  shows "str_calls j t s payload reply hs = []"
  using assms by (auto simp: hit_def one_call_def split: if_splits)

lemma safe_publish_with_str:
  fixes dv :: "('h, 'w) deliverer"
  assumes t: "sub_queue_group_key t = None" "pattern_wf (sub_pattern t)"
  shows "safe j t (\<lambda>cs. calls_for j cs = str_calls j t s payload reply hs) (publish_with_str_steps dv s payload reply hs)"
proof -
  let ?Q = "\<lambda>cs. calls_for j cs = str_calls j t s payload reply hs"
  let ?seen = "\<lambda>ex. \<forall>subj. subject_parse s = Inr subj \<longrightarrow>
    count_list ex j = (if trim s = s \<and> \<not> has_wildcard (sub_pattern t) then hit t subj else 0)"
  let ?rest = "\<lambda>ex flag parsed. case parsed of Inl e \<Rightarrow> Ret [] | Inr subj \<Rightarrow>
      bnd (if flag then match_wildcards_steps subj else Ret []) (\<lambda>wild. deliver_matches_steps dv (str_message subj payload reply hs) (ex @ wild))"
  have "safe j t ?Q (?rest ex flag (subject_parse s))" if "?seen ex" "has_wildcard (sub_pattern t) \<longrightarrow> flag" for ex flag
    using safe_str_matches [OF t _ _ that(2), of s _ ex j payload reply hs dv] that(1) by (auto split: sum.split)
  then have "safe j t (\<lambda>parsed. safe j t ?Q (?rest ex flag parsed)) (parse_subject_steps s :: ('h, 'w, _) bprog)"
    if "?seen ex" "has_wildcard (sub_pattern t) \<longrightarrow> flag" for ex flag
    using that by (auto intro: holds_weaken [OF safe_parse_subject])
  moreover have "str_calls j t s payload reply hs = []" if "?seen []" "\<not> has_wildcard (sub_pattern t)"
    using str_calls_none [of s _ t j payload reply hs] that by (cases "subject_parse s") auto
  ultimately have q: "safe j t ?Q (if ex = [] \<and> \<not> flag then Ret [] else bnd (parse_subject_steps s) (?rest ex flag))"
    if "?seen ex" "has_wildcard (sub_pattern t) \<longrightarrow> flag" for ex flag
    using that by auto
  show ?thesis
    unfolding publish_with_str_steps_def holds_bnd safe_look safe_change in_place_metrics
    by (intro allI impI conjI, assumption, rule q, blast intro: count_exact_str t(2), intro impI, erule in_place_flag, assumption)
qed

section \<open>A batch\<close>

text \<open>The calls for a list of messages: up to the first one refused.\<close>

definition answers :: "('h, 'w) deliverer \<Rightarrow> 'h calls \<Rightarrow> 'h calls \<Rightarrow> bool" where
  "answers dv wanted cs \<longleftrightarrow> (\<exists>n. cs = take n wanted) \<and> (reliable dv \<longrightarrow> cs = wanted)"

lemma answers_refl [simp]: "answers dv cs cs"
  by (auto simp: answers_def intro: exI [of _ "length cs"])

lemma answers_Cons: "answers dv wanted cs \<Longrightarrow> answers dv (x # wanted) (x # cs)"
  unfolding answers_def by (metis take_Suc_Cons)

lemma answers_stop: "\<not> reliable dv \<Longrightarrow> answers dv (x # wanted) [x]"
  by (auto simp: answers_def intro: exI [of _ 1])

lemma safe_status:
  assumes "\<And>st. (reliable dv \<Longrightarrow> st = Delivered) \<Longrightarrow> Q st"
  shows "safe j t Q (call_deliver dv h d)"
  using assms by (auto simp: call_deliver_def Let_def split_def reliable_def)

lemma safe_deliver_batch: "safe j t (\<lambda>(n, cs). answers dv (map (Pair h) ds) cs) (deliver_batch_steps dv h ds)"
proof (induction ds)
  case (Cons d ds)
  have "safe j t (\<lambda>r. case r of (n, cs) \<Rightarrow> answers dv (map (Pair h) (d # ds)) ((h, d) # cs)) (deliver_batch_steps dv h ds)"
    by (rule holds_weaken [OF Cons]) (auto intro: answers_Cons)
  then show ?case
    by (auto intro!: safe_status answers_stop simp: split_def split: delivery_status.split)
qed simp

lemma safe_count_batch: "safe j t (\<lambda>_. True) (count_batch_steps n len)"
  by (simp add: count_batch_steps_def)

definition batch_ok :: "subscription_id \<Rightarrow> 'h subscription \<Rightarrow> delivery_message list \<Rightarrow> batch_state \<times> 'h calls \<Rightarrow> bool" where
  "batch_ok j t ds = (\<lambda>(st, cs). calls_for j cs = [] \<and> pend st j = ds \<and> distinct (map fst (pending st)) \<and>
     (\<forall>e \<in> set (pending st). \<forall>d \<in> set (snd e). d_subscription_id d = fst e) \<and>
     (\<forall>c q. (j, c, q) \<in> set (sub_cache st) \<longrightarrow> c = sub_connection_id t \<and> \<not> q) \<and>
     (\<forall>s ids. last_match st = Some (s, ids) \<longrightarrow> count_list ids j = hit t s))"

lemma safe_cached_info:
  assumes t: "sub_queue_group_key t = None" and ok: "batch_ok j t ds (st, cs)"
  shows "safe j t (\<lambda>(info, st'). batch_ok j t ds (st', cs) \<and> (i = j \<longrightarrow> info = Some (sub_connection_id t, False))) (cached_info_steps i st)"
proof (cases "find (\<lambda>(j, _, _). j = i) (sub_cache st)")
  case None
  have "in_place j t b \<Longrightarrow> get_ref b j = Some t" for b by (simp add: in_place_def)
  with None ok t show ?thesis
    by (cases "i = j") (auto simp: cached_info_steps_def Let_def batch_ok_def pend_def split: option.split)
next
  case (Some e)
  then have "e \<in> set (sub_cache st)" "fst e = i" by (auto simp: find_Some_iff in_set_conv_nth)
  with Some ok show ?thesis by (cases e) (auto simp: cached_info_steps_def batch_ok_def)
qed

lemma batch_ok_push:
  assumes "batch_ok j t ds (st, cs)" and "d_subscription_id d = i"
  shows "batch_ok j t (ds @ (if i = j then [d] else [])) (st\<lparr>pending := push_pending i d (pending st)\<rparr>, cs)"
proof -
  have "\<forall>e \<in> set (push_pending i d (pending st)). \<forall>x \<in> set (snd e). d_subscription_id x = fst e"
    using assms set_push [of _ i d "pending st"] unfolding batch_ok_def by fastforce
  moreover have "distinct (map fst (push_pending i d ps))" if "distinct (map fst ps)" for ps
    using that
  proof (induction ps)
    case (Cons e ps)
    then show ?case using set_push [of _ i d ps] by (cases e) fastforce
  qed simp
  ultimately show ?thesis
    using assms unfolding batch_ok_def by (auto simp: pend_def map_of_push)
qed

lemma safe_batch_match:
  assumes t: "sub_queue_group_key t = None" and ok: "batch_ok j t ds (st, cs)"
  shows "safe j t (batch_ok j t (ds @ (if i = j then [make_delivery j (sub_connection_id t) (item_message it)] else [])))
    (batch_match_steps dv it i (st, cs))"
proof -
  have "safe j t (\<lambda>e. batch_ok j t (ds @ (if i = j then [d] else [])) (st', cs @ e)) (deliver_matches_steps dv m [i])"
    if "batch_ok j t ds (st', cs)" "i \<noteq> j" for st' m d
    by (rule holds_weaken [OF safe_deliver_matches [OF t]]) (use that in \<open>auto simp: batch_ok_def\<close>)
  moreover have "batch_ok j t (ds @ (if i = j then [make_delivery j (sub_connection_id t) m] else []))
      (st'\<lparr>pending := push_pending i (make_delivery i c m) (pending st')\<rparr>, cs)"
    if "batch_ok j t ds (st', cs)" "i = j \<longrightarrow> c = sub_connection_id t" for st' c m
    using batch_ok_push [OF that(1), of "make_delivery i c m" i] that(2) by (auto split: if_splits)
  moreover have "batch_ok j t (ds @ (if i = j then [d] else [])) (st', cs)" if "batch_ok j t ds (st', cs)" "i \<noteq> j" for st' d
    using that by simp
  ultimately show ?thesis
    unfolding batch_match_steps_def split holds_bnd
    by (intro holds_weaken [OF safe_cached_info [OF t ok]]) (auto split: option.split)
qed

lemma safe_batch_matches:
  assumes t: "sub_queue_group_key t = None"
  shows "batch_ok j t ds (st, cs) \<Longrightarrow>
    safe j t (batch_ok j t (ds @ replicate (count_list ids j) (make_delivery j (sub_connection_id t) (item_message it))))
      (loop (batch_match_steps dv it) ids (st, cs))"
proof (induction ids arbitrary: ds st cs)
  case (Cons i ids)
  let ?d = "make_delivery j (sub_connection_id t) (item_message it)"
  have eq: "(ds @ (if i = j then [?d] else [])) @ replicate (count_list ids j) ?d = ds @ replicate (count_list (i # ids) j) ?d" by simp
  show ?case unfolding loop.simps holds_bnd
    by (rule holds_weaken [OF safe_batch_match [OF t Cons.prems]]) (metis Cons.IH eq prod.collapse)
qed simp

definition batch_wanted :: "subscription_id \<Rightarrow> 'h subscription \<Rightarrow> publish_item list \<Rightarrow> delivery_message list" where
  "batch_wanted j t items = map (\<lambda>it. make_delivery j (sub_connection_id t) (item_message it))
     (filter (\<lambda>it. matches (sub_pattern t) (i_subject it)) items)"

lemma safe_batch_item:
  assumes t: "sub_queue_group_key t = None" "pattern_wf (sub_pattern t)" and s: "subject_wf (i_subject it)" and ok: "batch_ok j t ds (st, cs)"
  shows "safe j t (batch_ok j t (ds @ batch_wanted j t [it])) (batch_item_steps dv it (st, cs))"
proof -
  have "safe j t (batch_ok j t (ds @ batch_wanted j t [it])) (loop (batch_match_steps dv it) ids (st\<lparr>last_match := Some (i_subject it, ids)\<rparr>, cs))"
    if "count_list ids j = hit t (i_subject it)" for ids
    by (rule holds_weaken [OF safe_batch_matches [OF t(1)], of j ds])
      (use ok that in \<open>auto simp: batch_ok_def batch_wanted_def pend_def hit_def split: if_splits\<close>)
  moreover have "count_list (case last_match st of Some (_, ids) \<Rightarrow> ids | None \<Rightarrow> []) j = hit t (i_subject it)"
    if "case last_match st of None \<Rightarrow> False | Some (s, _) \<Rightarrow> s = i_subject it"
    using ok that by (auto simp: batch_ok_def split: option.splits)
  ultimately show ?thesis
    unfolding batch_item_steps_def split holds_bnd by (auto intro: holds_weaken [OF safe_match_subject [OF t(2) s]])
qed

lemma safe_batch_items:
  assumes t: "sub_queue_group_key t = None" "pattern_wf (sub_pattern t)"
  shows "(\<forall>it \<in> set items. subject_wf (i_subject it)) \<Longrightarrow> batch_ok j t ds (st, cs) \<Longrightarrow>
    safe j t (batch_ok j t (ds @ batch_wanted j t items)) (loop (batch_item_steps dv) items (st, cs))"
proof (induction items arbitrary: ds st cs)
  case (Cons it items)
  have eq: "(ds @ batch_wanted j t [it]) @ batch_wanted j t items = ds @ batch_wanted j t (it # items)" by (simp add: batch_wanted_def)
  have it: "subject_wf (i_subject it)" using Cons.prems by simp
  show ?case unfolding loop.simps holds_bnd
    by (rule holds_weaken [OF safe_batch_item [OF t it Cons.prems(2)]]) (metis Cons.IH Cons.prems(1) eq list.set_intros(2) prod.collapse)
qed (simp add: batch_wanted_def)


lemma calls_for_answers:
  assumes "answers dv (map (Pair h) ds) cs" and "\<forall>d \<in> set ds. d_subscription_id d = i"
  shows "calls_for j cs = (if i = j then cs else [])"
proof -
  obtain n where "cs = take n (map (Pair h) ds)" using assms(1) by (auto simp: answers_def)
  then have "\<forall>x \<in> set cs. d_subscription_id (snd x) = i" using assms(2) set_take_subset by fastforce
  then show ?thesis by (auto simp: calls_for_def split_def filter_id_conv filter_empty_conv)
qed

lemma safe_flush_send:
  "safe j t (\<lambda>(n, e). answers dv (map (Pair h) ds) e)
    (if length ds = 1 then bnd (call_deliver dv h (hd ds)) (\<lambda>st. Ret (case st of Delivered \<Rightarrow> 1 | _ \<Rightarrow> 0, [(h, hd ds)]))
     else deliver_batch_steps dv h ds)"
proof (cases "length ds = 1")
  case True
  then obtain d where "ds = [d]" by (cases ds) auto
  then show ?thesis by (simp add: safe_call_deliver)
qed (use safe_deliver_batch in simp)

lemma safe_flush_pending:
  fixes dv :: "('h, 'w) deliverer"
  assumes ds: "\<forall>d \<in> set ds. d_subscription_id d = i"
  shows "safe j t (\<lambda>cs'. \<exists>e. cs' = cs @ e \<and> answers dv (if i = j then map (Pair (sub_delivery t)) ds else []) (calls_for j e))
    (flush_pending_steps dv (i, ds) cs)"
    (is "safe j t ?Q _")
proof -
  have q: "?Q (cs @ e)" if "answers dv (map (Pair (sub_delivery sub)) ds) e" "i = j \<longrightarrow> sub = t" for e sub
    using calls_for_answers [OF that(1) ds, of j] that by auto
  have "safe j t ?Q (bnd (count_batch_steps n len) (\<lambda>_. Ret (cs @ e)) :: ('h, 'w, _) bprog)"
    if "answers dv (map (Pair (sub_delivery sub)) ds) e" "i = j \<longrightarrow> sub = t" for e sub n len
    unfolding holds_bnd holds.simps(1) using q [OF that] by (blast intro: holds_weaken [OF safe_count_batch])
  then have send: "safe j t ?Q
      (bnd (if length ds = 1 then bnd (call_deliver dv (sub_delivery sub) (hd ds))
              (\<lambda>st. Ret (case st of Delivered \<Rightarrow> 1 | _ \<Rightarrow> 0, [(sub_delivery sub, hd ds)]))
            else deliver_batch_steps dv (sub_delivery sub) ds)
         (\<lambda>(accepted, e). bnd (count_batch_steps accepted (length ds)) (\<lambda>_. Ret (cs @ e))))"
    if "i = j \<longrightarrow> sub = t" for sub
    using that unfolding holds_bnd [of _ _ ?Q] by (intro holds_weaken [OF safe_flush_send]) auto
  show ?thesis
    unfolding flush_pending_steps_def split holds_bnd [of _ _ ?Q "look _"] safe_look
  proof (intro allI impI)
    fix b
    assume p: "in_place j t b"
    show "safe j t ?Q (case get_ref b i of None \<Rightarrow> Ret cs
      | Some sub \<Rightarrow>
         bnd (if length ds = 1 then bnd (call_deliver dv (sub_delivery sub) (hd ds))
                (\<lambda>st. Ret (case st of Delivered \<Rightarrow> 1 | _ \<Rightarrow> 0, [(sub_delivery sub, hd ds)]))
              else deliver_batch_steps dv (sub_delivery sub) ds)
           (\<lambda>(accepted, e). bnd (count_batch_steps accepted (length ds)) (\<lambda>_. Ret (cs @ e))))"
    proof (cases "get_ref b i")
      case None
      then have "i \<noteq> j" using p by (auto simp: in_place_def)
      with None show ?thesis by simp
    next
      case (Some sub)
      then have "i = j \<longrightarrow> sub = t" using p by (auto simp: in_place_def)
      from send [OF this] show ?thesis unfolding Some option.case .
    qed
  qed
qed

lemma safe_flush_others:
  "j \<notin> fst ` set es \<Longrightarrow> (\<forall>e \<in> set es. \<forall>d \<in> set (snd e). d_subscription_id d = fst e) \<Longrightarrow>
    safe j t (\<lambda>cs'. calls_for j cs' = calls_for j cs) (loop (flush_pending_steps dv) es cs)"
proof (rule holds_loop [where J = "\<lambda>cs'. calls_for j cs' = calls_for j cs"])
  fix e l
  assume a: "j \<notin> fst ` set es" "\<forall>e \<in> set es. \<forall>d \<in> set (snd e). d_subscription_id d = fst e" "e \<in> set es" "calls_for j l = calls_for j cs"
  obtain i ds where e: "e = (i, ds)" by (cases e)
  have i: "i \<noteq> j" "\<forall>d \<in> set ds. d_subscription_id d = i" using a(1-3) unfolding e by force+
  show "safe j t (\<lambda>cs'. calls_for j cs' = calls_for j cs) (flush_pending_steps dv e l)"
    unfolding e by (rule holds_weaken [OF safe_flush_pending [OF i(2)]]) (use i(1) a(4) in \<open>auto simp: answers_def\<close>)
qed simp

lemma safe_flush_all:
  "distinct (map fst es) \<Longrightarrow> (\<forall>e \<in> set es. \<forall>d \<in> set (snd e). d_subscription_id d = fst e) \<Longrightarrow> calls_for j cs = [] \<Longrightarrow>
    safe j t (\<lambda>cs'. answers dv (map (Pair (sub_delivery t)) (case map_of es j of None \<Rightarrow> [] | Some ds \<Rightarrow> ds)) (calls_for j cs'))
      (loop (flush_pending_steps dv) es cs)"
proof (induction es arbitrary: cs)
  case (Cons e es)
  obtain i ds where e: "e = (i, ds)" by (cases e)
  have i: "\<forall>d \<in> set ds. d_subscription_id d = i" using Cons.prems(2) e by simp
  show ?case
  proof (cases "i = j")
    case True
    have "safe j t (\<lambda>cs'. answers dv (map (Pair (sub_delivery t)) ds) (calls_for j cs')) (loop (flush_pending_steps dv) es (cs @ f))"
      if "answers dv (map (Pair (sub_delivery t)) ds) (calls_for j f)" for f
      by (rule holds_weaken [OF safe_flush_others]) (use Cons.prems that e True in \<open>auto simp: image_iff\<close>)
    then show ?thesis
      unfolding e loop.simps holds_bnd by (intro holds_weaken [OF safe_flush_pending [OF i]]) (auto simp: True)
  next
    case False
    then show ?thesis
      unfolding e loop.simps holds_bnd
      by (intro holds_weaken [OF safe_flush_pending [OF i]]) (use Cons e in \<open>auto simp: answers_def\<close>)
  qed
qed simp


text \<open>The fast path serves the subscription exactly when it is the only one.\<close>

definition single_ok :: "subscription_id \<Rightarrow> 'h subscription \<Rightarrow> publish_item list \<Rightarrow> (subscription_id \<times> 'h subscription) option \<Rightarrow> bool" where
  "single_ok j t items single \<longleftrightarrow> (\<forall>i sub. single = Some (i, sub) \<longrightarrow>
     list_all (\<lambda>it. i_subject it = i_subject (hd items)) items \<and>
     (if matches (sub_pattern t) (i_subject (hd items)) then i = j \<and> sub = t else i \<noteq> j))"

lemma exact_single_in_place:
  assumes p: "in_place j t b" and t: "pattern_wf (sub_pattern t)" and s: "subject_wf s"
    and w: "\<not> has_wildcard (sub_pattern t)" and i: "exact_single_subscriber (b_router b) s = Some i"
  shows "matches (sub_pattern t) s \<longleftrightarrow> i = j"
proof -
  have "exact_matches (b_router b) (s_raw s) = [i]"
    using i by (auto simp: exact_single_subscriber_def exact_matches_def length_Suc_conv split: option.splits if_splits)
  with count_exact [OF p t s] w show ?thesis by (auto simp: hit_def split: if_splits)
qed

lemma safe_batch_single:
  assumes t: "pattern_wf (sub_pattern t)" and s: "subject_wf (i_subject (hd items))"
  shows "safe j t (single_ok j t items) (batch_single_steps items)"
proof -
  have none: "single_ok j t items None" by (simp add: single_ok_def)
  have some: "single_ok j t items (Some (i, sub))"
    if "\<not> has_wildcards (b_router b0)" "in_place j t b0" "in_place j t b" "exact_single_subscriber (b_router b) (i_subject (hd items)) = Some i"
      "in_place j t b'" "get_ref b' i = Some sub" "list_all (\<lambda>it. i_subject it = i_subject (hd items)) items" for b0 b b' i sub
  proof -
    have "\<not> has_wildcard (sub_pattern t)" using in_place_flag [OF that(2)] that(1) by blast
    from exact_single_in_place [OF that(3) t s this that(4)] that(5-7) show ?thesis by (auto simp: single_ok_def in_place_def)
  qed
  show ?thesis
    unfolding batch_single_steps_def router_has_wildcards_def
    by (auto simp: none intro: some split: option.split)
qed

lemma batch_wanted_same:
  "list_all (\<lambda>it. i_subject it = s) items \<Longrightarrow> batch_wanted j t items =
     (if matches (sub_pattern t) s then map (\<lambda>it. make_delivery j (sub_connection_id t) (item_message it)) items else [])"
  by (induction items) (auto simp: batch_wanted_def)

lemma safe_publish_batch:
  fixes dv :: "('h, 'w) deliverer"
  assumes t: "sub_queue_group_key t = None" "pattern_wf (sub_pattern t)" and s: "\<forall>it \<in> set items. subject_wf (i_subject it)"
    and iter: "\<And>ps. mset (iter ps) = mset ps"
  shows "safe j t (\<lambda>cs. answers dv (map (Pair (sub_delivery t)) (batch_wanted j t items)) (calls_for j cs)) (publish_batch_steps dv iter items)"
    (is "safe j t ?Q _")
proof (cases "items = []")
  case False
  then have hd: "subject_wf (i_subject (hd items))" using s by simp
  have fast: "safe j t ?Q (bnd (deliver_batch_steps dv (sub_delivery sub) (map (\<lambda>it. make_delivery i (sub_connection_id sub) (item_message it)) items))
      (\<lambda>(accepted, cs). bnd (count_batch_steps accepted (length items)) (\<lambda>_. Ret cs)))"
    if "single_ok j t items (Some (i, sub))" for i sub
  proof -
    let ?ds = "map (\<lambda>it. make_delivery i (sub_connection_id sub) (item_message it)) items"
    have "?Q cs" if "answers dv (map (Pair (sub_delivery sub)) ?ds) cs" for cs
      using that calls_for_answers [OF that, of i j] batch_wanted_same [of "i_subject (hd items)" items j t] \<open>single_ok j t items (Some (i, sub))\<close>
      by (auto simp: single_ok_def split: if_splits)
    then show ?thesis
      unfolding holds_bnd [of _ _ ?Q]
      by (intro holds_weaken [OF safe_deliver_batch]) (auto intro: holds_weaken [OF safe_count_batch])
  qed
  have slow: "safe j t ?Q (bnd (loop (batch_item_steps dv) items (\<lparr>pending = [], last_match = None, sub_cache = []\<rparr>, [])) (\<lambda>(st, cs).
      loop (flush_pending_steps dv) (iter (pending st)) cs))"
  proof -
    have "batch_ok j t [] (\<lparr>pending = [], last_match = None, sub_cache = []\<rparr>, [])" by (simp add: batch_ok_def pend_def)
    note items = safe_batch_items [OF t s this, of dv, simplified]
    have "safe j t ?Q (loop (flush_pending_steps dv) (iter (pending st)) cs)" if "batch_ok j t (batch_wanted j t items) (st, cs)" for st cs
    proof -
      have "map_of (iter (pending st)) j = map_of (pending st) j"
        using that iter_pending(2,3) [OF iter [of "pending st"]] map_of_inject_set [of "iter (pending st)" "pending st"] by (simp add: batch_ok_def)
      then show ?thesis
        using safe_flush_all [of "iter (pending st)" j cs t dv] iter_pending(2,3) [OF iter [of "pending st"]] that
        by (auto simp: batch_ok_def pend_def)
    qed
    then show ?thesis unfolding holds_bnd by (intro holds_weaken [OF items]) auto
  qed
  show ?thesis
    using False fast slow unfolding publish_batch_steps_def
    by (auto simp del: holds_bnd simp: holds_bnd [of _ _ ?Q] intro!: holds_weaken [OF safe_batch_single [OF t(2) hd]] split: option.splits)
qed (simp add: publish_batch_steps_def batch_wanted_def)


section \<open>Every operation\<close>

text \<open>A broker at rest: each of its subscriptions without a queue group is in place.\<close>

lemma at_rest_in_place:
  assumes inv: "broker_inv b" and j: "get_ref b j = Some t" and q: "sub_queue_group t = None"
  shows "in_place j t b" and "sub_queue_group_key t = None" and "pattern_wf (sub_pattern t)"
proof -
  have key: "key_of_sub t = None" using q by (simp add: key_of_sub_def)
  have r: "routes (b_router b) (patterns_of (b_registry b))" using inv by (simp add: broker_inv_def registry_inv_def)
  have p: "patterns_of (b_registry b) j = Some (sub_pattern t)" using j by (simp add: patterns_of_def)
  show "pattern_wf (sub_pattern t)" using r p by (auto simp: routes_def)
  show "sub_queue_group_key t = None" using inv j key unfolding broker_inv_def keys_ok_def sub_key_ok_def by fastforce
  have "j \<notin> set (members g)" if "queue_groups b k = Some g" for k g
  proof -
    have "set (members g) = group_subs b k" using inv that unfolding broker_inv_def members_ok_def by blast
    then show ?thesis using j key by (simp add: group_subs_def)
  qed
  moreover have "j < counter (sub_id_gen b)" using inv j by (auto simp: broker_inv_def ids_ok_def)
  moreover have "c = sub_connection_id t" if "j \<in> set (conn_ids (b_registry b) c)" for c
    using inv that j by (auto simp: broker_inv_def registry_inv_def subs_of_conn_def)
  ultimately show "in_place j t b"
    using inv j routes_routed_at [OF r p] by (auto simp: in_place_def broker_inv_def word_less_nat_alt)
qed

text \<open>The operations that do not remove the subscription, and the calls each makes for it.\<close>

fun leaves :: "subscription_id \<Rightarrow> 'h subscription \<Rightarrow> 'h op \<Rightarrow> bool" where
  "leaves j t (OpUnsubscribe c i) \<longleftrightarrow> i \<noteq> j"
| "leaves j t (OpRemoveConnection c) \<longleftrightarrow> c \<noteq> sub_connection_id t"
| "leaves j t (OpPublish m) \<longleftrightarrow> subject_wf (m_subject m)"
| "leaves j t (OpPublishBatch items) \<longleftrightarrow> list_all (\<lambda>it. subject_wf (i_subject it)) items"
| "leaves j t _ \<longleftrightarrow> True"

fun op_wanted :: "subscription_id \<Rightarrow> 'h subscription \<Rightarrow> 'h op \<Rightarrow> 'h calls" where
  "op_wanted j t (OpPublish m) = one_call j t m"
| "op_wanted j t (OpPublishStr s payload reply hs) = str_calls j t s payload reply hs"
| "op_wanted j t (OpPublishBatch items) = map (Pair (sub_delivery t)) (batch_wanted j t items)"
| "op_wanted j t _ = []"

fun is_batch :: "'h op \<Rightarrow> bool" where
  "is_batch (OpPublishBatch _) \<longleftrightarrow> True"
| "is_batch _ \<longleftrightarrow> False"

definition served :: "('h, 'w) deliverer \<Rightarrow> subscription_id \<Rightarrow> 'h subscription \<Rightarrow> 'h op \<Rightarrow> 'h op_result \<Rightarrow> bool" where
  "served dv j t x r \<longleftrightarrow> (\<forall>cs. r = Published cs \<longrightarrow>
     (if is_batch x then answers dv (op_wanted j t x) (calls_for j cs) else calls_for j cs = op_wanted j t x))"

lemma safe_op:
  assumes t: "sub_queue_group_key t = None" "pattern_wf (sub_pattern t)" and x: "leaves j t x"
    and iter: "\<And>ps. mset (iter ps) = mset ps"
  shows "safe j t (served dv j t x) (op_steps dv iter x)"
proof (cases x)
  case (OpPublish m)
  then show ?thesis using safe_publish [OF t, of m j dv] x by (simp add: served_def)
next
  case (OpPublishStr s payload reply hs)
  then show ?thesis using safe_publish_with_str [OF t, of j s payload reply hs dv] by (simp add: served_def)
next
  case (OpPublishBatch items)
  then show ?thesis using safe_publish_batch [OF t _ iter, of items j dv] x by (simp add: served_def list_all_iff)
qed (use x in \<open>auto simp: served_def intro: holds_weaken [OF safe_subscribe] holds_weaken [OF safe_unsubscribe] holds_weaken [OF safe_remove_connection]\<close>)

text \<open>The operations that may run beside a subscription: what \<open>shared_object\<close> asks of them.\<close>

definition beside ::
  "subscription_id \<Rightarrow> 'h subscription \<Rightarrow>
   ((subscription_id \<times> delivery_message list) list \<Rightarrow> (subscription_id \<times> delivery_message list) list) \<Rightarrow> 'h op \<Rightarrow> bool" where
  "beside j t iter x \<longleftrightarrow> leaves j t x \<and> sub_queue_group_key t = None \<and> pattern_wf (sub_pattern t) \<and> (\<forall>ps. mset (iter ps) = mset ps)"

interpretation broker_use: shared_object "\<lambda>s. ids_left (fst s)" "\<lambda>s. in_place j t (fst s)" "op_steps dv iter" "beside j t iter"
  "served dv j t" for j t dv iter
  by unfold_locales (auto simp: beside_def intro: safe_op)

end
