(* ===== verification/Broker_Removed.thy ===== *)
theory Broker_Removed
  imports Broker_Shared
begin

text \<open>
  An identifier that was given out and is not registered stays so: identifiers are not given out twice.  No operation that
  starts then calls a handle for it, whatever the interleaving.
\<close>

section \<open>Identifiers that are gone\<close>

definition gone :: "subscription_id \<Rightarrow> 'h broker \<Rightarrow> bool" where
  "gone j b \<longleftrightarrow> get_ref b j = None \<and> unat j < unat (counter (sub_id_gen b))"

abbreviation quiet :: "subscription_id \<Rightarrow> ('r \<Rightarrow> bool) \<Rightarrow> ('h, 'w, 'r) bprog \<Rightarrow> bool" where
  "quiet j \<equiv> holds (\<lambda>s. ids_left (fst s)) (\<lambda>s. gone j (fst s))"

lemma quiet_on_broker [simp]:
  "quiet j Q (on_broker f :: ('h, 'w, 'r) bprog) \<longleftrightarrow> (\<forall>b. ids_left b \<longrightarrow> gone j b \<longrightarrow> gone j (snd (f b)) \<and> Q (fst (f b)))"
  by (auto simp: on_broker_def Let_def split_def)

lemma quiet_look [simp]: "quiet j Q (look f) \<longleftrightarrow> (\<forall>b. ids_left b \<longrightarrow> gone j b \<longrightarrow> Q (f b))"
  by (simp add: look_def)

lemma quiet_change [simp]: "quiet j Q (change f) \<longleftrightarrow> (\<forall>b. ids_left b \<longrightarrow> gone j b \<longrightarrow> gone j (f b) \<and> Q ())"
  by (simp add: change_def)

lemma quiet_call_deliver: "(\<And>st. Q st) \<Longrightarrow> quiet j Q (call_deliver dv h d)"
  by (auto simp: call_deliver_def Let_def split_def)

text \<open>Only an insertion into \<open>subscriptions\<close> and the generator of identifiers matter.\<close>

lemma gone_same:
  assumes "get_ref b' j = get_ref b j" and "sub_id_gen b' = sub_id_gen b"
  shows "gone j b \<Longrightarrow> gone j b'"
  using assms by (simp add: gone_def)

lemma gone_on [simp]:
  "gone j (on_metrics f b) = gone j b" "gone j (on_router g b) = gone j b" "gone j (handle_delivery_status st b) = gone j b"
  by (simp_all add: gone_def on_defs) (cases st, simp_all)

lemma gone_groups [simp]:
  "gone j (b\<lparr>queue_groups := x\<rparr>) = gone j b" "gone j (b\<lparr>queue_group_keys := y\<rparr>) = gone j b" "gone j (b\<lparr>subject_cache := z\<rparr>) = gone j b"
  by (simp_all add: gone_def)

lemma gone_ops [simp]:
  "gone j b \<Longrightarrow> gone j (snd (intern_key k b))" "gone j b \<Longrightarrow> gone j (join_group k i b)" "gone j b \<Longrightarrow> gone j (leave_group k i b)"
  "gone j b \<Longrightarrow> gone j (snd (retain_members k is b))" "gone j b \<Longrightarrow> gone j (snd (choose_member k b))"
  by (auto simp: gone_def intern_key_def join_group_def leave_group_def retain_members_def choose_member_def Let_def split: option.split)

lemma gone_take [simp]: "gone j b \<Longrightarrow> gone j (snd (take_subscription i b))"
  by (simp add: gone_def take_subscription_def on_registry_def)

lemma gone_connections [simp]: "gone j (on_registry (\<lambda>r. r\<lparr>by_connection := f r\<rparr>) b) = gone j b"
  by (simp add: gone_def on_registry_def)

lemma gone_next_id: "ids_left b \<Longrightarrow> gone j b \<Longrightarrow> gone j (snd (next_id b)) \<and> fst (next_id b) \<noteq> j"
proof -
  assume l: "ids_left b" and g: "gone j b"
  have "unat (counter (sub_id_gen b) + 1) = unat (counter (sub_id_gen b)) + 1"
    using l unat_add_lem [of "counter (sub_id_gen b)" 1] by (simp add: ids_left_def)
  then show ?thesis using g by (auto simp: next_id_def id_generator_next_def gone_def)
qed

section \<open>Subscribing and removing\<close>

lemma quiet_engine_insert: "quiet j (\<lambda>_. True) (engine_insert_steps p i)"
  by (simp add: engine_insert_steps_def)

lemma quiet_engine_remove: "quiet j (\<lambda>_. True) (engine_remove_steps p i)"
  by (simp add: engine_remove_steps_def)

lemma quiet_registry_add: "i \<noteq> j \<Longrightarrow> quiet j (\<lambda>_. True) (registry_add_steps i c p qg key h)"
proof -
  assume "i \<noteq> j"
  then have "gone j (on_registry (\<lambda>r. r\<lparr>subscriptions := (subscriptions r)(i \<mapsto> s)\<rparr>) b) = gone j b" for s and b :: "'h broker"
    by (simp add: gone_def on_registry_def)
  then show ?thesis by (auto simp: registry_add_steps_def intro!: holds_weaken [OF quiet_engine_insert])
qed

lemma quiet_subscribe: "quiet j (\<lambda>_. True) (subscribe_steps c p qg h)"
  by (auto simp: subscribe_steps_def gone_next_id dest: gone_next_id intro!: holds_weaken [OF quiet_registry_add] split: option.split)

lemma quiet_registry_remove: "quiet j (\<lambda>_. True) (registry_remove_steps i)"
proof -
  have "gone j b \<Longrightarrow> gone j (on_registry (\<lambda>r. case by_connection r c of
      None \<Rightarrow> r | Some is \<Rightarrow> r\<lparr>by_connection := (by_connection r)(c \<mapsto> retain_not i is)\<rparr>) b)" for c and b :: "'h broker"
    by (simp add: gone_def on_registry_def split: option.split)
  then show ?thesis by (auto simp: registry_remove_steps_def intro!: holds_weaken [OF quiet_engine_remove] split: option.split)
qed

lemma quiet_unsubscribe: "quiet j (\<lambda>_. True) (unsubscribe_steps c i)"
  by (auto simp: unsubscribe_steps_def intro!: holds_weaken [OF quiet_registry_remove] split: option.split)

lemma quiet_remove_one: "quiet j (\<lambda>_. True) (remove_one_steps i removed)"
  by (auto simp: remove_one_steps_def intro!: holds_weaken [OF quiet_engine_remove] split: option.split)

lemma quiet_cleanup_group: "quiet j (\<lambda>_. True) (cleanup_group_steps ids sub u)"
  by (auto simp: cleanup_group_steps_def split: option.split)

lemma quiet_remove_connection: "quiet j (\<lambda>_. True) (remove_connection_steps c)"
  by (auto simp: remove_connection_steps_def remove_all_for_connection_steps_def
      intro!: holds_weaken [OF holds_loop, of _ "\<lambda>_. True"] quiet_remove_one quiet_cleanup_group)

section \<open>Publishing\<close>

lemma quiet_deliver: "quiet j (\<lambda>cs. cs = [(h, d)]) (deliver_steps dv h d)"
  by (simp add: deliver_steps_def quiet_call_deliver)

lemma quiet_deliver_to_subscriber: "quiet j (\<lambda>cs. calls_for j cs = []) (deliver_to_subscriber_steps dv i m)"
proof -
  have "gone j b \<Longrightarrow> get_ref b i = Some sub \<Longrightarrow> i \<noteq> j" for sub and b :: "'h broker" by (auto simp: gone_def)
  then show ?thesis by (auto simp: deliver_to_subscriber_steps_def intro!: holds_weaken [OF quiet_deliver] split: option.split)
qed

lemma quiet_deliver_queue_group: "quiet j (\<lambda>cs. calls_for j cs = []) (deliver_queue_group_steps dv k ms m)"
  by (auto simp: deliver_queue_group_steps_def intro!: quiet_deliver_to_subscriber split: option.split)

text \<open>What the classification keeps: no call for the identifier, and it is not in the fan-out.\<close>

definition spared :: "subscription_id \<Rightarrow> 'h match_state \<times> 'h calls \<Rightarrow> bool" where
  "spared j = (\<lambda>(st, cs). calls_for j cs = [] \<and> j \<notin> fst ` set (fanout st))"

lemma quiet_classify_match: "spared j r \<Longrightarrow> quiet j (spared j) (classify_match_steps dv m i r)"
proof -
  assume r: "spared j r"
  have "gone j b \<Longrightarrow> get_ref b i = Some sub \<Longrightarrow> i \<noteq> j" for sub and b :: "'h broker" by (auto simp: gone_def)
  then show ?thesis
    using r by (cases r) (auto simp: classify_match_steps_def spared_def intro!: holds_weaken [OF quiet_deliver_queue_group] split: option.split)
qed

lemma quiet_fanout:
  "j \<notin> fst ` set fs \<Longrightarrow> calls_for j ds = [] \<Longrightarrow> quiet j (\<lambda>cs. calls_for j cs = []) (loop (deliver_fanout_steps dv m) fs ds)"
  by (rule holds_loop [where J = "\<lambda>cs. calls_for j cs = []"])
    (force simp: deliver_fanout_steps_def intro!: holds_weaken [OF quiet_deliver])+

lemma quiet_deliver_matches: "quiet j (\<lambda>cs. calls_for j cs = []) (deliver_matches_steps dv m ids)"
proof -
  have "quiet j (\<lambda>e. quiet j (\<lambda>cs. calls_for j cs = []) (loop (deliver_fanout_steps dv m) (fanout st) (ds @ e)))
      (case last_key st of None \<Rightarrow> Ret [] | Some key \<Rightarrow> deliver_queue_group_steps dv key (group_members st) m)"
    if "spared j (st, ds)" for st ds
    using that by (cases "last_key st") (auto simp: spared_def intro!: quiet_fanout holds_weaken [OF quiet_deliver_queue_group])
  then show ?thesis
    unfolding deliver_matches_steps_def holds_bnd
    by (intro holds_weaken [OF holds_loop [where J = "spared j"]] quiet_classify_match) (auto simp: spared_def)
qed

lemma quiet_match_subject: "quiet j (\<lambda>_. True) (match_subject_steps s)"
  by (simp add: match_subject_steps_def)

lemma quiet_publish: "quiet j (\<lambda>cs. calls_for j cs = []) (publish_steps dv m)"
  by (auto simp: publish_steps_def intro!: holds_weaken [OF quiet_match_subject] quiet_deliver_matches)

lemma quiet_parse_subject: "quiet j (\<lambda>_. True) (parse_subject_steps s)"
  by (auto simp: parse_subject_steps_def split: option.split sum.split)

lemma quiet_publish_with_str: "quiet j (\<lambda>cs. calls_for j cs = []) (publish_with_str_steps dv s payload reply hs)"
  by (auto simp: publish_with_str_steps_def match_wildcards_steps_def intro!: holds_weaken [OF quiet_parse_subject] quiet_deliver_matches
      split: sum.split)


section \<open>Batches\<close>

definition batch_spared :: "subscription_id \<Rightarrow> batch_state \<times> 'h calls \<Rightarrow> bool" where
  "batch_spared j = (\<lambda>(st, cs). calls_for j cs = [] \<and> j \<notin> fst ` set (sub_cache st) \<and> j \<notin> fst ` set (pending st) \<and>
     (\<forall>e \<in> set (pending st). \<forall>d \<in> set (snd e). d_subscription_id d = fst e))"

lemma quiet_deliver_batch:
  "\<forall>d \<in> set ds. d_subscription_id d \<noteq> j \<Longrightarrow> quiet j (\<lambda>r. calls_for j (snd r) = []) (deliver_batch_steps dv h ds)"
proof (induction ds)
  case (Cons d ds)
  then show ?case
    by (auto simp: split_def intro!: quiet_call_deliver holds_weaken [OF Cons.IH] split: delivery_status.split)
qed simp

lemma quiet_count_batch: "quiet j (\<lambda>_. True) (count_batch_steps n len)"
  by (simp add: count_batch_steps_def)

lemma quiet_cached_info:
  assumes "batch_spared j (st, cs)"
  shows "quiet j (\<lambda>(info, st'). batch_spared j (st', cs) \<and> (info \<noteq> None \<longrightarrow> i \<noteq> j)) (cached_info_steps i st)"
proof (cases "find (\<lambda>(j, _, _). j = i) (sub_cache st)")
  case None
  have "gone j b \<Longrightarrow> get_ref b i = Some sub \<Longrightarrow> i \<noteq> j" for sub and b :: "'h broker" by (auto simp: gone_def)
  then show ?thesis using None assms by (auto simp: cached_info_steps_def batch_spared_def Let_def split: option.split)
next
  case (Some e)
  then have "e \<in> set (sub_cache st)" "fst e = i" by (auto simp: find_Some_iff in_set_conv_nth)
  with Some assms show ?thesis by (cases e) (auto simp: cached_info_steps_def batch_spared_def image_iff)
qed

lemma batch_spared_push:
  assumes "batch_spared j (st, cs)" and "i \<noteq> j" and "d_subscription_id d = i"
  shows "batch_spared j (st\<lparr>pending := push_pending i d (pending st)\<rparr>, cs)"
proof -
  have old: "x \<in> set (pending st) \<Longrightarrow> fst x \<noteq> j \<and> (\<forall>d \<in> set (snd x). d_subscription_id d = fst x)" for x
    using assms(1) by (auto simp: batch_spared_def)
  have "fst x \<noteq> j \<and> (\<forall>d \<in> set (snd x). d_subscription_id d = fst x)" if "x \<in> set (push_pending i d (pending st))" for x
    using set_push [OF that] old [of x] old [of "(i, ds)" for ds] assms(2,3) by fastforce
  then show ?thesis using assms(1) by (auto simp: batch_spared_def)
qed

lemma quiet_batch_match:
  assumes ok: "batch_spared j r"
  shows "quiet j (batch_spared j) (batch_match_steps dv it i r)"
proof -
  obtain st cs where r: "r = (st, cs)" by (cases r)
  have "quiet j (\<lambda>e. batch_spared j (st', cs @ e)) (deliver_matches_steps dv m [i])" if "batch_spared j (st', cs)" for st' m
    by (rule holds_weaken [OF quiet_deliver_matches]) (use that in \<open>auto simp: batch_spared_def\<close>)
  moreover have "batch_spared j (st'\<lparr>pending := push_pending i (make_delivery i c m) (pending st')\<rparr>, cs)"
    if "batch_spared j (st', cs)" "i \<noteq> j" for st' c m
    by (rule batch_spared_push [OF that]) simp
  ultimately show ?thesis
    unfolding batch_match_steps_def r split holds_bnd
    by (intro holds_weaken [OF quiet_cached_info [OF ok [unfolded r]]]) (auto split: option.split)
qed

lemma quiet_batch_item:
  assumes ok: "batch_spared j r"
  shows "quiet j (batch_spared j) (batch_item_steps dv it r)"
proof -
  obtain st cs where r: "r = (st, cs)" by (cases r)
  have "quiet j (batch_spared j) (loop (batch_match_steps dv it) ids (st\<lparr>last_match := x\<rparr>, cs))" for ids x
    by (rule holds_loop [OF quiet_batch_match]) (use ok r in \<open>auto simp: batch_spared_def\<close>)
  then show ?thesis
    unfolding batch_item_steps_def r split holds_bnd by (auto intro: holds_weaken [OF quiet_match_subject])
qed

lemma quiet_flush_pending:
  fixes dv :: "('h, 'w) deliverer"
  assumes "i \<noteq> j" and ds: "\<forall>d \<in> set ds. d_subscription_id d = i" and cs: "calls_for j cs = []"
  shows "quiet j (\<lambda>cs'. calls_for j cs' = []) (flush_pending_steps dv (i, ds) cs)" (is "quiet j ?Q _")
proof -
  have ne: "\<forall>d \<in> set ds. d_subscription_id d \<noteq> j" using assms by simp
  have sent: "quiet j (\<lambda>r. calls_for j (snd r) = []) (if length ds = 1
      then bnd (call_deliver dv h (hd ds)) (\<lambda>st. Ret (case st of Delivered \<Rightarrow> 1 | _ \<Rightarrow> 0, [(h, hd ds)])) else deliver_batch_steps dv h ds)" for h
  proof (cases "length ds = 1")
    case True
    then obtain d where "ds = [d]" by (cases ds) auto
    then show ?thesis using ne by (simp add: quiet_call_deliver)
  qed (use quiet_deliver_batch [OF ne] in simp)
  have rest: "quiet j ?Q (bnd (count_batch_steps n len) (\<lambda>_. Ret (cs @ e)) :: ('h, 'w, _) bprog)" if "calls_for j e = []" for e n len
    using that cs by (auto intro: holds_weaken [OF quiet_count_batch])
  have send: "quiet j ?Q (bnd (if length ds = 1
        then bnd (call_deliver dv h (hd ds)) (\<lambda>st. Ret (case st of Delivered \<Rightarrow> 1 | _ \<Rightarrow> 0, [(h, hd ds)])) else deliver_batch_steps dv h ds)
      (\<lambda>(accepted, e). bnd (count_batch_steps accepted (length ds)) (\<lambda>_. Ret (cs @ e))))" for h
    unfolding holds_bnd [of _ _ ?Q "if _ then _ else _"] by (rule holds_weaken [OF sent]) (simp only: split_def rest)
  show ?thesis
    unfolding flush_pending_steps_def split holds_bnd [of _ _ ?Q "look _"] quiet_look
    by (simp only: send cs holds.simps(1) simp_thms split: option.split)
qed

lemma quiet_flush_all:
  fixes dv :: "('h, 'w) deliverer"
  assumes "j \<notin> fst ` set es" and "\<forall>e \<in> set es. \<forall>d \<in> set (snd e). d_subscription_id d = fst e" and "calls_for j cs = []"
  shows "quiet j (\<lambda>cs'. calls_for j cs' = []) (loop (flush_pending_steps dv) es cs)"
proof (rule holds_loop [where J = "\<lambda>cs'. calls_for j cs' = []"])
  fix e and l :: "'h calls"
  assume e: "e \<in> set es" and l: "calls_for j l = []"
  have "fst e \<noteq> j" "\<forall>d \<in> set (snd e). d_subscription_id d = fst e" using assms(1,2) e by force+
  from quiet_flush_pending [OF this l] show "quiet j (\<lambda>cs'. calls_for j cs' = []) (flush_pending_steps dv e l)" by simp
qed (rule assms(3))

lemma quiet_batch_single: "quiet j (\<lambda>single. \<forall>i sub. single = Some (i, sub) \<longrightarrow> i \<noteq> j) (batch_single_steps items)"
proof -
  have "gone j b \<Longrightarrow> get_ref b i = Some sub \<Longrightarrow> i \<noteq> j" for i sub and b :: "'h broker" by (auto simp: gone_def)
  then show ?thesis by (auto simp: batch_single_steps_def split: option.split)
qed

lemma quiet_publish_batch:
  assumes iter: "\<And>ps. mset (iter ps) = mset ps"
  shows "quiet j (\<lambda>cs. calls_for j cs = []) (publish_batch_steps dv iter items)" (is "quiet j ?Q _")
proof -
  have fast: "quiet j ?Q (bnd (deliver_batch_steps dv h (map (\<lambda>it. make_delivery i c (item_message it)) items))
      (\<lambda>(accepted, cs). bnd (count_batch_steps accepted (length items)) (\<lambda>_. Ret cs)))" if "i \<noteq> j" for i c h
    unfolding holds_bnd [of _ _ ?Q]
    by (rule holds_weaken [OF quiet_deliver_batch]) (use that in \<open>auto intro: holds_weaken [OF quiet_count_batch]\<close>)
  have "quiet j (batch_spared j) (loop (batch_item_steps dv) items (\<lparr>pending = [], last_match = None, sub_cache = []\<rparr>, []))"
    by (rule holds_loop [OF quiet_batch_item]) (simp_all add: batch_spared_def)
  then have slow: "quiet j ?Q (bnd (loop (batch_item_steps dv) items (\<lparr>pending = [], last_match = None, sub_cache = []\<rparr>, []))
      (\<lambda>(st, cs). loop (flush_pending_steps dv) (iter (pending st)) cs))"
    unfolding holds_bnd
    by (rule holds_weaken) (auto simp: batch_spared_def iter_pending(2) [OF iter] intro!: quiet_flush_all)
  show ?thesis
    using fast slow unfolding publish_batch_steps_def
    by (auto simp del: holds_bnd simp: holds_bnd [of _ _ ?Q] intro!: holds_weaken [OF quiet_batch_single] split: option.splits)
qed

section \<open>Every operation\<close>

definition unserved :: "subscription_id \<Rightarrow> 'h op_result \<Rightarrow> bool" where
  "unserved j r \<longleftrightarrow> (\<forall>cs. r = Published cs \<longrightarrow> calls_for j cs = [])"

lemma quiet_op:
  assumes "\<And>ps. mset (iter ps) = mset ps"
  shows "quiet j (unserved j) (op_steps dv iter x)"
  using quiet_publish_batch [OF assms, of j dv]
  by (cases x) (auto simp: unserved_def quiet_publish quiet_publish_with_str intro: holds_weaken [OF quiet_subscribe]
      holds_weaken [OF quiet_unsubscribe] holds_weaken [OF quiet_remove_connection])

interpretation broker_quiet: shared_object "\<lambda>s. ids_left (fst s)" "\<lambda>s. gone j (fst s)" "op_steps dv iter"
  "\<lambda>_. \<forall>ps. mset (iter ps) = mset ps" "\<lambda>_. unserved j" for j dv iter
  by unfold_locales (auto intro: quiet_op)

end
