(* ===== verification/Concurrency_Theorems.thy ===== *)
theory Concurrency_Theorems
  imports Core_Theorems Broker_Removed
begin

text \<open>
  The properties of the broker under concurrent use.  A pool holds one program for each operation that is under way; a
  schedule says which thread takes the next atomic step.
\<close>

section \<open>Pools\<close>

abbreviation pool :: "nat op list \<Rightarrow> (nat, nat \<Rightarrow> delivery_message list, nat op_result) bprog list" where
  "pool ops \<equiv> map (op_steps log_deliver (\<lambda>ps. ps)) ops"

lemmas step_simps = on_broker_def look_def change_def atomic_def call_deliver_def engine_insert_steps_def engine_remove_steps_def
  match_subject_steps_def registry_add_steps_def registry_remove_steps_def take_subscription_def remove_one_steps_def
  remove_all_for_connection_steps_def next_id_def subscribe_steps_def unsubscribe_steps_def retain_members_def
  cleanup_group_steps_def remove_connection_steps_def on_defs map_prod_def
lemmas publish_simps = deliver_steps_def deliver_to_subscriber_steps_def deliver_queue_group_steps_def
  classify_match_steps_def deliver_fanout_steps_def deliver_matches_steps_def publish_steps_def

text \<open>
  An operation that no other thread interrupts has the effect of the sequential definition: the steps are the
  operation, cut up.
\<close>

lemma operations_alone: "snd (run (op_steps dv iter x) (b, w)) = op_apply dv iter x (b, w)"
  by (rule run_op)

text \<open>
  C4: a subscription without a queue group that no thread removes gets every message.  Whatever operations run at the
  same time and however their steps interleave, a publish that has finished called the handle of the subscription once
  if its pattern matches and not at all otherwise; a batch called it for the matching items in order, up to the first
  one refused; and the subscription is still registered.  The identifiers must not run out on the way.
\<close>

theorem concurrent_publish_reaches:
  assumes "broker_inv b" and "get_ref b j = Some t" and "sub_queue_group t = None"
    and "list_all (leaves j t) ops" and "\<And>ps. mset (iter ps) = mset ps"
    and "throughout (\<lambda>s. ids_left (fst s)) ks ((b, w), map (op_steps dv iter) ops)"
    and "exec ks ((b, w), map (op_steps dv iter) ops) = ((b', w'), ps)"
    and "k < length ops" and "ps ! k = Ret (Published cs)"
  shows "get_ref b' j = Some t \<and>
    (if is_batch (ops ! k) then answers dv (op_wanted j t (ops ! k)) (calls_for j cs)
     else calls_for j cs = op_wanted j t (ops ! k))"
proof -
  note t = at_rest_in_place [OF assms(1-3)]
  have ops: "list_all (beside j t iter) ops" using assms(4,5) t(2,3) by (simp add: list_all_iff beside_def)
  have i: "in_place j t (fst (b, w))" using t(1) by simp
  have "served dv j t (ops ! k) (Published cs)"
    using broker_use.pool_result [OF ops i assms(6-9)] .
  moreover have "in_place j t b'" using broker_use.pool_keeps [OF ops i assms(6)] assms(7) by simp
  ultimately show ?thesis by (simp add: served_def in_place_def)
qed

text \<open>A publish while a second subscriber is added.\<close>

definition busy_ops :: "nat op list" where
  "busy_ops = [OpPublish (message_new subj_a [7]), OpSubscribe 2 pat_a None 1]"

definition busy_run :: "nat list" where
  "busy_run = [0, 1, 1, 0, 1, 0, 0, 0, 1, 0, 0, 1, 0, 0, 0, 0]"

definition sub_fan :: "nat subscription" where
  "sub_fan = subscription_new 1 1 pat_a None None 0"

lemma busy_run_ids: "throughout (\<lambda>s. ids_left (fst s)) busy_run ((bk_fan, \<lambda>_. []), pool busy_ops)"
  by (simp add: busy_run_def busy_ops_def bk_fan_def run_simps step_simps publish_simps exact_matches_def message_new_def
      subj_a_def ids_left_def log_deliver_def)

lemma busy_run_end:
  "snd (exec busy_run ((bk_fan, \<lambda>_. []), pool busy_ops)) =
     [Ret (Published [(0, make_delivery 1 1 (message_new subj_a [7])), (1, make_delivery 2 2 (message_new subj_a [7]))]), Ret (Subscribed 2)]"
  by (simp add: busy_run_def busy_ops_def bk_fan_def run_simps step_simps publish_simps exact_matches_def message_new_def
      subj_a_def log_deliver_def)

theorem concurrent_publish_reaches_witness:
  "\<exists>b' w' cs. exec busy_run ((bk_fan, \<lambda>_. []), pool busy_ops) = ((b', w'), [Ret (Published cs), Ret (Subscribed 2)]) \<and>
     get_ref b' 1 = Some sub_fan \<and> calls_for 1 cs = [(0, make_delivery 1 1 (message_new subj_a [7]))]"
proof -
  obtain b' w' where e: "exec busy_run ((bk_fan, \<lambda>_. []), pool busy_ops) =
      ((b', w'), [Ret (Published [(0, make_delivery 1 1 (message_new subj_a [7])), (1, make_delivery 2 2 (message_new subj_a [7]))]), Ret (Subscribed 2)])"
    using busy_run_end by (metis prod.collapse)
  have ref: "get_ref bk_fan 1 = Some sub_fan" by (simp add: bk_fan_def run_simps sub_fan_def)
  have q: "sub_queue_group sub_fan = None" by (simp add: sub_fan_def subscription_new_def)
  have l: "list_all (leaves 1 sub_fan) busy_ops" by (simp add: busy_ops_def message_new_def subj_a_wf)
  have m: "matches pat_a subj_a" by (simp add: matches_token_match pat_a_def subj_a_def)
  have w: "op_wanted 1 sub_fan (busy_ops ! 0) = [(0, make_delivery 1 1 (message_new subj_a [7]))]"
    using m by (simp add: busy_ops_def one_call_def sub_fan_def subscription_new_def message_new_def)
  have b: "\<not> is_batch (busy_ops ! 0)" "0 < length busy_ops" by (simp_all add: busy_ops_def)
  from concurrent_publish_reaches [OF bk_fan_inv ref q l _ busy_run_ids e b(2)] b(1) w e show ?thesis by auto
qed

text \<open>
  C12: a subscription that was removed is never served again.  When its identifier was given out and is not
  registered, none of the operations that start then, interleaved in any way with others that start then, calls a handle
  for it, and it does not come back.
\<close>

theorem removed_subscription_unserved:
  assumes "get_ref b j = None" and "unat j < unat (counter (sub_id_gen b))" and "\<And>ps. mset (iter ps) = mset ps"
    and "throughout (\<lambda>s. ids_left (fst s)) ks ((b, w), map (op_steps dv iter) ops)"
    and "exec ks ((b, w), map (op_steps dv iter) ops) = ((b', w'), ps)"
    and "k < length ops" and "ps ! k = Ret (Published cs)"
  shows "get_ref b' j = None \<and> calls_for j cs = []"
proof -
  have ops: "list_all (\<lambda>_. \<forall>ps. mset (iter ps) = mset ps) ops" using assms(3) by (simp add: list_all_iff)
  have i: "gone j (fst (b, w))" using assms(1,2) by (simp add: gone_def)
  have "unserved j (Published cs)" using broker_quiet.pool_result [OF ops i assms(4-7)] .
  moreover have "gone j b'" using broker_quiet.pool_keeps [OF ops i assms(4)] assms(5) by simp
  ultimately show ?thesis by (simp add: unserved_def gone_def)
qed

definition bk_left :: "nat broker" where "bk_left = unsubscribe 1 1 bk_fan"

lemmas left_simps = busy_run_def busy_ops_def bk_left_def bk_fan_def run_simps step_simps publish_simps exact_matches_def message_new_def
  subj_a_def log_deliver_def unsubscribe_def registry_remove_def engine_remove_def retain_not_def dec_subscriptions_def

theorem removed_subscription_unserved_witness:
  "\<exists>b' w'. exec busy_run ((bk_left, \<lambda>_. []), pool busy_ops) =
       ((b', w'), [Ret (Published [(1, make_delivery 2 2 (message_new subj_a [7]))]), Ret (Subscribed 2)]) \<and>
     get_ref b' 1 = None \<and> calls_for 1 [(1 :: nat, make_delivery 2 2 (message_new subj_a [7]))] = []"
proof -
  have "snd (exec busy_run ((bk_left, \<lambda>_. []), pool busy_ops)) =
      [Ret (Published [(1, make_delivery 2 2 (message_new subj_a [7]))]), Ret (Subscribed 2)]"
    by (simp add: left_simps)
  then obtain b' w' where e: "exec busy_run ((bk_left, \<lambda>_. []), pool busy_ops) =
      ((b', w'), [Ret (Published [(1, make_delivery 2 2 (message_new subj_a [7]))]), Ret (Subscribed 2)])"
    by (metis prod.collapse)
  have ids: "throughout (\<lambda>s. ids_left (fst s)) busy_run ((bk_left, \<lambda>_. []), pool busy_ops)"
    by (simp add: left_simps ids_left_def)
  have ref: "get_ref bk_left 1 = None" "unat (1 :: subscription_id) < unat (counter (sub_id_gen bk_left))"
    by (simp_all add: left_simps)
  have k: "0 < length busy_ops" by (simp add: busy_ops_def)
  from removed_subscription_unserved [OF ref _ ids e k] e show ?thesis by auto
qed

section \<open>Races\<close>

definition pat_gt :: subject_pattern where "pat_gt = \<lparr>p_raw = gt_str, p_tokens = [MultiWildcard]\<rparr>"

definition bk_wild :: "nat broker" where "bk_wild = snd (subscribe 1 pat_gt None 0 broker_new)"

definition flag_run :: "(nat broker \<times> (nat \<Rightarrow> delivery_message list)) \<times> (nat, nat \<Rightarrow> delivery_message list, nat op_result) bprog list" where
  "flag_run = exec [0, 0, 0, 1, 1, 1, 1, 1, 1, 0, 0, 0] ((bk_wild, \<lambda>_. []), pool [OpUnsubscribe 1 1, OpSubscribe 2 pat_gt None 0])"

lemma flag_run_end:
  "snd flag_run = [Ret Finished, Ret (Subscribed 2)]" "snd (fst flag_run) = (\<lambda>_. [])"
  "get_ref (fst (fst flag_run)) 2 = Some (subscription_new 2 2 pat_gt None None 0)"
  "exact (b_router (fst (fst flag_run))) = Map.empty" "\<not> has_wildcards (b_router (fst (fst flag_run)))"
  "trie_match_subject (wildcard_trie (b_router (fst (fst flag_run)))) subj_a = [2]"
  by (simp_all add: flag_run_def bk_wild_def pat_gt_def run_simps step_simps trie_insert_def trie_remove_def trie_is_empty_def
      trie_match_subject_def trie_new_def trie_node_default_def has_multi_def retain_not_def subj_a_def tok_a_def)

text \<open>
  C13: the flag \<open>has_wildcards\<close> can be lost.  One thread removes the only wildcard subscription, finds the trie empty and
  is interrupted; another subscribes to \<open>>\<close> and returns; then the first clears the flag.  Both have finished, the
  new subscription is registered and in the trie, and no publish reaches it: the flag is not conservative.
\<close>

theorem wildcard_flag_race:
  "\<exists>ks b'. exec ks ((bk_wild, \<lambda>_. []), pool [OpUnsubscribe 1 1, OpSubscribe 2 pat_gt None 0]) =
       ((b', \<lambda>_. []), [Ret Finished, Ret (Subscribed 2)]) \<and>
     get_ref b' 2 = Some (subscription_new 2 2 pat_gt None None 0) \<and> matches pat_gt subj_a \<and>
     trie_match_subject (wildcard_trie (b_router b')) subj_a = [2] \<and>
     (\<forall>m. snd (publish log_deliver m (b', \<lambda>_. [])) = (\<lambda>_. []))"
proof -
  let ?b = "fst (fst flag_run)"
  have "engine_match_subject (b_router ?b) s = []" for s using flag_run_end by (simp add: engine_match_subject_def exact_matches_def)
  then have "snd (publish log_deliver m (?b, \<lambda>_. [])) = (\<lambda>_. [])" for m by (simp add: publish_def deliver_matches_def)
  moreover have "flag_run = ((?b, \<lambda>_. []), [Ret Finished, Ret (Subscribed 2)])" using flag_run_end(1,2) by (metis prod.collapse)
  moreover have "matches pat_gt subj_a" by (simp add: matches_token_match pat_gt_def subj_a_def)
  ultimately show ?thesis using flag_run_end(3,6) unfolding flag_run_def by blast
qed

text \<open>Queue group \<open>b\<close> with one member.\<close>

definition bk_one :: "nat broker" where "bk_one = snd (subscribe 1 pat_a (Some tok_b) 0 broker_new)"

definition group_run :: "(nat broker \<times> (nat \<Rightarrow> delivery_message list)) \<times> (nat, nat \<Rightarrow> delivery_message list, nat op_result) bprog list" where
  "group_run = exec [0, 0, 0, 0, 1, 1, 1, 1, 1, 1, 1, 0, 0, 0, 0]
     ((bk_one, \<lambda>_. []), pool [OpRemoveConnection 1, OpSubscribe 2 pat_a (Some tok_b) 0])"

lemma group_run_end:
  "snd group_run = [Ret Finished, Ret (Subscribed 2)]" "snd (fst group_run) = (\<lambda>_. [])"
  "get_ref (fst (fst group_run)) 2 = Some (subscription_new 2 2 pat_a (Some tok_b) (Some (ArcKey 0 (tok_a, tok_b))) 0)"
  "exact (b_router (fst (fst group_run))) = [tok_a \<mapsto> [2]]" "\<not> has_wildcards (b_router (fst (fst group_run)))"
  "queue_groups (fst (fst group_run)) = Map.empty"
  by (simp_all add: group_run_def bk_one_def run_simps step_simps exact_matches_def retain_not_def)

text \<open>
  C14: a member of a queue group can be lost.  One thread removes the connection of the last member, finds the group
  empty and is interrupted after it let go of the entry; another connection joins the group and returns; then the first
  thread removes the entry.  Both have finished, the new member is registered, and no publish ever reaches it; once a
  third connection joins the group, it gets each message twice.
\<close>

theorem queue_group_race:
  "\<exists>ks b'. exec ks ((bk_one, \<lambda>_. []), pool [OpRemoveConnection 1, OpSubscribe 2 pat_a (Some tok_b) 0]) =
       ((b', \<lambda>_. []), [Ret Finished, Ret (Subscribed 2)]) \<and>
     get_ref b' 2 = Some (subscription_new 2 2 pat_a (Some tok_b) (Some (ArcKey 0 (tok_a, tok_b))) 0) \<and>
     matches pat_a subj_a \<and> (\<forall>m. snd (publish log_deliver m (b', \<lambda>_. [])) = (\<lambda>_. [])) \<and>
     map d_subscription_id (snd (publish log_deliver (message_new subj_a [7]) (snd (subscribe 3 pat_a (Some tok_b) 0 b'), \<lambda>_. [])) 0) = [3, 3]"
proof -
  let ?b = "fst (fst group_run)"
  have "engine_match_subject (b_router ?b) s = (if s_raw s = tok_a then [2] else [])" for s
    using group_run_end by (simp add: engine_match_subject_def exact_matches_def)
  then have "snd (publish log_deliver m (?b, \<lambda>_. [])) = (\<lambda>_. [])" for m
    using group_run_end(3,6) by (simp add: publish_def deliver_simps subscription_new_def)
  moreover have "group_run = ((?b, \<lambda>_. []), [Ret Finished, Ret (Subscribed 2)])" using group_run_end(1,2) by (metis prod.collapse)
  moreover have "matches pat_a subj_a" by (simp add: matches_token_match pat_a_def subj_a_def)
  moreover have "map d_subscription_id (snd (publish log_deliver (message_new subj_a [7]) (snd (subscribe 3 pat_a (Some tok_b) 0 ?b), \<lambda>_. [])) 0) = [3, 3]"
    by (simp add: group_run_def bk_one_def run_simps step_simps publish_def deliver_simps message_new_def engine_match_subject_def exact_matches_def subj_a_def retain_not_def)
  ultimately show ?thesis
    by (intro exI [of _ "[0, 0, 0, 0, 1, 1, 1, 1, 1, 1, 1, 0, 0, 0, 0]"] exI [of _ ?b])
      (simp only: group_run_def [symmetric] group_run_end(3), simp)
qed


text \<open>
  A publish that picks a member between its entry into the group and its registration loses the message: it is not handed
  to the other member, and it is counted neither as delivered nor as dropped.
\<close>

definition bk_turn :: "nat broker" where "bk_turn = fst (publish log_deliver (message_new subj_a [7]) (bk_one, \<lambda>_. []))"

lemma unregistered_member_loses_message:
  "snd (exec [0, 0, 0, 1, 1, 1, 1, 1, 1, 0, 0, 0, 0]
     ((bk_turn, \<lambda>_. []), pool [OpSubscribe 2 pat_a (Some tok_b) 0, OpPublish (message_new subj_a [8])])) =
     [Ret (Subscribed 2), Ret (Published [])]"
  by (simp add: bk_turn_def bk_one_def run_simps step_simps publish_simps publish_def deliver_simps message_new_def engine_match_subject_def
      exact_matches_def subj_a_def unat_word_ariths)

end
