(* ===== verification/Frames.thy ===== *)
theory Frames
  imports Rust_Str
begin

text \<open>
  The wire format (\<open>zetmq-protocol/src/error.rs\<close>, \<open>version.rs\<close>, \<open>frame/frame_type.rs\<close>,
  \<open>frame/header.rs\<close>, \<open>frame/frame.rs\<close>).  Decoders return an \<open>option\<close> of a result: \<open>None\<close> is a
  panic of the source (an index out of range, a \<open>Buf\<close> read past the end).
\<close>

section \<open>Errors\<close>

datatype protocol_error =
    InvalidMagic u16 u16
  | UnsupportedVersion u8
  | UnknownFrameType u8
  | FrameTooLarge nat nat
  | PayloadTooLarge nat nat
  | IncompleteFrame nat nat
  | InvalidHeaderLength nat
  | EncodingError str
  | DecodingError str

fun protocol_error_display :: "protocol_error \<Rightarrow> str" where
  "protocol_error_display (InvalidMagic e g) =
     lit ''invalid magic bytes: expected 0x'' @ hex4 0x41 (unat e) @ lit '', got 0x'' @ hex4 0x41 (unat g)"
| "protocol_error_display (UnsupportedVersion v) = lit ''unsupported protocol version: '' @ dec (unat v)"
| "protocol_error_display (UnknownFrameType t) = lit ''unknown frame type: '' @ dec (unat t)"
| "protocol_error_display (FrameTooLarge s l) = lit ''frame too large: '' @ dec s @ lit '' > '' @ dec l"
| "protocol_error_display (PayloadTooLarge s l) = lit ''payload too large: '' @ dec s @ lit '' > '' @ dec l"
| "protocol_error_display (IncompleteFrame n a) =
     lit ''incomplete frame: need '' @ dec n @ lit '' bytes, have '' @ dec a"
| "protocol_error_display (InvalidHeaderLength n) = lit ''invalid header length: '' @ dec n"
| "protocol_error_display (EncodingError m) = lit ''encoding error: '' @ m"
| "protocol_error_display (DecodingError m) = lit ''decoding error: '' @ m"

section \<open>Reads that can panic\<close>

text \<open>\<open>from_be_bytes\<close> on indexed bytes of a slice, and the \<open>get_*\<close> reads of \<open>Buf\<close>.\<close>

definition be_at :: "nat \<Rightarrow> bytes \<Rightarrow> nat \<Rightarrow> 'a::len word option" where
  "be_at n bs i = map_option from_be (sub_slice bs i (i + n))"

definition get_be :: "nat \<Rightarrow> bytes \<Rightarrow> ('a::len word \<times> bytes) option" where
  "get_be n bs = (if length bs < n then None else Some (from_be (take n bs), drop n bs))"

lemma be_at_Some [simp]: "i + n \<le> length bs \<Longrightarrow> be_at n bs i = Some (from_be (take n (drop i bs)))"
  by (simp add: be_at_def)

lemma be_at_None_iff [panic_simps]: "be_at n bs i = None \<longleftrightarrow> length bs < i + n"
  by (simp add: be_at_def panic_simps)

lemma get_be_Some [simp]: "n \<le> length bs \<Longrightarrow> get_be n bs = Some (from_be (take n bs), drop n bs)"
  by (simp add: get_be_def)

section \<open>Frame types\<close>

definition CURRENT_VERSION :: u8 where "CURRENT_VERSION = 1"

definition is_supported :: "u8 \<Rightarrow> bool" where "is_supported v \<longleftrightarrow> v = CURRENT_VERSION"

datatype frame_type =
    Connect | Connack | Ping | Pong | Drain | Drainack | Pub | Msg | Sub | Suback | Unsub | Unsuback
  | CreateStream | StreamInfo | DeleteStream | Ack | Nack | Error

fun as_u8 :: "frame_type \<Rightarrow> u8" where
  "as_u8 Connect = 0x01" | "as_u8 Connack = 0x02" | "as_u8 Ping = 0x10" | "as_u8 Pong = 0x11"
| "as_u8 Drain = 0x40" | "as_u8 Drainack = 0x41" | "as_u8 Pub = 0x20" | "as_u8 Msg = 0x21"
| "as_u8 Sub = 0x30" | "as_u8 Suback = 0x31" | "as_u8 Unsub = 0x32" | "as_u8 Unsuback = 0x33"
| "as_u8 CreateStream = 0x60" | "as_u8 StreamInfo = 0x61" | "as_u8 DeleteStream = 0x62"
| "as_u8 Ack = 0x50" | "as_u8 Nack = 0x51" | "as_u8 Error = 0xE0"

definition from_u8 :: "u8 \<Rightarrow> protocol_error + frame_type" where
  "from_u8 v =
     (if v = 0x01 then Inr Connect else if v = 0x02 then Inr Connack
      else if v = 0x10 then Inr Ping else if v = 0x11 then Inr Pong
      else if v = 0x40 then Inr Drain else if v = 0x41 then Inr Drainack
      else if v = 0x20 then Inr Pub else if v = 0x21 then Inr Msg
      else if v = 0x30 then Inr Sub else if v = 0x31 then Inr Suback
      else if v = 0x32 then Inr Unsub else if v = 0x33 then Inr Unsuback
      else if v = 0x60 then Inr CreateStream else if v = 0x61 then Inr StreamInfo
      else if v = 0x62 then Inr DeleteStream
      else if v = 0x50 then Inr Ack else if v = 0x51 then Inr Nack
      else if v = 0xE0 then Inr Error
      else Inl (UnknownFrameType v))"

lemma from_u8_as_u8 [simp]: "from_u8 (as_u8 t) = Inr t"
  by (cases t) (simp_all add: from_u8_def)

lemma from_u8_Inr: "from_u8 v = Inr t \<Longrightarrow> v = as_u8 t"
  by (simp add: from_u8_def split: if_splits)

lemma from_u8_Inl: "from_u8 v = Inl e \<Longrightarrow> e = UnknownFrameType v \<and> v \<notin> range as_u8"
  using from_u8_as_u8 by (fastforce simp: from_u8_def split: if_splits)

section \<open>Header\<close>

definition ZETMQ_MAGIC :: u16 where "ZETMQ_MAGIC = 0x5A4D"
definition FRAME_HEADER_SIZE :: nat where "FRAME_HEADER_SIZE = 22"

record frame_header =
  magic :: u16
  version :: u8
  h_frame_type :: u8
  flags :: u16
  correlation_id :: u64
  header_len :: u32
  payload_len :: u32

definition frame_header_new :: "u8 \<Rightarrow> u64 \<Rightarrow> frame_header" where
  "frame_header_new ft cid = \<lparr>magic = ZETMQ_MAGIC, version = CURRENT_VERSION, h_frame_type = ft,
     flags = 0, correlation_id = cid, header_len = 0, payload_len = 0\<rparr>"

definition with_payload_size :: "u32 \<Rightarrow> u32 \<Rightarrow> frame_header \<Rightarrow> frame_header" where
  "with_payload_size hl pl h = h\<lparr>header_len := hl, payload_len := pl\<rparr>"

definition total_frame_size :: "frame_header \<Rightarrow> nat" where
  "total_frame_size h = FRAME_HEADER_SIZE + unat (header_len h) + unat (payload_len h)"

definition header_encode :: "frame_header \<Rightarrow> bytes" where
  "header_encode h = u16_bytes (magic h) @ [version h] @ [h_frame_type h] @ u16_bytes (flags h)
     @ u64_bytes (correlation_id h) @ u32_bytes (header_len h) @ u32_bytes (payload_len h)"

definition header_decode :: "bytes \<Rightarrow> (protocol_error + frame_header \<times> bytes) option" where
  "header_decode buf =
     (if length buf < FRAME_HEADER_SIZE then Some (Inl (IncompleteFrame FRAME_HEADER_SIZE (length buf)))
      else do {
        (mg, buf) \<leftarrow> get_be 2 buf;
        if mg \<noteq> ZETMQ_MAGIC then Some (Inl (InvalidMagic ZETMQ_MAGIC mg))
        else do {
          (v, buf) \<leftarrow> get_be 1 buf;
          if v \<noteq> CURRENT_VERSION then Some (Inl (UnsupportedVersion v))
          else do {
            (ft, buf) \<leftarrow> get_be 1 buf;
            (fl, buf) \<leftarrow> get_be 2 buf;
            (cid, buf) \<leftarrow> get_be 8 buf;
            (hl, buf) \<leftarrow> get_be 4 buf;
            (pl, buf) \<leftarrow> get_be 4 buf;
            Some (Inr (\<lparr>magic = mg, version = v, h_frame_type = ft, flags = fl, correlation_id = cid,
                        header_len = hl, payload_len = pl\<rparr>, buf))
          }
        }
      })"

lemma length_header_encode [simp]: "length (header_encode h) = FRAME_HEADER_SIZE"
  by (simp add: header_encode_def FRAME_HEADER_SIZE_def)

lemma from_be_singleton [simp]: "from_be [b] = (ucast b :: 'a::len word)"
  by (simp add: from_be_def)

lemma header_decode_encode:
  assumes "magic h = ZETMQ_MAGIC" and "version h = CURRENT_VERSION"
  shows "header_decode (header_encode h @ rest) = Some (Inr (h, rest))"
  using assms by (cases h) (simp add: header_decode_def header_encode_def FRAME_HEADER_SIZE_def)

lemma header_decode_total: "header_decode buf \<noteq> None"
  by (simp add: header_decode_def FRAME_HEADER_SIZE_def)

section \<open>Frames\<close>

record frame =
  f_header :: frame_header
  f_headers :: bytes
  f_payload :: bytes

definition frame_new :: "frame_type \<Rightarrow> u64 \<Rightarrow> frame" where
  "frame_new ft cid = \<lparr>f_header = frame_header_new (as_u8 ft) cid, f_headers = [], f_payload = []\<rparr>"

text \<open>\<open>payload.len() as u32\<close> truncates.\<close>

definition with_payload :: "bytes \<Rightarrow> frame \<Rightarrow> frame" where
  "with_payload p f = f\<lparr>f_header := (f_header f)\<lparr>payload_len := of_nat (length p)\<rparr>, f_payload := p\<rparr>"

definition with_headers :: "bytes \<Rightarrow> frame \<Rightarrow> frame" where
  "with_headers hs f = f\<lparr>f_header := (f_header f)\<lparr>header_len := of_nat (length hs)\<rparr>, f_headers := hs\<rparr>"

definition frame_type_of :: "frame \<Rightarrow> protocol_error + frame_type" where
  "frame_type_of f = from_u8 (h_frame_type (f_header f))"

definition encode_into :: "frame \<Rightarrow> bytes \<Rightarrow> bytes" where
  "encode_into f buf = buf @ header_encode (f_header f) @ f_headers f @ f_payload f"

definition frame_encode :: "frame \<Rightarrow> bytes" where
  "frame_encode f = encode_into f []"

text \<open>The result of \<open>decode_from\<close> with the buffer it leaves behind.\<close>

definition decode_from :: "nat \<Rightarrow> bytes \<Rightarrow> ((protocol_error + frame option) \<times> bytes) option" where
  "decode_from max_frame_size buf =
     (if length buf < FRAME_HEADER_SIZE then Some (Inr None, buf)
      else do {
        hl \<leftarrow> be_at 4 buf 14;
        pl \<leftarrow> be_at 4 buf 18;
        let header_len = unat (hl :: u32);
        let payload_len = unat (pl :: u32);
        let total = FRAME_HEADER_SIZE + header_len + payload_len;
        if total > max_frame_size then Some (Inl (FrameTooLarge total max_frame_size), buf)
        else if length buf < total then Some (Inr None, buf)
        else do {
          frame_bytes \<leftarrow> sub_slice buf 0 total;
          let buf = drop total buf;
          header_buf \<leftarrow> sub_slice frame_bytes 0 FRAME_HEADER_SIZE;
          r \<leftarrow> header_decode header_buf;
          case r of
            Inl e \<Rightarrow> Some (Inl e, buf)
          | Inr (h, _) \<Rightarrow> do {
              hs \<leftarrow> (if header_len > 0 then sub_slice frame_bytes FRAME_HEADER_SIZE (FRAME_HEADER_SIZE + header_len)
                     else Some []);
              p \<leftarrow> (if payload_len > 0 then sub_slice frame_bytes (FRAME_HEADER_SIZE + header_len) total
                    else Some []);
              Some (Inr (Some \<lparr>f_header = h, f_headers = hs, f_payload = p\<rparr>), buf)
            }
        }
      })"

section \<open>Round trip and consumption\<close>

definition header_ok :: "frame_header \<Rightarrow> bool" where
  "header_ok h \<longleftrightarrow> magic h = ZETMQ_MAGIC \<and> version h = CURRENT_VERSION"

text \<open>Frames whose header fields describe their sections, and that fit the size limit.\<close>

definition frame_wf :: "nat \<Rightarrow> frame \<Rightarrow> bool" where
  "frame_wf max_frame_size f \<longleftrightarrow> header_ok (f_header f) \<and>
     unat (header_len (f_header f)) = length (f_headers f) \<and>
     unat (payload_len (f_header f)) = length (f_payload f) \<and>
     total_frame_size (f_header f) \<le> max_frame_size"

lemma frame_encode_eq: "frame_encode f = header_encode (f_header f) @ f_headers f @ f_payload f"
  by (simp add: frame_encode_def encode_into_def)

lemma length_frame_encode:
  "frame_wf k f \<Longrightarrow> length (frame_encode f) = total_frame_size (f_header f)"
  by (simp add: frame_encode_eq frame_wf_def total_frame_size_def)

lemma header_encode_lens:
  "take 4 (drop 14 (header_encode h @ rest)) = u32_bytes (header_len h)"
  "take 4 (drop 18 (header_encode h @ rest)) = u32_bytes (payload_len h)"
  by (simp_all add: header_encode_def)

lemma decode_from_encode:
  assumes wf: "frame_wf k f"
  shows "decode_from k (frame_encode f @ rest) = Some (Inr (Some f), rest)"
proof -
  let ?h = "f_header f"
  let ?buf = "header_encode ?h @ f_headers f @ f_payload f @ rest"
  have lens: "be_at 4 ?buf 14 = Some (header_len ?h)" "be_at 4 ?buf 18 = Some (payload_len ?h)"
    using header_encode_lens [of ?h "f_headers f @ f_payload f @ rest"]
    by (simp_all add: FRAME_HEADER_SIZE_def)
  have dec: "header_decode (header_encode ?h) = Some (Inr (?h, []))"
    using header_decode_encode [of ?h "[]"] wf by (simp add: frame_wf_def header_ok_def)
  have L: "unat (header_len ?h) = length (f_headers f)" "unat (payload_len ?h) = length (f_payload f)"
    "FRAME_HEADER_SIZE + length (f_headers f) + length (f_payload f) \<le> k"
    using wf by (simp_all add: frame_wf_def total_frame_size_def)
  show ?thesis
    using dec L by (auto simp: frame_encode_eq decode_from_def lens Let_def)
qed

lemma to_be_from_be_at:
  "n + k \<le> length b \<Longrightarrow> 8 * n \<le> LENGTH('a) \<Longrightarrow>
     to_be n (from_be (take n (drop k b)) :: 'a::len word) = take n (drop k b)"
  using to_be_from_be [of "take n (drop k b)", where 'a = 'a] by simp

lemma header_decode_inverse:
  assumes "header_decode b = Some (Inr (h, rest))"
  shows "b = header_encode h @ rest \<and> header_ok h"
proof -
  have len: "\<not> length b < FRAME_HEADER_SIZE" using assms by (auto simp: header_decode_def)
  let ?f = "\<lambda>n k. take n (drop k b)"
  have four: "(4::nat) = Suc (Suc (Suc (Suc 0)))" "(6::nat) = Suc (Suc (Suc (Suc (Suc (Suc 0)))))" by simp_all
  have h: "h = \<lparr>magic = from_be (?f 2 0), version = from_be (?f 1 2), h_frame_type = from_be (?f 1 3),
      flags = from_be (?f 2 4), correlation_id = from_be (?f 8 6), header_len = from_be (?f 4 14),
      payload_len = from_be (?f 4 18)\<rparr>" and rest: "rest = drop 22 b"
    and ok: "header_ok h"
    using assms len
    by (auto simp: header_decode_def header_ok_def FRAME_HEADER_SIZE_def numeral_3_eq_3 four split: if_splits)
  have one: "[ (from_be (?f 1 k) :: u8) ] = ?f 1 k" if "k < length b" for k
    using that by (simp add: take_Suc_conv_app_nth from_be_def)
  have cut: "drop k b = ?f n k @ drop (n + k) b" for n k
    using append_take_drop_id [of n "drop k b"] by (simp only: drop_drop)
  have "b = drop 0 b" by simp
  also have "\<dots> = ?f 2 0 @ ?f 1 2 @ ?f 1 3 @ ?f 2 4 @ ?f 8 6 @ ?f 4 14 @ ?f 4 18 @ drop 22 b"
    by (subst cut [of 0 2], simp only: add_0_right, subst cut [of 2 1], subst cut [of "1 + 2" 1],
        subst cut [of "1 + (1 + 2)" 2], subst cut [of "2 + (1 + (1 + 2))" 8],
        subst cut [of "8 + (2 + (1 + (1 + 2)))" 4], subst cut [of "4 + (8 + (2 + (1 + (1 + 2))))" 4])
      (simp add: numeral_3_eq_3 four)
  finally have "b = ?f 2 0 @ ?f 1 2 @ ?f 1 3 @ ?f 2 4 @ ?f 8 6 @ ?f 4 14 @ ?f 4 18 @ drop 22 b" .
  moreover have "u16_bytes (magic h) = ?f 2 0" "[version h] = ?f 1 2" "[h_frame_type h] = ?f 1 3"
    "u16_bytes (flags h) = ?f 2 4" "u64_bytes (correlation_id h) = ?f 8 6"
    "u32_bytes (header_len h) = ?f 4 14" "u32_bytes (payload_len h) = ?f 4 18"
    using len to_be_from_be_at [of 2 0 b, where 'a = 16] to_be_from_be_at [of 2 4 b, where 'a = 16] to_be_from_be_at [of 8 6 b, where 'a = 64]
      to_be_from_be_at [of 4 14 b, where 'a = 32] to_be_from_be_at [of 4 18 b, where 'a = 32] one [of 2] one [of 3]
    by (simp_all add: h FRAME_HEADER_SIZE_def)
  ultimately show ?thesis using ok rest by (simp only: header_encode_def append_assoc simp_thms)
qed

text \<open>What a call of \<open>decode_from\<close> can return, and the bytes it takes.\<close>

text \<open>A buffer with a header that decodes, and as many bytes behind it as it says.\<close>

lemma decode_from_full:
  assumes len: "FRAME_HEADER_SIZE \<le> length buf" and lens: "be_at 4 buf 14 = Some (hl :: u32)" "be_at 4 buf 18 = Some (pl :: u32)"
    and t: "FRAME_HEADER_SIZE + unat hl + unat pl \<le> k" "FRAME_HEADER_SIZE + unat hl + unat pl \<le> length buf"
    and dec: "header_decode (take FRAME_HEADER_SIZE buf) = Some (Inr (h, rest))"
  obtains f where "decode_from k buf = Some (Inr (Some f), drop (total_frame_size (f_header f)) buf)"
    and "buf = frame_encode f @ drop (total_frame_size (f_header f)) buf" and "frame_wf k f"
proof -
  let ?hb = "take FRAME_HEADER_SIZE buf" and ?t = "FRAME_HEADER_SIZE + unat hl + unat pl"
  from header_decode_inverse [OF dec] have enc: "?hb = header_encode h @ rest" and ok: "header_ok h" by simp_all
  have "length ?hb = FRAME_HEADER_SIZE" using len by simp
  with enc have hb: "?hb = header_encode h"
    by (metis append.right_neutral append_eq_append_conv length_append length_header_encode)
  have "take 4 (drop 14 ?hb) = take 4 (drop 14 buf)" "take 4 (drop 18 ?hb) = take 4 (drop 18 buf)"
    by (simp_all add: drop_take FRAME_HEADER_SIZE_def min_def)
  moreover have "hl = from_be (take 4 (drop 14 buf))" "pl = from_be (take 4 (drop 18 buf))"
    using lens len by (simp_all add: FRAME_HEADER_SIZE_def)
  ultimately have L: "header_len h = hl" "payload_len h = pl"
    using header_encode_lens [of h "[]"] by (simp_all add: hb flip: from_be_u32)
  let ?f = "\<lparr>f_header = h, f_headers = take (unat hl) (drop FRAME_HEADER_SIZE buf),
      f_payload = take (unat pl) (drop (FRAME_HEADER_SIZE + unat hl) buf)\<rparr>"
  have total: "total_frame_size h = ?t" by (simp add: total_frame_size_def L)
  have "buf = ?hb @ drop FRAME_HEADER_SIZE buf" by simp
  then have "buf = frame_encode ?f @ drop ?t buf"
    unfolding frame_encode_eq hb
    by (simp add: add.assoc [symmetric]) (metis append_take_drop_id drop_drop add.commute)
  moreover have "frame_wf k ?f" using ok t by (simp add: frame_wf_def total L)
  moreover have "decode_from k buf = Some (Inr (Some ?f), drop ?t buf)"
    using len t dec by (auto simp: decode_from_def lens Let_def drop_take min_def)
  ultimately show thesis using total by (intro that [of ?f]) simp_all
qed

lemma decode_from_cases:
  obtains (short) "decode_from k buf = Some (Inr None, buf)"
    | (big) n where "decode_from k buf = Some (Inl (FrameTooLarge n k), buf)" "n > k"
    | (bad) e n where "decode_from k buf = Some (Inl e, drop n buf)" "FRAME_HEADER_SIZE \<le> n" "n \<le> length buf" "n \<le> k"
    | (frame) f where "decode_from k buf = Some (Inr (Some f), drop (total_frame_size (f_header f)) buf)"
        "buf = frame_encode f @ drop (total_frame_size (f_header f)) buf" "frame_wf k f"
proof (cases "length buf < FRAME_HEADER_SIZE")
  case True
  then show ?thesis by (intro short) (simp add: decode_from_def)
next
  case False
  define hl pl where "hl = (from_be (take 4 (drop 14 buf)) :: u32)" and "pl = (from_be (take 4 (drop 18 buf)) :: u32)"
  have lens: "be_at 4 buf 14 = Some hl" "be_at 4 buf 18 = Some pl"
    using False by (simp_all add: hl_def pl_def FRAME_HEADER_SIZE_def)
  let ?t = "FRAME_HEADER_SIZE + unat hl + unat pl" and ?hb = "take FRAME_HEADER_SIZE buf"
  have hb: "take FRAME_HEADER_SIZE (take ?t buf) = ?hb" by (simp add: min_def)
  obtain r where r: "header_decode ?hb = Some r" using header_decode_total [of ?hb] by auto
  consider "?t > k" | "?t \<le> k" "length buf < ?t" | "?t \<le> k" "?t \<le> length buf" by linarith
  then show ?thesis
  proof cases
    case 1
    then show ?thesis using False by (intro big [of ?t]) (simp_all add: decode_from_def lens Let_def)
  next
    case 2
    then show ?thesis using False by (intro short) (simp add: decode_from_def lens Let_def)
  next
    case 3
    show ?thesis
    proof (cases r)
      case (Inl e)
      then show ?thesis using False 3 r hb by (intro bad [of e ?t]) (simp_all add: decode_from_def lens Let_def)
    next
      case (Inr x)
      obtain h rest where "x = (h, rest)" by fastforce
      with Inr r have "header_decode ?hb = Some (Inr (h, rest))" by simp
      from decode_from_full [OF _ lens 3 this] False show ?thesis by (metis frame not_less)
    qed
  qed
qed

lemma decode_from_total: "decode_from k buf \<noteq> None"
  by (cases rule: decode_from_cases [of k buf]) simp_all

lemma decode_from_less: "decode_from k buf = Some (Inr (Some f), rest) \<Longrightarrow> length rest < length buf"
proof (cases rule: decode_from_cases [of k buf])
  case (frame g)
  assume "decode_from k buf = Some (Inr (Some f), rest)"
  with frame have "length buf = length (frame_encode g) + length rest" by (metis length_append option.inject prod.inject)
  moreover have "length (frame_encode g) > 0" using frame(3) by (simp add: length_frame_encode total_frame_size_def FRAME_HEADER_SIZE_def)
  ultimately show ?thesis by simp
qed simp_all

section \<open>Streams\<close>

text \<open>
  A reference loop around \<open>decode_from\<close>, to say what reading in chunks means: it takes frames off its buffer until one is
  incomplete, and an error clears the buffer.  The loops of the program are \<open>process_frames\<close> of the server (which also
  has a fast path for PUB) and \<open>read_frames\<close> of the client.  The loop shortens the buffer with each frame, so it terminates.
\<close>

function drain :: "nat \<Rightarrow> bytes \<Rightarrow> frame list \<times> bytes" where
  "drain k buf =
     (case decode_from k buf of
        Some (Inr (Some f), rest) \<Rightarrow> (let (fs, b) = drain k rest in (f # fs, b))
      | Some (Inr None, rest) \<Rightarrow> ([], rest)
      | Some (Inl e, _) \<Rightarrow> ([], [])
      | None \<Rightarrow> ([], []))"
  by pat_completeness auto
termination by (relation "measure (\<lambda>(k, buf). length buf)") (auto simp: decode_from_less)

declare drain.simps [simp del]

definition feed :: "nat \<Rightarrow> bytes \<Rightarrow> frame list \<times> bytes \<Rightarrow> frame list \<times> bytes" where
  "feed k chunk = (\<lambda>(fs, buf). let (gs, b) = drain k (buf @ chunk) in (fs @ gs, b))"

abbreviation wire :: "frame list \<Rightarrow> bytes" where
  "wire fs \<equiv> concat (map frame_encode fs)"

lemma decode_from_incomplete:
  assumes wf: "frame_wf k f" and p: "frame_encode f = p @ q" and q: "q \<noteq> []"
  shows "decode_from k p = Some (Inr None, p)"
proof (cases "length p < FRAME_HEADER_SIZE")
  case True
  then show ?thesis by (simp add: decode_from_def)
next
  case False
  let ?h = "f_header f"
  have "take FRAME_HEADER_SIZE p = header_encode ?h"
    using p False by (metis append_eq_conv_conj frame_encode_eq length_header_encode not_less take_append take_all_iff
        diff_is_0_eq' append.right_neutral take0)
  then have p2: "p = header_encode ?h @ drop FRAME_HEADER_SIZE p" by (metis append_take_drop_id)
  have "be_at 4 p 14 = Some (header_len ?h)" "be_at 4 p 18 = Some (payload_len ?h)"
    using header_encode_lens [of ?h "drop FRAME_HEADER_SIZE p", folded p2] False
    by (simp_all add: FRAME_HEADER_SIZE_def)
  moreover have "length p < total_frame_size ?h"
    using length_frame_encode [OF wf] arg_cong [OF p, of length] q by (cases q) simp_all
  moreover have "total_frame_size ?h \<le> k" using wf by (simp add: frame_wf_def)
  ultimately show ?thesis using False by (simp add: decode_from_def Let_def total_frame_size_def)
qed

lemma drain_empty [simp]: "drain k [] = ([], [])"
  by (subst drain.simps) (simp add: decode_from_def FRAME_HEADER_SIZE_def)

lemma drain_frame: "frame_wf k f \<Longrightarrow> drain k (frame_encode f @ rest) = (let (fs, b) = drain k rest in (f # fs, b))"
  by (subst drain.simps) (simp add: decode_from_encode)

lemma drain_prefix:
  assumes "list_all (frame_wf k) fs" and "wire fs = q @ r"
  shows "\<exists>m p. drain k q = (take m fs, p) \<and> q = wire (take m fs) @ p"
  using assms
proof (induction fs arbitrary: q)
  case (Cons f fs)
  have wf: "frame_wf k f" using Cons.prems(1) by simp
  show ?case
  proof (cases "length (frame_encode f) \<le> length q")
    case True
    then obtain q' where q: "q = frame_encode f @ q'" and "wire fs = q' @ r"
      using Cons.prems(2) by (metis append_eq_append_conv_if append_take_drop_id concat.simps(2) list.simps(9) append_eq_conv_conj)
    with Cons.IH [of q'] Cons.prems(1) obtain m p where "drain k q' = (take m fs, p)" "q' = wire (take m fs) @ p" by auto
    then show ?thesis using q drain_frame [OF wf, of q'] by (intro exI [of _ "Suc m"] exI [of _ p]) simp
  next
    case False
    then obtain q' where "frame_encode f = q @ q'" "q' \<noteq> []"
      using Cons.prems(2) by (auto simp: append_eq_append_conv2)
    from decode_from_incomplete [OF wf this] have "drain k q = ([], q)" by (subst drain.simps) simp
    then show ?thesis by (intro exI [of _ 0] exI [of _ q]) simp
  qed
qed simp

lemma drain_rest: "drain k q = (fs, p) \<Longrightarrow> drain k p = ([], p)"
proof (induction k q arbitrary: fs rule: drain.induct)
  case (1 k buf)
  show ?case
  proof (cases rule: decode_from_cases [of k buf])
    case short
    then have d: "drain k buf = ([], buf)" by (subst drain.simps) simp
    with "1.prems" have "p = buf" by simp
    with d show ?thesis by simp
  next
    case (frame f)
    let ?rest = "drop (total_frame_size (f_header f)) buf"
    obtain gs b where g: "drain k ?rest = (gs, b)" by fastforce
    then have "drain k buf = (f # gs, b)" by (subst drain.simps) (simp add: frame(1))
    then have "p = b" using "1.prems" by simp
    with "1.IH" [OF frame(1) refl refl refl, of gs] g show ?thesis by simp
  next
    case (big n)
    then have "drain k buf = ([], [])" by (subst drain.simps) simp
    with "1.prems" show ?thesis by simp
  next
    case (bad e n)
    then have "drain k buf = ([], [])" by (subst drain.simps) simp
    with "1.prems" show ?thesis by simp
  qed
qed

lemma feed_chunks:
  assumes wf: "list_all (frame_wf k) fs" and w: "wire fs = wire (take n fs) @ p @ concat cs"
    and inc: "drain k p = ([], p)"
  shows "fold (feed k) cs (take n fs, p) = (fs, [])"
  using w inc
proof (induction cs arbitrary: n p)
  case Nil
  have "wire fs = wire (take n fs) @ wire (drop n fs)" by (metis append_take_drop_id concat_append map_append)
  with Nil.prems(1) have p: "wire (drop n fs) = p" by simp
  have "drop n fs = []"
  proof (cases "drop n fs")
    case (Cons f gs)
    then have "f \<in> set fs" by (metis in_set_dropD list.set_intros(1))
    then have "frame_wf k f" using wf by (auto simp: list_all_iff)
    then have "fst (drain k p) \<noteq> []" using p Cons drain_frame [of k f "wire gs"] by (auto split: prod.splits)
    with Nil.prems(2) show ?thesis by simp
  qed
  with p show ?case by simp
next
  case (Cons c cs)
  have "wire fs = wire (take n fs) @ wire (drop n fs)" by (metis append_take_drop_id concat_append map_append)
  with Cons.prems(1) have d: "wire (drop n fs) = (p @ c) @ concat cs" by simp
  have "list_all (frame_wf k) (drop n fs)" using wf by (auto simp: list_all_iff dest: in_set_dropD)
  from drain_prefix [OF this d] obtain m p' where
    dr: "drain k (p @ c) = (take m (drop n fs), p')" and pc: "p @ c = wire (take m (drop n fs)) @ p'" by blast
  have take: "take n fs @ take m (drop n fs) = take (n + m) fs" by (simp add: take_add)
  have "wire fs = wire (take (n + m) fs) @ p' @ concat cs"
    using Cons.prems(1) pc by (simp flip: take)
  moreover have "drain k p' = ([], p')" by (rule drain_rest [OF dr])
  ultimately show ?case using Cons.IH [of "n + m" p'] dr take by (simp add: feed_def)
qed

end
