(* ===== verification/Headers.thy ===== *)
theory Headers
  imports Frames Delivery
begin

text \<open>
  The header section of a frame (\<open>zetmq-protocol/src/headers.rs\<close>).  A \<open>HashMap\<close> is an
  enumeration of its entries with distinct keys (type \<open>header_map\<close> of \<open>Delivery\<close>); \<open>encode_headers\<close> writes
  them in the order of the enumeration, and \<open>insert\<close> replaces the value of a key it has.  The order in which a real
  \<open>HashMap\<close> iterates is thus part of the argument: every statement about \<open>encode_headers\<close> is for all enumerations.
\<close>

fun hm_insert :: "str \<Rightarrow> str \<Rightarrow> header_map \<Rightarrow> header_map" where
  "hm_insert k v [] = [(k, v)]"
| "hm_insert k v ((k', v') # m) = (if k' = k then (k', v) # m else (k', v') # hm_insert k v m)"

lemma map_of_hm_insert: "map_of (hm_insert k v m) = (map_of m)(k \<mapsto> v)"
  by (induction k v m rule: hm_insert.induct) (auto simp: fun_eq_iff)

lemma keys_hm_insert: "fst ` set (hm_insert k v m) = insert k (fst ` set m)"
  by (induction k v m rule: hm_insert.induct) auto

lemma distinct_hm_insert: "distinct (map fst m) \<Longrightarrow> distinct (map fst (hm_insert k v m))"
  by (induction k v m rule: hm_insert.induct) (auto simp: keys_hm_insert)

lemma hm_insert_fresh: "k \<notin> fst ` set m \<Longrightarrow> hm_insert k v m = m @ [(k, v)]"
  by (induction k v m rule: hm_insert.induct) auto

section \<open>Encoding\<close>

definition encode_entry :: "str \<times> str \<Rightarrow> bytes" where
  "encode_entry = (\<lambda>(key, val). u16_bytes (of_nat (length key)) @ key @ u16_bytes (of_nat (length val)) @ val)"

definition encode_headers :: "header_map \<Rightarrow> bytes" where
  "encode_headers hs = u16_bytes (of_nat (length hs)) @ concat (map encode_entry hs)"

definition encoded_headers_len :: "header_map \<Rightarrow> nat" where
  "encoded_headers_len hs = foldl (\<lambda>len (key, val). len + (2 + length key + 2 + length val)) 2 hs"

section \<open>Decoding\<close>

primrec decode_entries :: "nat \<Rightarrow> bytes \<Rightarrow> header_map \<Rightarrow> (protocol_error + header_map) option" where
  "decode_entries 0 buf hs = Some (Inr hs)"
| "decode_entries (Suc n) buf hs =
     (if length buf < 2 then Some (Inl (DecodingError (lit ''header key length truncated'')))
      else do {
        (kl, buf) \<leftarrow> get_be 2 buf;
        let key_len = unat (kl :: u16);
        if length buf < key_len then Some (Inl (DecodingError (lit ''header key data truncated'')))
        else do {
          kb \<leftarrow> sub_slice buf 0 key_len;
          let key = from_utf8_lossy kb;
          let buf = drop key_len buf;
          if length buf < 2 then Some (Inl (DecodingError (lit ''header value length truncated'')))
          else do {
            (vl, buf) \<leftarrow> get_be 2 buf;
            let val_len = unat (vl :: u16);
            if length buf < val_len then Some (Inl (DecodingError (lit ''header value data truncated'')))
            else do {
              vb \<leftarrow> sub_slice buf 0 val_len;
              let val = from_utf8_lossy vb;
              decode_entries n (drop val_len buf) (hm_insert key val hs)
            }
          }
        }
      })"

definition decode_headers :: "bytes \<Rightarrow> (protocol_error + header_map) option" where
  "decode_headers data =
     (if length data < 2 then Some (Inr [])
      else do {
        (n, buf) \<leftarrow> get_be 2 data;
        decode_entries (unat (n :: u16)) buf []
      })"

section \<open>Properties\<close>

lemma length_encode_entry: "length (encode_entry (k, v)) = 2 + length k + 2 + length v"
  by (simp add: encode_entry_def)

lemma encoded_headers_len_eq: "encoded_headers_len hs = length (encode_headers hs)"
proof -
  have "foldl (\<lambda>len (key, val). len + (2 + length key + 2 + length val)) n hs =
      n + length (concat (map encode_entry hs))" for n
    by (induction hs arbitrary: n) (auto simp: length_encode_entry)
  then show ?thesis by (simp add: encoded_headers_len_def encode_headers_def)
qed

lemma decode_entries_total: "decode_entries n buf hs \<noteq> None"
  by (induction n arbitrary: buf hs) (simp_all add: Let_def)

lemma decode_headers_total: "decode_headers data \<noteq> None"
  using decode_entries_total by (auto simp: decode_headers_def)

lemma decode_entries_keys:
  "decode_entries n buf hs = Some (Inr m) \<Longrightarrow> distinct (map fst hs) \<Longrightarrow> distinct (map fst m)"
  by (induction n arbitrary: buf hs) (auto simp: Let_def distinct_hm_insert split: if_splits)

definition headers_ok :: "header_map \<Rightarrow> bool" where
  "headers_ok hs \<longleftrightarrow> distinct (map fst hs) \<and> length hs < 2 ^ 16 \<and>
     (\<forall>(k, v) \<in> set hs. valid_utf8 k \<and> valid_utf8 v \<and> length k < 2 ^ 16 \<and> length v < 2 ^ 16)"

lemma unat_of_nat_u16: "n < 2 ^ 16 \<Longrightarrow> unat (of_nat n :: u16) = n"
  by (simp add: unat_of_nat)

lemma decode_entries_encode:
  assumes "\<forall>(k, v) \<in> set es. valid_utf8 k \<and> valid_utf8 v \<and> length k < 2 ^ 16 \<and> length v < 2 ^ 16"
    and "distinct (map fst (hs @ es))"
  shows "decode_entries (length es) (concat (map encode_entry es) @ rest) hs = Some (Inr (hs @ es))"
  using assms
proof (induction es arbitrary: hs)
  case (Cons e es)
  obtain k v where e: "e = (k, v)" by fastforce
  have kv: "valid_utf8 k" "valid_utf8 v" "length k < 2 ^ 16" "length v < 2 ^ 16"
    using Cons.prems(1) e by auto
  have "k \<notin> fst ` set hs" using Cons.prems(2) e by auto
  then have ins: "hm_insert k v hs = hs @ [(k, v)]" by (rule hm_insert_fresh)
  have "decode_entries (length es) (concat (map encode_entry es) @ rest) (hs @ [(k, v)]) = Some (Inr ((hs @ [(k, v)]) @ es))"
    using Cons.prems e by (intro Cons.IH) auto
  then show ?case
    using kv by (simp add: e encode_entry_def Let_def unat_of_nat_u16 from_utf8_lossy_valid ins)
qed simp

lemma decode_encode_headers:
  assumes "headers_ok hs"
  shows "decode_headers (encode_headers hs @ rest) = Some (Inr hs)"
  using assms decode_entries_encode [of hs "[]" rest]
  by (simp add: decode_headers_def encode_headers_def headers_ok_def unat_of_nat_u16)

end
