(* ===== verification/Commands.thy ===== *)
theory Commands
  imports Headers
begin

text \<open>
  Commands and their payloads (\<open>zetmq-protocol/src/command/\<close>).  The five length-prefixed payload
  codecs of \<open>stream_cmd.rs\<close> share one contract, the locale \<open>codec\<close>: encode and decode round
  trip on well-formed values, decoding never panics, and trailing bytes are ignored.
\<close>

section \<open>Authentication data\<close>

datatype auth_info = AuthNone | Token str | UserPass str str

fun type_byte :: "auth_info \<Rightarrow> u8" where
  "type_byte AuthNone = 0"
| "type_byte (Token t) = 1"
| "type_byte (UserPass u p) = 2"

fun encode_fields :: "auth_info \<Rightarrow> bytes" where
  "encode_fields AuthNone = []"
| "encode_fields (Token t) = u16_bytes (of_nat (length t)) @ t"
| "encode_fields (UserPass u p) = u16_bytes (of_nat (length u)) @ u @ u16_bytes (of_nat (length p)) @ p"

definition auth_decode :: "u8 \<Rightarrow> bytes \<Rightarrow> (str + auth_info) option" where
  "auth_decode auth_type data =
     (if auth_type = 0 then Some (Inr AuthNone)
      else if auth_type = 1 then
        (if length data < 2 then Some (Inl (lit ''token auth: payload too short''))
         else do {
           l \<leftarrow> be_at 2 data 0;
           let len = unat (l :: u16);
           if length data < 2 + len then Some (Inl (lit ''token auth: token truncated''))
           else do {
             t \<leftarrow> sub_slice data 2 (2 + len);
             Some (Inr (Token (from_utf8_lossy t)))
           }
         })
      else if auth_type = 2 then
        (if length data < 2 then Some (Inl (lit ''userpass auth: payload too short''))
         else do {
           ul \<leftarrow> be_at 2 data 0;
           let u_len = unat (ul :: u16);
           if length data < 2 + u_len + 2 then Some (Inl (lit ''userpass auth: username truncated''))
           else do {
             u \<leftarrow> sub_slice data 2 (2 + u_len);
             let username = from_utf8_lossy u;
             pl \<leftarrow> be_at 2 data (2 + u_len);
             let p_len = unat (pl :: u16);
             if length data < 4 + u_len + p_len then Some (Inl (lit ''userpass auth: password truncated''))
             else do {
               p \<leftarrow> sub_slice data (4 + u_len) (4 + u_len + p_len);
               Some (Inr (UserPass username (from_utf8_lossy p)))
             }
           }
         })
      else Some (Inl (lit ''unknown auth type: '' @ dec (unat auth_type))))"

record connect_command =
  client_name :: "str option"
  protocol_version :: u8
  auth :: auth_info

definition connect_command_new :: "u8 \<Rightarrow> connect_command" where
  "connect_command_new v = \<lparr>client_name = None, protocol_version = v, auth = AuthNone\<rparr>"

definition connect_encode_payload :: "connect_command \<Rightarrow> bytes option" where
  "connect_encode_payload c =
     (case auth c of
        AuthNone \<Rightarrow> None
      | a \<Rightarrow> Some (type_byte a # encode_fields a))"

section \<open>Stream commands\<close>

text \<open>The common layout: a one-byte name length, the name, then 64-bit fields.\<close>

record create_stream_command =
  cs_name :: str
  cs_max_msgs :: u64
  cs_max_bytes :: u64
  cs_max_age_secs :: u64

definition create_stream_encode :: "create_stream_command \<Rightarrow> bytes" where
  "create_stream_encode c = of_nat (length (cs_name c)) # cs_name c
     @ u64_bytes (cs_max_msgs c) @ u64_bytes (cs_max_bytes c) @ u64_bytes (cs_max_age_secs c)"

definition create_stream_decode :: "bytes \<Rightarrow> (str + create_stream_command) option" where
  "create_stream_decode payload =
     (if payload = [] then Some (Inl (lit ''empty payload''))
      else do {
        l \<leftarrow> idx payload 0;
        let name_len = unat l;
        if length payload < 1 + name_len + 24 then Some (Inl (lit ''payload too short''))
        else do {
          n \<leftarrow> sub_slice payload 1 (1 + name_len);
          rest \<leftarrow> sub_slice payload (1 + name_len) (length payload);
          mm \<leftarrow> be_at 8 rest 0;
          mb \<leftarrow> be_at 8 rest 8;
          ma \<leftarrow> be_at 8 rest 16;
          Some (Inr \<lparr>cs_name = from_utf8_lossy n, cs_max_msgs = mm, cs_max_bytes = mb, cs_max_age_secs = ma\<rparr>)
        }
      })"

record delete_stream_command =
  ds_name :: str

definition delete_stream_encode :: "delete_stream_command \<Rightarrow> bytes" where
  "delete_stream_encode c = of_nat (length (ds_name c)) # ds_name c"

definition delete_stream_decode :: "bytes \<Rightarrow> (str + delete_stream_command) option" where
  "delete_stream_decode payload =
     (if payload = [] then Some (Inl (lit ''empty payload''))
      else do {
        l \<leftarrow> idx payload 0;
        let name_len = unat l;
        if length payload < 1 + name_len then Some (Inl (lit ''payload too short''))
        else do {
          n \<leftarrow> sub_slice payload 1 (1 + name_len);
          Some (Inr \<lparr>ds_name = from_utf8_lossy n\<rparr>)
        }
      })"

record ack_command =
  ack_stream :: str
  ack_sequence :: u64

definition ack_encode :: "ack_command \<Rightarrow> bytes" where
  "ack_encode c = of_nat (length (ack_stream c)) # ack_stream c @ u64_bytes (ack_sequence c)"

definition ack_decode :: "bytes \<Rightarrow> (str + ack_command) option" where
  "ack_decode payload =
     (if payload = [] then Some (Inl (lit ''empty payload''))
      else do {
        l \<leftarrow> idx payload 0;
        let name_len = unat l;
        if length payload < 1 + name_len + 8 then Some (Inl (lit ''payload too short''))
        else do {
          n \<leftarrow> sub_slice payload 1 (1 + name_len);
          sq \<leftarrow> be_at 8 payload (1 + name_len);
          Some (Inr \<lparr>ack_stream = from_utf8_lossy n, ack_sequence = sq\<rparr>)
        }
      })"

record nack_command =
  nack_stream :: str
  nack_sequence :: u64

definition nack_encode :: "nack_command \<Rightarrow> bytes" where
  "nack_encode c = of_nat (length (nack_stream c)) # nack_stream c @ u64_bytes (nack_sequence c)"

definition nack_decode :: "bytes \<Rightarrow> (str + nack_command) option" where
  "nack_decode payload =
     (if payload = [] then Some (Inl (lit ''empty payload''))
      else do {
        l \<leftarrow> idx payload 0;
        let name_len = unat l;
        if length payload < 1 + name_len + 8 then Some (Inl (lit ''payload too short''))
        else do {
          n \<leftarrow> sub_slice payload 1 (1 + name_len);
          sq \<leftarrow> be_at 8 payload (1 + name_len);
          Some (Inr \<lparr>nack_stream = from_utf8_lossy n, nack_sequence = sq\<rparr>)
        }
      })"

record stream_info_response =
  si_name :: str
  si_messages :: u64
  si_bytes :: u64
  si_first_seq :: u64
  si_last_seq :: u64
  si_max_msgs :: u64
  si_max_bytes :: u64
  si_max_age_secs :: u64

definition stream_info_encode :: "stream_info_response \<Rightarrow> bytes" where
  "stream_info_encode c = of_nat (length (si_name c)) # si_name c
     @ u64_bytes (si_messages c) @ u64_bytes (si_bytes c) @ u64_bytes (si_first_seq c)
     @ u64_bytes (si_last_seq c) @ u64_bytes (si_max_msgs c) @ u64_bytes (si_max_bytes c)
     @ u64_bytes (si_max_age_secs c)"

definition stream_info_decode :: "bytes \<Rightarrow> (str + stream_info_response) option" where
  "stream_info_decode payload =
     (if payload = [] then Some (Inl (lit ''empty payload''))
      else do {
        l \<leftarrow> idx payload 0;
        let name_len = unat l;
        if length payload < 1 + name_len + 56 then Some (Inl (lit ''payload too short''))
        else do {
          n \<leftarrow> sub_slice payload 1 (1 + name_len);
          rest \<leftarrow> sub_slice payload (1 + name_len) (length payload);
          a \<leftarrow> be_at 8 rest 0;
          b \<leftarrow> be_at 8 rest 8;
          c \<leftarrow> be_at 8 rest 16;
          d \<leftarrow> be_at 8 rest 24;
          e \<leftarrow> be_at 8 rest 32;
          f \<leftarrow> be_at 8 rest 40;
          g \<leftarrow> be_at 8 rest 48;
          Some (Inr \<lparr>si_name = from_utf8_lossy n, si_messages = a, si_bytes = b, si_first_seq = c,
            si_last_seq = d, si_max_msgs = e, si_max_bytes = f, si_max_age_secs = g\<rparr>)
        }
      })"

section \<open>Codec contract\<close>

locale codec =
  fixes enc :: "'a \<Rightarrow> bytes"
    and dec :: "bytes \<Rightarrow> ('e + 'a) option"
    and ok :: "'a \<Rightarrow> bool"
  assumes dec_enc: "ok a \<Longrightarrow> dec (enc a @ rest) = Some (Inr a)"
    and dec_total: "dec b \<noteq> None"
begin

lemma enc_inj: "ok a \<Longrightarrow> ok a' \<Longrightarrow> enc a @ r = enc a' @ r' \<Longrightarrow> a = a'"
  using dec_enc [of a r] dec_enc [of a' r'] by simp

text \<open>No encoding is a proper prefix of another.\<close>

lemma prefix_free: "ok a \<Longrightarrow> ok a' \<Longrightarrow> prefix (enc a) (enc a') \<Longrightarrow> a = a'"
  by (auto simp: prefix_def intro: enc_inj [where r' = "[]"])

end

definition name_ok :: "str \<Rightarrow> bool" where
  "name_ok n \<longleftrightarrow> valid_utf8 n \<and> length n < 256"

lemma name_ok_len: "name_ok n \<Longrightarrow> unat (of_nat (length n) :: u8) = length n"
  by (simp add: name_ok_def unat_of_nat)

lemma name_ok_lossy: "name_ok n \<Longrightarrow> from_utf8_lossy n = n"
  by (simp add: name_ok_def from_utf8_lossy_valid)

lemmas name_simps = name_ok_len name_ok_lossy Let_def

interpretation create_stream: codec create_stream_encode create_stream_decode "\<lambda>c. name_ok (cs_name c)"
proof unfold_locales
  show "name_ok (cs_name c) \<Longrightarrow> create_stream_decode (create_stream_encode c @ rest) = Some (Inr c)" for c rest
    by (cases c) (simp add: create_stream_decode_def create_stream_encode_def name_simps)
  show "create_stream_decode b \<noteq> None" for b
    by (cases b) (auto simp: create_stream_decode_def Let_def not_less)
qed

interpretation delete_stream: codec delete_stream_encode delete_stream_decode "\<lambda>c. name_ok (ds_name c)"
proof unfold_locales
  show "name_ok (ds_name c) \<Longrightarrow> delete_stream_decode (delete_stream_encode c @ rest) = Some (Inr c)" for c rest
    by (cases c) (simp add: delete_stream_decode_def delete_stream_encode_def name_simps)
  show "delete_stream_decode b \<noteq> None" for b
    by (cases b) (auto simp: delete_stream_decode_def Let_def not_less)
qed

interpretation ack: codec ack_encode ack_decode "\<lambda>c. name_ok (ack_stream c)"
proof unfold_locales
  show "name_ok (ack_stream c) \<Longrightarrow> ack_decode (ack_encode c @ rest) = Some (Inr c)" for c rest
    by (cases c) (simp add: ack_decode_def ack_encode_def name_simps)
  show "ack_decode b \<noteq> None" for b
    by (cases b) (auto simp: ack_decode_def Let_def not_less)
qed

interpretation nack: codec nack_encode nack_decode "\<lambda>c. name_ok (nack_stream c)"
proof unfold_locales
  show "name_ok (nack_stream c) \<Longrightarrow> nack_decode (nack_encode c @ rest) = Some (Inr c)" for c rest
    by (cases c) (simp add: nack_decode_def nack_encode_def name_simps)
  show "nack_decode b \<noteq> None" for b
    by (cases b) (auto simp: nack_decode_def Let_def not_less)
qed

interpretation stream_info: codec stream_info_encode stream_info_decode "\<lambda>c. name_ok (si_name c)"
proof unfold_locales
  show "name_ok (si_name c) \<Longrightarrow> stream_info_decode (stream_info_encode c @ rest) = Some (Inr c)" for c rest
    by (cases c) (simp add: stream_info_decode_def stream_info_encode_def name_simps)
  show "stream_info_decode b \<noteq> None" for b
    by (cases b) (auto simp: stream_info_decode_def Let_def not_less)
qed

section \<open>Commands\<close>

record publish_command =
  pc_subject :: bytes
  pc_payload :: bytes
  pc_reply_to :: "bytes option"
  pc_headers :: "header_map option"

record subscribe_command =
  sc_subject_pattern :: str
  sc_queue_group :: "str option"

record unsubscribe_command =
  uc_subscription_id :: u64

datatype broker_command =
    CmdConnect connect_command
  | CmdPublish publish_command
  | CmdSubscribe subscribe_command
  | CmdUnsubscribe unsubscribe_command
  | CmdPing
  | CmdCreateStream create_stream_command
  | CmdDeleteStream delete_stream_command
  | CmdAck ack_command
  | CmdNack nack_command

text \<open>The derived \<open>Debug\<close> text of a frame type.\<close>

fun frame_type_debug :: "frame_type \<Rightarrow> str" where
  "frame_type_debug Connect = lit ''Connect''" | "frame_type_debug Connack = lit ''Connack''"
| "frame_type_debug Ping = lit ''Ping''" | "frame_type_debug Pong = lit ''Pong''"
| "frame_type_debug Drain = lit ''Drain''" | "frame_type_debug Drainack = lit ''Drainack''"
| "frame_type_debug Pub = lit ''Pub''" | "frame_type_debug Msg = lit ''Msg''"
| "frame_type_debug Sub = lit ''Sub''" | "frame_type_debug Suback = lit ''Suback''"
| "frame_type_debug Unsub = lit ''Unsub''" | "frame_type_debug Unsuback = lit ''Unsuback''"
| "frame_type_debug CreateStream = lit ''CreateStream''" | "frame_type_debug StreamInfo = lit ''StreamInfo''"
| "frame_type_debug DeleteStream = lit ''DeleteStream''" | "frame_type_debug Ack = lit ''Ack''"
| "frame_type_debug Nack = lit ''Nack''" | "frame_type_debug Error = lit ''Error''"

definition connect_from_frame :: "frame \<Rightarrow> (protocol_error + broker_command) option" where
  "connect_from_frame f =
     (let cmd = connect_command_new (version (f_header f)) in
      if f_payload f = [] then Some (Inr (CmdConnect cmd))
      else do {
        auth_type \<leftarrow> idx (f_payload f) 0;
        auth_data \<leftarrow> sub_slice (f_payload f) 1 (length (f_payload f));
        r \<leftarrow> auth_decode auth_type auth_data;
        case r of
          Inr a \<Rightarrow> Some (Inr (CmdConnect (cmd\<lparr>auth := a\<rparr>)))
        | Inl e \<Rightarrow> Some (Inl (DecodingError (lit ''invalid auth: '' @ e)))
      })"

definition pub_from_frame :: "frame \<Rightarrow> (protocol_error + broker_command) option" where
  "pub_from_frame f =
     (let p = f_payload f in
      if length p < 2 then Some (Inl (DecodingError (lit ''PUB frame too short'')))
      else do {
        sl \<leftarrow> be_at 2 p 0;
        let subj_len = unat (sl :: u16);
        if length p < 2 + subj_len then Some (Inl (DecodingError (lit ''PUB subject truncated'')))
        else do {
          subj \<leftarrow> sub_slice p 2 (2 + subj_len);
          rest \<leftarrow> sub_slice p (2 + subj_len) (length p);
          (reply_to, data_start) \<leftarrow>
            (if length rest \<ge> 2 then do {
               rl \<leftarrow> be_at 2 rest 0;
               let reply_len = unat (rl :: u16);
               if length rest \<ge> 2 + reply_len \<and> reply_len > 0 then do {
                 let reply_offset = 2 + subj_len + 2;
                 reply \<leftarrow> sub_slice p reply_offset (reply_offset + reply_len);
                 Some (Some reply, 2 + reply_len)
               } else Some (None, 2)
             } else Some (None, 0));
          let payload_offset = 2 + subj_len + data_start;
          msg_payload \<leftarrow> (if payload_offset < length p then sub_slice p payload_offset (length p) else Some []);
          try_bind
            (if f_headers f \<noteq> [] then map_option (map_sum id Some) (decode_headers (f_headers f))
             else Some (Inr None))
            (\<lambda>hs. Some (Inr (CmdPublish \<lparr>pc_subject = subj, pc_payload = msg_payload,
               pc_reply_to = reply_to, pc_headers = hs\<rparr>)))
        }
      })"

definition sub_from_frame :: "frame \<Rightarrow> (protocol_error + broker_command) option" where
  "sub_from_frame f =
     (let p = f_payload f in
      if p = [] then Some (Inl (DecodingError (lit ''SUB frame empty'')))
      else do {
        pl \<leftarrow> idx p 0;
        let pattern_len = unat pl;
        if length p < 1 + pattern_len then Some (Inl (DecodingError (lit ''SUB pattern truncated'')))
        else do {
          pat \<leftarrow> sub_slice p 1 (1 + pattern_len);
          queue_group \<leftarrow>
            (if length p > 1 + pattern_len + 1 then do {
               ql \<leftarrow> idx p (1 + pattern_len);
               let qg_len = unat ql;
               if length p \<ge> 2 + pattern_len + qg_len \<and> qg_len > 0 then do {
                 q \<leftarrow> sub_slice p (2 + pattern_len) (2 + pattern_len + qg_len);
                 Some (Some (from_utf8_lossy q))
               } else Some None
             } else Some None);
          Some (Inr (CmdSubscribe \<lparr>sc_subject_pattern = from_utf8_lossy pat, sc_queue_group = queue_group\<rparr>))
        }
      })"

definition unsub_from_frame :: "frame \<Rightarrow> (protocol_error + broker_command) option" where
  "unsub_from_frame f =
     (if length (f_payload f) < 8 then Some (Inl (DecodingError (lit ''UNSUB frame too short'')))
      else do {
        i \<leftarrow> be_at 8 (f_payload f) 0;
        Some (Inr (CmdUnsubscribe \<lparr>uc_subscription_id = i\<rparr>))
      })"

text \<open>\<open>.map_err(ProtocolError::DecodingError)?\<close> and the wrapping into the command.\<close>

definition wrap_stream_cmd :: "('a \<Rightarrow> broker_command) \<Rightarrow> (str + 'a) option \<Rightarrow> (protocol_error + broker_command) option" where
  "wrap_stream_cmd c r = map_option (map_sum DecodingError c) r"

definition from_frame :: "frame \<Rightarrow> (protocol_error + broker_command) option" where
  "from_frame f =
     (case from_u8 (h_frame_type (f_header f)) of
        Inl e \<Rightarrow> Some (Inl e)
      | Inr ft \<Rightarrow>
          (case ft of
             Connect \<Rightarrow> connect_from_frame f
           | Pub \<Rightarrow> pub_from_frame f
           | Sub \<Rightarrow> sub_from_frame f
           | Unsub \<Rightarrow> unsub_from_frame f
           | Ping \<Rightarrow> Some (Inr CmdPing)
           | CreateStream \<Rightarrow> wrap_stream_cmd CmdCreateStream (create_stream_decode (f_payload f))
           | DeleteStream \<Rightarrow> wrap_stream_cmd CmdDeleteStream (delete_stream_decode (f_payload f))
           | Ack \<Rightarrow> wrap_stream_cmd CmdAck (ack_decode (f_payload f))
           | Nack \<Rightarrow> wrap_stream_cmd CmdNack (nack_decode (f_payload f))
           | _ \<Rightarrow> Some (Inl (DecodingError (lit ''unexpected frame type for command: '' @ frame_type_debug ft)))))"

section \<open>No panic, round trips\<close>

lemma auth_decode_total: "auth_decode t d \<noteq> None"
  by (simp add: auth_decode_def Let_def)

lemma connect_from_frame_total: "connect_from_frame f \<noteq> None"
proof (cases "f_payload f")
  case (Cons t d)
  obtain r where "auth_decode t d = Some r" using auth_decode_total [of t d] by auto
  then show ?thesis by (simp add: connect_from_frame_def Cons split: sum.split)
qed (simp add: connect_from_frame_def)

lemma pub_from_frame_total: "pub_from_frame f \<noteq> None"
proof -
  have "try_bind (if f_headers f \<noteq> [] then map_option (map_sum id Some) (decode_headers (f_headers f)) else Some (Inr None))
      (\<lambda>hs. Some (Inr (g hs))) \<noteq> None" for g
    using decode_headers_total by (intro try_bind_not_None) auto
  then show ?thesis by (auto simp: pub_from_frame_def Let_def not_less)
qed

lemma sub_from_frame_total: "sub_from_frame f \<noteq> None"
  by (auto simp: sub_from_frame_def Let_def not_less)

lemma from_frame_total: "from_frame f \<noteq> None"
  using connect_from_frame_total pub_from_frame_total sub_from_frame_total
    create_stream.dec_total delete_stream.dec_total ack.dec_total nack.dec_total
  by (auto simp: from_frame_def unsub_from_frame_def wrap_stream_cmd_def split: sum.split frame_type.split)

fun auth_ok :: "auth_info \<Rightarrow> bool" where
  "auth_ok AuthNone = True"
| "auth_ok (Token t) = (valid_utf8 t \<and> length t < 2 ^ 16)"
| "auth_ok (UserPass u p) = (valid_utf8 u \<and> valid_utf8 p \<and> length u < 2 ^ 16 \<and> length p < 2 ^ 16)"

lemma auth_decode_encode:
  "auth_ok a \<Longrightarrow> auth_decode (type_byte a) (encode_fields a @ rest) = Some (Inr a)"
  by (cases a) (simp_all add: auth_decode_def Let_def unat_of_nat_u16 from_utf8_lossy_valid)

end
