(* ===== verification/Wire.thy ===== *)
theory Wire
  imports Commands
begin

text \<open>
  The two ends of a connection: the frames the client builds (\<open>zetmq-client/src/client.rs\<close>) and
  the server reads, and the MSG frames the server writes (\<open>encode_msg_into\<close> in
  \<open>zetmq-server/src/session/handler.rs\<close>) and the client decodes (\<open>dispatch_msg\<close> in
  \<open>zetmq-client/src/connection.rs\<close>).  Lengths are cast to the width of their field, as in the source.
\<close>

section \<open>Frames a client sends\<close>

definition connect_frame :: "str option \<Rightarrow> auth_info \<Rightarrow> frame" where
  "connect_frame name a =
     (let cmd = \<lparr>client_name = name, protocol_version = 1, auth = a\<rparr>; f = frame_new Connect 0 in
      case connect_encode_payload cmd of None \<Rightarrow> f | Some p \<Rightarrow> with_payload p f)"

definition pub_frame :: "str \<Rightarrow> str option \<Rightarrow> bytes \<Rightarrow> header_map option \<Rightarrow> frame" where
  "pub_frame subj reply_to data hs =
     (let p = u16_bytes (of_nat (length subj)) @ subj
            @ (case reply_to of None \<Rightarrow> u16_bytes 0 | Some r \<Rightarrow> u16_bytes (of_nat (length r)) @ r) @ data;
          f = with_payload p (frame_new Pub 0)
      in case hs of None \<Rightarrow> f | Some h \<Rightarrow> with_headers (encode_headers h) f)"

definition build_sub_frame :: "str \<Rightarrow> str option \<Rightarrow> u64 \<Rightarrow> frame" where
  "build_sub_frame subj queue_group corr_id =
     with_payload (of_nat (length subj) # subj
       @ (case queue_group of None \<Rightarrow> [] | Some qg \<Rightarrow> of_nat (length qg) # qg)) (frame_new Sub corr_id)"

definition unsub_frame :: "u64 \<Rightarrow> frame" where
  "unsub_frame server_sub_id = with_payload (u64_bytes server_sub_id) (frame_new Unsub server_sub_id)"

section \<open>MSG frames\<close>

definition encode_msg_into :: "delivery_message \<Rightarrow> bytes \<Rightarrow> bytes" where
  "encode_msg_into msg buf =
     (let subj_bytes = s_raw (d_subject msg);
          reply_len = (case d_reply_to msg of None \<Rightarrow> 0 | Some r \<Rightarrow> length (s_raw r));
          pl = 2 + length subj_bytes + 2 + reply_len + 8 + length (d_payload msg);
          hl = (case d_headers msg of None \<Rightarrow> 0 | Some h \<Rightarrow> encoded_headers_len h);
          h = with_payload_size (of_nat hl) (of_nat pl) (frame_header_new (as_u8 Msg) (d_subscription_id msg))
      in buf @ header_encode h
         @ (case d_headers msg of None \<Rightarrow> [] | Some h \<Rightarrow> encode_headers h)
         @ u16_bytes (of_nat (length subj_bytes)) @ subj_bytes
         @ (case d_reply_to msg of
              Some r \<Rightarrow> u16_bytes (of_nat (length (s_raw r))) @ s_raw r
            | None \<Rightarrow> u16_bytes 0)
         @ u64_bytes (d_subscription_id msg) @ d_payload msg)"

record client_message =
  cm_subject :: bytes
  cm_reply_to :: "bytes option"
  cm_headers :: "header_map option"
  cm_payload :: bytes

text \<open>The decoding part of \<open>dispatch_msg\<close>: the subscription it is for, and the message.\<close>

definition decode_msg :: "frame \<Rightarrow> (protocol_error + u64 \<times> client_message) option" where
  "decode_msg f =
     (let p = f_payload f in
      if length p < 2 then Some (Inl (DecodingError (lit ''MSG too short'')))
      else do {
        sl \<leftarrow> be_at 2 p 0;
        let subj_len = unat (sl :: u16);
        if length p < 2 + subj_len + 2 then Some (Inl (DecodingError (lit ''MSG subject truncated'')))
        else do {
          subj \<leftarrow> sub_slice p 2 (2 + subj_len);
          rl \<leftarrow> be_at 2 p (2 + subj_len);
          let reply_len = unat (rl :: u16);
          (reply_to, data_offset) \<leftarrow>
            (if reply_len > 0 then do {
               let offset = 2 + subj_len + 2;
               r \<leftarrow> sub_slice p offset (offset + reply_len);
               Some (Some r, offset + reply_len)
             } else Some (None, 2 + subj_len + 2));
          if length p < data_offset + 8 then Some (Inl (DecodingError (lit ''MSG sub_id truncated'')))
          else do {
            i \<leftarrow> be_at 8 p data_offset;
            m \<leftarrow> (if data_offset + 8 < length p then sub_slice p (data_offset + 8) (length p) else Some []);
            try_bind
              (if f_headers f \<noteq> [] then map_option (map_sum id Some) (decode_headers (f_headers f))
               else Some (Inr None))
              (\<lambda>hs. Some (Inr (i, \<lparr>cm_subject = subj, cm_reply_to = reply_to, cm_headers = hs, cm_payload = m\<rparr>)))
          }
        }
      })"

section \<open>Client to server\<close>

lemma section_headers:
  assumes "case hs of None \<Rightarrow> f_headers f = [] | Some h \<Rightarrow> f_headers f = encode_headers h \<and> headers_ok h"
  shows "(if f_headers f \<noteq> [] then map_option (map_sum id Some) (decode_headers (f_headers f)) else Some (Inr None))
    = Some (Inr hs)"
proof (cases hs)
  case (Some h)
  then have "f_headers f = encode_headers h" "headers_ok h" using assms by simp_all
  moreover have "encode_headers h \<noteq> []" by (simp add: encode_headers_def flip: length_0_conv)
  ultimately show ?thesis using decode_encode_headers [of h "[]"] Some by simp
qed (use assms in simp)

lemma pub_frame_decodes:
  assumes "length subj < 2 ^ 16" and "\<And>r. reply = Some r \<Longrightarrow> r \<noteq> [] \<and> length r < 2 ^ 16"
    and "\<And>h. hs = Some h \<Longrightarrow> headers_ok h"
  shows "from_frame (pub_frame subj reply data hs) = Some (Inr (CmdPublish
     \<lparr>pc_subject = subj, pc_payload = data, pc_reply_to = reply, pc_headers = hs\<rparr>))"
proof -
  let ?f = "pub_frame subj reply data hs"
  have h: "(if f_headers ?f \<noteq> [] then map_option (map_sum id Some) (decode_headers (f_headers ?f)) else Some (Inr None))
      = Some (Inr hs)"
    using assms(3) by (intro section_headers)
      (simp add: pub_frame_def with_payload_def with_headers_def frame_new_def Let_def split: option.split)
  have p: "f_payload ?f = u16_bytes (of_nat (length subj)) @ subj
            @ (case reply of None \<Rightarrow> u16_bytes 0 | Some r \<Rightarrow> u16_bytes (of_nat (length r)) @ r) @ data"
    and t: "h_frame_type (f_header ?f) = as_u8 Pub"
    by (simp_all add: pub_frame_def with_payload_def with_headers_def frame_new_def frame_header_new_def Let_def
        split: option.split)
  have "pub_from_frame ?f = Some (Inr (CmdPublish
     \<lparr>pc_subject = subj, pc_payload = data, pc_reply_to = reply, pc_headers = hs\<rparr>))"
    unfolding pub_from_frame_def h p Let_def
    using assms(1,2) by (cases reply) (auto simp: unat_of_nat_u16)
  then show ?thesis using t by (simp add: from_frame_def del: as_u8.simps)
qed

lemma sub_frame_decodes:
  assumes "valid_utf8 subj" and "length subj < 256"
    and "\<And>q. qg = Some q \<Longrightarrow> valid_utf8 q \<and> q \<noteq> [] \<and> length q < 256"
  shows "from_frame (build_sub_frame subj qg c) = Some (Inr (CmdSubscribe
     \<lparr>sc_subject_pattern = subj, sc_queue_group = qg\<rparr>))"
proof -
  have n: "length s < 256 \<Longrightarrow> unat (of_nat (length s) :: u8) = length s" for s :: str
    by (simp add: unat_of_nat)
  let ?f = "build_sub_frame subj qg c"
  have p: "f_payload ?f = of_nat (length subj) # subj @ (case qg of None \<Rightarrow> [] | Some q \<Rightarrow> of_nat (length q) # q)"
    and t: "h_frame_type (f_header ?f) = as_u8 Sub"
    by (simp_all add: build_sub_frame_def with_payload_def frame_new_def frame_header_new_def)
  have "sub_from_frame ?f = Some (Inr (CmdSubscribe \<lparr>sc_subject_pattern = subj, sc_queue_group = qg\<rparr>))"
    unfolding sub_from_frame_def p Let_def
    using assms by (cases qg) (auto simp: n from_utf8_lossy_valid nth_append idx_def)
  then show ?thesis using t by (simp add: from_frame_def del: as_u8.simps)
qed

lemma unsub_frame_decodes:
  "from_frame (unsub_frame i) = Some (Inr (CmdUnsubscribe \<lparr>uc_subscription_id = i\<rparr>))"
  by (simp add: unsub_frame_def from_frame_def unsub_from_frame_def with_payload_def frame_new_def
      frame_header_new_def from_u8_as_u8 [of Unsub, simplified])

lemma connect_frame_decodes:
  assumes "auth_ok a"
  shows "from_frame (connect_frame name a) = Some (Inr (CmdConnect ((connect_command_new CURRENT_VERSION)\<lparr>auth := a\<rparr>)))"
proof -
  let ?f = "connect_frame name a"
  have t: "h_frame_type (f_header ?f) = as_u8 Connect" and v: "version (f_header ?f) = CURRENT_VERSION"
    and p: "f_payload ?f = (if a = AuthNone then [] else type_byte a # encode_fields a)"
    by (cases a; simp add: connect_frame_def connect_encode_payload_def with_payload_def
        frame_new_def frame_header_new_def)+
  have "auth_decode (type_byte a) (encode_fields a) = Some (Inr a)"
    using auth_decode_encode [OF assms, of "[]"] by simp
  then have "connect_from_frame ?f = Some (Inr (CmdConnect ((connect_command_new CURRENT_VERSION)\<lparr>auth := a\<rparr>)))"
    unfolding connect_from_frame_def p v Let_def by (cases a) (simp_all add: connect_command_new_def)
  then show ?thesis using t by (simp add: from_frame_def del: as_u8.simps)
qed

text \<open>A pattern longer than the one-byte length field: the server reads a prefix of it.\<close>

lemma sub_frame_truncates:
  assumes "sub_from_frame (build_sub_frame subj None c) = Some (Inr (CmdSubscribe s))"
  shows "sc_subject_pattern s = from_utf8_lossy (take (length subj mod 256) subj)"
proof -
  have n: "unat (of_nat (length subj) :: u8) = length subj mod 256" by (simp add: unat_of_nat)
  have p: "f_payload (build_sub_frame subj None c) = of_nat (length subj) # subj"
    by (simp add: build_sub_frame_def with_payload_def)
  have "length subj mod 256 \<le> length subj" by simp
  then show ?thesis
    using assms unfolding sub_from_frame_def p Let_def
    by (auto simp: n split: option.splits if_splits bind_splits)
qed

section \<open>Server to client\<close>

definition msg_payload :: "delivery_message \<Rightarrow> bytes" where
  "msg_payload msg = u16_bytes (of_nat (length (s_raw (d_subject msg)))) @ s_raw (d_subject msg)
     @ (case d_reply_to msg of Some r \<Rightarrow> u16_bytes (of_nat (length (s_raw r))) @ s_raw r | None \<Rightarrow> u16_bytes 0)
     @ u64_bytes (d_subscription_id msg) @ d_payload msg"

text \<open>The frame whose encoding \<open>encode_msg_into\<close> writes.\<close>

definition msg_frame :: "delivery_message \<Rightarrow> frame" where
  "msg_frame msg =
     (let hs = (case d_headers msg of None \<Rightarrow> [] | Some h \<Rightarrow> encode_headers h) in
      \<lparr>f_header = with_payload_size (of_nat (length hs)) (of_nat (length (msg_payload msg)))
         (frame_header_new (as_u8 Msg) (d_subscription_id msg)),
       f_headers = hs, f_payload = msg_payload msg\<rparr>)"

lemma encode_msg_frame: "encode_msg_into msg buf = buf @ frame_encode (msg_frame msg)"
proof -
  have "(case d_headers msg of None \<Rightarrow> 0 | Some h \<Rightarrow> encoded_headers_len h) =
      length (case d_headers msg of None \<Rightarrow> [] | Some h \<Rightarrow> encode_headers h)"
    by (simp add: encoded_headers_len_eq split: option.split)
  moreover have "2 + length (s_raw (d_subject msg)) + 2 + (case d_reply_to msg of None \<Rightarrow> 0 | Some r \<Rightarrow> length (s_raw r))
      + 8 + length (d_payload msg) = length (msg_payload msg)"
    by (simp add: msg_payload_def split: option.split)
  ultimately show ?thesis
    unfolding encode_msg_into_def Let_def by (simp only:) (simp add: msg_frame_def frame_encode_eq msg_payload_def Let_def)
qed

definition msg_ok :: "nat \<Rightarrow> delivery_message \<Rightarrow> bool" where
  "msg_ok k msg \<longleftrightarrow> length (s_raw (d_subject msg)) < 2 ^ 16 \<and>
     (\<forall>r. d_reply_to msg = Some r \<longrightarrow> s_raw r \<noteq> [] \<and> length (s_raw r) < 2 ^ 16) \<and>
     (\<forall>h. d_headers msg = Some h \<longrightarrow> headers_ok h) \<and>
     length (frame_encode (msg_frame msg)) \<le> k \<and> k < 2 ^ 32"

lemma msg_frame_wf:
  assumes "msg_ok k msg"
  shows "frame_wf k (msg_frame msg)"
proof -
  let ?f = "msg_frame msg"
  have "FRAME_HEADER_SIZE + length (f_headers ?f) + length (f_payload ?f) \<le> k"
    and k: "k < 2 ^ 32" using assms by (simp_all add: msg_ok_def frame_encode_eq)
  moreover have "n \<le> k \<Longrightarrow> unat (of_nat n :: u32) = n" for n using k by (simp add: unat_of_nat)
  ultimately show ?thesis
    by (simp add: frame_wf_def header_ok_def total_frame_size_def msg_frame_def with_payload_size_def
        frame_header_new_def Let_def)
qed

lemma decode_msg_frame:
  assumes "msg_ok k msg"
  shows "decode_msg (msg_frame msg) = Some (Inr (d_subscription_id msg,
     \<lparr>cm_subject = s_raw (d_subject msg), cm_reply_to = map_option s_raw (d_reply_to msg),
       cm_headers = d_headers msg, cm_payload = d_payload msg\<rparr>))"
proof -
  let ?f = "msg_frame msg"
  have h: "(if f_headers ?f \<noteq> [] then map_option (map_sum id Some) (decode_headers (f_headers ?f)) else Some (Inr None))
      = Some (Inr (d_headers msg))"
    using assms by (intro section_headers) (simp add: msg_frame_def msg_ok_def Let_def split: option.split)
  have p: "f_payload ?f = msg_payload msg" by (simp add: msg_frame_def Let_def)
  have s: "length (s_raw (d_subject msg)) < 2 ^ 16" using assms by (simp add: msg_ok_def)
  show ?thesis
  proof (cases "d_reply_to msg")
    case None
    then show ?thesis
      unfolding decode_msg_def h p Let_def
      using s by (simp add: msg_payload_def unat_of_nat_u16 drop_append take_append)
  next
    case (Some r)
    then have "s_raw r \<noteq> []" "length (s_raw r) < 2 ^ 16" using assms by (simp_all add: msg_ok_def)
    with Some show ?thesis
      unfolding decode_msg_def h p Let_def
      using s by (simp add: msg_payload_def unat_of_nat_u16)
  qed
qed

end
