(* ===== verification/Protocol_Theorems.thy ===== *)
theory Protocol_Theorems
  imports Wire
begin

text \<open>
  The properties of the wire protocol: what the frame decoder returns and consumes on any input, that
  a stream of frames survives any split into reads, that the payload codecs are inverse, and that what
  one end sends is what the other end reads.
\<close>

section \<open>Frames a builder makes\<close>

lemma built_frame_wf:
  assumes "f = with_payload p (frame_new t c) \<or> f = with_headers hs (with_payload p (frame_new t c)) \<or> f = frame_new t c"
    and "length (frame_encode f) \<le> k" and "k < 2 ^ 32"
  shows "frame_wf k f"
proof -
  have u: "unat (of_nat n :: u32) = n" if "n \<le> k" for n using that assms(3) by (simp add: unat_of_nat)
  have "FRAME_HEADER_SIZE + length (f_headers f) + length (f_payload f) \<le> k"
    using assms(2) by (simp add: frame_encode_eq)
  then show ?thesis
    using assms(1) by (elim disjE)
      (simp_all add: u frame_wf_def header_ok_def total_frame_size_def with_payload_def with_headers_def frame_new_def
        frame_header_new_def)
qed

lemma pub_frame_shape:
  obtains p hs where "pub_frame subj reply data h = with_payload p (frame_new Pub 0) \<or>
    pub_frame subj reply data h = with_headers hs (with_payload p (frame_new Pub 0))"
  by (cases h) (auto simp: pub_frame_def Let_def)

lemma connect_frame_shape:
  obtains p where "connect_frame name a = with_payload p (frame_new Connect 0) \<or> connect_frame name a = frame_new Connect 0"
  by (cases "connect_encode_payload \<lparr>client_name = name, protocol_version = 1, auth = a\<rparr>")
    (auto simp: connect_frame_def Let_def)

section \<open>Decoder\<close>

text \<open>
  C24: on every buffer and limit \<open>decode_from\<close> returns without panicking.  It asks for more input
  and leaves the buffer as it is; or it reports a frame above the limit, the buffer untouched; or it
  rejects a header after taking exactly one frame's bytes, never more than the buffer or the limit
  has; or it returns a frame whose own encoding is exactly what was taken off the buffer.
\<close>

theorem decode_from_sound:
  "\<exists>r rest. decode_from k buf = Some (r, rest) \<and>
     (case r of
        Inr None \<Rightarrow> rest = buf
      | Inr (Some f) \<Rightarrow> frame_wf k f \<and> buf = frame_encode f @ rest
      | Inl e \<Rightarrow> (\<exists>n. e = FrameTooLarge n k \<and> n > k \<and> rest = buf) \<or>
                (\<exists>n. FRAME_HEADER_SIZE \<le> n \<and> n \<le> length buf \<and> n \<le> k \<and> rest = drop n buf))"
proof (cases rule: decode_from_cases [of k buf])
  case (bad e n)
  then show ?thesis by auto
next
  case (frame f)
  then show ?thesis by (intro exI conjI) (rule frame(1), simp)
qed auto

text \<open>
  C25: a sequence of well-formed frames, written one after the other and read back in any split into
  chunks, is decoded by \<open>decode_from\<close> to exactly that sequence, in order, with nothing left in the buffer; \<open>feed\<close> calls it
  on what is there after each chunk, for as long as it returns a frame.
\<close>

theorem stream_decodes_in_any_chunks:
  assumes "list_all (frame_wf k) fs" and "concat chunks = wire fs"
  shows "fold (feed k) chunks ([], []) = (fs, [])"
  using feed_chunks [OF assms(1), of 0 "[]" chunks] assms(2) by simp

definition ping_pub :: "frame list" where
  "ping_pub = [frame_new Ping 7, pub_frame (lit ''a.b'') None [1, 2] None]"

definition ping_pub_chunks :: "bytes list" where
  "ping_pub_chunks = [take 5 (wire ping_pub), take 30 (drop 5 (wire ping_pub)), drop 35 (wire ping_pub)]"

lemma ping_pub_wf: "list_all (frame_wf 100) ping_pub"
  by (simp add: ping_pub_def frame_wf_def header_ok_def total_frame_size_def FRAME_HEADER_SIZE_def frame_new_def
      frame_header_new_def pub_frame_def with_payload_def lit_def)

lemma ping_pub_chunked: "concat ping_pub_chunks = wire ping_pub"
proof -
  have "take 5 w @ take 30 (drop 5 w) @ drop 35 w = w" for w :: bytes
  proof -
    have "drop 35 w = drop 30 (drop 5 w)" by simp
    then show ?thesis by (simp only: append_take_drop_id)
  qed
  then show ?thesis by (simp add: ping_pub_chunks_def)
qed

theorem stream_decodes_in_any_chunks_witness:
  "list_all (frame_wf 100) ping_pub \<and> length ping_pub_chunks = 3 \<and>
     fold (feed 100) ping_pub_chunks ([], []) = (ping_pub, [])"
  using stream_decodes_in_any_chunks [OF ping_pub_wf ping_pub_chunked] ping_pub_wf
  by (simp add: ping_pub_chunks_def)

section \<open>Payload codecs\<close>

text \<open>
  A header map whose keys and values fit their 16-bit length fields survives encoding and
  decoding, whatever follows it, and \<open>encoded_headers_len\<close>, which sizes the MSG frame before
  anything is written, is the length of what is written.
\<close>

lemma headers_roundtrip:
  assumes "headers_ok hs"
  shows "decode_headers (encode_headers hs @ rest) = Some (Inr hs) \<and> encoded_headers_len hs = length (encode_headers hs)"
  using decode_encode_headers [OF assms] encoded_headers_len_eq by simp

definition trace_headers :: header_map where
  "trace_headers = [(lit ''trace'', lit ''1''), (lit ''k'', [])]"

lemma trace_headers_ok: "headers_ok trace_headers"
  by (simp add: headers_ok_def trace_headers_def lit_def utf8_step_def)

lemma headers_roundtrip_witness:
  "headers_ok trace_headers \<and> decode_headers (encode_headers trace_headers @ [9]) = Some (Inr trace_headers)"
  using headers_roundtrip [OF trace_headers_ok, of "[9]"] trace_headers_ok by simp

text \<open>
  The payload codecs of the stream commands and of STREAM_INFO are inverse on names that are
  UTF-8 and fit the one-byte length field, and read no further than their own encoding.
\<close>

lemma stream_codecs_roundtrip:
  assumes "name_ok (cs_name c)" and "name_ok (ds_name d)" and "name_ok (ack_stream a)"
    and "name_ok (nack_stream n)" and "name_ok (si_name i)"
  shows "create_stream_decode (create_stream_encode c @ rest) = Some (Inr c) \<and>
    delete_stream_decode (delete_stream_encode d @ rest) = Some (Inr d) \<and>
    ack_decode (ack_encode a @ rest) = Some (Inr a) \<and>
    nack_decode (nack_encode n @ rest) = Some (Inr n) \<and>
    stream_info_decode (stream_info_encode i @ rest) = Some (Inr i)"
  using create_stream.dec_enc [OF assms(1), of rest] delete_stream.dec_enc [OF assms(2), of rest]
    ack.dec_enc [OF assms(3), of rest] nack.dec_enc [OF assms(4), of rest] stream_info.dec_enc [OF assms(5), of rest]
  by simp

lemma orders_ok: "name_ok (lit ''orders'')"
  by (simp add: name_ok_def lit_def utf8_step_def)

lemma stream_codecs_roundtrip_witness:
  "ack_decode (ack_encode \<lparr>ack_stream = lit ''orders'', ack_sequence = 5\<rparr> @ [1]) =
     Some (Inr \<lparr>ack_stream = lit ''orders'', ack_sequence = 5\<rparr>) \<and>
   delete_stream_decode (delete_stream_encode \<lparr>ds_name = lit ''orders''\<rparr> @ [1]) = Some (Inr \<lparr>ds_name = lit ''orders''\<rparr>)"
  using stream_codecs_roundtrip
    [of "\<lparr>cs_name = lit ''orders'', cs_max_msgs = 1, cs_max_bytes = 2, cs_max_age_secs = 3\<rparr>" "\<lparr>ds_name = lit ''orders''\<rparr>"
      "\<lparr>ack_stream = lit ''orders'', ack_sequence = 5\<rparr>" "\<lparr>nack_stream = lit ''orders'', nack_sequence = 5\<rparr>"
      "\<lparr>si_name = lit ''orders'', si_messages = 0, si_bytes = 0, si_first_seq = 1, si_last_seq = 0,
        si_max_msgs = 0, si_max_bytes = 0, si_max_age_secs = 0\<rparr>" "[1]"]
    orders_ok by simp

section \<open>End to end\<close>

text \<open>
  A PUB frame the client builds, in front of any further bytes, is taken off the server's buffer
  whole and becomes the publish command with the same subject, reply subject, headers and payload, as
  long as the lengths fit the fields and the frame the limit.
\<close>

lemma pub_reaches_server:
  assumes "length subj < 2 ^ 16" and "\<And>r. reply = Some r \<Longrightarrow> r \<noteq> [] \<and> length r < 2 ^ 16"
    and "\<And>h. hs = Some h \<Longrightarrow> headers_ok h"
    and "length (frame_encode (pub_frame subj reply data hs)) \<le> k" and "k < 2 ^ 32"
  shows "\<exists>f. decode_from k (frame_encode (pub_frame subj reply data hs) @ rest) = Some (Inr (Some f), rest) \<and>
    from_frame f = Some (Inr (CmdPublish
      \<lparr>pc_subject = subj, pc_payload = data, pc_reply_to = reply, pc_headers = hs\<rparr>))"
proof -
  obtain p h where "pub_frame subj reply data hs = with_payload p (frame_new Pub 0) \<or>
    pub_frame subj reply data hs = with_headers h (with_payload p (frame_new Pub 0))" by (rule pub_frame_shape)
  then have "frame_wf k (pub_frame subj reply data hs)"
    using assms(4,5) by (intro built_frame_wf [of _ p Pub 0 h]) auto
  with decode_from_encode pub_frame_decodes [OF assms(1-3)] show ?thesis by blast
qed

lemma length_trace_pub:
  "length (frame_encode (pub_frame (lit ''a.b'') (Some (lit ''r'')) [7] (Some trace_headers))) \<le> 100"
  by (simp add: frame_encode_eq pub_frame_def with_payload_def with_headers_def trace_headers_def encode_headers_def
      encode_entry_def lit_def FRAME_HEADER_SIZE_def)

lemma pub_reaches_server_example:
  "\<exists>f. decode_from 100 (frame_encode (pub_frame (lit ''a.b'') (Some (lit ''r'')) [7] (Some trace_headers)) @ [1, 2])
      = Some (Inr (Some f), [1, 2]) \<and>
    from_frame f = Some (Inr (CmdPublish \<lparr>pc_subject = lit ''a.b'', pc_payload = [7], pc_reply_to = Some (lit ''r''),
      pc_headers = Some trace_headers\<rparr>))"
  by (rule pub_reaches_server) (use length_trace_pub in \<open>auto simp: trace_headers_ok lit_def\<close>)

text \<open>
  C26: CONNECT, SUB and UNSUB frames of the client reach the server's command decoder as sent, except
  that the name the client was given is not part of the CONNECT payload.  The subject pattern and the queue group must fit one-byte length fields.
\<close>

theorem requests_reach_server:
  assumes "auth_ok a" and "name_ok subj" and "\<And>q. qg = Some q \<Longrightarrow> name_ok q \<and> q \<noteq> []"
  shows "from_frame (connect_frame name a) = Some (Inr (CmdConnect
      \<lparr>client_name = None, protocol_version = CURRENT_VERSION, auth = a\<rparr>)) \<and>
    from_frame (build_sub_frame subj qg c) = Some (Inr (CmdSubscribe
      \<lparr>sc_subject_pattern = subj, sc_queue_group = qg\<rparr>)) \<and>
    from_frame (unsub_frame i) = Some (Inr (CmdUnsubscribe \<lparr>uc_subscription_id = i\<rparr>))"
  using connect_frame_decodes [OF assms(1), of name] sub_frame_decodes [of subj qg c] unsub_frame_decodes [of i] assms(2,3)
  by (simp add: name_ok_def connect_command_new_def)

theorem requests_reach_server_witness:
  "from_frame (connect_frame (Some (lit ''me'')) (UserPass (lit ''u'') (lit ''pw''))) = Some (Inr (CmdConnect
      \<lparr>client_name = None, protocol_version = CURRENT_VERSION, auth = UserPass (lit ''u'') (lit ''pw'')\<rparr>)) \<and>
    from_frame (build_sub_frame (lit ''orders'') (Some (lit ''orders'')) 3) = Some (Inr (CmdSubscribe
      \<lparr>sc_subject_pattern = lit ''orders'', sc_queue_group = Some (lit ''orders'')\<rparr>)) \<and>
    from_frame (unsub_frame 9) = Some (Inr (CmdUnsubscribe \<lparr>uc_subscription_id = 9\<rparr>))"
  by (rule requests_reach_server) (auto simp: name_ok_def lit_def utf8_step_def)

text \<open>
  The MSG frame the server writes for a delivery is decoded by the client, from a buffer with any
  bytes after it, to the subscription, subject, reply subject, headers and payload of the delivery.
\<close>

lemma msg_reaches_client:
  assumes "msg_ok k msg"
  shows "\<exists>f. decode_from k (encode_msg_into msg [] @ rest) = Some (Inr (Some f), rest) \<and>
    decode_msg f = Some (Inr (d_subscription_id msg,
      \<lparr>cm_subject = s_raw (d_subject msg), cm_reply_to = map_option s_raw (d_reply_to msg),
        cm_headers = d_headers msg, cm_payload = d_payload msg\<rparr>))"
  using decode_from_encode [OF msg_frame_wf [OF assms]] decode_msg_frame [OF assms] by (auto simp: encode_msg_frame)

definition trace_msg :: delivery_message where
  "trace_msg = \<lparr>d_subscription_id = 4, d_connection_id = 2,
     d_subject = \<lparr>s_raw = lit ''a.b'', s_tokens = [lit ''a'', lit ''b'']\<rparr>,
     d_payload = [1, 2], d_reply_to = None, d_headers = Some trace_headers\<rparr>"

lemma trace_msg_ok: "msg_ok 100 trace_msg"
  using trace_headers_ok
  by (simp add: msg_ok_def trace_msg_def frame_encode_eq msg_frame_def msg_payload_def trace_headers_def
      encode_headers_def encode_entry_def lit_def FRAME_HEADER_SIZE_def)

lemma msg_reaches_client_witness:
  "\<exists>f. decode_from 100 (encode_msg_into trace_msg [] @ [1]) = Some (Inr (Some f), [1]) \<and>
    decode_msg f = Some (Inr (4, \<lparr>cm_subject = lit ''a.b'', cm_reply_to = None, cm_headers = Some trace_headers,
      cm_payload = [1, 2]\<rparr>))"
  using msg_reaches_client [OF trace_msg_ok, of "[1]"] by (simp add: trace_msg_def)

text \<open>
  \<open>from_frame\<close> never panics, on any frame whatever its declared lengths; frame types that
  are not commands and unknown type bytes are errors, never commands.
\<close>

lemma from_frame_no_panic:
  "\<exists>r. from_frame f = Some r \<and>
    (h_frame_type (f_header f) \<in> as_u8 ` {Connect, Pub, Sub, Unsub, Ping, CreateStream, DeleteStream, Ack, Nack}
      \<or> (\<exists>e. r = Inl e))"
proof -
  obtain r where r: "from_frame f = Some r" using from_frame_total [of f] by auto
  have "\<exists>e. r = Inl e"
    if "h_frame_type (f_header f) \<notin> as_u8 ` {Connect, Pub, Sub, Unsub, Ping, CreateStream, DeleteStream, Ack, Nack}"
  proof (cases "from_u8 (h_frame_type (f_header f))")
    case (Inr t)
    with from_u8_Inr have t: "h_frame_type (f_header f) = as_u8 t" by blast
    then have "t \<notin> {Connect, Pub, Sub, Unsub, Ping, CreateStream, DeleteStream, Ack, Nack}"
      using that by (metis image_eqI)
    then show ?thesis using r Inr by (cases t) (auto simp: from_frame_def)
  qed (use r in \<open>auto simp: from_frame_def\<close>)
  with r show ?thesis by blast
qed

section \<open>Where the client's decoder and encoder fall short\<close>

text \<open>
  Unlike the server's command decoder, the client's MSG decoder slices the reply subject without
  a length check: a four-byte payload makes it panic.
\<close>

lemma decode_msg_can_panic: "decode_msg (with_payload [0, 0, 0xFF, 0xFF] (frame_new Msg 1)) = None"
  by (simp add: decode_msg_def with_payload_def Let_def sub_slice_def from_be_def)

end
