(* ===== verification/Config.thy ===== *)
theory Config
  imports Rust_Str
begin

text \<open>
  The server configuration (\<open>zetmq-server/src/config.rs\<close>): its structs with their defaults and the
  command line, which overrides the file.  Reading and parsing the TOML file is a parameter of
  \<open>resolve\<close>; \<open>std::process::exit\<close> is \<open>None\<close>.
\<close>

section \<open>Authentication and TLS\<close>

record permissions_config =
  perm_publish :: "str list"
  perm_subscribe :: "str list"

definition permissions_config_default :: permissions_config where
  "permissions_config_default = \<lparr>perm_publish = [], perm_subscribe = []\<rparr>"

record user_config =
  u_username :: str
  u_password :: str
  u_permissions :: permissions_config

record auth_config =
  auth_type :: str
  auth_token :: "str option"
  auth_users :: "user_config list"

definition default_auth_type :: str where
  "default_auth_type = lit ''none''"

definition auth_config_default :: auth_config where
  "auth_config_default = \<lparr>auth_type = default_auth_type, auth_token = None, auth_users = []\<rparr>"

definition auth_is_enabled :: "auth_config \<Rightarrow> bool" where
  "auth_is_enabled c \<longleftrightarrow> auth_type c \<noteq> lit ''none''"

record tls_config =
  cert_file :: "str option"
  key_file :: "str option"

definition tls_is_enabled :: "tls_config \<Rightarrow> bool" where
  "tls_is_enabled c \<longleftrightarrow> cert_file c \<noteq> None \<and> key_file c \<noteq> None"

section \<open>Server\<close>

record server_config =
  c_host :: str
  c_port :: u16
  max_connections :: nat
  max_payload_bytes :: nat
  connection_output_buffer :: nat
  c_max_frame_size :: nat
  worker_threads :: nat
  log_level :: str
  heartbeat_interval_secs :: u64
  heartbeat_timeout_secs :: u64
  admin_port :: u16
  drain_timeout_secs :: u64
  max_subscriptions_per_connection :: nat
  c_auth :: auth_config
  c_tls :: tls_config

definition server_config_default :: server_config where
  "server_config_default = \<lparr>c_host = lit ''127.0.0.1'', c_port = 4222, max_connections = 10000,
     max_payload_bytes = 1048576, connection_output_buffer = 65536, c_max_frame_size = 2097152,
     worker_threads = 0, log_level = lit ''info'', heartbeat_interval_secs = 30, heartbeat_timeout_secs = 60,
     admin_port = 8222, drain_timeout_secs = 5, max_subscriptions_per_connection = 1024,
     c_auth = auth_config_default, c_tls = \<lparr>cert_file = None, key_file = None\<rparr>\<rparr>"

definition config_addr :: "server_config \<Rightarrow> str" where
  "config_addr c = c_host c @ lit '':'' @ dec (unat (c_port c))"

section \<open>Command line\<close>

record cli =
  cli_config_file :: "str option"
  cli_host :: "str option"
  cli_port :: "u16 option"
  cli_log_level :: "str option"
  cli_worker_threads :: "nat option"

definition resolve :: "(str \<Rightarrow> 'e + server_config) \<Rightarrow> cli \<Rightarrow> server_config option" where
  "resolve load_from_file c =
     do {
       config \<leftarrow> (case cli_config_file c of
                   Some path \<Rightarrow> (case load_from_file path of Inr cfg \<Rightarrow> Some cfg | Inl e \<Rightarrow> None)
                 | None \<Rightarrow> Some server_config_default);
       let config = (case cli_host c of Some h \<Rightarrow> config\<lparr>c_host := h\<rparr> | None \<Rightarrow> config);
       let config = (case cli_port c of Some p \<Rightarrow> config\<lparr>c_port := p\<rparr> | None \<Rightarrow> config);
       let config = (case cli_log_level c of Some l \<Rightarrow> config\<lparr>log_level := l\<rparr> | None \<Rightarrow> config);
       let config = (case cli_worker_threads c of Some n \<Rightarrow> config\<lparr>worker_threads := n\<rparr> | None \<Rightarrow> config);
       Some config
     }"

text \<open>The command line has four settings; everything else is the file's or the default's.\<close>

lemma resolve_keeps:
  assumes "resolve load c = Some cfg"
    and "base = (case cli_config_file c of None \<Rightarrow> server_config_default
           | Some path \<Rightarrow> (case load path of Inr b \<Rightarrow> b | Inl e \<Rightarrow> server_config_default))"
  shows "cfg = base\<lparr>c_host := (case cli_host c of Some h \<Rightarrow> h | None \<Rightarrow> c_host base),
    c_port := (case cli_port c of Some p \<Rightarrow> p | None \<Rightarrow> c_port base),
    log_level := (case cli_log_level c of Some l \<Rightarrow> l | None \<Rightarrow> log_level base),
    worker_threads := (case cli_worker_threads c of Some n \<Rightarrow> n | None \<Rightarrow> worker_threads base)\<rparr>"
  using assms by (auto simp: resolve_def Let_def split: option.splits sum.splits)

lemma addr_default: "config_addr server_config_default = lit ''127.0.0.1:4222''"
  by (simp add: config_addr_def server_config_default_def lit_def dec.simps)

end
