(* ===== verification/Auth.thy ===== *)
theory Auth
  imports Subjects Commands Config
begin

text \<open>
  Authentication and permissions of a session: \<open>AuthContext\<close> (\<open>zetmq-server/src/session/auth.rs\<close>)
  and \<open>validate_auth\<close> (\<open>session/handler.rs\<close>).  \<open>is_pattern_covered\<close> is the two-index loop of
  the source; it is shown to decide inclusion of what two patterns match.
\<close>

section \<open>Permissions\<close>

record auth_context =
  ctx_username :: "str option"
  publish_patterns :: "subject_pattern list"
  subscribe_patterns :: "subject_pattern list"

definition unrestricted :: auth_context where
  "unrestricted = \<lparr>ctx_username = None, publish_patterns = [], subscribe_patterns = []\<rparr>"

text \<open>\<open>iter().map(f).collect::<Result<Vec<_>, _>>()\<close>: the first error wins.\<close>

fun collect_results :: "('a \<Rightarrow> 'e + 'b) \<Rightarrow> 'a list \<Rightarrow> 'e + 'b list" where
  "collect_results f [] = Inr []"
| "collect_results f (x # xs) =
     (case f x of Inl e \<Rightarrow> Inl e | Inr y \<Rightarrow> map_sum id (\<lambda>ys. y # ys) (collect_results f xs))"

lemma collect_results_Inr: "collect_results f xs = Inr ys \<longleftrightarrow> map f xs = map Inr ys"
proof (induction xs arbitrary: ys)
  case (Cons x xs)
  show ?case
  proof (cases "f x")
    case (Inr y)
    then show ?thesis using Cons by (cases ys; cases "collect_results f xs") (auto simp: map_eq_Cons_conv)
  qed (auto simp: map_eq_Cons_conv Cons_eq_map_conv)
qed auto

definition permission_pattern :: "str \<Rightarrow> str \<Rightarrow> str + subject_pattern" where
  "permission_pattern kind p =
     map_sum (\<lambda>e. lit ''invalid '' @ kind @ lit ('' pattern '' @ [CHR 0x27]) @ p @ lit (CHR 0x27 # '': '')
       @ core_error_display e) id (pattern_parse p)"

definition from_permissions :: "str \<Rightarrow> permissions_config \<Rightarrow> str + auth_context" where
  "from_permissions username perms =
     (case collect_results (permission_pattern (lit ''publish'')) (perm_publish perms) of
        Inl e \<Rightarrow> Inl e
      | Inr ps \<Rightarrow>
          (case collect_results (permission_pattern (lit ''subscribe'')) (perm_subscribe perms) of
             Inl e \<Rightarrow> Inl e
           | Inr ss \<Rightarrow> Inr \<lparr>ctx_username = Some username, publish_patterns = ps, subscribe_patterns = ss\<rparr>))"

definition can_publish :: "auth_context \<Rightarrow> subject \<Rightarrow> bool" where
  "can_publish c s = (if publish_patterns c = [] then True else list_ex (\<lambda>p. matches p s) (publish_patterns c))"

definition is_publish_unrestricted :: "auth_context \<Rightarrow> bool" where
  "is_publish_unrestricted c = (publish_patterns c = [])"

function covered_loop :: "pattern_token list \<Rightarrow> pattern_token list \<Rightarrow> nat \<Rightarrow> nat \<Rightarrow> bool" where
  "covered_loop req all ri ai =
     (if ai < length all \<and> ri < length req then
        (case (all ! ai, req ! ri) of
           (MultiWildcard, _) \<Rightarrow> True
         | (SingleWildcard, Literal _) \<Rightarrow> covered_loop req all (ri + 1) (ai + 1)
         | (SingleWildcard, SingleWildcard) \<Rightarrow> covered_loop req all (ri + 1) (ai + 1)
         | (SingleWildcard, MultiWildcard) \<Rightarrow> False
         | (Literal a, Literal r) \<Rightarrow> if a = r then covered_loop req all (ri + 1) (ai + 1) else False
         | _ \<Rightarrow> False)
      else ai = length all \<and> ri = length req)"
  by pat_completeness auto
termination by (relation "measure (\<lambda>(req, all, ri, ai). length all - ai)") auto

declare covered_loop.simps [simp del]

definition is_pattern_covered :: "subject_pattern \<Rightarrow> subject_pattern \<Rightarrow> bool" where
  "is_pattern_covered requested allowed = covered_loop (p_tokens requested) (p_tokens allowed) 0 0"

definition can_subscribe :: "auth_context \<Rightarrow> subject_pattern \<Rightarrow> bool" where
  "can_subscribe c p =
     (if subscribe_patterns c = [] then True else list_ex (is_pattern_covered p) (subscribe_patterns c))"

section \<open>Credentials\<close>

definition validate_auth :: "auth_info \<Rightarrow> server_config \<Rightarrow> str + auth_context" where
  "validate_auth a config =
     (if \<not> auth_is_enabled (c_auth config) then Inr unrestricted
      else if auth_type (c_auth config) = lit ''token'' then
        (let expected = (case auth_token (c_auth config) of Some t \<Rightarrow> t | None \<Rightarrow> []) in
         case a of
           Token t \<Rightarrow> if a = Token expected then Inr unrestricted
                     else Inl (lit ''authentication failed: invalid token'')
         | _ \<Rightarrow> Inl (lit ''authentication failed: invalid token''))
      else if auth_type (c_auth config) = lit ''userpass'' then
        (case a of
           UserPass username password \<Rightarrow>
             (case find (\<lambda>u. u_username u = username \<and> u_password u = password) (auth_users (c_auth config)) of
                Some u \<Rightarrow> from_permissions username (u_permissions u)
              | None \<Rightarrow> Inl (lit ''authentication failed: invalid username or password''))
         | _ \<Rightarrow> Inl (lit ''authentication failed: username/password required''))
      else Inr unrestricted)"

section \<open>Coverage decides inclusion\<close>

fun covers :: "pattern_token list \<Rightarrow> pattern_token list \<Rightarrow> bool" where
  "covers (MultiWildcard # as) (r # rs) = True"
| "covers (SingleWildcard # as) (r # rs) = (r \<noteq> MultiWildcard \<and> covers as rs)"
| "covers (Literal a # as) (r # rs) = (r = Literal a \<and> covers as rs)"
| "covers [] rs = (rs = [])"
| "covers (a # as) [] = False"

lemma covered_loop_covers:
  "k \<le> length req \<Longrightarrow> k \<le> length all \<Longrightarrow> covered_loop req all k k = covers (drop k all) (drop k req)"
proof (induction "length all - k" arbitrary: k)
  case 0
  then have "drop k all = []" "k = length all" by simp_all
  with 0 show ?case by (auto simp: covered_loop.simps)
next
  case (Suc n)
  show ?case
  proof (cases "k < length req")
    case True
    moreover from Suc have "k < length all" by simp
    moreover from calculation have "drop k all = all ! k # drop (Suc k) all"
      and "drop k req = req ! k # drop (Suc k) req" by (simp_all add: Cons_nth_drop_Suc)
    moreover have "covered_loop req all (Suc k) (Suc k) = covers (drop (Suc k) all) (drop (Suc k) req)"
      using Suc.hyps(2) calculation by (intro Suc.hyps(1)) auto
    ultimately show ?thesis
      by (subst covered_loop.simps) (auto split: pattern_token.splits)
  next
    case False
    with Suc have k: "k = length req" "k < length all" by auto
    then obtain a as where "drop k all = a # as" by (cases "drop k all") auto
    with k show ?thesis by (cases a) (auto simp: covered_loop.simps)
  qed
qed

lemma is_pattern_covered_covers: "is_pattern_covered r a = covers (p_tokens a) (p_tokens r)"
  by (simp add: is_pattern_covered_def covered_loop_covers)

lemma covers_sound: "covers as rs \<Longrightarrow> token_match rs ts \<Longrightarrow> token_match as ts"
proof (induction as rs arbitrary: ts rule: covers.induct)
  case (1 as r rs)
  then show ?case by (cases ts; cases r) auto
next
  case (2 as r rs)
  then show ?case by (cases ts; cases r) auto
next
  case (3 a as r rs)
  then show ?case by (cases ts) auto
qed auto

text \<open>Tokens a subject can have, and request tokens some subject can match.\<close>

definition plain :: "str \<Rightarrow> bool" where
  "plain t \<longleftrightarrow> t \<noteq> [] \<and> dot \<notin> set t \<and> star \<notin> set t \<and> gt \<notin> set t"

fun plain_token :: "pattern_token \<Rightarrow> bool" where
  "plain_token (Literal l) = plain l"
| "plain_token _ = True"

lemma plain_ab: "plain [0x61]" "plain [0x62]"
  by (simp_all add: plain_def)

lemma token_match_inhabited:
  "list_all plain_token rs \<Longrightarrow> \<exists>ts. list_all plain ts \<and> token_match rs ts"
proof (induction rs)
  case (Cons r rs)
  then obtain ts where "list_all plain ts" "token_match rs ts" by auto
  with Cons.prems plain_ab show ?case
    by (cases r) (auto intro: exI [of _ "x # ts" for x])
qed (auto intro: exI [of _ "[]"])

lemma covers_complete:
  assumes "list_all plain_token rs" and "rs \<noteq> [] \<Longrightarrow> MultiWildcard \<notin> set (butlast rs)"
    and "\<And>ts. list_all plain ts \<Longrightarrow> token_match rs ts \<Longrightarrow> token_match as ts"
  shows "covers as rs"
  using assms
proof (induction as rs rule: covers.induct)
  case (2 as r rs)
  have "r \<noteq> MultiWildcard"
  proof
    assume r: "r = MultiWildcard"
    have "token_match (SingleWildcard # as) [[0x61]]" "token_match (SingleWildcard # as) [[0x61], [0x61]]"
      using "2.prems"(3) [of "[[0x61]]"] "2.prems"(3) [of "[[0x61], [0x61]]"] r plain_ab by simp_all
    then show False by (cases as; cases "hd as") auto
  qed
  moreover have "covers as rs"
  proof (rule "2.IH")
    fix ts assume ts: "list_all plain ts" "token_match rs ts"
    obtain t where "plain t" "token_match [r] [t]"
      using calculation "2.prems"(1) plain_ab by (cases r) auto
    with ts calculation have "token_match (r # rs) (t # ts)" by (cases r) auto
    with "2.prems"(3) [of "t # ts"] \<open>plain t\<close> ts show "token_match as ts" by simp
  qed (use "2.prems" in \<open>auto split: if_splits\<close>)
  ultimately show ?case by simp
next
  case (3 a as r rs)
  obtain ts0 where ts0: "list_all plain ts0" "token_match rs ts0"
    using token_match_inhabited [of rs] "3.prems"(1) by auto
  have only: "t = a" if "plain t" "\<And>ts. token_match rs ts \<Longrightarrow> token_match (r # rs) (t # ts)" for t
    using "3.prems"(3) [of "t # ts0"] that ts0 by simp
  have r: "r = Literal a"
  proof (cases r)
    case (Literal l)
    then show ?thesis using only [of l] "3.prems"(1) by simp
  qed (use only [of "[0x61]"] only [of "[0x62]"] plain_ab in auto)
  moreover have "covers as rs"
  proof (rule "3.IH")
    fix ts assume ts: "list_all plain ts" "token_match rs ts"
    with "3.prems"(3) [of "a # ts"] "3.prems"(1) r show "token_match as ts" by simp
  qed (use "3.prems" in \<open>auto split: if_splits\<close>)
  ultimately show ?case by simp
next
  case (4 rs)
  obtain ts where "list_all plain ts" "token_match rs ts" using token_match_inhabited "4.prems"(1) by blast
  moreover from this "4.prems"(3) [of ts] have "ts = []" by (cases ts) auto
  ultimately show ?case by (cases rs; cases "hd rs") auto
next
  case (5 a as)
  from "5.prems"(3) [of "[]"] show ?case by (cases a; cases as; cases "hd as") auto
qed simp

section \<open>Properties\<close>

lemma is_pattern_covered_sound: "is_pattern_covered r a \<Longrightarrow> matches r s \<Longrightarrow> matches a s"
  by (auto simp: is_pattern_covered_covers matches_token_match intro: covers_sound)

text \<open>
  C27: \<open>is_pattern_covered requested allowed\<close> holds exactly when every token sequence the requested
  pattern matches is matched by the allowed one, for requested patterns without stray wildcard
  characters inside literals (those match no subject).
\<close>

theorem pattern_covered_iff:
  assumes "tokens_wf (p_tokens r)" and "list_all plain_token (p_tokens r)"
  shows "is_pattern_covered r a \<longleftrightarrow>
    (\<forall>ts. list_all plain ts \<longrightarrow> token_match (p_tokens r) ts \<longrightarrow> token_match (p_tokens a) ts)"
  unfolding is_pattern_covered_covers
  using covers_complete [of "p_tokens r" "p_tokens a"] covers_sound assms
  by (auto simp: tokens_wf_def)

definition pat_of :: "pattern_token list \<Rightarrow> subject_pattern" where
  "pat_of ts = \<lparr>p_raw = join dot (map token_str ts), p_tokens = ts\<rparr>"

theorem pattern_covered_iff_witness:
  "is_pattern_covered (pat_of [Literal [0x61], SingleWildcard]) (pat_of [Literal [0x61], MultiWildcard]) \<and>
   token_match [Literal [0x61], SingleWildcard] [[0x61], [0x62]] \<and>
   token_match [Literal [0x61], MultiWildcard] [[0x61], [0x62]]"
  using pattern_covered_iff
    [of "pat_of [Literal [0x61], SingleWildcard]" "pat_of [Literal [0x61], MultiWildcard]"]
  by (simp add: pat_of_def is_pattern_covered_covers tokens_wf_def literal_ok_def plain_def)

text \<open>The permission patterns of a context are the parsed permission texts, all of them.\<close>

lemma from_permissions_Inr:
  "from_permissions name perms = Inr ctx \<longleftrightarrow>
     ctx_username ctx = Some name \<and> map pattern_parse (perm_publish perms) = map Inr (publish_patterns ctx) \<and>
     map pattern_parse (perm_subscribe perms) = map Inr (subscribe_patterns ctx)"
proof -
  have pp: "map (permission_pattern k) xs = map Inr ys \<longleftrightarrow> map pattern_parse xs = map Inr ys" for k xs ys
  proof -
    have "permission_pattern k x = Inr y \<longleftrightarrow> pattern_parse x = Inr y" for x y
      by (cases "pattern_parse x") (auto simp: permission_pattern_def)
    then show ?thesis by (auto simp: list_eq_iff_nth_eq)
  qed
  have "from_permissions name perms = Inr ctx \<longleftrightarrow>
     (\<exists>ps ss. collect_results (permission_pattern (lit ''publish'')) (perm_publish perms) = Inr ps \<and>
        collect_results (permission_pattern (lit ''subscribe'')) (perm_subscribe perms) = Inr ss \<and>
        \<lparr>ctx_username = Some name, publish_patterns = ps, subscribe_patterns = ss\<rparr> = ctx)"
    by (auto simp: from_permissions_def split: sum.splits)
  then show ?thesis by (cases ctx) (auto simp: collect_results_Inr pp)
qed

text \<open>
  C28: a subscription a restricted session is allowed to make receives only subjects that one of its
  permission patterns matches, and it may publish only such subjects; the permission patterns are
  the parsed permission texts of the user, all of them.
\<close>

theorem permissions_confine:
  assumes "from_permissions user perms = Inr ctx"
    and "perm_subscribe perms \<noteq> []" and "perm_publish perms \<noteq> []"
  shows "map pattern_parse (perm_subscribe perms) = map Inr (subscribe_patterns ctx) \<and>
    map pattern_parse (perm_publish perms) = map Inr (publish_patterns ctx) \<and>
    (can_subscribe ctx p \<and> matches p s \<longrightarrow> (\<exists>a \<in> set (subscribe_patterns ctx). matches a s)) \<and>
    (can_publish ctx s \<longleftrightarrow> (\<exists>a \<in> set (publish_patterns ctx). matches a s))"
proof -
  have P: "map pattern_parse (perm_publish perms) = map Inr (publish_patterns ctx)"
    and S: "map pattern_parse (perm_subscribe perms) = map Inr (subscribe_patterns ctx)"
    using assms(1) by (simp_all add: from_permissions_Inr)
  with assms(2,3) have ne: "subscribe_patterns ctx \<noteq> []" "publish_patterns ctx \<noteq> []" by auto
  have "can_subscribe ctx p \<and> matches p s \<longrightarrow> (\<exists>a \<in> set (subscribe_patterns ctx). matches a s)"
    using ne by (auto simp: can_subscribe_def list_ex_iff intro: is_pattern_covered_sound)
  moreover have "can_publish ctx s \<longleftrightarrow> (\<exists>a \<in> set (publish_patterns ctx). matches a s)"
    using ne by (auto simp: can_publish_def list_ex_iff)
  ultimately show ?thesis using P S by simp
qed

definition perms_ab :: permissions_config where
  "perms_ab = \<lparr>perm_publish = [lit ''a.b''], perm_subscribe = [lit ''a.>'']\<rparr>"

definition ctx_ab :: auth_context where
  "ctx_ab = \<lparr>ctx_username = Some (lit ''u''), publish_patterns = [pat_of [Literal (lit ''a''), Literal (lit ''b'')]],
     subscribe_patterns = [pat_of [Literal (lit ''a''), MultiWildcard]]\<rparr>"

lemma trim_ab: "trim (lit ''a.b'') = lit ''a.b''" "trim (lit ''a.>'') = lit ''a.>''"
  by (simp_all add: lit_def trim_def trim_start_def trim_end_def strip_front_id stripped_def ws_encodings_def)

lemma parse_ab:
  "pattern_parse (lit ''a.b'') = Inr (pat_of [Literal (lit ''a''), Literal (lit ''b'')])"
  "pattern_parse (lit ''a.>'') = Inr (pat_of [Literal (lit ''a''), MultiWildcard])"
  unfolding pattern_parse_def trim_ab Let_def
  by (simp_all add: lit_def pat_of_def MAX_PATTERN_LEN_def MAX_TOKENS_def)

lemma from_permissions_ab: "from_permissions (lit ''u'') perms_ab = Inr ctx_ab"
  by (simp add: from_permissions_def perms_ab_def ctx_ab_def permission_pattern_def parse_ab [simplified])

theorem permissions_confine_witness:
  "can_subscribe ctx_ab (pat_of [Literal (lit ''a''), SingleWildcard]) \<and>
   matches (pat_of [Literal (lit ''a''), SingleWildcard]) \<lparr>s_raw = lit ''a.c'', s_tokens = [lit ''a'', lit ''c'']\<rparr> \<and>
   list_ex (\<lambda>a. matches a \<lparr>s_raw = lit ''a.c'', s_tokens = [lit ''a'', lit ''c'']\<rparr>) (subscribe_patterns ctx_ab) \<and>
   \<not> can_publish ctx_ab \<lparr>s_raw = lit ''a.c'', s_tokens = [lit ''a'', lit ''c'']\<rparr>"
  using permissions_confine [OF from_permissions_ab, of "pat_of [Literal (lit ''a''), SingleWildcard]"
      "\<lparr>s_raw = lit ''a.c'', s_tokens = [lit ''a'', lit ''c'']\<rparr>"]
  by (simp add: perms_ab_def ctx_ab_def can_subscribe_def can_publish_def is_pattern_covered_covers
      matches_token_match pat_of_def lit_def)

text \<open>
  Who is let in, told without the code: clients that are free (the configured token, or a configuration that names
  neither kind of credentials), and clients with the name and password of a configured account.  Of several accounts with the same name
  and password the first counts.  An account can only be used when its permission texts are patterns.
\<close>

definition admitted_freely :: "auth_info \<Rightarrow> server_config \<Rightarrow> bool" where
  "admitted_freely a cfg \<longleftrightarrow>
     (if auth_type (c_auth cfg) = lit ''token'' then a = Token (case auth_token (c_auth cfg) of Some t \<Rightarrow> t | None \<Rightarrow> [])
      else auth_type (c_auth cfg) \<noteq> lit ''userpass'')"

definition account :: "auth_info \<Rightarrow> server_config \<Rightarrow> user_config \<Rightarrow> bool" where
  "account a cfg u \<longleftrightarrow> auth_type (c_auth cfg) = lit ''userpass'' \<and> a = UserPass (u_username u) (u_password u) \<and>
     (\<exists>us vs. auth_users (c_auth cfg) = us @ u # vs \<and> (\<forall>v \<in> set us. a \<noteq> UserPass (u_username v) (u_password v))) \<and>
     (\<forall>t \<in> set (perm_publish (u_permissions u)) \<union> set (perm_subscribe (u_permissions u)). \<exists>p. pattern_parse t = Inr p)"

text \<open>A list of permission texts allows what one of its patterns allows; an empty one allows all.\<close>

definition allowed_by :: "(subject_pattern \<Rightarrow> bool) \<Rightarrow> str list \<Rightarrow> bool" where
  "allowed_by ok texts \<longleftrightarrow> texts = [] \<or> (\<exists>t \<in> set texts. \<exists>p. pattern_parse t = Inr p \<and> ok p)"

lemma all_parse: "(\<exists>ps. map f xs = map Inr ps) \<longleftrightarrow> (\<forall>x \<in> set xs. \<exists>p. f x = Inr p)"
proof (induction xs)
  case (Cons x xs)
  then show ?case by (auto simp: Cons_eq_map_conv map_eq_Cons_conv intro: exI [of _ "_ # _"])
qed simp

lemma allowed_by_parsed:
  assumes "map pattern_parse texts = map Inr ps"
  shows "allowed_by ok texts \<longleftrightarrow> ps = [] \<or> list_ex ok ps"
proof -
  have "(\<exists>t \<in> set texts. pattern_parse t = Inr p) \<longleftrightarrow> p \<in> set ps" for p
  proof -
    have "(\<exists>t \<in> set texts. pattern_parse t = Inr p) \<longleftrightarrow> Inr p \<in> set (map pattern_parse texts)" by force
    then show ?thesis unfolding assms by auto
  qed
  moreover have "texts = [] \<longleftrightarrow> ps = []" using assms by auto
  ultimately show ?thesis unfolding allowed_by_def list_ex_iff by blast
qed

lemma find_first: "find P xs = Some u \<longleftrightarrow> (\<exists>us vs. xs = us @ u # vs \<and> P u \<and> (\<forall>v \<in> set us. \<not> P v))"
proof
  assume "find P xs = Some u"
  then obtain i where i: "i < length xs" "P (xs ! i)" "u = xs ! i" "\<forall>j<i. \<not> P (xs ! j)" unfolding find_Some_iff by blast
  have "\<forall>v \<in> set (take i xs). \<not> P v" using i by (auto simp: in_set_conv_nth)
  moreover have "xs = take i xs @ u # drop (Suc i) xs" using i id_take_nth_drop by blast
  ultimately show "\<exists>us vs. xs = us @ u # vs \<and> P u \<and> (\<forall>v \<in> set us. \<not> P v)" using i by blast
next
  have "P u \<Longrightarrow> \<forall>v \<in> set us. \<not> P v \<Longrightarrow> find P (us @ u # vs) = Some u" for us vs by (induction us) auto
  then show "\<exists>us vs. xs = us @ u # vs \<and> P u \<and> (\<forall>v \<in> set us. \<not> P v) \<Longrightarrow> find P xs = Some u" by blast
qed

lemma validate_userpass:
  assumes "auth_type (c_auth cfg) = lit ''userpass''"
  shows "validate_auth a cfg = Inr ctx \<longleftrightarrow> (\<exists>u. account a cfg u \<and> from_permissions (u_username u) (u_permissions u) = Inr ctx)"
proof -
  have "lit ''userpass'' \<noteq> lit ''none''" "lit ''userpass'' \<noteq> lit ''token''" by (simp_all add: lit_def)
  then have "validate_auth a cfg = Inr ctx \<longleftrightarrow> (\<exists>name pw u. a = UserPass name pw \<and>
      find (\<lambda>u. u_username u = name \<and> u_password u = pw) (auth_users (c_auth cfg)) = Some u \<and>
      from_permissions name (u_permissions u) = Inr ctx)"
    using assms by (auto simp: validate_auth_def auth_is_enabled_def split: auth_info.splits option.splits)
  also have "\<dots> \<longleftrightarrow> (\<exists>u. account a cfg u \<and> from_permissions (u_username u) (u_permissions u) = Inr ctx)"
  proof -
    have "\<forall>t \<in> set (perm_publish pm) \<union> set (perm_subscribe pm). \<exists>p. pattern_parse t = Inr p"
      if "from_permissions name pm = Inr ctx" for name pm
      using that all_parse [of pattern_parse "perm_publish pm"] all_parse [of pattern_parse "perm_subscribe pm"]
      unfolding from_permissions_Inr by blast
    then show ?thesis using assms unfolding find_first account_def by fastforce
  qed
  finally show ?thesis .
qed

lemma account_context: "account a cfg u \<Longrightarrow> \<exists>ctx. from_permissions (u_username u) (u_permissions u) = Inr ctx"
proof -
  assume "account a cfg u"
  then obtain ps ss where "map pattern_parse (perm_publish (u_permissions u)) = map Inr ps"
      "map pattern_parse (perm_subscribe (u_permissions u)) = map Inr ss"
    using all_parse [of pattern_parse "perm_publish (u_permissions u)"] all_parse [of pattern_parse "perm_subscribe (u_permissions u)"]
    unfolding account_def by blast
  then show ?thesis
    by (intro exI [of _ "\<lparr>ctx_username = Some (u_username u), publish_patterns = ps, subscribe_patterns = ss\<rparr>"])
      (simp add: from_permissions_Inr)
qed

lemma validate_free:
  assumes "auth_type (c_auth cfg) \<noteq> lit ''userpass''"
  shows "validate_auth a cfg = Inr ctx \<longleftrightarrow> admitted_freely a cfg \<and> ctx = unrestricted"
proof -
  have "lit ''token'' \<noteq> lit ''none''" by (simp add: lit_def)
  then show ?thesis
    using assms by (auto simp: validate_auth_def admitted_freely_def auth_is_enabled_def Let_def split: auth_info.splits option.splits)
qed

text \<open>
  C29: who may do what.  Under every configuration and for any credentials, a client is let in with the right to
  publish to a subject exactly when it is admitted freely, or its name and password are those of an account (the first
  such) whose permission texts all parse and one of whose publish texts, if there are any, is a pattern that matches the
  subject; the same for the right to subscribe, with a subscribe text that covers the pattern.  A session with an
  account bears its name.
\<close>

theorem validate_auth_granted:
  "((\<exists>ctx. validate_auth a cfg = Inr ctx \<and> can_publish ctx s) \<longleftrightarrow>
      admitted_freely a cfg \<or> (\<exists>u. account a cfg u \<and> allowed_by (\<lambda>p. matches p s) (perm_publish (u_permissions u)))) \<and>
   ((\<exists>ctx. validate_auth a cfg = Inr ctx \<and> can_subscribe ctx q) \<longleftrightarrow>
      admitted_freely a cfg \<or> (\<exists>u. account a cfg u \<and> allowed_by (is_pattern_covered q) (perm_subscribe (u_permissions u)))) \<and>
   ((\<exists>ctx. validate_auth a cfg = Inr ctx \<and> ctx_username ctx = Some name) \<longleftrightarrow> (\<exists>u. account a cfg u \<and> u_username u = name))"
proof (cases "auth_type (c_auth cfg) = lit ''userpass''")
  case True
  have "lit ''userpass'' \<noteq> lit ''token''" by (simp add: lit_def)
  then have free: "\<not> admitted_freely a cfg" using True by (simp add: admitted_freely_def)
  have rights: "(can_publish ctx s \<longleftrightarrow> allowed_by (\<lambda>p. matches p s) (perm_publish pm)) \<and>
      (can_subscribe ctx q \<longleftrightarrow> allowed_by (is_pattern_covered q) (perm_subscribe pm)) \<and> ctx_username ctx = Some nm"
    if "from_permissions nm pm = Inr ctx" for nm pm ctx
    using that by (auto simp: from_permissions_Inr allowed_by_parsed can_publish_def can_subscribe_def)
  show ?thesis
    unfolding validate_userpass [OF True] using rights account_context [of a cfg] free by (intro conjI) (metis, metis, fastforce)
next
  case False
  then have "\<not> account a cfg u" for u by (simp add: account_def)
  then show ?thesis
    unfolding validate_free [OF False] by (simp add: unrestricted_def can_publish_def can_subscribe_def)
qed

text \<open>A client of an account, with the right password and with a wrong one.\<close>

definition userpass_cfg :: server_config where
  "userpass_cfg = server_config_default\<lparr>c_auth := \<lparr>auth_type = lit ''userpass'', auth_token = None,
     auth_users = [\<lparr>u_username = lit ''u'', u_password = lit ''pw'', u_permissions = perms_ab\<rparr>]\<rparr>\<rparr>"

lemma userpass_example:
  "validate_auth (UserPass (lit ''u'') (lit ''pw'')) userpass_cfg = Inr ctx_ab"
  "validate_auth (UserPass (lit ''u'') (lit ''px'')) userpass_cfg = Inl (lit ''authentication failed: invalid username or password'')"
  using from_permissions_ab by (simp_all add: validate_auth_def auth_is_enabled_def userpass_cfg_def lit_def)

text \<open>
  An \<open>auth_type\<close> that is none of the three documented ones enables authentication, yet lets
  every client in without restriction; and token authentication without a configured token accepts
  the empty token.
\<close>

lemma auth_fails_open:
  "validate_auth a (cfg\<lparr>c_auth := \<lparr>auth_type = lit ''Token'', auth_token = t, auth_users = us\<rparr>\<rparr>) = Inr unrestricted \<and>
   auth_is_enabled \<lparr>auth_type = lit ''Token'', auth_token = t, auth_users = us\<rparr> \<and>
   validate_auth (Token []) (cfg\<lparr>c_auth := \<lparr>auth_type = lit ''token'', auth_token = None, auth_users = us\<rparr>\<rparr>) = Inr unrestricted"
  by (simp add: validate_auth_def auth_is_enabled_def lit_def)

end
