(* ===== verification/Streams.thy ===== *)
theory Streams
  imports Core_Types
begin

text \<open>
  One stream of the persistence layer (\<open>zetmq-store/src/stream.rs\<close>): a deque of messages with
  consecutive sequence numbers, its counters and the retention loops.  \<open>now_millis\<close> reads the system
  clock, so its values are arguments.  Arithmetic on \<open>u64\<close> wraps, as in the release profile.  The
  reference semantics is a search in the deque and the suffix \<open>retained\<close> of everything stored.
\<close>

section \<open>Data\<close>

record stream_config =
  max_msgs :: u64
  max_bytes :: u64
  max_age_secs :: u64

definition stream_config_default :: stream_config where
  "stream_config_default = \<lparr>max_msgs = 0, max_bytes = 0, max_age_secs = 0\<rparr>"

definition with_max_msgs :: "u64 \<Rightarrow> stream_config \<Rightarrow> stream_config" where
  "with_max_msgs n c = c\<lparr>max_msgs := n\<rparr>"

definition with_max_bytes :: "u64 \<Rightarrow> stream_config \<Rightarrow> stream_config" where
  "with_max_bytes n c = c\<lparr>max_bytes := n\<rparr>"

definition with_max_age_secs :: "u64 \<Rightarrow> stream_config \<Rightarrow> stream_config" where
  "with_max_age_secs secs c = c\<lparr>max_age_secs := secs\<rparr>"

record stored_message =
  sm_sequence :: u64
  sm_timestamp :: u64
  sm_subject :: str
  sm_reply_to :: "str option"
  sm_payload :: bytes
  sm_headers :: "(str \<times> str) list option"

record stream_state =
  st_messages :: u64
  st_bytes :: u64
  first_seq :: u64
  last_seq :: u64

record stream_info_data =
  info_name :: str
  info_config :: stream_config
  info_state :: stream_state

record stream =
  stream_name :: str
  stream_cfg :: stream_config
  stream_st :: stream_state
  stream_msgs :: "stored_message list"

section \<open>Operations\<close>

definition stream_new :: "str \<Rightarrow> stream_config \<Rightarrow> stream" where
  "stream_new name config = \<lparr>stream_name = name, stream_cfg = config,
     stream_st = \<lparr>st_messages = 0, st_bytes = 0, first_seq = 1, last_seq = 0\<rparr>, stream_msgs = []\<rparr>"

definition stream_info_of :: "stream \<Rightarrow> stream_info_data" where
  "stream_info_of s = \<lparr>info_name = stream_name s, info_config = stream_cfg s, info_state = stream_st s\<rparr>"

definition remove_front :: "stream \<Rightarrow> stream" where
  "remove_front s =
     (case stream_msgs s of
        [] \<Rightarrow> s
      | m # ms \<Rightarrow> s\<lparr>stream_msgs := ms, stream_st := (stream_st s)
          \<lparr>st_bytes := st_bytes (stream_st s) - of_nat (length (sm_payload m)),
           st_messages := st_messages (stream_st s) - 1, first_seq := first_seq (stream_st s) + 1\<rparr>\<rparr>)"

lemma remove_front_shorter [termination_simp]:
  "stream_msgs s \<noteq> [] \<Longrightarrow> length (stream_msgs (remove_front s)) < length (stream_msgs s)"
  by (cases "stream_msgs s") (simp_all add: remove_front_def)

text \<open>The three loops of \<open>apply_retention\<close>; each takes a message off the front, so they terminate.\<close>

function evict_old :: "u64 \<Rightarrow> stream \<Rightarrow> stream" where
  "evict_old cutoff s =
     (case stream_msgs s of
        [] \<Rightarrow> s
      | front # _ \<Rightarrow> if sm_timestamp front < cutoff then evict_old cutoff (remove_front s) else s)"
  by pat_completeness auto
termination by (relation "measure (\<lambda>(c, s). length (stream_msgs s))") (auto simp: remove_front_def)

function evict_count :: "stream \<Rightarrow> stream" where
  "evict_count s =
     (if (of_nat (length (stream_msgs s)) :: u64) > max_msgs (stream_cfg s) then evict_count (remove_front s) else s)"
  by pat_completeness auto
termination
proof (relation "measure (\<lambda>s. length (stream_msgs s))")
  fix s :: stream assume "(of_nat (length (stream_msgs s)) :: u64) > max_msgs (stream_cfg s)"
  then have "stream_msgs s \<noteq> []" by (cases "stream_msgs s") auto
  then show "(remove_front s, s) \<in> measure (\<lambda>s. length (stream_msgs s))" by (simp add: remove_front_shorter)
qed simp

function evict_bytes :: "stream \<Rightarrow> stream" where
  "evict_bytes s =
     (if st_bytes (stream_st s) > max_bytes (stream_cfg s) \<and> length (stream_msgs s) > 1
      then evict_bytes (remove_front s) else s)"
  by pat_completeness auto
termination by (relation "measure (\<lambda>s. length (stream_msgs s))") (auto intro!: remove_front_shorter)

declare evict_old.simps [simp del] evict_count.simps [simp del] evict_bytes.simps [simp del]

definition apply_retention :: "u64 \<Rightarrow> stream \<Rightarrow> stream" where
  "apply_retention now s =
     (let s1 = (if max_age_secs (stream_cfg s) > 0 then evict_old (now - max_age_secs (stream_cfg s) * 1000) s else s);
          s2 = (if max_msgs (stream_cfg s1) > 0 then evict_count s1 else s1)
      in if max_bytes (stream_cfg s2) > 0 then evict_bytes s2 else s2)"

text \<open>\<open>timestamp\<close> and \<open>now\<close> are the two readings of the clock a call makes.\<close>

definition stream_store ::
  "u64 \<Rightarrow> u64 \<Rightarrow> str \<Rightarrow> str option \<Rightarrow> bytes \<Rightarrow> (str \<times> str) list option \<Rightarrow> stream \<Rightarrow> u64 \<times> stream" where
  "stream_store timestamp now subj reply_to data headers s =
     (let seq = last_seq (stream_st s) + 1;
          msg_bytes = of_nat (length data);
          msg = \<lparr>sm_sequence = seq, sm_timestamp = timestamp, sm_subject = subj, sm_reply_to = reply_to,
                 sm_payload = data, sm_headers = headers\<rparr>;
          s1 = s\<lparr>stream_msgs := stream_msgs s @ [msg], stream_st := (stream_st s)\<lparr>last_seq := seq,
                 st_messages := st_messages (stream_st s) + 1, st_bytes := st_bytes (stream_st s) + msg_bytes\<rparr>\<rparr>
      in (seq, apply_retention now s1))"

definition stream_read :: "u64 \<Rightarrow> stream \<Rightarrow> stored_message option" where
  "stream_read sequence s =
     (if sequence < first_seq (stream_st s) \<or> sequence > last_seq (stream_st s) then None
      else idx (stream_msgs s) (unat (sequence - first_seq (stream_st s))))"

definition stream_read_range :: "u64 \<Rightarrow> u64 \<Rightarrow> stream \<Rightarrow> stored_message list" where
  "stream_read_range start end s =
     (let a = max start (first_seq (stream_st s)); e = min end (last_seq (stream_st s)) in
      if a > e then []
      else take (unat (e - a + 1)) (drop (unat (a - first_seq (stream_st s))) (stream_msgs s)))"

section \<open>Invariant\<close>

definition total_bytes :: "stored_message list \<Rightarrow> nat" where
  "total_bytes ms = sum_list (map (length \<circ> sm_payload) ms)"

text \<open>
  The sequence numbers in the deque are exactly those from \<open>first_seq\<close> to \<open>last_seq\<close>, in order, and the
  counters count them.  The last sequence number is below the largest \<open>u64\<close>, so nothing has wrapped.
\<close>

definition stream_inv :: "stream \<Rightarrow> bool" where
  "stream_inv s \<longleftrightarrow>
     map (unat \<circ> sm_sequence) (stream_msgs s) = [unat (first_seq (stream_st s)) ..< Suc (unat (last_seq (stream_st s)))] \<and>
     1 \<le> unat (first_seq (stream_st s)) \<and> unat (first_seq (stream_st s)) \<le> Suc (unat (last_seq (stream_st s))) \<and>
     Suc (unat (last_seq (stream_st s))) < 2 ^ 64 \<and>
     st_messages (stream_st s) = of_nat (length (stream_msgs s)) \<and>
     st_bytes (stream_st s) = of_nat (total_bytes (stream_msgs s))"

lemma unat_Suc_u64: "Suc (unat w) < 2 ^ 64 \<Longrightarrow> unat (w + 1 :: u64) = Suc (unat w)"
  by (simp add: unat_word_ariths)

lemma stream_new_inv: "stream_inv (stream_new name c)"
  by (simp add: stream_inv_def stream_new_def total_bytes_def)

lemma stream_inv_length:
  "stream_inv s \<Longrightarrow> length (stream_msgs s) = Suc (unat (last_seq (stream_st s))) - unat (first_seq (stream_st s))"
  by (metis length_map length_upt stream_inv_def)

lemma stream_inv_last: "stream_inv s \<Longrightarrow> Suc (unat (last_seq (stream_st s))) < 2 ^ 64"
  by (simp only: stream_inv_def)

lemma remove_front_fields:
  "stream_msgs (remove_front s) = tl (stream_msgs s)" "stream_cfg (remove_front s) = stream_cfg s"
  "stream_name (remove_front s) = stream_name s" "last_seq (stream_st (remove_front s)) = last_seq (stream_st s)"
  by (cases "stream_msgs s"; simp add: remove_front_def)+

lemma remove_front_inv:
  assumes inv: "stream_inv s"
  shows "stream_inv (remove_front s)"
proof (cases "stream_msgs s")
  case Nil
  then show ?thesis using inv by (simp add: remove_front_def)
next
  case (Cons m ms)
  let ?f = "first_seq (stream_st s)" and ?l = "last_seq (stream_st s)"
  have seqs: "map (unat \<circ> sm_sequence) (m # ms) = [unat ?f ..< Suc (unat ?l)]" and l: "Suc (unat ?l) < 2 ^ 64"
    and c: "st_messages (stream_st s) = of_nat (length (m # ms))" "st_bytes (stream_st s) = of_nat (total_bytes (m # ms))"
    using inv Cons by (simp_all add: stream_inv_def)
  have lt: "unat ?f < Suc (unat ?l)"
  proof (rule ccontr)
    assume "\<not> unat ?f < Suc (unat ?l)"
    then have "[unat ?f ..< Suc (unat ?l)] = []" by simp
    with seqs show False by simp
  qed
  then have f: "unat (?f + 1) = Suc (unat ?f)" using l by (intro unat_Suc_u64) simp
  have "map (unat \<circ> sm_sequence) ms = [Suc (unat ?f) ..< Suc (unat ?l)]"
    using seqs lt by (simp add: upt_conv_Cons del: upt_Suc)
  then show ?thesis
    using Cons lt l c f by (simp add: stream_inv_def remove_front_def total_bytes_def)
qed

section \<open>Retention\<close>

fun byte_keep :: "nat \<Rightarrow> stored_message list \<Rightarrow> stored_message list" where
  "byte_keep k [] = []"
| "byte_keep k (m # ms) = (if total_bytes (m # ms) > k \<and> ms \<noteq> [] then byte_keep k ms else m # ms)"

definition keep_age :: "stream_config \<Rightarrow> u64 \<Rightarrow> stored_message list \<Rightarrow> stored_message list" where
  "keep_age c now ms =
     (if max_age_secs c > 0 then dropWhile (\<lambda>m. sm_timestamp m < now - max_age_secs c * 1000) ms else ms)"

definition keep_count :: "stream_config \<Rightarrow> stored_message list \<Rightarrow> stored_message list" where
  "keep_count c ms = (if max_msgs c > 0 then drop (length ms - unat (max_msgs c)) ms else ms)"

definition keep_bytes :: "stream_config \<Rightarrow> stored_message list \<Rightarrow> stored_message list" where
  "keep_bytes c ms = (if max_bytes c > 0 then byte_keep (unat (max_bytes c)) ms else ms)"

definition retained :: "stream_config \<Rightarrow> u64 \<Rightarrow> stored_message list \<Rightarrow> stored_message list" where
  "retained c now ms = keep_bytes c (keep_count c (keep_age c now ms))"

text \<open>A loop that keeps the invariant and the name, configuration and last sequence number.\<close>

definition evicts :: "stream \<Rightarrow> stream \<Rightarrow> stored_message list \<Rightarrow> bool" where
  "evicts s s' ms \<longleftrightarrow> stream_inv s' \<and> stream_msgs s' = ms \<and> stream_cfg s' = stream_cfg s \<and>
     stream_name s' = stream_name s \<and> last_seq (stream_st s') = last_seq (stream_st s)"

lemma evicts_refl: "stream_inv s \<Longrightarrow> evicts s s (stream_msgs s)"
  by (simp add: evicts_def)

lemma evicts_front: "stream_inv s \<Longrightarrow> evicts (remove_front s) s' ms \<Longrightarrow> evicts s s' ms"
  by (simp add: evicts_def remove_front_fields)

lemma evicts_trans: "evicts s s1 a \<Longrightarrow> evicts s1 s2 b \<Longrightarrow> evicts s s2 b"
  by (simp add: evicts_def)

lemma evict_old_evicts:
  "stream_inv s \<Longrightarrow> evicts s (evict_old c s) (dropWhile (\<lambda>m. sm_timestamp m < c) (stream_msgs s))"
proof (induction c s rule: evict_old.induct)
  case (1 c s)
  show ?case
  proof (cases "stream_msgs s")
    case Nil
    then show ?thesis using "1.prems" evicts_refl [of s] by (simp add: evict_old.simps [of c s])
  next
    case (Cons m ms)
    show ?thesis
    proof (cases "sm_timestamp m < c")
      case True
      from "1.IH" [OF Cons True remove_front_inv [OF "1.prems"]]
      have "evicts (remove_front s) (evict_old c (remove_front s)) (dropWhile (\<lambda>m. sm_timestamp m < c) ms)"
        by (simp add: remove_front_fields Cons)
      then show ?thesis
        using evicts_front [OF "1.prems"] Cons True by (simp add: evict_old.simps [of c s])
    next
      case False
      then show ?thesis using "1.prems" evicts_refl [of s] Cons by (simp add: evict_old.simps [of c s])
    qed
  qed
qed

lemma evict_count_evicts:
  "stream_inv s \<Longrightarrow> evicts s (evict_count s)
     (drop (length (stream_msgs s) - unat (max_msgs (stream_cfg s))) (stream_msgs s))"
proof (induction s rule: evict_count.induct)
  case (1 s)
  let ?ms = "stream_msgs s" and ?k = "max_msgs (stream_cfg s)"
  have "length ?ms < 2 ^ 64" using stream_inv_length [OF "1.prems"] stream_inv_last [OF "1.prems"] by linarith
  then have len: "unat (of_nat (length ?ms) :: u64) = length ?ms" by (simp add: unat_of_nat)
  then have gt: "(of_nat (length ?ms) :: u64) > ?k \<longleftrightarrow> length ?ms > unat ?k" by (simp add: word_less_nat_alt)
  show ?case
  proof (cases "length ?ms > unat ?k")
    case True
    then obtain m ms where Cons: "?ms = m # ms" by (cases ?ms) auto
    from "1.IH" [OF True [folded gt] remove_front_inv [OF "1.prems"]]
    have "evicts (remove_front s) (evict_count (remove_front s)) (drop (length ms - unat ?k) ms)"
      by (simp add: remove_front_fields Cons)
    moreover have "drop (length ?ms - unat ?k) ?ms = drop (length ms - unat ?k) ms"
      using True Cons by (simp add: Suc_diff_le)
    ultimately show ?thesis
      using evicts_front [OF "1.prems"] True gt by (simp add: evict_count.simps [of s])
  next
    case False
    then show ?thesis using evicts_refl [OF "1.prems"] gt by (simp add: evict_count.simps [of s])
  qed
qed

lemma evict_bytes_evicts:
  "stream_inv s \<Longrightarrow> total_bytes (stream_msgs s) < 2 ^ 64 \<Longrightarrow>
     evicts s (evict_bytes s) (byte_keep (unat (max_bytes (stream_cfg s))) (stream_msgs s))"
proof (induction s rule: evict_bytes.induct)
  case (1 s)
  let ?ms = "stream_msgs s" and ?k = "max_bytes (stream_cfg s)"
  have gt: "st_bytes (stream_st s) > ?k \<longleftrightarrow> total_bytes ?ms > unat ?k"
    using "1.prems" by (simp add: stream_inv_def word_less_nat_alt unat_of_nat)
  show ?case
  proof (cases "total_bytes ?ms > unat ?k \<and> length ?ms > 1")
    case True
    then obtain m ms where Cons: "?ms = m # ms" "ms \<noteq> []" by (cases ?ms) auto
    have "total_bytes (tl ?ms) < 2 ^ 64" using "1.prems"(2) Cons by (simp add: total_bytes_def)
    with "1.IH" [OF True [folded gt] remove_front_inv [OF "1.prems"(1)]]
    have "evicts (remove_front s) (evict_bytes (remove_front s)) (byte_keep (unat ?k) ms)"
      by (simp add: remove_front_fields Cons)
    then show ?thesis
      using evicts_front [OF "1.prems"(1)] True gt Cons by (simp add: evict_bytes.simps [of s])
  next
    case False
    then have "byte_keep (unat ?k) ?ms = ?ms" by (cases ?ms) auto
    then show ?thesis using evicts_refl [OF "1.prems"(1)] False gt by (auto simp: evict_bytes.simps [of s])
  qed
qed

lemma total_bytes_drop: "total_bytes (drop n ms) \<le> total_bytes ms"
  by (metis append_take_drop_id le_add2 map_append sum_list_append total_bytes_def)

lemma byte_keep_suffix: "\<exists>n. byte_keep k ms = drop n ms"
  by (induction ms) (auto intro: exI [of _ "Suc n" for n] exI [of _ 0])

lemma keep_suffixes:
  "\<exists>n. keep_age c now ms = drop n ms" "\<exists>n. keep_count c ms = drop n ms" "\<exists>n. keep_bytes c ms = drop n ms"
  using byte_keep_suffix dropWhile_eq_drop drop0 unfolding keep_age_def keep_count_def keep_bytes_def by metis+

lemma retained_suffix: "\<exists>n. retained c now ms = drop n ms"
  unfolding retained_def using keep_suffixes by (metis drop_drop)

lemma apply_retention_evicts:
  assumes "stream_inv s" and "total_bytes (stream_msgs s) < 2 ^ 64"
  shows "evicts s (apply_retention now s) (retained (stream_cfg s) now (stream_msgs s))"
proof -
  let ?c = "stream_cfg s"
  define s1 where "s1 = (if max_age_secs ?c > 0 then evict_old (now - max_age_secs ?c * 1000) s else s)"
  define s2 where "s2 = (if max_msgs (stream_cfg s1) > 0 then evict_count s1 else s1)"
  define a where "a = keep_age ?c now (stream_msgs s)"
  have 1: "evicts s s1 a" using assms(1) by (simp add: s1_def a_def keep_age_def evict_old_evicts evicts_refl)
  then have "evicts s1 s2 (keep_count ?c a)"
    using evict_count_evicts [of s1] evicts_refl [of s1] by (simp add: s2_def keep_count_def evicts_def)
  with 1 have 2: "evicts s s2 (keep_count ?c a)" by (blast intro: evicts_trans)
  have "total_bytes (keep_count ?c a) < 2 ^ 64"
    using assms(2) total_bytes_drop keep_suffixes unfolding a_def by (metis le_less_trans)
  with 2 have "evicts s2 (if max_bytes (stream_cfg s2) > 0 then evict_bytes s2 else s2) (keep_bytes ?c (keep_count ?c a))"
    using evict_bytes_evicts [of s2] evicts_refl [of s2] by (simp add: evicts_def keep_bytes_def)
  with 2 show ?thesis
    unfolding apply_retention_def Let_def s1_def [symmetric] s2_def [symmetric] retained_def a_def [symmetric]
    by (blast intro: evicts_trans)
qed

section \<open>Reading\<close>

lemma seq_nth:
  assumes "stream_inv s" and "i < length (stream_msgs s)"
  shows "unat (sm_sequence (stream_msgs s ! i)) = unat (first_seq (stream_st s)) + i"
proof -
  have "unat (sm_sequence (stream_msgs s ! i)) = map (unat \<circ> sm_sequence) (stream_msgs s) ! i" using assms(2) by simp
  also have "\<dots> = [unat (first_seq (stream_st s)) ..< Suc (unat (last_seq (stream_st s)))] ! i"
    using assms(1) by (simp only: stream_inv_def)
  finally show ?thesis using assms(2) stream_inv_length [OF assms(1)] by (simp add: nth_upt del: upt_Suc)
qed

lemma find_nth_unique:
  "i < length xs \<Longrightarrow> P (xs ! i) \<Longrightarrow> (\<And>j. j < length xs \<Longrightarrow> P (xs ! j) \<Longrightarrow> j = i) \<Longrightarrow> find P xs = Some (xs ! i)"
  unfolding find_Some_iff by (intro exI [of _ i]) (metis less_irrefl less_trans)

lemma stream_read_find:
  assumes inv: "stream_inv s"
  shows "stream_read q s = find (\<lambda>m. sm_sequence m = q) (stream_msgs s)"
proof (cases "q < first_seq (stream_st s) \<or> q > last_seq (stream_st s)")
  case True
  have "sm_sequence m \<noteq> q" if m: "m \<in> set (stream_msgs s)" for m
  proof -
    obtain i where i: "i < length (stream_msgs s)" "m = stream_msgs s ! i" using m by (auto simp: in_set_conv_nth)
    have "unat (first_seq (stream_st s)) \<le> unat (sm_sequence m)" "unat (sm_sequence m) \<le> unat (last_seq (stream_st s))"
      using seq_nth [OF inv i(1), folded i(2)] i(1) [unfolded stream_inv_length [OF inv]] by linarith+
    then have "\<not> (sm_sequence m < first_seq (stream_st s) \<or> sm_sequence m > last_seq (stream_st s))"
      by (simp only: word_less_nat_alt not_less de_Morgan_disj)
    with True show ?thesis by blast
  qed
  then have "find (\<lambda>m. sm_sequence m = q) (stream_msgs s) = None" by (simp add: find_None_iff)
  with True show ?thesis by (simp add: stream_read_def)
next
  case False
  let ?i = "unat (q - first_seq (stream_st s))"
  have le: "unat (first_seq (stream_st s)) \<le> unat q" "unat q \<le> unat (last_seq (stream_st s))"
    using False by (simp_all add: word_less_nat_alt not_less)
  then have i: "?i = unat q - unat (first_seq (stream_st s))" by (simp add: unat_sub word_le_nat_alt)
  then have lt: "?i < length (stream_msgs s)" using le stream_inv_length [OF inv] by simp
  have "find (\<lambda>m. sm_sequence m = q) (stream_msgs s) = Some (stream_msgs s ! ?i)"
  proof (rule find_nth_unique [OF lt])
    show "sm_sequence (stream_msgs s ! ?i) = q" using seq_nth [OF inv lt] le i by (simp add: word_unat_eq_iff)
    show "j = ?i" if "j < length (stream_msgs s)" "sm_sequence (stream_msgs s ! j) = q" for j
      using seq_nth [OF inv that(1)] that(2) i le by simp
  qed
  with False lt show ?thesis by (simp add: stream_read_def idx_def)
qed

lemma filter_consecutive:
  "map f xs = [a ..< b] \<Longrightarrow> a \<le> lo \<Longrightarrow>
     filter (\<lambda>x. lo \<le> f x \<and> f x \<le> hi) xs = take (Suc hi - lo) (drop (lo - a) xs)"
proof (induction xs arbitrary: a lo)
  case (Cons x xs)
  then have ab: "a < b" and x: "f x = a" and xs: "map f xs = [Suc a ..< b]"
    by (auto simp: upt_eq_Cons_conv [symmetric] Cons_eq_map_conv dest!: sym [of _ "[a ..< b]"] simp: upt_eq_Cons_conv)
  show ?case
  proof (cases "lo = a")
    case True
    have ge: "Suc a \<le> f y" if "y \<in> set xs" for y
    proof -
      have "f y \<in> set (map f xs)" using that by simp
      then show ?thesis using xs by simp
    qed
    show ?thesis
    proof (cases "a \<le> hi")
      case a: True
      have "filter (\<lambda>x. lo \<le> f x \<and> f x \<le> hi) xs = filter (\<lambda>x. Suc a \<le> f x \<and> f x \<le> hi) xs"
        using ge True by (intro filter_cong) (auto simp: Suc_le_eq less_imp_le)
      also have "\<dots> = take (Suc hi - Suc a) xs" using Cons.IH [OF xs] by simp
      finally show ?thesis using True a x by (simp add: Suc_diff_le)
    next
      case False
      then have "filter (\<lambda>x. lo \<le> f x \<and> f x \<le> hi) xs = []" using ge by (force simp: filter_empty_conv)
      then show ?thesis using False True x by simp
    qed
  next
    case False
    then have "Suc a \<le> lo" using Cons.prems(2) by simp
    with Cons.IH [OF xs this] x show ?thesis by (simp add: Suc_diff_le [symmetric] diff_Suc split: nat.split)
  qed
qed simp

lemma stream_read_range_filter:
  assumes inv: "stream_inv s"
  shows "stream_read_range a e s = filter (\<lambda>m. a \<le> sm_sequence m \<and> sm_sequence m \<le> e) (stream_msgs s)"
proof -
  let ?f = "first_seq (stream_st s)" and ?l = "last_seq (stream_st s)" and ?q = "unat \<circ> sm_sequence"
  let ?lo = "max (unat a) (unat ?f)" and ?hi = "min (unat e) (unat ?l)"
  have seqs: "map ?q (stream_msgs s) = [unat ?f ..< Suc (unat ?l)]" using inv by (simp only: stream_inv_def)
  have bounds: "unat ?f \<le> ?q m \<and> ?q m \<le> unat ?l" if "m \<in> set (stream_msgs s)" for m
  proof -
    have "?q m \<in> set (map ?q (stream_msgs s))" using that by simp
    then show ?thesis unfolding seqs by (simp del: upt_Suc)
  qed
  have "filter (\<lambda>m. a \<le> sm_sequence m \<and> sm_sequence m \<le> e) (stream_msgs s) =
      filter (\<lambda>m. ?lo \<le> ?q m \<and> ?q m \<le> ?hi) (stream_msgs s)"
    by (rule filter_cong) (use bounds in \<open>auto simp: word_le_nat_alt\<close>)
  also have "\<dots> = take (Suc ?hi - ?lo) (drop (?lo - unat ?f) (stream_msgs s))"
    by (rule filter_consecutive [OF seqs]) simp
  finally have flt: "filter (\<lambda>m. a \<le> sm_sequence m \<and> sm_sequence m \<le> e) (stream_msgs s) =
      take (Suc ?hi - ?lo) (drop (?lo - unat ?f) (stream_msgs s))" .
  have A: "unat (max a ?f) = ?lo" and E: "unat (min e ?l) = ?hi"
    by (simp_all add: max_def min_def word_le_nat_alt)
  show ?thesis
  proof (cases "max a ?f > min e ?l")
    case True
    then have "?lo > ?hi" by (simp add: word_less_nat_alt A E)
    then have "Suc ?hi - ?lo = 0" by simp
    with flt have "filter (\<lambda>m. a \<le> sm_sequence m \<and> sm_sequence m \<le> e) (stream_msgs s) = []" by (simp only: take_0)
    with True show ?thesis by (simp add: stream_read_range_def)
  next
    case False
    then have le: "?lo \<le> ?hi" by (simp add: word_less_nat_alt A E not_less)
    have "unat (min e ?l - max a ?f) = ?hi - ?lo"
      using False by (subst unat_sub) (simp_all add: A E not_less)
    moreover have "Suc (?hi - ?lo) < 2 ^ 64" using stream_inv_last [OF inv] by linarith
    ultimately have n: "unat (min e ?l - max a ?f + 1) = Suc ?hi - ?lo"
      using le unat_Suc_u64 [of "min e ?l - max a ?f"] by (simp only: Suc_diff_le)
    have k: "unat (max a ?f - ?f) = ?lo - unat ?f" by (subst unat_sub) (simp_all add: A)
    show ?thesis using False flt by (simp only: stream_read_range_def Let_def n k if_False)
  qed
qed

section \<open>Storing\<close>

lemma stream_store_evicts:
  assumes inv: "stream_inv s" and room: "unat (last_seq (stream_st s)) + 2 < 2 ^ 64"
    and fits: "total_bytes (stream_msgs s) + length data < 2 ^ 64"
    and st: "stream_store ts now subj reply data hs s = (q, s')"
  shows "unat q = Suc (unat (last_seq (stream_st s))) \<and> last_seq (stream_st s') = q \<and> stream_inv s' \<and>
    stream_cfg s' = stream_cfg s \<and> stream_name s' = stream_name s \<and>
    stream_msgs s' = retained (stream_cfg s) now (stream_msgs s @
      [\<lparr>sm_sequence = q, sm_timestamp = ts, sm_subject = subj, sm_reply_to = reply, sm_payload = data, sm_headers = hs\<rparr>])"
proof -
  define m where "m = \<lparr>sm_sequence = q, sm_timestamp = ts, sm_subject = subj, sm_reply_to = reply, sm_payload = data, sm_headers = hs\<rparr>"
  define s1 where "s1 = s\<lparr>stream_msgs := stream_msgs s @ [m], stream_st := (stream_st s)\<lparr>last_seq := q,
      st_messages := st_messages (stream_st s) + 1, st_bytes := st_bytes (stream_st s) + of_nat (length data)\<rparr>\<rparr>"
  have q: "q = last_seq (stream_st s) + 1" and s': "s' = apply_retention now s1"
    using st by (auto simp: stream_store_def Let_def s1_def m_def)
  have uq: "unat q = Suc (unat (last_seq (stream_st s)))" unfolding q using room by (intro unat_Suc_u64) simp
  have "unat (first_seq (stream_st s)) \<le> Suc (unat (last_seq (stream_st s)))" using inv by (simp add: stream_inv_def)
  then have "map (unat \<circ> sm_sequence) (stream_msgs s1) = [unat (first_seq (stream_st s)) ..< Suc (unat q)]"
    using inv uq by (simp add: stream_inv_def s1_def m_def)
  then have inv1: "stream_inv s1"
    using inv uq room by (simp add: stream_inv_def s1_def total_bytes_def m_def del: upt_Suc)
  have "total_bytes (stream_msgs s1) < 2 ^ 64" using fits by (simp add: s1_def m_def total_bytes_def)
  from apply_retention_evicts [OF inv1 this, of now] have "evicts s1 s' (retained (stream_cfg s) now (stream_msgs s @ [m]))"
    by (simp add: s' s1_def)
  then show ?thesis using uq by (simp add: evicts_def s1_def flip: m_def)
qed

lemma byte_keep_limit: "total_bytes (byte_keep k ms) \<le> k \<or> length (byte_keep k ms) \<le> 1"
  by (induction ms) (auto simp: total_bytes_def)

lemma byte_keep_maximal: "n < length ms \<Longrightarrow> length ms - n > length (byte_keep k ms) \<Longrightarrow> total_bytes (drop n ms) > k"
proof (induction ms arbitrary: n)
  case (Cons m ms)
  show ?case
  proof (cases n)
    case 0
    then show ?thesis using Cons.prems by (auto split: if_splits)
  next
    case (Suc j)
    show ?thesis
    proof (cases "total_bytes (m # ms) > k \<and> ms \<noteq> []")
      case True
      then show ?thesis using Cons.IH [of j] Cons.prems Suc by simp
    next
      case False
      then show ?thesis using Cons.prems Suc by (auto split: if_splits)
    qed
  qed
qed simp

lemma byte_keep_last: "ms \<noteq> [] \<Longrightarrow> byte_keep k ms \<noteq> []"
  by (induction ms) auto

end
