(* ===== verification/Store.thy ===== *)
theory Store
  imports Streams "HOL-Library.AList"
begin

text \<open>
  The store and its durable consumers (\<open>zetmq-store/src/memory.rs\<close>, \<open>consumer.rs\<close>, \<open>error.rs\<close>, and
  \<open>zetmq-server/src/store.rs\<close>, which holds one store shared with its consumer manager).  Each
  critical section takes the whole locked state and returns it updated.  A \<open>HashMap\<close> is one enumeration of its entries
  with distinct keys.  Readings of the clock are arguments.
\<close>

section \<open>Errors\<close>

datatype store_error =
    StreamNotFound str
  | StreamAlreadyExists str
  | ConsumerAlreadyExists str
  | InvalidOffset u64 u64
  | StoreClosed
  | StoreIo str
  | StoreSerialization str

fun store_error_display :: "store_error \<Rightarrow> str" where
  "store_error_display (StreamNotFound n) = lit ''stream not found: '' @ n"
| "store_error_display (StreamAlreadyExists n) = lit ''stream already exists: '' @ n"
| "store_error_display (ConsumerAlreadyExists n) = lit ''consumer already exists: '' @ n"
| "store_error_display (InvalidOffset requested mx) =
     lit ''invalid offset: expected <= '' @ dec (unat mx) @ lit '', got '' @ dec (unat requested)"
| "store_error_display StoreClosed = lit ''store closed''"
| "store_error_display (StoreIo e) = lit ''IO error: '' @ e"
| "store_error_display (StoreSerialization e) = lit ''serialization error: '' @ e"

section \<open>Memory store\<close>

type_synonym memory_store = "(str \<times> stream) list"

definition create_stream :: "str \<Rightarrow> stream_config \<Rightarrow> memory_store \<Rightarrow> (store_error + stream_info_data) \<times> memory_store" where
  "create_stream name config streams =
     (if map_of streams name \<noteq> None then (Inl (StreamAlreadyExists name), streams)
      else (let s = stream_new name config in (Inr (stream_info_of s), AList.update name s streams)))"

definition delete_stream :: "str \<Rightarrow> memory_store \<Rightarrow> (store_error + unit) \<times> memory_store" where
  "delete_stream name streams = (Inr (), AList.delete name streams)"

definition stream_info :: "str \<Rightarrow> memory_store \<Rightarrow> store_error + stream_info_data" where
  "stream_info name streams =
     (case map_of streams name of Some s \<Rightarrow> Inr (stream_info_of s) | None \<Rightarrow> Inl (StreamNotFound name))"

definition list_streams :: "memory_store \<Rightarrow> stream_info_data list" where
  "list_streams streams = map (stream_info_of \<circ> snd) streams"

definition store_message ::
  "u64 \<Rightarrow> u64 \<Rightarrow> str \<Rightarrow> str \<Rightarrow> str option \<Rightarrow> bytes \<Rightarrow> (str \<times> str) list option \<Rightarrow> memory_store \<Rightarrow>
   (store_error + u64) \<times> memory_store" where
  "store_message timestamp now name subj reply_to data headers streams =
     (let s = (case map_of streams name of Some s \<Rightarrow> s | None \<Rightarrow> stream_new name stream_config_default);
          (seq, s') = stream_store timestamp now subj reply_to data headers s
      in (Inr seq, AList.update name s' streams))"

definition read_message :: "str \<Rightarrow> u64 \<Rightarrow> memory_store \<Rightarrow> store_error + stored_message" where
  "read_message name sequence streams =
     (case map_of streams name of
        None \<Rightarrow> Inl (StreamNotFound name)
      | Some s \<Rightarrow>
          (case stream_read sequence s of
             Some m \<Rightarrow> Inr m
           | None \<Rightarrow> Inl (InvalidOffset sequence (last_seq (stream_st s)))))"

definition read_range :: "str \<Rightarrow> u64 \<Rightarrow> u64 \<Rightarrow> memory_store \<Rightarrow> store_error + stored_message list" where
  "read_range name start end streams =
     (case map_of streams name of
        None \<Rightarrow> Inl (StreamNotFound name)
      | Some s \<Rightarrow> Inr (stream_read_range start end s))"

section \<open>Consumers\<close>

datatype deliver_policy = DeliverAll | DeliverLast | DeliverNew | ByStartSequence u64

datatype ack_policy = AckNone | AckExplicit | AckAll

record consumer_config =
  durable_name :: str
  cc_stream :: str
  filter_subject :: "str option"
  deliver_policy_of :: deliver_policy
  ack_policy_of :: ack_policy
  max_ack_pending :: u64

record consumer_state =
  next_sequence :: u64
  pending_ack_count :: u64
  pending_acks :: "(u64 \<times> u64) list"
  delivered_count :: u64
  acked_count :: u64

record consumer =
  con_config :: consumer_config
  con_state :: consumer_state

definition consumer_new :: "consumer_config \<Rightarrow> u64 \<Rightarrow> consumer" where
  "consumer_new config stream_last_seq =
     (let start_seq = (case deliver_policy_of config of
          DeliverAll \<Rightarrow> 1
        | DeliverLast \<Rightarrow> max stream_last_seq 1
        | DeliverNew \<Rightarrow> stream_last_seq + 1
        | ByStartSequence sequence \<Rightarrow> sequence)
      in \<lparr>con_config = config, con_state = \<lparr>next_sequence = start_seq, pending_ack_count = 0, pending_acks = [],
           delivered_count = 0, acked_count = 0\<rparr>\<rparr>)"

definition record_delivery :: "u64 \<Rightarrow> u64 \<Rightarrow> consumer \<Rightarrow> consumer" where
  "record_delivery now sequence c =
     (let st = con_state c in
      c\<lparr>con_state := st\<lparr>pending_acks := AList.update sequence now (pending_acks st),
          pending_ack_count := pending_ack_count st + 1, delivered_count := delivered_count st + 1,
          next_sequence := sequence + 1\<rparr>\<rparr>)"

definition consumer_ack :: "u64 \<Rightarrow> consumer \<Rightarrow> bool \<times> consumer" where
  "consumer_ack sequence c =
     (let st = con_state c in
      if map_of (pending_acks st) sequence \<noteq> None then
        (let p = AList.delete sequence (pending_acks st) in
         (True, c\<lparr>con_state := st\<lparr>pending_acks := p, pending_ack_count := of_nat (length p),
            acked_count := acked_count st + 1\<rparr>\<rparr>))
      else (False, c))"

definition is_backpressured :: "consumer \<Rightarrow> bool" where
  "is_backpressured c \<longleftrightarrow> max_ack_pending (con_config c) > 0 \<and>
     pending_ack_count (con_state c) \<ge> max_ack_pending (con_config c)"

section \<open>Consumer manager\<close>

record consumer_manager =
  cm_store :: memory_store
  cm_consumers :: "(str \<times> consumer) list"

definition consumer_key :: "str \<Rightarrow> str \<Rightarrow> str" where
  "consumer_key stream name = stream @ lit '':'' @ name"

text \<open>
  \<open>create_consumer\<close> reads the stream under one lock and inserts the consumer under another; between the two the stream
  may change.  The second part works with the information the first one read.
\<close>

definition insert_consumer :: "stream_info_data \<Rightarrow> consumer_config \<Rightarrow> consumer_manager \<Rightarrow> (store_error + unit) \<times> consumer_manager" where
  "insert_consumer info config m =
     (let key = consumer_key (cc_stream config) (durable_name config) in
      if map_of (cm_consumers m) key \<noteq> None then
        (Inl (ConsumerAlreadyExists (lit ''consumer '' @ durable_name config @ lit '' on stream '' @ cc_stream config)), m)
      else
        (let c = consumer_new config (last_seq (info_state info)) in
         (Inr (), m\<lparr>cm_consumers := AList.update key c (cm_consumers m)\<rparr>)))"

definition create_consumer :: "consumer_config \<Rightarrow> consumer_manager \<Rightarrow> (store_error + unit) \<times> consumer_manager" where
  "create_consumer config m =
     (case stream_info (cc_stream config) (cm_store m) of
        Inl e \<Rightarrow> (Inl e, m)
      | Inr info \<Rightarrow> insert_consumer info config m)"

definition delete_consumer :: "str \<Rightarrow> str \<Rightarrow> consumer_manager \<Rightarrow> (store_error + unit) \<times> consumer_manager" where
  "delete_consumer stream name m =
     (Inr (), m\<lparr>cm_consumers := AList.delete (consumer_key stream name) (cm_consumers m)\<rparr>)"

definition get_consumer :: "str \<Rightarrow> str \<Rightarrow> consumer_manager \<Rightarrow> store_error + unit" where
  "get_consumer stream name m =
     (if map_of (cm_consumers m) (consumer_key stream name) \<noteq> None then Inr ()
      else Inl (StreamNotFound (lit ''consumer '' @ name @ lit '' on stream '' @ stream)))"

definition next_for_consumer ::
  "u64 \<Rightarrow> str \<Rightarrow> str \<Rightarrow> consumer_manager \<Rightarrow> (store_error + stored_message option) \<times> consumer_manager" where
  "next_for_consumer now stream name m =
     (let key = consumer_key stream name in
      case map_of (cm_consumers m) key of
        None \<Rightarrow> (Inl (StreamNotFound (lit ''consumer '' @ name)), m)
      | Some c \<Rightarrow>
          if is_backpressured c then (Inr None, m)
          else
            (let seq = next_sequence (con_state c) in
             case read_message stream seq (cm_store m) of
               Inr msg \<Rightarrow> (Inr (Some msg), m\<lparr>cm_consumers := AList.update key (record_delivery now seq c) (cm_consumers m)\<rparr>)
             | Inl _ \<Rightarrow> (Inr None, m)))"

definition manager_ack :: "str \<Rightarrow> str \<Rightarrow> u64 \<Rightarrow> consumer_manager \<Rightarrow> bool \<times> consumer_manager" where
  "manager_ack stream name sequence m =
     (let key = consumer_key stream name in
      case map_of (cm_consumers m) key of
        None \<Rightarrow> (False, m)
      | Some c \<Rightarrow>
          (let (b, c') = consumer_ack sequence c in (b, m\<lparr>cm_consumers := AList.update key c' (cm_consumers m)\<rparr>)))"

section \<open>Store manager of the server\<close>

text \<open>\<open>StoreManager::new\<close>: one empty store, shared with an empty consumer manager.\<close>

definition store_manager_new :: consumer_manager where
  "store_manager_new = \<lparr>cm_store = [], cm_consumers = []\<rparr>"

definition mgr_create_stream :: "str \<Rightarrow> stream_config \<Rightarrow> consumer_manager \<Rightarrow> (store_error + stream_info_data) \<times> consumer_manager" where
  "mgr_create_stream name config m =
     (let (r, st) = create_stream name config (cm_store m) in (r, m\<lparr>cm_store := st\<rparr>))"

definition mgr_delete_stream :: "str \<Rightarrow> consumer_manager \<Rightarrow> (store_error + unit) \<times> consumer_manager" where
  "mgr_delete_stream name m =
     (let (r, st) = delete_stream name (cm_store m) in (r, m\<lparr>cm_store := st\<rparr>))"

definition mgr_store_message ::
  "u64 \<Rightarrow> u64 \<Rightarrow> str \<Rightarrow> str \<Rightarrow> str option \<Rightarrow> bytes \<Rightarrow> (str \<times> str) list option \<Rightarrow> consumer_manager \<Rightarrow>
   (store_error + u64) \<times> consumer_manager" where
  "mgr_store_message timestamp now name subj reply_to data headers m =
     (let (r, st) = store_message timestamp now name subj reply_to data headers (cm_store m) in (r, m\<lparr>cm_store := st\<rparr>))"

section \<open>Invariant\<close>

definition consumer_inv :: "consumer \<Rightarrow> bool" where
  "consumer_inv c \<longleftrightarrow>
     distinct (map fst (pending_acks (con_state c))) \<and>
     (\<forall>q \<in> fst ` set (pending_acks (con_state c)). q < next_sequence (con_state c)) \<and>
     pending_ack_count (con_state c) = of_nat (length (pending_acks (con_state c))) \<and>
     delivered_count (con_state c) = acked_count (con_state c) + pending_ack_count (con_state c) \<and>
     (max_ack_pending (con_config c) > 0 \<longrightarrow> length (pending_acks (con_state c)) \<le> unat (max_ack_pending (con_config c)))"

definition store_inv :: "consumer_manager \<Rightarrow> bool" where
  "store_inv m \<longleftrightarrow>
     distinct (map fst (cm_store m)) \<and> distinct (map fst (cm_consumers m)) \<and>
     (\<forall>(n, s) \<in> set (cm_store m). stream_name s = n \<and> stream_inv s) \<and>
     (\<forall>(k, c) \<in> set (cm_consumers m). consumer_inv c)"

lemma update_fresh: "k \<notin> fst ` set xs \<Longrightarrow> AList.update k v xs = xs @ [(k, v)]"
  by (induction xs) auto

lemma set_update_subset: "set (AList.update k v xs) \<subseteq> insert (k, v) (set xs)"
  by (induction xs) auto

lemma set_delete_subset: "set (AList.delete k xs) \<subseteq> set xs"
  by (auto simp: AList.delete_eq)

lemma consumer_new_inv: "consumer_inv (consumer_new cfg l)"
  by (simp add: consumer_inv_def consumer_new_def)

lemma pending_short:
  assumes "consumer_inv c"
  shows "length (pending_acks (con_state c)) \<le> unat (next_sequence (con_state c))"
proof -
  let ?p = "pending_acks (con_state c)" and ?n = "unat (next_sequence (con_state c))"
  have "card (unat ` fst ` set ?p) = card (fst ` set ?p)" by (rule card_image) (auto simp: inj_on_def word_unat_eq_iff)
  also have "\<dots> = length ?p" using assms distinct_card [of "map fst ?p"] by (simp add: consumer_inv_def)
  finally have "length ?p = card (unat ` fst ` set ?p)" by simp
  also have "\<dots> \<le> card {..< ?n}"
    using assms by (intro card_mono) (auto simp: consumer_inv_def word_less_nat_alt)
  finally show ?thesis by simp
qed

lemma unat_pending: "consumer_inv c \<Longrightarrow> unat (pending_ack_count (con_state c)) = length (pending_acks (con_state c))"
proof -
  assume inv: "consumer_inv c"
  have "unat (next_sequence (con_state c)) < 2 ^ 64" using unsigned_less [of "next_sequence (con_state c)"] by simp
  then have "length (pending_acks (con_state c)) < 2 ^ 64" using pending_short [OF inv] by linarith
  then show ?thesis using inv by (simp add: consumer_inv_def unat_of_nat)
qed

lemma record_delivery_inv:
  assumes inv: "consumer_inv c" and q: "q = next_sequence (con_state c)" and room: "Suc (unat q) < 2 ^ 64"
    and bp: "\<not> is_backpressured c"
  shows "consumer_inv (record_delivery now q c)"
proof -
  let ?p = "pending_acks (con_state c)"
  have fresh: "q \<notin> fst ` set ?p" using inv q by (auto simp: consumer_inv_def)
  then have upd: "AList.update q now ?p = ?p @ [(q, now)]" by (rule update_fresh)
  have "unat (q + 1) = Suc (unat q)" by (rule unat_Suc_u64 [OF room])
  then have lt: "x < q + 1" if "x < q \<or> x = q" for x using that by (auto simp: word_less_nat_alt)
  have "max_ack_pending (con_config c) > 0 \<Longrightarrow> length ?p < unat (max_ack_pending (con_config c))"
    using bp unat_pending [OF inv] by (simp add: is_backpressured_def word_le_nat_alt not_le)
  then show ?thesis
    using inv fresh lt by (auto simp: consumer_inv_def record_delivery_def Let_def upd Suc_le_eq q [symmetric])
qed

lemma length_AList_delete:
  "distinct (map fst xs) \<Longrightarrow> map_of xs k \<noteq> None \<Longrightarrow> length xs = Suc (length (AList.delete k xs))"
proof (induction xs)
  case (Cons x xs)
  then show ?case
  proof (cases "fst x = k")
    case True
    then have "k \<notin> fst ` set xs" using Cons.prems by auto
    then have "AList.delete k xs = xs" by (simp add: delete_id)
    then show ?thesis using True by (cases x) simp
  qed (cases x, auto)
qed simp

lemma consumer_ack_inv:
  assumes inv: "consumer_inv c" and ack: "consumer_ack q c = (b, c')"
  shows "consumer_inv c'"
proof (cases "map_of (pending_acks (con_state c)) q")
  case None
  then show ?thesis using assms by (simp add: consumer_ack_def)
next
  case (Some t)
  let ?p = "pending_acks (con_state c)" and ?d = "AList.delete q (pending_acks (con_state c))"
  have len: "length ?p = Suc (length ?d)"
    using inv Some by (intro length_AList_delete) (simp_all add: consumer_inv_def)
  have "distinct (map fst ?d)" using inv by (simp add: consumer_inv_def distinct_delete)
  moreover have "\<forall>q \<in> fst ` set ?d. q < next_sequence (con_state c)"
    using inv set_delete_subset [of q ?p] by (auto simp: consumer_inv_def)
  moreover have "c' = c\<lparr>con_state := (con_state c)\<lparr>pending_acks := ?d, pending_ack_count := of_nat (length ?d),
      acked_count := acked_count (con_state c) + 1\<rparr>\<rparr>"
    using ack Some by (simp add: consumer_ack_def Let_def)
  ultimately show ?thesis using inv len by (simp add: consumer_inv_def) (metis Suc_leD)
qed

lemma store_inv_stream: "store_inv m \<Longrightarrow> map_of (cm_store m) n = Some s \<Longrightarrow> stream_name s = n \<and> stream_inv s"
  by (auto simp: store_inv_def dest: map_of_SomeD)

lemma store_inv_consumer: "store_inv m \<Longrightarrow> map_of (cm_consumers m) k = Some c \<Longrightarrow> consumer_inv c"
  by (auto simp: store_inv_def dest: map_of_SomeD)

lemma store_inv_put_stream:
  "store_inv m \<Longrightarrow> stream_inv s \<Longrightarrow> stream_name s = n \<Longrightarrow> store_inv (m\<lparr>cm_store := AList.update n s (cm_store m)\<rparr>)"
  using set_update_subset [of n s "cm_store m"] by (auto simp: store_inv_def distinct_update)

lemma store_inv_put_consumer:
  "store_inv m \<Longrightarrow> consumer_inv c \<Longrightarrow> store_inv (m\<lparr>cm_consumers := AList.update k c (cm_consumers m)\<rparr>)"
  using set_update_subset [of k c "cm_consumers m"] by (auto simp: store_inv_def distinct_update)

section \<open>What the next message is\<close>

lemma read_message_spec:
  assumes "store_inv m" and "map_of (cm_store m) n = Some s"
  shows "read_message n q (cm_store m) =
    (case find (\<lambda>x. sm_sequence x = q) (stream_msgs s) of
       Some x \<Rightarrow> Inr x | None \<Rightarrow> Inl (InvalidOffset q (last_seq (stream_st s))))"
  using store_inv_stream [OF assms] assms(2) by (simp add: read_message_def stream_read_find)

text \<open>The three outcomes of \<open>next_for_consumer\<close> on a known stream and consumer.\<close>

lemma next_for_consumer_cases:
  assumes inv: "store_inv m" and s: "map_of (cm_store m) stream = Some s"
    and c: "map_of (cm_consumers m) (consumer_key stream name) = Some c"
  obtains (none) "next_for_consumer now stream name m = (Inr None, m)"
      "is_backpressured c \<or> next_sequence (con_state c) < first_seq (stream_st s) \<or> next_sequence (con_state c) > last_seq (stream_st s)"
  | (some) x where "x \<in> set (stream_msgs s)" "sm_sequence x = next_sequence (con_state c)" "\<not> is_backpressured c"
      "next_sequence (con_state c) \<ge> first_seq (stream_st s)" "next_sequence (con_state c) \<le> last_seq (stream_st s)"
      "next_for_consumer now stream name m = (Inr (Some x),
         m\<lparr>cm_consumers := AList.update (consumer_key stream name) (record_delivery now (next_sequence (con_state c)) c) (cm_consumers m)\<rparr>)"
proof -
  let ?q = "next_sequence (con_state c)"
  have sinv: "stream_inv s" using store_inv_stream [OF inv s] by simp
  show ?thesis
  proof (cases "is_backpressured c")
    case True
    then show ?thesis using c by (intro none) (simp_all add: next_for_consumer_def)
  next
    case bp: False
    show ?thesis
    proof (cases "?q < first_seq (stream_st s) \<or> ?q > last_seq (stream_st s)")
      case True
      then have "stream_read ?q s = None" by (simp add: stream_read_def)
      then show ?thesis using c s bp True by (intro none) (simp_all add: next_for_consumer_def read_message_def Let_def)
    next
      case False
      let ?i = "unat (?q - first_seq (stream_st s))"
      have "stream_read ?q s \<noteq> None"
      proof -
        have "?i = unat ?q - unat (first_seq (stream_st s))" using False by (simp add: unat_sub not_less)
        moreover have "unat (first_seq (stream_st s)) \<le> unat ?q \<and> unat ?q \<le> unat (last_seq (stream_st s))"
          using False by (simp add: word_less_nat_alt not_less)
        ultimately have "?i < length (stream_msgs s)" unfolding stream_inv_length [OF sinv] by linarith
        then show ?thesis using False by (simp add: stream_read_def idx_def)
      qed
      then obtain x where x: "stream_read ?q s = Some x" by blast
      then have "x \<in> set (stream_msgs s)" "sm_sequence x = ?q"
        using stream_read_find [OF sinv, of ?q] by (auto simp: find_Some_iff)
      with x c s bp False show ?thesis
        by (intro some [of x]) (simp_all add: next_for_consumer_def read_message_def Let_def not_less)
    qed
  qed
qed

lemma next_for_consumer_inv:
  assumes inv: "store_inv m"
  shows "store_inv (snd (next_for_consumer now stream name m))"
proof (cases "map_of (cm_consumers m) (consumer_key stream name)")
  case None
  then show ?thesis using inv by (simp add: next_for_consumer_def)
next
  case (Some c)
  show ?thesis
  proof (cases "map_of (cm_store m) stream")
    case None
    then show ?thesis using inv Some by (simp add: next_for_consumer_def read_message_def Let_def)
  next
    case s: (Some s)
    show ?thesis
      using inv s Some
    proof (cases rule: next_for_consumer_cases [where now = now])
      case none
      then show ?thesis using inv by simp
    next
      case (some x)
      have "unat (next_sequence (con_state c)) \<le> unat (last_seq (stream_st s))" using some(5) by (simp add: word_le_nat_alt)
      moreover have "Suc (unat (last_seq (stream_st s))) < 2 ^ 64" using store_inv_stream [OF inv s] stream_inv_last by blast
      ultimately have "Suc (unat (next_sequence (con_state c))) < 2 ^ 64" by linarith
      then have "consumer_inv (record_delivery now (next_sequence (con_state c)) c)"
        using record_delivery_inv store_inv_consumer [OF inv Some] some(3) by blast
      then show ?thesis using some(6) store_inv_put_consumer [OF inv] by simp
    qed
  qed
qed

section \<open>Reachable stores\<close>

text \<open>
  One operation on the store, under its lock.  A consumer is inserted with whatever information was read of its
  stream before: the stream may have changed or gone since.  Storing is bounded by what 64-bit counters can number: fewer than
  \<open>2 ^ 64 - 2\<close> messages ever and less than \<open>2 ^ 64\<close> bytes held by a stream.
\<close>

definition stream_of :: "str \<Rightarrow> consumer_manager \<Rightarrow> stream" where
  "stream_of n m = (case map_of (cm_store m) n of Some s \<Rightarrow> s | None \<Rightarrow> stream_new n stream_config_default)"

definition has_room :: "nat \<Rightarrow> stream \<Rightarrow> bool" where
  "has_room k s \<longleftrightarrow> unat (last_seq (stream_st s)) + 2 < 2 ^ 64 \<and> total_bytes (stream_msgs s) + k < 2 ^ 64"

inductive store_step :: "consumer_manager \<Rightarrow> consumer_manager \<Rightarrow> bool" where
  create_stream: "store_step m (snd (mgr_create_stream n cfg m))"
| delete_stream: "store_step m (snd (mgr_delete_stream n m))"
| store_message: "has_room (length data) (stream_of n m) \<Longrightarrow>
    store_step m (snd (mgr_store_message ts now n subj reply data hs m))"
| insert_consumer: "store_step m (snd (insert_consumer info ccfg m))"
| delete_consumer: "store_step m (snd (delete_consumer n name m))"
| next_message: "store_step m (snd (next_for_consumer now n name m))"
| ack: "store_step m (snd (manager_ack n name q m))"

inductive store_reach :: "consumer_manager \<Rightarrow> bool" where
  init: "store_reach store_manager_new"
| step: "store_reach m \<Longrightarrow> store_step m m' \<Longrightarrow> store_reach m'"

lemma stream_of_inv: "store_inv m \<Longrightarrow> stream_inv (stream_of n m) \<and> stream_name (stream_of n m) = n"
  using store_inv_stream [of m n] stream_new_inv by (auto simp: stream_of_def stream_new_def split: option.split)

lemma mgr_store_message_eq:
  "mgr_store_message ts now n subj reply data hs m =
     (let (q, s') = stream_store ts now subj reply data hs (stream_of n m)
      in (Inr q, m\<lparr>cm_store := AList.update n s' (cm_store m)\<rparr>))"
  by (simp add: mgr_store_message_def store_message_def stream_of_def Let_def split: prod.split option.split)

lemma manager_ack_inv:
  assumes inv: "store_inv m"
  shows "store_inv (snd (manager_ack n name q m))"
proof (cases "map_of (cm_consumers m) (consumer_key n name)")
  case (Some c)
  obtain b c' where a: "consumer_ack q c = (b, c')" by fastforce
  then have "consumer_inv c'" using consumer_ack_inv store_inv_consumer [OF inv Some] by blast
  then show ?thesis using Some a store_inv_put_consumer [OF inv] by (simp add: manager_ack_def Let_def)
qed (use inv in \<open>simp add: manager_ack_def\<close>)

lemma store_step_inv:
  assumes "store_step m m'" and inv: "store_inv m"
  shows "store_inv m'"
  using assms(1)
proof cases
  case (create_stream n cfg)
  then show ?thesis
    using inv store_inv_put_stream [OF inv stream_new_inv [of n cfg], of n]
    by (simp add: mgr_create_stream_def Store.create_stream_def stream_new_def Let_def split: if_splits)
next
  case (delete_stream n)
  then show ?thesis
    using inv set_delete_subset [of n "cm_store m"]
    by (auto simp: mgr_delete_stream_def Store.delete_stream_def store_inv_def distinct_delete)
next
  case (store_message data n ts now subj reply hs)
  obtain q s' where st: "stream_store ts now subj reply data hs (stream_of n m) = (q, s')" by fastforce
  have "stream_inv s'" "stream_name s' = n"
    using stream_store_evicts [OF _ _ _ st] stream_of_inv [OF inv, of n] store_message(2)
    by (simp_all add: has_room_def)
  then show ?thesis using store_inv_put_stream [OF inv] st store_message(1) by (simp add: mgr_store_message_eq)
next
  case (insert_consumer info ccfg)
  then show ?thesis
    using inv store_inv_put_consumer [OF inv consumer_new_inv]
    by (auto simp: Store.insert_consumer_def Let_def)
next
  case (delete_consumer n name)
  then show ?thesis
    using inv set_delete_subset [of "consumer_key n name" "cm_consumers m"]
    by (auto simp: Store.delete_consumer_def store_inv_def distinct_delete)
next
  case (next_message now n name)
  then show ?thesis using next_for_consumer_inv [OF inv] by simp
next
  case (ack n name q)
  then show ?thesis using manager_ack_inv [OF inv] by simp
qed

lemma store_reach_inv: "store_reach m \<Longrightarrow> store_inv m"
proof (induction rule: store_reach.induct)
  case init
  show ?case by (simp add: store_inv_def store_manager_new_def)
qed (rule store_step_inv)

lemma store_reach_create_consumer: "store_reach m \<Longrightarrow> store_reach (snd (create_consumer ccfg m))"
  unfolding create_consumer_def by (auto intro: store_reach.step store_step.insert_consumer split: sum.split)

section \<open>Runs of one consumer\<close>

text \<open>Operations on a stream and one of its consumers, and the messages the consumer is given.\<close>

datatype consumer_op =
    OpStore u64 u64 str "str option" bytes "(str \<times> str) list option"
  | OpNext u64
  | OpAck u64

fun op_bytes :: "consumer_op \<Rightarrow> nat" where
  "op_bytes (OpStore ts now subj reply data hs) = length data"
| "op_bytes _ = 0"

fun run_op :: "str \<Rightarrow> str \<Rightarrow> consumer_op \<Rightarrow> consumer_manager \<Rightarrow> stored_message list \<times> consumer_manager" where
  "run_op n name (OpStore ts now subj reply data hs) m = ([], snd (mgr_store_message ts now n subj reply data hs m))"
| "run_op n name (OpNext now) m =
     (case next_for_consumer now n name m of
        (Inr (Some x), m') \<Rightarrow> ([x], m')
      | (_, m') \<Rightarrow> ([], m'))"
| "run_op n name (OpAck q) m = ([], snd (manager_ack n name q m))"

fun run_ops :: "str \<Rightarrow> str \<Rightarrow> consumer_op list \<Rightarrow> consumer_manager \<Rightarrow> stored_message list \<times> consumer_manager" where
  "run_ops n name [] m = ([], m)"
| "run_ops n name (x # xs) m =
     (let (d, m') = run_op n name x m; (ds, m'') = run_ops n name xs m' in (d @ ds, m''))"

definition bound_to :: "consumer_manager \<Rightarrow> str \<Rightarrow> str \<Rightarrow> stream \<Rightarrow> consumer \<Rightarrow> bool" where
  "bound_to m n name s c \<longleftrightarrow> store_inv m \<and> map_of (cm_store m) n = Some s \<and>
     map_of (cm_consumers m) (consumer_key n name) = Some c"

definition ops_fit :: "consumer_op list \<Rightarrow> stream \<Rightarrow> bool" where
  "ops_fit ops s \<longleftrightarrow> unat (last_seq (stream_st s)) + length ops + 1 < 2 ^ 64 \<and>
     total_bytes (stream_msgs s) + sum_list (map op_bytes ops) < 2 ^ 64"

text \<open>What one operation does to the pair: it gives the consumer at most the message it waits for.\<close>

lemma op_store_step:
  assumes b: "bound_to m n name s c" and fit: "ops_fit (OpStore ts now subj reply data hs # xs) s"
    and run: "run_op n name (OpStore ts now subj reply data hs) m = (d, m')"
  shows "\<exists>s'. bound_to m' n name s' c \<and> ops_fit xs s' \<and> unat (first_seq (stream_st s)) \<le> unat (first_seq (stream_st s')) \<and> d = []"
proof -
  have inv: "store_inv m" and s: "map_of (cm_store m) n = Some s" and c: "map_of (cm_consumers m) (consumer_key n name) = Some c"
    using b by (simp_all add: bound_to_def)
  have sinv: "stream_inv s" and so: "stream_of n m = s" using store_inv_stream [OF inv s] s by (simp_all add: stream_of_def)
  obtain q s' where st: "stream_store ts now subj reply data hs s = (q, s')" by fastforce
  let ?new = "\<lparr>sm_sequence = q, sm_timestamp = ts, sm_subject = subj, sm_reply_to = reply, sm_payload = data, sm_headers = hs\<rparr>"
  have room: "has_room (length data) s" using fit by (simp add: ops_fit_def has_room_def)
  then have q: "unat q = Suc (unat (last_seq (stream_st s)))" "last_seq (stream_st s') = q" and s'inv: "stream_inv s'"
    and msgs: "stream_msgs s' = retained (stream_cfg s) now (stream_msgs s @ [?new])"
    using stream_store_evicts [OF sinv _ _ st] by (simp_all add: has_room_def)
  obtain k where k: "stream_msgs s' = drop k (stream_msgs s @ [?new])" using retained_suffix msgs by metis
  have m': "m' = m\<lparr>cm_store := AList.update n s' (cm_store m)\<rparr>" and d: "d = []"
    using run st so by (auto simp: mgr_store_message_eq)
  have "store_inv m'" using store_step_inv [OF store_message [of data n m ts now subj reply hs] inv] room so
    by (simp add: m' mgr_store_message_eq st)
  then have "bound_to m' n name s' c" using c by (simp add: bound_to_def m' update_conv')
  moreover have "total_bytes (stream_msgs s') \<le> total_bytes (stream_msgs s) + length data"
    using total_bytes_drop [of k "stream_msgs s @ [?new]"] by (simp add: k total_bytes_def)
  then have "ops_fit xs s'" using fit q by (simp add: ops_fit_def)
  moreover have "unat (first_seq (stream_st s)) \<le> unat (first_seq (stream_st s'))"
  proof -
    have "length (stream_msgs s') \<le> Suc (length (stream_msgs s))" by (simp add: k)
    then have le: "Suc (unat q) - unat (first_seq (stream_st s')) \<le> Suc (unat q - unat (first_seq (stream_st s)))"
      using stream_inv_length [OF sinv] stream_inv_length [OF s'inv] q by simp
    have "unat (first_seq (stream_st s)) \<le> unat q" using sinv q by (simp add: stream_inv_def)
    with le show ?thesis by linarith
  qed
  ultimately show ?thesis using d by blast
qed

lemma run_op_step:
  assumes b: "bound_to m n name s c" and fit: "ops_fit (x # xs) s" and run: "run_op n name x m = (d, m')"
  shows "\<exists>s' c'. bound_to m' n name s' c' \<and> ops_fit xs s' \<and> unat (first_seq (stream_st s)) \<le> unat (first_seq (stream_st s')) \<and>
    (d = [] \<and> next_sequence (con_state c') = next_sequence (con_state c) \<or>
     (\<exists>y. d = [y] \<and> sm_sequence y = next_sequence (con_state c) \<and> first_seq (stream_st s) \<le> next_sequence (con_state c) \<and>
        unat (next_sequence (con_state c')) = Suc (unat (next_sequence (con_state c)))))"
proof (cases x)
  case (OpStore ts now subj reply data hs)
  from op_store_step [OF b fit [unfolded OpStore] run [unfolded OpStore]] show ?thesis by blast
next
  case (OpNext now)
  have inv: "store_inv m" and s: "map_of (cm_store m) n = Some s" and c: "map_of (cm_consumers m) (consumer_key n name) = Some c"
    using b by (simp_all add: bound_to_def)
  have fit': "ops_fit xs s" using fit OpNext by (simp add: ops_fit_def)
  have inv': "store_inv (snd (next_for_consumer now n name m))" by (rule next_for_consumer_inv [OF inv])
  from inv s c show ?thesis
  proof (cases rule: next_for_consumer_cases [where now = now])
    case none
    then show ?thesis using run OpNext b fit' by auto
  next
    case (some y)
    let ?c' = "record_delivery now (next_sequence (con_state c)) c"
    have "unat (next_sequence (con_state c)) \<le> unat (last_seq (stream_st s))" using some(5) by (simp add: word_le_nat_alt)
    then have "Suc (unat (next_sequence (con_state c))) < 2 ^ 64" using fit by (simp add: ops_fit_def)
    then have "unat (next_sequence (con_state ?c')) = Suc (unat (next_sequence (con_state c)))"
      using unat_Suc_u64 by (simp add: record_delivery_def Let_def)
    moreover have "d = [y]" and "m' = snd (next_for_consumer now n name m)" using run OpNext some(6) by auto
    moreover from this have "bound_to m' n name s ?c'" using inv' s some(6) by (simp add: bound_to_def update_conv')
    ultimately show ?thesis using some(2,4) fit' by blast
  qed
next
  case (OpAck q)
  have inv: "store_inv m" and s: "map_of (cm_store m) n = Some s" and c: "map_of (cm_consumers m) (consumer_key n name) = Some c"
    using b by (simp_all add: bound_to_def)
  obtain r c' where a: "consumer_ack q c = (r, c')" by fastforce
  then have "next_sequence (con_state c') = next_sequence (con_state c)"
    by (auto simp: consumer_ack_def Let_def split: if_splits)
  moreover have "d = []" and "m' = snd (manager_ack n name q m)" using run OpAck by auto
  moreover from this have "bound_to m' n name s c'"
    using manager_ack_inv [OF inv, of n name q] s c a by (simp add: bound_to_def manager_ack_def Let_def update_conv')
  moreover have "ops_fit xs s" using fit by (simp add: ops_fit_def)
  ultimately show ?thesis by blast
qed

lemma run_ops_consecutive:
  assumes "bound_to m n name s c" and "ops_fit ops s" and "run_ops n name ops m = (ds, m')"
  shows "map (unat \<circ> sm_sequence) ds = [unat (next_sequence (con_state c)) ..< unat (next_sequence (con_state c)) + length ds]"
  using assms
proof (induction ops arbitrary: m s c ds m')
  case (Cons x xs)
  obtain d m1 where r: "run_op n name x m = (d, m1)" by fastforce
  obtain es m2 where rs: "run_ops n name xs m1 = (es, m2)" by fastforce
  have ds: "ds = d @ es" using Cons.prems(3) r rs by simp
  from run_op_step [OF Cons.prems(1,2) r] obtain s' c' where
    b: "bound_to m1 n name s' c'" and f: "ops_fit xs s'" and
    alt: "d = [] \<and> next_sequence (con_state c') = next_sequence (con_state c) \<or>
     (\<exists>y. d = [y] \<and> sm_sequence y = next_sequence (con_state c) \<and> first_seq (stream_st s) \<le> next_sequence (con_state c) \<and>
        unat (next_sequence (con_state c')) = Suc (unat (next_sequence (con_state c))))"
    by blast
  from Cons.IH [OF b f rs] alt show ?case by (auto simp: ds upt_conv_Cons simp del: upt_Suc)
qed simp

lemma run_ops_starved:
  assumes "bound_to m n name s c" and "ops_fit ops s" and "run_ops n name ops m = (ds, m')"
    and "next_sequence (con_state c) < first_seq (stream_st s)"
  shows "ds = []"
  using assms
proof (induction ops arbitrary: m s c ds m')
  case (Cons x xs)
  obtain d m1 where r: "run_op n name x m = (d, m1)" by fastforce
  obtain es m2 where rs: "run_ops n name xs m1 = (es, m2)" by fastforce
  have ds: "ds = d @ es" using Cons.prems(3) r rs by simp
  from run_op_step [OF Cons.prems(1,2) r] Cons.prems(4) obtain s' c' where
    b: "bound_to m1 n name s' c'" and f: "ops_fit xs s'" and "unat (first_seq (stream_st s)) \<le> unat (first_seq (stream_st s'))"
    and d: "d = []" "next_sequence (con_state c') = next_sequence (con_state c)"
    by fastforce
  then have "next_sequence (con_state c') < first_seq (stream_st s')" using Cons.prems(4) by (simp add: word_less_nat_alt)
  from Cons.IH [OF b f rs this] d show ?case by (simp add: ds)
qed simp

end
