(* ===== verification/Store_Theorems.thy ===== *)
theory Store_Theorems
  imports Store
begin

text \<open>
  The properties of the persistence layer: the invariant of every reachable store, reading by index
  arithmetic as a search, the retention limits, that what is stored can be read, and that a consumer is given
  consecutive messages.  The last section shows where the code falls short of its documentation.
\<close>

section \<open>Retention\<close>

lemma retained_count: "max_msgs c > 0 \<Longrightarrow> length (retained c now ms) \<le> unat (max_msgs c)"
proof -
  assume c: "max_msgs c > 0"
  obtain n where n: "retained c now ms = drop n (keep_count c (keep_age c now ms))"
    unfolding retained_def using keep_suffixes(3) by blast
  have "length (keep_count c (keep_age c now ms)) \<le> unat (max_msgs c)" using c by (simp add: keep_count_def)
  then show ?thesis by (simp add: n)
qed

lemma retained_bytes:
  "max_bytes c > 0 \<Longrightarrow> total_bytes (retained c now ms) \<le> unat (max_bytes c) \<or> length (retained c now ms) \<le> 1"
  using byte_keep_limit by (simp add: retained_def keep_bytes_def)

lemma drop_nonempty_last: "drop n xs \<noteq> [] \<Longrightarrow> last (drop n xs) = last xs"
  by (simp add: last_drop)

text \<open>
  What the limits of a stream forbid: its front message is older than the age limit, there are too many messages, or too many bytes in more
  than one message.
\<close>

definition too_old :: "stream_config \<Rightarrow> u64 \<Rightarrow> stored_message \<Rightarrow> bool" where
  "too_old c now m \<longleftrightarrow> max_age_secs c > 0 \<and> unat (sm_timestamp m) + 1000 * unat (max_age_secs c) < unat now"

definition over_limits :: "stream_config \<Rightarrow> u64 \<Rightarrow> stored_message list \<Rightarrow> bool" where
  "over_limits c now ms \<longleftrightarrow> ms \<noteq> [] \<and>
     (too_old c now (hd ms) \<or> (max_msgs c > 0 \<and> unat (max_msgs c) < length ms) \<or>
      (max_bytes c > 0 \<and> unat (max_bytes c) < total_bytes ms \<and> 1 < length ms))"

text \<open>What a loop drops from the front while \<open>P\<close> holds of what is there.\<close>

definition drops_while :: "('a list \<Rightarrow> bool) \<Rightarrow> 'a list \<Rightarrow> 'a list \<Rightarrow> bool" where
  "drops_while P xs ys \<longleftrightarrow> (\<exists>k \<le> length xs. ys = drop k xs \<and> (\<forall>j < k. P (drop j xs)))"

lemma drops_while_refl: "drops_while P xs xs"
  unfolding drops_while_def by (rule exI [of _ 0]) simp

lemma drops_while_Cons: "P (x # xs) \<Longrightarrow> drops_while P xs ys \<Longrightarrow> drops_while P (x # xs) ys"
proof -
  assume P: "P (x # xs)" and "drops_while P xs ys"
  then obtain k where "k \<le> length xs" "ys = drop k xs" "\<forall>j < k. P (drop j xs)" by (auto simp: drops_while_def)
  then show ?thesis unfolding drops_while_def using P by (intro exI [of _ "Suc k"]) (auto simp: less_Suc_eq_0_disj)
qed

lemma drops_while_trans:
  assumes "drops_while P xs ys" and "drops_while P ys zs"
  shows "drops_while P xs zs"
proof -
  obtain k where k: "k \<le> length xs" "ys = drop k xs" "\<forall>j < k. P (drop j xs)" using assms(1) by (auto simp: drops_while_def)
  obtain i where i: "i \<le> length ys" "zs = drop i ys" "\<forall>j < i. P (drop j ys)" using assms(2) by (auto simp: drops_while_def)
  have "P (drop j xs)" if "j < i + k" for j
  proof (cases "j < k")
    case False
    then have "P (drop (j - k) ys)" using i(3) that by simp
    then show ?thesis using k(2) False by simp
  qed (simp add: k(3))
  then show ?thesis unfolding drops_while_def using k i by (intro exI [of _ "i + k"]) auto
qed

lemma too_old_cutoff:
  assumes "unat (max_age_secs c) * 1000 \<le> unat now" and "max_age_secs c > 0"
  shows "sm_timestamp m < now - max_age_secs c * 1000 \<longleftrightarrow> too_old c now m"
proof -
  have "unat (max_age_secs c) * 1000 < 2 ^ 64" using assms(1) unsigned_less [where ?'a = nat, of now] by simp
  then have "unat (max_age_secs c * 1000) = unat (max_age_secs c) * 1000" by (simp add: unat_word_ariths)
  moreover from this have "unat (now - max_age_secs c * 1000) = unat now - unat (max_age_secs c) * 1000"
    using assms(1) by (simp add: unat_sub word_le_nat_alt)
  ultimately show ?thesis using assms by (auto simp: too_old_def word_less_nat_alt)
qed

lemma keep_age_drops:
  assumes "unat (max_age_secs c) * 1000 \<le> unat now"
  shows "drops_while (over_limits c now) ms (keep_age c now ms)"
proof (cases "max_age_secs c > 0")
  case True
  have "drops_while (over_limits c now) ms (dropWhile (too_old c now) ms)"
    by (induction ms) (auto intro: drops_while_refl drops_while_Cons simp: over_limits_def)
  then show ?thesis using True too_old_cutoff [OF assms True] by (simp add: keep_age_def cong: dropWhile_cong)
qed (simp add: keep_age_def drops_while_refl)

lemma keep_count_drops: "drops_while (over_limits c now) ms (keep_count c ms)"
  unfolding drops_while_def keep_count_def
  by (intro exI [of _ "if max_msgs c > 0 then length ms - unat (max_msgs c) else 0"]) (auto simp: over_limits_def)

lemma keep_bytes_drops: "drops_while (over_limits c now) ms (keep_bytes c ms)"
proof (cases "max_bytes c > 0")
  case True
  then have "drops_while (over_limits c now) ms (byte_keep (unat (max_bytes c)) ms)"
    by (induction ms) (auto intro: drops_while_refl drops_while_Cons simp: over_limits_def Suc_lessI)
  then show ?thesis using True by (simp add: keep_bytes_def)
qed (simp add: keep_bytes_def drops_while_refl)

lemma retained_drops:
  "unat (max_age_secs c) * 1000 \<le> unat now \<Longrightarrow> drops_while (over_limits c now) ms (retained c now ms)"
  unfolding retained_def by (blast intro: drops_while_trans keep_age_drops keep_count_drops keep_bytes_drops)

lemma sorted_dropWhile_less:
  fixes b :: "'b :: linorder"
  shows "sorted (map f xs) \<Longrightarrow> x \<in> set (dropWhile (\<lambda>x. f x < b) xs) \<Longrightarrow> \<not> f x < b"
  by (induction xs) (auto split: if_splits)

lemma retained_young:
  assumes "unat (max_age_secs c) * 1000 \<le> unat now" and "sorted (map sm_timestamp ms)" and "x \<in> set (retained c now ms)"
  shows "\<not> too_old c now x"
proof (cases "max_age_secs c > 0")
  case True
  have "x \<in> set (keep_age c now ms)"
    using assms(3) keep_suffixes(2) [of c "keep_age c now ms"] keep_suffixes(3) [of c "keep_count c (keep_age c now ms)"]
    unfolding retained_def by (metis in_set_dropD)
  then have "\<not> sm_timestamp x < now - max_age_secs c * 1000"
    using True sorted_dropWhile_less [OF assms(2), of x "now - max_age_secs c * 1000"] by (simp add: keep_age_def)
  then show ?thesis using too_old_cutoff [OF assms(1) True] by simp
qed (simp add: too_old_def)

lemma retained_keeps_newest:
  assumes "max_age_secs c = 0 \<or> \<not> sm_timestamp x < now - max_age_secs c * 1000"
  shows "retained c now (ms @ [x]) \<noteq> [] \<and> last (retained c now (ms @ [x])) = x"
proof -
  let ?a = "keep_age c now (ms @ [x])"
  have "?a \<noteq> []" using assms by (auto simp: keep_age_def)
  moreover have "max_msgs c > 0 \<Longrightarrow> unat (max_msgs c) > 0" by (simp add: unat_gt_0)
  ultimately have "max_msgs c > 0 \<Longrightarrow> length ?a - unat (max_msgs c) < length ?a" by simp
  with \<open>?a \<noteq> []\<close> have "keep_count c ?a \<noteq> []" by (auto simp: keep_count_def)
  then have "retained c now (ms @ [x]) \<noteq> []" using byte_keep_last by (simp add: retained_def keep_bytes_def)
  moreover obtain n where "retained c now (ms @ [x]) = drop n (ms @ [x])" using retained_suffix by blast
  ultimately show ?thesis using drop_nonempty_last [of n "ms @ [x]"] by simp
qed

section \<open>Streams\<close>

text \<open>
  C31: storing a message numbers it with the next sequence number, keeps the invariant and the configuration, and then
  drops messages from the front, oldest first, exactly as the limits ask.  Every message it drops was at the front of
  messages that were over a limit (too old, too many, or too many bytes in more than one message), so none goes without need.
  What is left respects the count limit and, unless a single message is left, the byte limit; and when the
  timestamps are in order it is over no limit at all: no message in it is older than \<open>max_age_secs\<close>.  The
  age limit is assumed to reach back no further than the epoch of the clock; what happens otherwise is in
  \<open>age_limit_wraps_and_drops\<close>.
\<close>

theorem stream_store_retention:
  assumes "stream_inv s" and "has_room (length data) s" and "stream_store ts now subj reply data hs s = (q, s')"
    and "unat (max_age_secs (stream_cfg s)) * 1000 \<le> unat now"
    and "all = stream_msgs s @ [\<lparr>sm_sequence = q, sm_timestamp = ts, sm_subject = subj, sm_reply_to = reply,
      sm_payload = data, sm_headers = hs\<rparr>]"
  shows "unat q = Suc (unat (last_seq (stream_st s))) \<and> stream_inv s' \<and> stream_cfg s' = stream_cfg s \<and>
    (\<exists>k \<le> length all. stream_msgs s' = drop k all \<and> (\<forall>j < k. over_limits (stream_cfg s) now (drop j all))) \<and>
    (max_msgs (stream_cfg s) > 0 \<longrightarrow> length (stream_msgs s') \<le> unat (max_msgs (stream_cfg s))) \<and>
    (max_bytes (stream_cfg s) > 0 \<longrightarrow> total_bytes (stream_msgs s') \<le> unat (max_bytes (stream_cfg s)) \<or> length (stream_msgs s') \<le> 1) \<and>
    (sorted (map sm_timestamp all) \<longrightarrow>
       \<not> over_limits (stream_cfg s) now (stream_msgs s') \<and> (\<forall>x \<in> set (stream_msgs s'). \<not> too_old (stream_cfg s) now x))"
proof -
  have E: "unat q = Suc (unat (last_seq (stream_st s)))" "stream_inv s'" "stream_cfg s' = stream_cfg s"
    and R: "stream_msgs s' = retained (stream_cfg s) now all"
    using stream_store_evicts [OF assms(1) _ _ assms(3)] assms(2,5) by (simp_all add: has_room_def)
  note count = retained_count [of "stream_cfg s" now all] and bytes = retained_bytes [of "stream_cfg s" now all]
  have "\<not> over_limits (stream_cfg s) now (retained (stream_cfg s) now all)" if "sorted (map sm_timestamp all)"
    using retained_young [OF assms(4) that] count bytes by (auto simp: over_limits_def)
  then show ?thesis
    using E retained_drops [OF assms(4), of all] retained_young [OF assms(4), of all] count bytes
    unfolding R drops_while_def by blast
qed

text \<open>A stream that keeps messages for a second, with one message in it.\<close>

definition brief_msg :: stream where
  "brief_msg = snd (stream_store 5000 5000 (lit ''s'') None [1] None (stream_new (lit ''o'') \<lparr>max_msgs = 3, max_bytes = 0, max_age_secs = 1\<rparr>))"

lemma brief_msg_eq: "brief_msg = \<lparr>stream_name = lit ''o'', stream_cfg = \<lparr>max_msgs = 3, max_bytes = 0, max_age_secs = 1\<rparr>,
    stream_st = \<lparr>st_messages = 1, st_bytes = 1, first_seq = 1, last_seq = 1\<rparr>,
    stream_msgs = [\<lparr>sm_sequence = 1, sm_timestamp = 5000, sm_subject = lit ''s'', sm_reply_to = None, sm_payload = [1], sm_headers = None\<rparr>]\<rparr>"
  by (simp add: brief_msg_def stream_store_def stream_new_def apply_retention_def evict_count.simps evict_old.simps)

definition one_msg :: stream where
  "one_msg = snd (stream_store 5 5 (lit ''s'') None [1] None (stream_new (lit ''o'') \<lparr>max_msgs = 1, max_bytes = 0, max_age_secs = 0\<rparr>))"

lemma one_msg_eq: "one_msg = \<lparr>stream_name = lit ''o'', stream_cfg = \<lparr>max_msgs = 1, max_bytes = 0, max_age_secs = 0\<rparr>,
    stream_st = \<lparr>st_messages = 1, st_bytes = 1, first_seq = 1, last_seq = 1\<rparr>,
    stream_msgs = [\<lparr>sm_sequence = 1, sm_timestamp = 5, sm_subject = lit ''s'', sm_reply_to = None, sm_payload = [1], sm_headers = None\<rparr>]\<rparr>"
  by (simp add: one_msg_def stream_store_def stream_new_def apply_retention_def evict_count.simps)

lemma one_msg_inv: "stream_inv one_msg"
  by (simp add: one_msg_eq stream_inv_def total_bytes_def)

theorem stream_store_retention_witness:
  "\<exists>q s'. stream_store 6001 6001 (lit ''s'') None [2, 3] None brief_msg = (q, s') \<and> unat q = 2 \<and> stream_inv s' \<and>
     \<not> over_limits (stream_cfg brief_msg) 6001 (stream_msgs s') \<and> length (stream_msgs s') \<le> 3 \<and>
     too_old (stream_cfg brief_msg) 6001 (hd (stream_msgs brief_msg))"
proof -
  obtain q s' where st: "stream_store 6001 6001 (lit ''s'') None [2, 3] None brief_msg = (q, s')" by fastforce
  have "has_room (length [2, 3 :: u8]) brief_msg" "stream_inv brief_msg"
    by (simp_all add: has_room_def brief_msg_eq total_bytes_def stream_inv_def)
  then show ?thesis using stream_store_retention [OF _ _ st _ refl] st by (simp add: brief_msg_eq too_old_def)
qed

text \<open>
  C32: the two reads by index arithmetic are searches: \<open>read\<close> finds the message with the sequence number,
  \<open>read_range\<close> selects those between the two bounds, whatever the bounds are.
\<close>

theorem stream_reads_are_searches:
  assumes "stream_inv s"
  shows "stream_read q s = find (\<lambda>m. sm_sequence m = q) (stream_msgs s) \<and>
    stream_read_range a e s = filter (\<lambda>m. a \<le> sm_sequence m \<and> sm_sequence m \<le> e) (stream_msgs s)"
  using stream_read_find [OF assms] stream_read_range_filter [OF assms] by blast

theorem stream_reads_are_searches_witness:
  "stream_read 1 one_msg \<noteq> None \<and> stream_read_range 0 9 one_msg = stream_msgs one_msg"
  using stream_reads_are_searches [OF one_msg_inv, of 1 0 9] by (simp add: one_msg_eq)

text \<open>
  A message that is stored can be read back by the number the store returned, unchanged, as long as the
  age limit is not behind the clock.
\<close>

lemma store_then_read:
  assumes "stream_inv s" and "has_room (length data) s" and "stream_store ts now subj reply data hs s = (q, s')"
    and "unat (max_age_secs (stream_cfg s)) * 1000 \<le> unat now" and "now \<le> ts"
  shows "stream_read q s' = Some \<lparr>sm_sequence = q, sm_timestamp = ts, sm_subject = subj, sm_reply_to = reply,
    sm_payload = data, sm_headers = hs\<rparr>"
proof -
  let ?x = "\<lparr>sm_sequence = q, sm_timestamp = ts, sm_subject = subj, sm_reply_to = reply, sm_payload = data, sm_headers = hs\<rparr>"
  let ?c = "stream_cfg s"
  have E: "stream_inv s'" "stream_msgs s' = retained ?c now (stream_msgs s @ [?x])"
    using stream_store_evicts [OF assms(1) _ _ assms(3)] assms(2) by (simp_all add: has_room_def)
  have "unat (max_age_secs ?c * 1000) \<le> unat now"
    using assms(4) by (simp add: unat_word_ariths)
  then have "now - max_age_secs ?c * 1000 \<le> now" by (simp add: word_le_nat_alt unat_sub)
  then have "\<not> sm_timestamp ?x < now - max_age_secs ?c * 1000" using assms(5) by simp
  from retained_keeps_newest [of ?c ?x now "stream_msgs s"] this E(2)
  have "?x \<in> set (stream_msgs s')" by (metis last_in_set)
  have uniq: "x = ?x" if "x \<in> set (stream_msgs s')" "sm_sequence x = q" for x
  proof -
    have "distinct (map (unat \<circ> sm_sequence) (stream_msgs s'))" using E(1) by (simp add: stream_inv_def)
    then show ?thesis using that \<open>?x \<in> set (stream_msgs s')\<close> by (auto simp: distinct_map inj_on_def)
  qed
  have "find (\<lambda>m. sm_sequence m = q) (stream_msgs s') \<noteq> None"
    using \<open>?x \<in> set (stream_msgs s')\<close> unfolding find_None_iff by (metis stored_message.select_convs(1))
  then obtain y where y: "find (\<lambda>m. sm_sequence m = q) (stream_msgs s') = Some y" by blast
  then have "y \<in> set (stream_msgs s')" "sm_sequence y = q" using find_Some_iff [of "\<lambda>m. sm_sequence m = q" "stream_msgs s'" y] by auto
  then have "y = ?x" by (rule uniq)
  with y show ?thesis by (simp add: stream_read_find [OF E(1)])
qed

lemma store_then_read_witness:
  "\<exists>q s'. stream_store 6 6 (lit ''s'') None [2, 3] None one_msg = (q, s') \<and>
    stream_read q s' = Some \<lparr>sm_sequence = q, sm_timestamp = 6, sm_subject = lit ''s'', sm_reply_to = None,
      sm_payload = [2, 3], sm_headers = None\<rparr>"
proof -
  obtain q s' where st: "stream_store 6 6 (lit ''s'') None [2, 3] None one_msg = (q, s')" by fastforce
  have "has_room (length [2, 3 :: u8]) one_msg" by (simp add: has_room_def one_msg_eq total_bytes_def)
  from store_then_read [OF one_msg_inv this st] st show ?thesis by (simp add: one_msg_eq)
qed

text \<open>
  An age limit further back than the clock's epoch makes the subtraction \<open>now - max_age_secs * 1000\<close>
  wrap: the message just stored counts as too old and is gone when \<open>store\<close> returns its number.
\<close>

lemma age_limit_wraps_and_drops:
  "stream_store 1700000000000 1700000000000 (lit ''s'') None [1] None
     (stream_new (lit ''o'') \<lparr>max_msgs = 0, max_bytes = 0, max_age_secs = 2000000000\<rparr>) =
   (1, \<lparr>stream_name = lit ''o'', stream_cfg = \<lparr>max_msgs = 0, max_bytes = 0, max_age_secs = 2000000000\<rparr>,
        stream_st = \<lparr>st_messages = 0, st_bytes = 0, first_seq = 2, last_seq = 1\<rparr>, stream_msgs = []\<rparr>)"
  by (simp add: stream_store_def stream_new_def apply_retention_def evict_old.simps remove_front_def)

section \<open>Store and consumers\<close>

text \<open>
  C30: in every store reached by creating, deleting, storing, creating and deleting consumers, taking messages and
  acknowledging them, in any interleaving of their critical sections, each stream is filed under its name and has consecutive sequence numbers
  and exact counters; each consumer's pending map holds distinct numbers below the next one to deliver, its counters
  agree with the map, and the map never exceeds \<open>max_ack_pending\<close>.
\<close>

theorem reachable_store_inv:
  assumes "store_reach m"
  shows "store_inv m"
  using assms by (rule store_reach_inv)

definition worker :: consumer_config where
  "worker = \<lparr>durable_name = lit ''w'', cc_stream = lit ''o'', filter_subject = None, deliver_policy_of = DeliverAll,
     ack_policy_of = AckExplicit, max_ack_pending = 1\<rparr>"

definition mgr_o :: consumer_manager where
  "mgr_o = snd (create_consumer worker (snd (mgr_create_stream (lit ''o'')
     \<lparr>max_msgs = 1, max_bytes = 0, max_age_secs = 0\<rparr> store_manager_new)))"

lemma mgr_o_eq: "mgr_o = \<lparr>cm_store = [(lit ''o'', stream_new (lit ''o'') \<lparr>max_msgs = 1, max_bytes = 0, max_age_secs = 0\<rparr>)],
    cm_consumers = [(lit ''o:w'', consumer_new worker 0)]\<rparr>"
  by (simp add: mgr_o_def mgr_create_stream_def create_stream_def store_manager_new_def create_consumer_def
      insert_consumer_def stream_info_def stream_info_of_def worker_def consumer_key_def lit_def stream_new_def Let_def)

lemma mgr_o_reach: "store_reach mgr_o"
  unfolding mgr_o_def by (intro store_reach_create_consumer store_reach.step [OF _ create_stream] store_reach.init)

theorem reachable_store_inv_witness: "store_inv mgr_o \<and> length (cm_consumers mgr_o) = 1"
  using reachable_store_inv [OF mgr_o_reach] by (simp add: mgr_o_eq)

text \<open>
  C33: whatever is stored, requested and acknowledged in whatever order, the messages that a consumer without a
  \<open>filter_subject\<close> and with another policy than \<open>DeliverPolicy::Last\<close> is given have consecutive
  sequence numbers, beginning with the one its deliver policy chose: none is skipped, repeated or reordered.  (For a
  consumer with a filter or with that policy the documentation promises something else; see \<open>consumer_options_ignored\<close>.)
\<close>

theorem consumer_gets_consecutive:
  assumes "store_reach m" and "map_of (cm_store m) n = Some s"
    and "map_of (cm_consumers m) (consumer_key n name) = Some c" and "ops_fit ops s"
    and "run_ops n name ops m = (ds, m')"
    and "filter_subject (con_config c) = None" and "deliver_policy_of (con_config c) \<noteq> DeliverLast"
  shows "map (unat \<circ> sm_sequence) ds = [unat (next_sequence (con_state c)) ..< unat (next_sequence (con_state c)) + length ds]"
  using run_ops_consecutive [of m n name s c ops ds m'] store_reach_inv [OF assms(1)] assms(2-5) by (simp add: bound_to_def)

definition ops_o :: "consumer_op list" where
  "ops_o = [OpStore 5 5 (lit ''s'') None [1] None, OpNext 6, OpNext 6, OpAck 1, OpStore 7 7 (lit ''s'') None [2] None, OpNext 8]"

theorem consumer_gets_consecutive_witness:
  "\<exists>ds m'. run_ops (lit ''o'') (lit ''w'') ops_o mgr_o = (ds, m') \<and> map (unat \<circ> sm_sequence) ds = [1 ..< 1 + length ds]"
proof -
  let ?s = "stream_new (lit ''o'') \<lparr>max_msgs = 1, max_bytes = 0, max_age_secs = 0\<rparr>"
  obtain ds m' where r: "run_ops (lit ''o'') (lit ''w'') ops_o mgr_o = (ds, m')" by fastforce
  have "map_of (cm_store mgr_o) (lit ''o'') = Some ?s" by (simp add: mgr_o_eq)
  moreover have "map_of (cm_consumers mgr_o) (consumer_key (lit ''o'') (lit ''w'')) = Some (consumer_new worker 0)"
    by (simp add: mgr_o_eq consumer_key_def lit_def)
  moreover have "ops_fit ops_o ?s" by (simp add: ops_fit_def ops_o_def stream_new_def total_bytes_def)
  ultimately have "map (unat \<circ> sm_sequence) ds = [unat (next_sequence (con_state (consumer_new worker 0))) ..<
      unat (next_sequence (con_state (consumer_new worker 0))) + length ds]"
    using consumer_gets_consecutive [OF mgr_o_reach _ _ _ r] by (simp add: consumer_new_def worker_def)
  then show ?thesis using r by (simp add: consumer_new_def worker_def)
qed

text \<open>
  C34: a consumer without a \<open>filter_subject\<close> and with another policy than \<open>DeliverPolicy::Last\<close> is served
  whenever it can be: if its next message is in the stream and it has fewer than \<open>max_ack_pending\<close> unacknowledged
  ones, \<open>next_for_consumer\<close> returns that message and moves on.
\<close>

theorem consumer_is_served:
  assumes "store_reach m" and "map_of (cm_store m) n = Some s"
    and "map_of (cm_consumers m) (consumer_key n name) = Some c"
    and "max_ack_pending (con_config c) = 0 \<or> length (pending_acks (con_state c)) < unat (max_ack_pending (con_config c))"
    and "first_seq (stream_st s) \<le> next_sequence (con_state c)" and "next_sequence (con_state c) \<le> last_seq (stream_st s)"
    and "filter_subject (con_config c) = None" and "deliver_policy_of (con_config c) \<noteq> DeliverLast"
  shows "\<exists>x m'. next_for_consumer now n name m = (Inr (Some x), m') \<and> x \<in> set (stream_msgs s) \<and>
    sm_sequence x = next_sequence (con_state c) \<and>
    map_of (cm_consumers m') (consumer_key n name) = Some (record_delivery now (next_sequence (con_state c)) c)"
proof -
  have inv: "store_inv m" by (rule store_reach_inv [OF assms(1)])
  have "\<not> is_backpressured c"
    using assms(4) unat_pending [OF store_inv_consumer [OF inv assms(3)]]
    by (auto simp: is_backpressured_def word_le_nat_alt not_le)
  from inv assms(2,3) show ?thesis
    by (cases rule: next_for_consumer_cases [where now = now]) (use assms(5,6) \<open>\<not> is_backpressured c\<close> in \<open>auto simp: update_conv'\<close>)
qed

lemma run_store_o: "run_ops (lit ''o'') (lit ''w'') [OpStore 5 5 (lit ''s'') None [1] None] mgr_o =
    ([], mgr_o\<lparr>cm_store := [(lit ''o'', one_msg)]\<rparr>)"
  by (simp add: mgr_store_message_eq stream_of_def mgr_o_eq one_msg_def split: prod.split)

lemma mgr_one_reach: "store_reach (mgr_o\<lparr>cm_store := [(lit ''o'', one_msg)]\<rparr>)"
proof -
  have "has_room (length [1 :: u8]) (stream_of (lit ''o'') mgr_o)"
    by (simp add: has_room_def stream_of_def mgr_o_eq stream_new_def total_bytes_def)
  from store_reach.step [OF mgr_o_reach store_message [OF this, of 5 5 "lit ''s''" None None]] run_store_o
  show ?thesis by simp
qed

theorem consumer_is_served_witness:
  "\<exists>x m'. next_for_consumer 9 (lit ''o'') (lit ''w'') (mgr_o\<lparr>cm_store := [(lit ''o'', one_msg)]\<rparr>) = (Inr (Some x), m') \<and>
    x \<in> set (stream_msgs one_msg) \<and> sm_sequence x = 1"
proof -
  let ?m = "mgr_o\<lparr>cm_store := [(lit ''o'', one_msg)]\<rparr>" and ?c = "consumer_new worker 0"
  have c: "map_of (cm_consumers ?m) (consumer_key (lit ''o'') (lit ''w'')) = Some ?c"
    by (simp add: mgr_o_eq consumer_key_def lit_def)
  have "map_of (cm_store ?m) (lit ''o'') = Some one_msg" by simp
  from consumer_is_served [OF mgr_one_reach this c, of 9] show ?thesis
    by (auto simp: consumer_new_def worker_def one_msg_eq)
qed

section \<open>Where the store falls short\<close>

text \<open>
  C35: a consumer whose next message has been evicted by retention is never given a message again, however
  much is stored and acknowledged afterwards: nothing moves its position to the first message still there.
\<close>

theorem evicted_consumer_starves:
  assumes "store_reach m" and "map_of (cm_store m) n = Some s"
    and "map_of (cm_consumers m) (consumer_key n name) = Some c"
    and "next_sequence (con_state c) < first_seq (stream_st s)" and "ops_fit ops s"
  shows "fst (run_ops n name ops m) = []"
  using run_ops_starved [of m n name s c ops "fst (run_ops n name ops m)" "snd (run_ops n name ops m)"]
    store_reach_inv [OF assms(1)] assms by (simp add: bound_to_def)

definition mgr_late :: consumer_manager where
  "mgr_late = snd (mgr_store_message 6 6 (lit ''o'') (lit ''s'') None [2] None (mgr_o\<lparr>cm_store := [(lit ''o'', one_msg)]\<rparr>))"

definition late_stream :: stream where
  "late_stream = \<lparr>stream_name = lit ''o'', stream_cfg = \<lparr>max_msgs = 1, max_bytes = 0, max_age_secs = 0\<rparr>,
    stream_st = \<lparr>st_messages = 1, st_bytes = 1, first_seq = 2, last_seq = 2\<rparr>,
    stream_msgs = [\<lparr>sm_sequence = 2, sm_timestamp = 6, sm_subject = lit ''s'', sm_reply_to = None, sm_payload = [2], sm_headers = None\<rparr>]\<rparr>"

lemma mgr_late_eq: "mgr_late = mgr_o\<lparr>cm_store := [(lit ''o'', late_stream)]\<rparr>"
  by (simp add: mgr_late_def mgr_store_message_eq stream_of_def one_msg_eq late_stream_def stream_store_def
      apply_retention_def evict_count.simps remove_front_def)

lemma mgr_late_reach: "store_reach mgr_late"
proof -
  have "has_room (length [2 :: u8]) (stream_of (lit ''o'') (mgr_o\<lparr>cm_store := [(lit ''o'', one_msg)]\<rparr>))"
    by (simp add: has_room_def stream_of_def one_msg_eq total_bytes_def)
  from store_reach.step [OF mgr_one_reach store_message [OF this, of 6 6 "lit ''s''" None None]]
  show ?thesis by (simp add: mgr_late_def)
qed

theorem evicted_consumer_starves_witness:
  "fst (run_ops (lit ''o'') (lit ''w'') (replicate 9 (OpNext 7)) mgr_late) = [] \<and> stream_msgs late_stream \<noteq> []"
proof -
  have "map_of (cm_store mgr_late) (lit ''o'') = Some late_stream" by (simp add: mgr_late_eq)
  moreover have "map_of (cm_consumers mgr_late) (consumer_key (lit ''o'') (lit ''w'')) = Some (consumer_new worker 0)"
    by (simp add: mgr_late_eq mgr_o_eq consumer_key_def lit_def)
  moreover have "next_sequence (con_state (consumer_new worker 0)) < first_seq (stream_st late_stream)"
    by (simp add: consumer_new_def worker_def late_stream_def)
  moreover have "ops_fit (replicate 9 (OpNext 7)) late_stream"
    by (simp add: ops_fit_def late_stream_def total_bytes_def sum_list_replicate)
  ultimately have "fst (run_ops (lit ''o'') (lit ''w'') (replicate 9 (OpNext 7)) mgr_late) = []"
    by (rule evicted_consumer_starves [OF mgr_late_reach])
  then show ?thesis by (simp add: late_stream_def)
qed

text \<open>The manager with another configuration for one of its consumers.\<close>

definition reconfigured :: "str \<Rightarrow> consumer_config \<Rightarrow> consumer_manager \<Rightarrow> consumer_manager" where
  "reconfigured k cfg m = m\<lparr>cm_consumers := AList.map_entry k (\<lambda>c. c\<lparr>con_config := cfg\<rparr>) (cm_consumers m)\<rparr>"

lemma update_map_entry: "map_of xs k \<noteq> None \<Longrightarrow> AList.update k (f v) (AList.map_entry k f xs) = AList.map_entry k f (AList.update k v xs)"
  by (induction xs) auto

lemma reconfigured_next:
  assumes "map_of (cm_consumers m) (consumer_key n name) = Some c" and "max_ack_pending cfg = max_ack_pending (con_config c)"
  shows "next_for_consumer now n name (reconfigured (consumer_key n name) cfg m) =
    map_prod id (reconfigured (consumer_key n name) cfg) (next_for_consumer now n name m)"
proof -
  let ?f = "\<lambda>c :: consumer. c\<lparr>con_config := cfg\<rparr>"
  have "AList.update (consumer_key n name) (record_delivery now q (?f c)) (AList.map_entry (consumer_key n name) ?f (cm_consumers m)) =
      AList.map_entry (consumer_key n name) ?f (AList.update (consumer_key n name) (record_delivery now q c) (cm_consumers m))" for q
    using update_map_entry [of "cm_consumers m" "consumer_key n name" ?f "record_delivery now q c"] assms(1)
    by (cases c) (simp add: record_delivery_def Let_def)
  then show ?thesis
    using assms by (simp add: next_for_consumer_def reconfigured_def map_of_map_entry is_backpressured_def Let_def split: sum.split)
qed

lemma reconfigured_ack:
  assumes "map_of (cm_consumers m) (consumer_key n name) = Some c"
  shows "manager_ack n name q (reconfigured (consumer_key n name) cfg m) =
    map_prod id (reconfigured (consumer_key n name) cfg) (manager_ack n name q m)"
proof -
  let ?f = "\<lambda>c :: consumer. c\<lparr>con_config := cfg\<rparr>"
  have "consumer_ack q (?f c) = map_prod id ?f (consumer_ack q c)" by (cases c) (simp add: consumer_ack_def Let_def)
  then show ?thesis
    using assms update_map_entry [of "cm_consumers m" "consumer_key n name" ?f "snd (consumer_ack q c)"]
    by (simp add: manager_ack_def reconfigured_def map_of_map_entry split_def Let_def)
qed

lemma reconfigured_store:
  "mgr_store_message ts now n subj reply data hs (reconfigured k cfg m) =
     map_prod id (reconfigured k cfg) (mgr_store_message ts now n subj reply data hs m)"
  by (cases m) (simp add: mgr_store_message_def reconfigured_def split_def Let_def)

text \<open>No operation changes the configuration of a consumer.\<close>

lemma run_op_config:
  assumes "map_of (cm_consumers m) (consumer_key n name) = Some c"
  shows "\<exists>c'. map_of (cm_consumers (snd (run_op n name op m))) (consumer_key n name) = Some c' \<and> con_config c' = con_config c"
  using assms
  by (cases op) (auto simp: mgr_store_message_def next_for_consumer_def manager_ack_def consumer_ack_def record_delivery_def
      Let_def split_def update_conv' split: sum.split)

lemma reconfigured_run_op:
  assumes "map_of (cm_consumers m) (consumer_key n name) = Some c" and "max_ack_pending cfg = max_ack_pending (con_config c)"
  shows "run_op n name op (reconfigured (consumer_key n name) cfg m) = map_prod id (reconfigured (consumer_key n name) cfg) (run_op n name op m)"
proof (cases op)
  case (OpNext now)
  then show ?thesis using reconfigured_next [OF assms, of now] by (auto split: prod.split sum.split option.split)
qed (simp_all add: reconfigured_store reconfigured_ack [OF assms(1)])

text \<open>
  C36: \<open>filter_subject\<close>, \<open>ack_policy\<close> and, once it has chosen the first message, \<open>deliver_policy\<close> of a
  consumer are ignored.  Give it any configuration with the same \<open>max_ack_pending\<close>: whatever is stored, requested
  and acknowledged, it is given the very same messages.  In particular a consumer with a filter is given messages of every
  subject, and one with \<open>DeliverPolicy::Last\<close> all that follow the last.
\<close>

theorem consumer_options_ignored:
  assumes "map_of (cm_consumers m) (consumer_key n name) = Some c" and "max_ack_pending cfg = max_ack_pending (con_config c)"
  shows "fst (run_ops n name ops (reconfigured (consumer_key n name) cfg m)) = fst (run_ops n name ops m)"
  using assms
proof (induction ops arbitrary: m c)
  case (Cons op ops)
  obtain c' where c': "map_of (cm_consumers (snd (run_op n name op m))) (consumer_key n name) = Some c'" "con_config c' = con_config c"
    using run_op_config [OF Cons.prems(1)] by blast
  have "fst (run_ops n name ops (reconfigured (consumer_key n name) cfg (snd (run_op n name op m)))) =
      fst (run_ops n name ops (snd (run_op n name op m)))"
    using Cons.IH [OF c'(1)] c'(2) Cons.prems(2) by simp
  then show ?case using reconfigured_run_op [OF Cons.prems, of op] by (simp add: split_def Let_def)
qed simp

text \<open>A consumer of subject \<open>t\<close> is given a message of subject \<open>s\<close>.\<close>

theorem consumer_options_ignored_witness:
  "fst (run_ops (lit ''o'') (lit ''w'') [OpNext 9] (reconfigured (lit ''o:w'') (worker\<lparr>filter_subject := Some (lit ''t'')\<rparr>)
     (mgr_o\<lparr>cm_store := [(lit ''o'', one_msg)]\<rparr>))) = stream_msgs one_msg \<and>
   map sm_subject (stream_msgs one_msg) = [lit ''s'']"
proof -
  let ?m = "mgr_o\<lparr>cm_store := [(lit ''o'', one_msg)]\<rparr>"
  have k: "consumer_key (lit ''o'') (lit ''w'') = lit ''o:w''" by (simp add: consumer_key_def lit_def)
  have c: "map_of (cm_consumers ?m) (consumer_key (lit ''o'') (lit ''w'')) = Some (consumer_new worker 0)"
    unfolding k by (simp add: mgr_o_eq)
  have "fst (run_ops (lit ''o'') (lit ''w'') [OpNext 9] ?m) = stream_msgs one_msg"
    by (simp add: mgr_o_eq consumer_key_def lit_def next_for_consumer_def is_backpressured_def consumer_new_def worker_def read_message_def stream_read_def
        idx_def one_msg_eq Let_def)
  then show ?thesis
    using consumer_options_ignored [OF c, of "worker\<lparr>filter_subject := Some (lit ''t'')\<rparr>" "[OpNext 9]"]
    unfolding k by (simp add: consumer_new_def worker_def one_msg_eq)
qed

text \<open>
  The key \<open>{stream}:{name}\<close> does not tell a stream \<open>a:b\<close> with a consumer \<open>c\<close> from a stream
  \<open>a\<close> with a consumer \<open>b:c\<close>: the second of them cannot be created once the first exists.
\<close>

lemma consumer_key_collides:
  "consumer_key (lit ''a:b'') (lit ''c'') = consumer_key (lit ''a'') (lit ''b:c'') \<and>
   fst (create_consumer (cfg'\<lparr>durable_name := lit ''b:c'', cc_stream := lit ''a''\<rparr>)
     (snd (create_consumer (cfg\<lparr>durable_name := lit ''c'', cc_stream := lit ''a:b''\<rparr>)
       (snd (mgr_create_stream (lit ''a'') scfg' (snd (mgr_create_stream (lit ''a:b'') scfg store_manager_new))))))) =
   Inl (ConsumerAlreadyExists (lit ''consumer b:c on stream a''))"
  by (simp add: consumer_key_def create_consumer_def insert_consumer_def mgr_create_stream_def create_stream_def
      store_manager_new_def stream_info_def Let_def lit_def)

end
