(* ===== verification/Session.thy ===== *)
theory Session
  imports Broker_Batch Auth Wire Store
begin

text \<open>
  A client connection on the server: \<open>zetmq-server/src/session/handler.rs\<close>, \<open>session/state.rs\<close> and
  \<open>runtime/dispatcher.rs\<close>.  The outbound channel is \<open>tokio::sync::mpsc\<close>, so its \<open>try_send\<close> is the
  parameter \<open>send\<close>: it takes the channel, a frame and the state of all channels, and says whether the frame was
  accepted.  The contract the clients of the channel rely on is the locale \<open>outbound_channel\<close>.

  An iteration of the frame loop is \<open>frame_step\<close>; \<open>process_frames\<close> is the loop, which ends because every
  iteration that goes on takes bytes off the read buffer.  Slices and indices out of range are panics,
  the value \<open>None\<close>.  Store commands run in spawned tasks: dispatching one appends the task to \<open>w_tasks\<close>.
\<close>

section \<open>State\<close>

datatype session_state = New | Connected | Draining | Closed

datatype outbound_frame = Raw frame | MsgOut delivery_message

type_synonym ('h, 'w) sender = "'h \<Rightarrow> outbound_frame \<Rightarrow> 'w \<Rightarrow> bool \<times> 'w"

type_synonym batch_order =
  "(subscription_id \<times> delivery_message list) list \<Rightarrow> (subscription_id \<times> delivery_message list) list"

definition channel_deliver :: "('h, 'w) sender \<Rightarrow> ('h, 'w) deliverer" where
  "channel_deliver send h msg w =
     (case send h (MsgOut msg) w of (True, w') \<Rightarrow> (Delivered, w') | (False, w') \<Rightarrow> (ChannelFull, w'))"

datatype 'h store_task =
    TaskCreate str stream_config 'h
  | TaskDelete str 'h
  | TaskAck str str u64

record ('h, 'w) env =
  w_broker :: "'h broker"
  w_chan :: 'w
  w_tasks :: "'h store_task list"

record session =
  ss_state :: session_state
  ss_auth :: auth_context
  read_buf :: bytes
  local_published :: u64
  sub_consumers :: "u64 \<rightharpoonup> str \<times> str"

definition session_new :: session where
  "session_new = \<lparr>ss_state = New, ss_auth = unrestricted, read_buf = [], local_published = 0, sub_consumers = Map.empty\<rparr>"

text \<open>\<open>let _ = outbound_tx.try_send(frame)\<close>, and an update of the metrics.\<close>

definition send_out :: "('h, 'w) sender \<Rightarrow> 'h \<Rightarrow> frame \<Rightarrow> ('h, 'w) env \<Rightarrow> ('h, 'w) env" where
  "send_out send h f W = W\<lparr>w_chan := snd (send h (Raw f) (w_chan W))\<rparr>"

definition count :: "(core_metrics \<Rightarrow> core_metrics) \<Rightarrow> ('h, 'w) env \<Rightarrow> ('h, 'w) env" where
  "count g W = W\<lparr>w_broker := (w_broker W)\<lparr>b_metrics := g (b_metrics (w_broker W))\<rparr>\<rparr>"

definition error_frame :: "u64 \<Rightarrow> str \<Rightarrow> frame" where
  "error_frame cid text = with_payload text (frame_new Error cid)"

section \<open>PUB frames in the read buffer\<close>

definition PUB_BATCH_LIMIT :: nat where "PUB_BATCH_LIMIT = 128"
definition NO_SUB_PUB_BATCH_LIMIT :: nat where "NO_SUB_PUB_BATCH_LIMIT = 1024"
definition LOCAL_PUBLISHED_FLUSH_THRESHOLD :: u64 where "LOCAL_PUBLISHED_FLUSH_THRESHOLD = 4096"

record pub_frame_layout =
  l_correlation_id :: u64
  header_start :: nat
  header_end :: nat
  payload_start :: nat
  payload_end :: nat
  l_total :: nat

record publish_payload_layout =
  r_subject :: "nat \<times> nat"
  r_reply_to :: "(nat \<times> nat) option"
  r_payload :: "nat \<times> nat"

definition next_frame_is_pub :: "bytes \<Rightarrow> bool" where
  "next_frame_is_pub buf \<longleftrightarrow> length buf \<ge> FRAME_HEADER_SIZE \<and> idx buf 3 = Some (as_u8 Pub)"

definition peek_pub_frame_layout :: "nat \<Rightarrow> bytes \<Rightarrow> (protocol_error + pub_frame_layout option) option" where
  "peek_pub_frame_layout max_frame_size buf =
     (if length buf < FRAME_HEADER_SIZE then Some (Inr None)
      else do {
        hl \<leftarrow> be_at 4 buf 14;
        pl \<leftarrow> be_at 4 buf 18;
        let header_len = unat (hl :: u32);
        let payload_len = unat (pl :: u32);
        let total = FRAME_HEADER_SIZE + header_len + payload_len;
        if total > max_frame_size then Some (Inl (FrameTooLarge total max_frame_size))
        else if length buf < total then Some (Inr None)
        else do {
          mg \<leftarrow> be_at 2 buf 0;
          if mg \<noteq> ZETMQ_MAGIC then Some (Inl (InvalidMagic ZETMQ_MAGIC mg))
          else do {
            v \<leftarrow> idx buf 2;
            if v \<noteq> CURRENT_VERSION then Some (Inl (UnsupportedVersion v))
            else do {
              ft \<leftarrow> idx buf 3;
              if ft \<noteq> as_u8 Pub then Some (Inl (UnknownFrameType ft))
              else do {
                cid \<leftarrow> be_at 8 buf 6;
                Some (Inr (Some \<lparr>l_correlation_id = cid, header_start = FRAME_HEADER_SIZE,
                  header_end = FRAME_HEADER_SIZE + header_len, payload_start = FRAME_HEADER_SIZE + header_len,
                  payload_end = FRAME_HEADER_SIZE + header_len + payload_len, l_total = total\<rparr>))
              }
            }
          }
        }
      })"

definition peek_pub_frame_total :: "nat \<Rightarrow> bytes \<Rightarrow> (protocol_error + nat option) option" where
  "peek_pub_frame_total max_frame_size buf =
     (if length buf < FRAME_HEADER_SIZE then Some (Inr None)
      else do {
        hl \<leftarrow> be_at 4 buf 14;
        pl \<leftarrow> be_at 4 buf 18;
        let header_len = unat (hl :: u32);
        let payload_len = unat (pl :: u32);
        let total = FRAME_HEADER_SIZE + header_len + payload_len;
        if total > max_frame_size then Some (Inl (FrameTooLarge total max_frame_size))
        else if length buf < total then Some (Inr None)
        else do {
          mg \<leftarrow> be_at 2 buf 0;
          if mg \<noteq> ZETMQ_MAGIC then Some (Inl (InvalidMagic ZETMQ_MAGIC mg))
          else do {
            v \<leftarrow> idx buf 2;
            if v \<noteq> CURRENT_VERSION then Some (Inl (UnsupportedVersion v))
            else do {
              ft \<leftarrow> idx buf 3;
              if ft \<noteq> as_u8 Pub then Some (Inl (UnknownFrameType ft)) else Some (Inr (Some total))
            }
          }
        }
      })"

definition parse_publish_payload :: "bytes \<Rightarrow> (protocol_error + publish_payload_layout) option" where
  "parse_publish_payload payload =
     (if length payload < 2 then Some (Inl (DecodingError (lit ''PUB frame too short'')))
      else do {
        sl \<leftarrow> be_at 2 payload 0;
        let subject_end = 2 + unat (sl :: u16);
        if length payload < subject_end then Some (Inl (DecodingError (lit ''PUB subject truncated'')))
        else if length payload < subject_end + 2 then Some (Inl (DecodingError (lit ''PUB reply length missing'')))
        else do {
          rl \<leftarrow> be_at 2 payload subject_end;
          let reply_len = unat (rl :: u16);
          let reply_start = subject_end + 2;
          let reply_end = reply_start + reply_len;
          if length payload < reply_end then Some (Inl (DecodingError (lit ''PUB reply truncated'')))
          else Some (Inr \<lparr>r_subject = (2, subject_end),
            r_reply_to = (if reply_len > 0 then Some (reply_start, reply_end) else None),
            r_payload = (reply_end, length payload)\<rparr>)
        }
      })"

definition publish_allowed :: "auth_context \<Rightarrow> bytes \<Rightarrow> 'h broker \<Rightarrow> bool \<times> 'h broker" where
  "publish_allowed ctx subject_bytes b =
     (if is_publish_unrestricted ctx then (True, b)
      else
        (case from_utf8 subject_bytes of
           None \<Rightarrow> (False, b)
         | Some subject_str \<Rightarrow>
             (case parse_subject subject_str b of
                (Inl _, b') \<Rightarrow> (False, b')
              | (Inr s, b') \<Rightarrow> (can_publish ctx s, b'))))"

definition send_publish_denied :: "('h, 'w) sender \<Rightarrow> 'h \<Rightarrow> u64 \<Rightarrow> ('h, 'w) env \<Rightarrow> ('h, 'w) env" where
  "send_publish_denied send h cid W = send_out send h (error_frame cid (lit ''permission denied for publish'')) W"

text \<open>The two loops without subscribers; the first argument counts the frames still allowed in this batch.\<close>

primrec drain_unrestricted :: "nat \<Rightarrow> nat \<Rightarrow> nat \<Rightarrow> bytes \<Rightarrow> ((protocol_error + nat) \<times> bytes) option" where
  "drain_unrestricted 0 max_frame_size processed buf = Some (Inr processed, buf)"
| "drain_unrestricted (Suc n) max_frame_size processed buf =
     (if \<not> next_frame_is_pub buf then Some (Inr processed, buf)
      else do {
        r \<leftarrow> peek_pub_frame_total max_frame_size buf;
        case r of
          Inl e \<Rightarrow> Some (Inl e, buf)
        | Inr None \<Rightarrow> Some (Inr processed, buf)
        | Inr (Some tot) \<Rightarrow> do {
            rest \<leftarrow> sub_slice buf tot (length buf);
            drain_unrestricted n max_frame_size (processed + 1) rest
          }
      })"

primrec drain_restricted ::
  "nat \<Rightarrow> ('h, 'w) sender \<Rightarrow> 'h \<Rightarrow> auth_context \<Rightarrow> nat \<Rightarrow> nat \<Rightarrow> u64 \<Rightarrow> bytes \<Rightarrow> ('h, 'w) env \<Rightarrow>
   ((protocol_error + nat \<times> u64) \<times> bytes \<times> ('h, 'w) env) option" where
  "drain_restricted 0 send h ctx max_frame_size processed published buf W = Some (Inr (processed, published), buf, W)"
| "drain_restricted (Suc n) send h ctx max_frame_size processed published buf W =
     (if \<not> next_frame_is_pub buf then Some (Inr (processed, published), buf, W)
      else do {
        r \<leftarrow> peek_pub_frame_layout max_frame_size buf;
        case r of
          Inl e \<Rightarrow> Some (Inl e, buf, W)
        | Inr None \<Rightarrow> Some (Inr (processed, published), buf, W)
        | Inr (Some layout) \<Rightarrow> do {
            payload_bytes \<leftarrow> sub_slice buf (payload_start layout) (payload_end layout);
            p \<leftarrow> parse_publish_payload payload_bytes;
            case p of
              Inl e \<Rightarrow> Some (Inl e, buf, W)
            | Inr pl \<Rightarrow> do {
                subj \<leftarrow> sub_slice payload_bytes (fst (r_subject pl)) (snd (r_subject pl));
                let (allowed, b) = publish_allowed ctx subj (w_broker W);
                let W1 = W\<lparr>w_broker := b\<rparr>;
                let W2 = (if allowed then W1 else send_publish_denied send h (l_correlation_id layout) W1);
                rest \<leftarrow> sub_slice buf (l_total layout) (length buf);
                drain_restricted n send h ctx max_frame_size (processed + 1)
                  (if allowed then published + 1 else published) rest W2
              }
          }
      })"

definition drain_publish_batch_without_subscribers ::
  "('h, 'w) sender \<Rightarrow> 'h \<Rightarrow> auth_context \<Rightarrow> nat \<Rightarrow> bytes \<Rightarrow> ('h, 'w) env \<Rightarrow>
   ((protocol_error + bool \<times> u64) \<times> bytes \<times> ('h, 'w) env) option" where
  "drain_publish_batch_without_subscribers send h ctx max_frame_size buf W =
     (if is_publish_unrestricted ctx then do {
        (r, buf') \<leftarrow> drain_unrestricted NO_SUB_PUB_BATCH_LIMIT max_frame_size 0 buf;
        Some (map_sum id (\<lambda>processed. (processed > 0, of_nat processed)) r, buf', W)
      } else do {
        (r, buf', W') \<leftarrow> drain_restricted NO_SUB_PUB_BATCH_LIMIT send h ctx max_frame_size 0 0 buf W;
        Some (map_sum id (\<lambda>(processed, published). (processed > 0, published)) r, buf', W')
      })"

definition decode_publish_command_from_buf ::
  "pub_frame_layout \<Rightarrow> bytes \<Rightarrow> ((protocol_error + publish_command \<times> u64) \<times> bytes) option" where
  "decode_publish_command_from_buf layout buf =
     do {
       frame_bytes \<leftarrow> sub_slice buf 0 (l_total layout);
       let buf' = drop (l_total layout) buf;
       header_bytes \<leftarrow> sub_slice frame_bytes (header_start layout) (header_end layout);
       payload_bytes \<leftarrow> sub_slice frame_bytes (payload_start layout) (payload_end layout);
       p \<leftarrow> parse_publish_payload payload_bytes;
       case p of
         Inl e \<Rightarrow> Some (Inl e, buf')
       | Inr pl \<Rightarrow> do {
           hs \<leftarrow> (if header_bytes = [] then Some (Inr None) else map_option (map_sum id Some) (decode_headers header_bytes));
           case hs of
             Inl e \<Rightarrow> Some (Inl e, buf')
           | Inr headers \<Rightarrow> do {
               subj \<leftarrow> sub_slice payload_bytes (fst (r_subject pl)) (snd (r_subject pl));
               data \<leftarrow> sub_slice payload_bytes (fst (r_payload pl)) (snd (r_payload pl));
               reply \<leftarrow> (case r_reply_to pl of
                           None \<Rightarrow> Some None
                         | Some (a, e) \<Rightarrow> map_option Some (sub_slice payload_bytes a e));
               Some (Inr (\<lparr>pc_subject = subj, pc_payload = data, pc_reply_to = reply, pc_headers = headers\<rparr>,
                 l_correlation_id layout), buf')
             }
         }
     }"

section \<open>Dispatcher\<close>

text \<open>\<open>p.reply_to.as_ref().and_then(...)\<close>: a reply subject that is not valid is dropped.\<close>

definition parse_reply :: "bytes option \<Rightarrow> 'h broker \<Rightarrow> subject option \<times> 'h broker" where
  "parse_reply reply b =
     (case reply of
        None \<Rightarrow> (None, b)
      | Some bs \<Rightarrow>
          (case from_utf8 bs of
             None \<Rightarrow> (None, b)
           | Some t \<Rightarrow> (case parse_subject t b of (Inl _, b') \<Rightarrow> (None, b') | (Inr s, b') \<Rightarrow> (Some s, b'))))"

definition publish_item_of :: "publish_command \<Rightarrow> 'h broker \<Rightarrow> publish_item option \<times> 'h broker" where
  "publish_item_of p b =
     (case from_utf8 (pc_subject p) of
        None \<Rightarrow> (None, b)
      | Some t \<Rightarrow>
          (case parse_subject t b of
             (Inl _, b1) \<Rightarrow> (None, b1)
           | (Inr s, b1) \<Rightarrow>
               (let (reply, b2) = parse_reply (pc_reply_to p) b1 in
                (Some \<lparr>i_subject = s, i_payload = pc_payload p, i_reply_to = reply, i_headers = pc_headers p\<rparr>, b2))))"

fun publish_items :: "publish_command list \<Rightarrow> 'h broker \<Rightarrow> publish_item list \<times> 'h broker" where
  "publish_items [] b = ([], b)"
| "publish_items (p # ps) b =
     (let (it, b1) = publish_item_of p b; (its, b2) = publish_items ps b1 in
      (case it of None \<Rightarrow> its | Some i \<Rightarrow> i # its, b2))"

definition dispatch_publish_batch ::
  "('h, 'w) sender \<Rightarrow> batch_order \<Rightarrow> publish_command list \<Rightarrow> 'h broker \<times> 'w \<Rightarrow> 'h broker \<times> 'w" where
  "dispatch_publish_batch send iter publishes = (\<lambda>(b, w).
     if publishes = [] then (b, w)
     else (let (items, b1) = publish_items publishes b in publish_batch (channel_deliver send) iter items (b1, w)))"

text \<open>\<open>format!("conn-{}-sub-{}", ...)\<close>.\<close>

definition consumer_name :: "connection_id \<Rightarrow> subscription_id \<Rightarrow> str" where
  "consumer_name c i = lit ''conn-'' @ dec (unat c) @ lit ''-sub-'' @ dec (unat i)"

definition id_frame :: "frame_type \<Rightarrow> u64 \<Rightarrow> subscription_id \<Rightarrow> frame" where
  "id_frame t cid i = with_payload (u64_bytes i) (frame_new t cid)"

fun dispatch ::
  "('h, 'w) sender \<Rightarrow> 'h \<Rightarrow> connection_id \<Rightarrow> broker_command \<Rightarrow> u64 \<Rightarrow> session \<times> ('h, 'w) env \<Rightarrow> session \<times> ('h, 'w) env" where
  "dispatch send h c (CmdPublish p) cid (s, W) =
     (case from_utf8 (pc_subject p) of
        None \<Rightarrow> (s, W)
      | Some subject_str \<Rightarrow>
          (let (reply, b) = parse_reply (pc_reply_to p) (w_broker W);
               (b', w') = publish_with_str (channel_deliver send) subject_str (pc_payload p) reply (pc_headers p) (b, w_chan W)
           in (s, W\<lparr>w_broker := b', w_chan := w'\<rparr>)))"
| "dispatch send h c (CmdSubscribe sc) cid (s, W) =
     (case pattern_parse (sc_subject_pattern sc) of
        Inl _ \<Rightarrow> (s, W)
      | Inr pat \<Rightarrow>
          (let qg = (case sc_queue_group sc of
                 None \<Rightarrow> None
               | Some q \<Rightarrow> (case queue_group_name_new q of Inr n \<Rightarrow> Some n | Inl _ \<Rightarrow> None));
               (i, b) = subscribe c pat qg h (w_broker W);
               s' = s\<lparr>sub_consumers := (sub_consumers s)(i \<mapsto> (sc_subject_pattern sc, consumer_name c i))\<rparr>
           in (s', send_out send h (id_frame Suback cid i) (W\<lparr>w_broker := b\<rparr>))))"
| "dispatch send h c (CmdUnsubscribe u) cid (s, W) =
     (let i = uc_subscription_id u in
      (s\<lparr>sub_consumers := (sub_consumers s)(i := None)\<rparr>,
       send_out send h (id_frame Unsuback cid i) (W\<lparr>w_broker := unsubscribe c i (w_broker W)\<rparr>)))"
| "dispatch send h c (CmdCreateStream x) cid (s, W) =
     (let config = with_max_age_secs (cs_max_age_secs x) (with_max_bytes (cs_max_bytes x)
            (with_max_msgs (cs_max_msgs x) stream_config_default))
      in (s, W\<lparr>w_tasks := w_tasks W @ [TaskCreate (cs_name x) config h]\<rparr>))"
| "dispatch send h c (CmdDeleteStream x) cid (s, W) = (s, W\<lparr>w_tasks := w_tasks W @ [TaskDelete (ds_name x) h]\<rparr>)"
| "dispatch send h c (CmdAck a) cid (s, W) =
     (let consumer = (case sub_consumers s cid of Some (_, n) \<Rightarrow> n | None \<Rightarrow> lit ''default'')
      in (s, W\<lparr>w_tasks := w_tasks W @ [TaskAck (ack_stream a) consumer (ack_sequence a)]\<rparr>))"
| "dispatch send h c (CmdNack x) cid (s, W) = (s, W)"
| "dispatch send h c (CmdConnect x) cid (s, W) = (s, W)"
| "dispatch send h c CmdPing cid (s, W) = (s, W)"

text \<open>The spawned tasks.\<close>

definition info_response :: "stream_info_data \<Rightarrow> stream_info_response" where
  "info_response i = \<lparr>si_name = info_name i, si_messages = st_messages (info_state i), si_bytes = st_bytes (info_state i),
     si_first_seq = first_seq (info_state i), si_last_seq = last_seq (info_state i), si_max_msgs = max_msgs (info_config i),
     si_max_bytes = max_bytes (info_config i), si_max_age_secs = max_age_secs (info_config i)\<rparr>"

fun run_store_task ::
  "('h, 'w) sender \<Rightarrow> 'h store_task \<Rightarrow> consumer_manager \<times> 'w \<Rightarrow> consumer_manager \<times> 'w" where
  "run_store_task send (TaskCreate name config h) (m, w) =
     (let (r, m') = mgr_create_stream name config m;
          f = (case r of
                 Inr info \<Rightarrow> with_payload (stream_info_encode (info_response info)) (frame_new StreamInfo 0)
               | Inl e \<Rightarrow> error_frame 0 (lit ''create stream error: '' @ store_error_display e))
      in (m', snd (send h (Raw f) w)))"
| "run_store_task send (TaskDelete name h) (m, w) =
     (let (r, m') = mgr_delete_stream name m;
          f = (case r of
                 Inr _ \<Rightarrow> frame_new StreamInfo 0
               | Inl e \<Rightarrow> error_frame 0 (lit ''delete stream error: '' @ store_error_display e))
      in (m', snd (send h (Raw f) w)))"
| "run_store_task send (TaskAck stream consumer sequence) (m, w) = (snd (manager_ack stream consumer sequence m), w)"

end
