(* ===== verification/Session_Loop.thy ===== *)
theory Session_Loop
  imports Session
begin

text \<open>
  The loops of \<open>handle_connection\<close>: the PUB fast path over the read buffer, one iteration of the frame loop, the
  frame loop itself, and the events the connection reacts to: data, end of stream, heartbeat ticks and
  shutdown.
\<close>

section \<open>The PUB fast path\<close>

primrec collect_commands ::
  "nat \<Rightarrow> ('h, 'w) sender \<Rightarrow> 'h \<Rightarrow> auth_context \<Rightarrow> nat \<Rightarrow> nat \<Rightarrow> publish_command list \<Rightarrow> bytes \<Rightarrow> ('h, 'w) env \<Rightarrow>
   ((protocol_error + nat \<times> publish_command list) \<times> bytes \<times> ('h, 'w) env) option" where
  "collect_commands 0 send h ctx max_frame_size processed commands buf W = Some (Inr (processed, commands), buf, W)"
| "collect_commands (Suc n) send h ctx max_frame_size processed commands buf W =
     (if \<not> next_frame_is_pub buf then Some (Inr (processed, commands), buf, W)
      else do {
        r \<leftarrow> peek_pub_frame_layout max_frame_size buf;
        case r of
          Inl e \<Rightarrow> Some (Inl e, buf, W)
        | Inr None \<Rightarrow> Some (Inr (processed, commands), buf, W)
        | Inr (Some layout) \<Rightarrow> do {
            (d, rest) \<leftarrow> decode_publish_command_from_buf layout buf;
            case d of
              Inl e \<Rightarrow> Some (Inl e, rest, W)
            | Inr (command, cid) \<Rightarrow>
                (let (allowed, b) = publish_allowed ctx (pc_subject command) (w_broker W);
                     W1 = W\<lparr>w_broker := b\<rparr>
                 in if allowed then
                      collect_commands n send h ctx max_frame_size (processed + 1) (commands @ [command]) rest W1
                    else
                      collect_commands n send h ctx max_frame_size (processed + 1) commands rest
                        (send_publish_denied send h cid W1))
          }
      })"

definition dispatch_publish_batch_from_read_buf ::
  "('h, 'w) sender \<Rightarrow> batch_order \<Rightarrow> 'h \<Rightarrow> auth_context \<Rightarrow> nat \<Rightarrow> bytes \<Rightarrow> ('h, 'w) env \<Rightarrow>
   ((protocol_error + bool \<times> u64) \<times> bytes \<times> ('h, 'w) env) option" where
  "dispatch_publish_batch_from_read_buf send iter h ctx max_frame_size buf W =
     (if \<not> has_active_subscriptions (w_broker W) \<and> \<not> router_has_wildcards (w_broker W) then
        drain_publish_batch_without_subscribers send h ctx max_frame_size buf W
      else do {
        (r, buf', W1) \<leftarrow> collect_commands PUB_BATCH_LIMIT send h ctx max_frame_size 0 [] buf W;
        case r of
          Inl e \<Rightarrow> Some (Inl e, buf', W1)
        | Inr (processed, commands) \<Rightarrow>
            (let (b, w) = (if commands \<noteq> [] then dispatch_publish_batch send iter commands (w_broker W1, w_chan W1)
                           else (w_broker W1, w_chan W1))
             in Some (Inr (processed > 0, 0), buf', W1\<lparr>w_broker := b, w_chan := w\<rparr>))
      })"

section \<open>Commands\<close>

text \<open>The checks of a SUB command: the text of the refusal, if it is refused.\<close>

definition subscribe_refused :: "server_config \<Rightarrow> connection_id \<Rightarrow> auth_context \<Rightarrow> broker_command \<Rightarrow> 'h broker \<Rightarrow> str option" where
  "subscribe_refused cfg c ctx cmd b =
     (case cmd of
        CmdSubscribe sc \<Rightarrow>
          if subscription_count_for_connection c b \<ge> max_subscriptions_per_connection cfg then
            Some (lit ''max subscriptions exceeded: '' @ dec (max_subscriptions_per_connection cfg))
          else
            (case pattern_parse (sc_subject_pattern sc) of
               Inr pat \<Rightarrow> if \<not> can_subscribe ctx pat then Some (lit ''permission denied for subscribe'') else None
             | Inl _ \<Rightarrow> None)
      | _ \<Rightarrow> None)"

text \<open>The check of a PUB command: whether it is refused, and the subject cache it leaves.\<close>

definition publish_refused :: "auth_context \<Rightarrow> broker_command \<Rightarrow> 'h broker \<Rightarrow> bool \<times> 'h broker" where
  "publish_refused ctx cmd b =
     (case cmd of
        CmdPublish p \<Rightarrow>
          (case from_utf8 (pc_subject p) of
             None \<Rightarrow> (False, b)
           | Some t \<Rightarrow>
               (case parse_subject t b of
                  (Inl _, b') \<Rightarrow> (False, b')
                | (Inr s, b') \<Rightarrow> (\<not> can_publish ctx s, b')))
      | _ \<Rightarrow> (False, b))"

text \<open>What is done with a decoded command; the flag is false when the frame loop is left.\<close>

definition handle_command ::
  "('h, 'w) sender \<Rightarrow> server_config \<Rightarrow> connection_id \<Rightarrow> 'h \<Rightarrow> broker_command \<Rightarrow> u64 \<Rightarrow> session \<Rightarrow> ('h, 'w) env \<Rightarrow>
   bool \<times> session \<times> ('h, 'w) env" where
  "handle_command send cfg c h cmd cid s W =
     (case cmd of
        CmdConnect con \<Rightarrow>
          (case validate_auth (auth con) cfg of
             Inr ctx \<Rightarrow> (True, s\<lparr>ss_auth := ctx, ss_state := Connected\<rparr>,
                send_out send h (frame_new Connack 0) (count inc_active_connections W))
           | Inl msg \<Rightarrow> (False, s, send_out send h (error_frame cid msg) W))
      | CmdPing \<Rightarrow> (True, s, send_out send h (frame_new Pong 0) W)
      | _ \<Rightarrow>
          if ss_state s \<noteq> Connected then (True, s, W)
          else
            (case subscribe_refused cfg c (ss_auth s) cmd (w_broker W) of
               Some text \<Rightarrow> (True, s, send_out send h (error_frame cid text) W)
             | None \<Rightarrow>
                 (let (refused, b) = publish_refused (ss_auth s) cmd (w_broker W); W1 = W\<lparr>w_broker := b\<rparr> in
                  if refused then (True, s, send_out send h (error_frame cid (lit ''permission denied for publish'')) W1)
                  else (True, dispatch send h c cmd cid (s, W1)))))"

section \<open>The frame loop\<close>

definition flush_published :: "session \<Rightarrow> ('h, 'w) env \<Rightarrow> session \<times> ('h, 'w) env" where
  "flush_published s W =
     (if local_published s > 0 then (s\<lparr>local_published := 0\<rparr>, count (inc_published_by (local_published s)) W) else (s, W))"

definition frame_step ::
  "('h, 'w) sender \<Rightarrow> batch_order \<Rightarrow> server_config \<Rightarrow> connection_id \<Rightarrow> 'h \<Rightarrow> session \<Rightarrow> ('h, 'w) env \<Rightarrow>
   (bool \<times> session \<times> ('h, 'w) env) option" where
  "frame_step send iter cfg c h s W =
     (if ss_state s = Connected \<and> next_frame_is_pub (read_buf s) then do {
        (r, buf, W1) \<leftarrow> dispatch_publish_batch_from_read_buf send iter h (ss_auth s) (c_max_frame_size cfg) (read_buf s) W;
        let s1 = s\<lparr>read_buf := buf\<rparr>;
        case r of
          Inr (progress, published) \<Rightarrow>
            if progress then
              (let lp = local_published s1 + published in
               if lp \<ge> LOCAL_PUBLISHED_FLUSH_THRESHOLD
               then Some (True, s1\<lparr>local_published := 0\<rparr>, count (inc_published_by lp) W1)
               else Some (True, s1\<lparr>local_published := lp\<rparr>, W1))
            else Some (False, s1, W1)
        | Inl e \<Rightarrow> Some (True, s1\<lparr>read_buf := []\<rparr>,
            send_out send h (error_frame 0 (lit ''decode error: '' @ protocol_error_display e)) (count inc_protocol_errors W1))
      } else do {
        (r, buf) \<leftarrow> decode_from (c_max_frame_size cfg) (read_buf s);
        let s1 = s\<lparr>read_buf := buf\<rparr>;
        case r of
          Inr (Some f) \<Rightarrow> do {
            rc \<leftarrow> from_frame f;
            case rc of
              Inr cmd \<Rightarrow> Some (handle_command send cfg c h cmd (correlation_id (f_header f)) s1 W)
            | Inl e \<Rightarrow> Some (True, s1,
                send_out send h (error_frame 0 (lit ''protocol error: '' @ protocol_error_display e)) (count inc_protocol_errors W))
          }
        | Inr None \<Rightarrow> (let (s2, W2) = flush_published s1 W in Some (False, s2, W2))
        | Inl e \<Rightarrow>
            (let (s2, W2) = flush_published s1 W in
             Some (True, s2\<lparr>read_buf := []\<rparr>,
               send_out send h (error_frame 0 (lit ''decode error: '' @ protocol_error_display e)) (count inc_protocol_errors W2)))
      })"

section \<open>Bytes taken by an iteration\<close>

lemma pub_header: "next_frame_is_pub buf \<Longrightarrow> FRAME_HEADER_SIZE \<le> length buf"
  by (simp add: next_frame_is_pub_def)

text \<open>What \<open>peek_pub_frame_layout\<close> says of a buffer; \<open>peek_pub_frame_total\<close> says the same.\<close>

lemma peek_layout_cases:
  obtains (short) "peek_pub_frame_layout k buf = Some (Inr None)" "peek_pub_frame_total k buf = Some (Inr None)"
  | (bad) e where "peek_pub_frame_layout k buf = Some (Inl e)" "peek_pub_frame_total k buf = Some (Inl e)"
  | (layout) hl pl where "peek_pub_frame_layout k buf = Some (Inr (Some \<lparr>l_correlation_id = from_be (take 8 (drop 6 buf)),
        header_start = FRAME_HEADER_SIZE, header_end = FRAME_HEADER_SIZE + hl, payload_start = FRAME_HEADER_SIZE + hl,
        payload_end = FRAME_HEADER_SIZE + hl + pl, l_total = FRAME_HEADER_SIZE + hl + pl\<rparr>))"
      "peek_pub_frame_total k buf = Some (Inr (Some (FRAME_HEADER_SIZE + hl + pl)))"
      "hl = unat (from_be (take 4 (drop 14 buf)) :: u32)" "pl = unat (from_be (take 4 (drop 18 buf)) :: u32)"
      "FRAME_HEADER_SIZE + hl + pl \<le> length buf" "FRAME_HEADER_SIZE + hl + pl \<le> k"
      "from_be (take 2 buf) = ZETMQ_MAGIC" "buf ! 2 = CURRENT_VERSION" "buf ! 3 = as_u8 Pub"
proof (cases "length buf < FRAME_HEADER_SIZE")
  case True
  then show ?thesis by (intro short) (simp_all add: peek_pub_frame_layout_def peek_pub_frame_total_def)
next
  case False
  then have len: "22 \<le> length buf" by (simp add: FRAME_HEADER_SIZE_def)
  let ?t = "FRAME_HEADER_SIZE + unat (from_be (take 4 (drop 14 buf)) :: u32) + unat (from_be (take 4 (drop 18 buf)) :: u32)"
  note defs = peek_pub_frame_layout_def peek_pub_frame_total_def
  consider "?t > k" | "?t \<le> k" "length buf < ?t" | "?t \<le> k" "?t \<le> length buf" by linarith
  then show ?thesis
  proof cases
    case 1
    then show ?thesis using False len by (intro bad) (simp_all add: defs Let_def)
  next
    case 2
    then show ?thesis using False len by (intro short) (simp_all add: defs Let_def)
  next
    case 3
    consider "from_be (take 2 buf) \<noteq> ZETMQ_MAGIC" | "from_be (take 2 buf) = ZETMQ_MAGIC" "buf ! 2 \<noteq> CURRENT_VERSION"
      | "from_be (take 2 buf) = ZETMQ_MAGIC" "buf ! 2 = CURRENT_VERSION" "buf ! 3 \<noteq> as_u8 Pub"
      | "from_be (take 2 buf) = ZETMQ_MAGIC" "buf ! 2 = CURRENT_VERSION" "buf ! 3 = as_u8 Pub" by blast
    then show ?thesis
    proof cases
      case 4
      then show ?thesis using False len 3 by (intro layout) (simp_all add: defs Let_def)
    qed (use False len 3 in \<open>(intro bad; simp add: defs Let_def)+\<close>)
  qed
qed

lemma parse_publish_payload_ranges:
  obtains (bad) e where "parse_publish_payload p = Some (Inl e)"
  | (good) sl rl where "parse_publish_payload p = Some (Inr \<lparr>r_subject = (2, 2 + sl),
        r_reply_to = (if rl > 0 then Some (2 + sl + 2, 2 + sl + 2 + rl) else None), r_payload = (2 + sl + 2 + rl, length p)\<rparr>)"
      "sl = unat (from_be (take 2 p) :: u16)" "rl = unat (from_be (take 2 (drop (2 + sl) p)) :: u16)"
      "2 + sl + 2 + rl \<le> length p"
proof -
  let ?sl = "unat (from_be (take 2 p) :: u16)" and ?rl = "\<lambda>n. unat (from_be (take 2 (drop n p)) :: u16)"
  consider "length p < 2" | "2 \<le> length p" "length p < 2 + ?sl + 2" | "2 + ?sl + 2 \<le> length p" "length p < 2 + ?sl + 2 + ?rl (2 + ?sl)"
    | "2 + ?sl + 2 \<le> length p" "2 + ?sl + 2 + ?rl (2 + ?sl) \<le> length p" by linarith
  then show ?thesis
  proof cases
    case 1
    then show ?thesis by (intro bad) (simp add: parse_publish_payload_def)
  next
    case 2
    then show ?thesis
      by (cases "length p < 2 + ?sl"; intro bad) (simp_all add: parse_publish_payload_def Let_def)
  next
    case 3
    then show ?thesis by (intro bad) (simp add: parse_publish_payload_def Let_def)
  next
    case 4
    then show ?thesis by (intro good [of ?sl "?rl (2 + ?sl)"]) (simp_all add: parse_publish_payload_def Let_def)
  qed
qed

lemma header_section_total:
  "\<exists>hs. (if b = [] then Some (Inr None) else map_option (map_sum id Some) (decode_headers b)) = Some hs"
  using decode_headers_total [of b] by auto

lemma decode_publish_command_total:
  assumes "l_total l \<le> length buf" and "header_start l \<le> header_end l" and "header_end l \<le> l_total l"
    and "payload_start l \<le> payload_end l" and "payload_end l \<le> l_total l"
  shows "\<exists>r. decode_publish_command_from_buf l buf = Some (r, drop (l_total l) buf)"
proof -
  obtain f where f: "sub_slice buf 0 (l_total l) = Some f" "length f = l_total l" using assms(1) by simp
  obtain hb where hb: "sub_slice f (header_start l) (header_end l) = Some hb" using assms f by simp
  obtain pb where pb: "sub_slice f (payload_start l) (payload_end l) = Some pb" using assms f by simp
  obtain hs where hs: "(if hb = [] then Some (Inr None) else map_option (map_sum id Some) (decode_headers hb)) = Some hs"
    using header_section_total by blast
  show ?thesis
  proof (cases rule: parse_publish_payload_ranges [of pb])
    case (bad e)
    then show ?thesis by (simp add: decode_publish_command_from_buf_def f hb pb Let_def)
  next
    case (good sl rl)
    show ?thesis
      using good(4) by (cases hs) (simp_all add: decode_publish_command_from_buf_def f hb pb hs good(1) Let_def)
  qed
qed

text \<open>From \<open>p\<close> to \<open>p'\<close> frames processed, from \<open>buf\<close> to \<open>buf'\<close> left.\<close>

definition takes :: "nat \<Rightarrow> nat \<Rightarrow> bytes \<Rightarrow> bytes \<Rightarrow> bool" where
  "takes p p' buf buf' \<longleftrightarrow> p \<le> p' \<and> length buf' \<le> length buf \<and> (p < p' \<longrightarrow> length buf' < length buf)"

lemma takes_refl [simp]: "takes p p buf buf"
  by (simp add: takes_def)

lemma takes_frame:
  "FRAME_HEADER_SIZE \<le> n \<Longrightarrow> n \<le> length buf \<Longrightarrow> takes (p + 1) p' (drop n buf) buf' \<Longrightarrow> takes p p' buf buf'"
  by (auto simp: takes_def FRAME_HEADER_SIZE_def)

lemma drain_unrestricted_takes:
  "\<exists>r buf'. drain_unrestricted n k p buf = Some (r, buf') \<and> (\<forall>p'. r = Inr p' \<longrightarrow> takes p p' buf buf')"
proof (induction n arbitrary: p buf)
  case (Suc n)
  show ?case
  proof (cases "next_frame_is_pub buf")
    case True
    show ?thesis
    proof (cases rule: peek_layout_cases [of k buf])
      case (layout hl pl)
      let ?t = "FRAME_HEADER_SIZE + hl + pl"
      from Suc.IH [of "p + 1" "drop ?t buf"] obtain r buf' where
        IH: "drain_unrestricted n k (p + 1) (drop ?t buf) = Some (r, buf')" "\<And>p'. r = Inr p' \<Longrightarrow> takes (p + 1) p' (drop ?t buf) buf'"
        by blast
      then show ?thesis
        using True layout(2,5) takes_frame [of ?t buf p] by auto
    qed (use True in auto)
  qed simp
qed simp

lemma drain_restricted_takes:
  "\<exists>r buf' W'. drain_restricted n send h ctx k p pd buf W = Some (r, buf', W') \<and>
     (\<forall>p' pd'. r = Inr (p', pd') \<longrightarrow> takes p p' buf buf')"
proof (induction n arbitrary: p pd buf W)
  case (Suc n)
  show ?case
  proof (cases "next_frame_is_pub buf")
    case True
    show ?thesis
    proof (cases rule: peek_layout_cases [of k buf])
      case (layout hl pl)
      let ?t = "FRAME_HEADER_SIZE + hl + pl"
      let ?pb = "take pl (drop (FRAME_HEADER_SIZE + hl) buf)"
      have slice: "sub_slice buf (FRAME_HEADER_SIZE + hl) ?t = Some ?pb" using layout(5) by simp
      show ?thesis
      proof (cases rule: parse_publish_payload_ranges [of ?pb])
        case (bad e)
        then show ?thesis using True layout(1) slice by simp
      next
        case (good sl rl)
        obtain al b where pa: "publish_allowed ctx (take sl (drop 2 ?pb)) (w_broker W) = (al, b)" by fastforce
        let ?W = "if al then W\<lparr>w_broker := b\<rparr> else send_publish_denied send h (from_be (take 8 (drop 6 buf))) (W\<lparr>w_broker := b\<rparr>)"
        from Suc.IH [of "p + 1" "if al then pd + 1 else pd" "drop ?t buf" ?W] obtain r buf' W' where
          IH: "drain_restricted n send h ctx k (p + 1) (if al then pd + 1 else pd) (drop ?t buf) ?W = Some (r, buf', W')"
            "\<And>p' pd'. r = Inr (p', pd') \<Longrightarrow> takes (p + 1) p' (drop ?t buf) buf'"
          by blast
        have sl: "sub_slice ?pb 2 (2 + sl) = Some (take sl (drop 2 ?pb))" using good(4) by simp
        have rest: "sub_slice buf ?t (length buf) = Some (drop ?t buf)" using layout(5) by simp
        show ?thesis
          using True layout(5) IH takes_frame [of ?t buf p]
          by (cases al) (auto simp: layout(1) slice good(1) sl [simplified] rest pa Let_def)
      qed
    qed (use True in auto)
  qed simp
qed simp

lemma collect_commands_takes:
  "\<exists>r buf' W'. collect_commands n send h ctx k p cs buf W = Some (r, buf', W') \<and>
     (\<forall>p' cs'. r = Inr (p', cs') \<longrightarrow> takes p p' buf buf')"
proof (induction n arbitrary: p cs buf W)
  case (Suc n)
  show ?case
  proof (cases "next_frame_is_pub buf")
    case True
    show ?thesis
    proof (cases rule: peek_layout_cases [of k buf])
      case (layout hl pl)
      let ?t = "FRAME_HEADER_SIZE + hl + pl"
      let ?l = "\<lparr>l_correlation_id = from_be (take 8 (drop 6 buf)),
        header_start = FRAME_HEADER_SIZE, header_end = FRAME_HEADER_SIZE + hl, payload_start = FRAME_HEADER_SIZE + hl,
        payload_end = ?t, l_total = ?t\<rparr>"
      obtain d where d: "decode_publish_command_from_buf ?l buf = Some (d, drop ?t buf)"
        using decode_publish_command_total [of ?l buf] layout(5) by auto
      show ?thesis
      proof (cases d)
        case (Inl e)
        then show ?thesis using True layout(1) d by simp
      next
        case (Inr x)
        obtain cmd cid where x: "x = (cmd, cid)" by fastforce
        obtain al b where pa: "publish_allowed ctx (pc_subject cmd) (w_broker W) = (al, b)" by fastforce
        let ?W = "if al then W\<lparr>w_broker := b\<rparr> else send_publish_denied send h cid (W\<lparr>w_broker := b\<rparr>)"
        from Suc.IH [of "p + 1" "if al then cs @ [cmd] else cs" "drop ?t buf" ?W] obtain r buf' W' where
          IH: "collect_commands n send h ctx k (p + 1) (if al then cs @ [cmd] else cs) (drop ?t buf) ?W = Some (r, buf', W')"
            "\<And>p' cs'. r = Inr (p', cs') \<Longrightarrow> takes (p + 1) p' (drop ?t buf) buf'"
          by blast
        then show ?thesis
          using True layout(5) takes_frame [of ?t buf p] Inr x d
          by (cases al) (auto simp: layout(1) pa Let_def)
      qed
    qed (use True in auto)
  qed simp
qed simp

lemma dispatch_publish_batch_from_read_buf_takes:
  assumes "next_frame_is_pub buf"
  shows "\<exists>r buf' W'. dispatch_publish_batch_from_read_buf send iter h ctx k buf W = Some (r, buf', W') \<and>
     (\<forall>n. r = Inr (True, n) \<longrightarrow> length buf' < length buf) \<and> (\<forall>x. r = Inr x \<longrightarrow> length buf' \<le> length buf)"
proof (cases "\<not> has_active_subscriptions (w_broker W) \<and> \<not> router_has_wildcards (w_broker W)")
  case True
  note drain = drain_publish_batch_without_subscribers_def dispatch_publish_batch_from_read_buf_def
  show ?thesis
  proof (cases "is_publish_unrestricted ctx")
    case u: True
    from drain_unrestricted_takes obtain r buf' where
      "drain_unrestricted NO_SUB_PUB_BATCH_LIMIT k 0 buf = Some (r, buf')" "\<And>p'. r = Inr p' \<Longrightarrow> takes 0 p' buf buf'"
      by metis
    then show ?thesis using True u by (cases r) (auto simp: drain takes_def)
  next
    case u: False
    from drain_restricted_takes obtain r buf' W' where
      "drain_restricted NO_SUB_PUB_BATCH_LIMIT send h ctx k 0 0 buf W = Some (r, buf', W')"
      "\<And>p' pd'. r = Inr (p', pd') \<Longrightarrow> takes 0 p' buf buf'"
      by metis
    then show ?thesis using True u by (cases r) (auto simp: drain takes_def)
  qed
next
  case False
  from collect_commands_takes obtain r buf' W' where
    r: "collect_commands PUB_BATCH_LIMIT send h ctx k 0 [] buf W = Some (r, buf', W')"
    "\<And>p' cs'. r = Inr (p', cs') \<Longrightarrow> takes 0 p' buf buf'"
    by metis
  show ?thesis
  proof (cases r)
    case (Inl e)
    then show ?thesis using False r(1) by (auto simp: dispatch_publish_batch_from_read_buf_def)
  next
    case (Inr x)
    obtain p cs where x: "x = (p, cs)" by fastforce
    then have "takes 0 p buf buf'" using r(2) Inr by blast
    then show ?thesis
      using False r(1) Inr x by (auto simp: dispatch_publish_batch_from_read_buf_def takes_def Let_def split: prod.split)
  qed
qed

text \<open>What the fast path leaves is the end of the buffer.\<close>

lemma decode_publish_command_rest:
  "decode_publish_command_from_buf l buf = Some (r, rest) \<Longrightarrow> rest = drop (l_total l) buf"
  by (auto simp: decode_publish_command_from_buf_def Let_def split: bind_splits sum.splits)

lemma sub_slice_end: "sub_slice buf n (length buf) = Some rest \<Longrightarrow> suffix rest buf"
  by (auto simp: sub_slice_def suffix_drop split: if_splits)

lemma drain_unrestricted_suffix: "drain_unrestricted n k p buf = Some (r, buf') \<Longrightarrow> suffix buf' buf"
proof (induction n arbitrary: p buf)
  case (Suc n)
  then show ?case
    by (auto split: if_splits bind_splits sum.splits option.splits dest!: Suc.IH sub_slice_end intro: suffix_order.trans)
qed simp

lemma drain_restricted_suffix: "drain_restricted n send h ctx k p pd buf W = Some (r, buf', W') \<Longrightarrow> suffix buf' buf"
proof (induction n arbitrary: p pd buf W)
  case (Suc n)
  then show ?case
    by (auto simp: Let_def split: if_splits bind_splits sum.splits option.splits prod.splits dest!: Suc.IH sub_slice_end
        intro: suffix_order.trans)
qed simp

lemma collect_commands_suffix: "collect_commands n send h ctx k p cs buf W = Some (r, buf', W') \<Longrightarrow> suffix buf' buf"
proof (induction n arbitrary: p cs buf W)
  case (Suc n)
  then show ?case
    by (auto simp: Let_def suffix_drop split: if_splits bind_splits sum.splits option.splits prod.splits
        dest!: Suc.IH decode_publish_command_rest intro: suffix_order.trans)
qed simp

lemma read_buf_batch_suffix:
  "dispatch_publish_batch_from_read_buf send iter h ctx k buf W = Some (r, buf', W') \<Longrightarrow> suffix buf' buf"
  by (auto simp: dispatch_publish_batch_from_read_buf_def drain_publish_batch_without_subscribers_def Let_def
      split: if_splits bind_splits sum.splits prod.splits
      dest!: drain_unrestricted_suffix drain_restricted_suffix collect_commands_suffix)

lemma dispatch_buf: "read_buf (fst (dispatch send h c cmd cid (s, W))) = read_buf s"
  by (cases cmd) (auto simp: Let_def split: option.split sum.split prod.split)

lemma handle_command_buf: "read_buf (fst (snd (handle_command send cfg c h cmd cid s W))) = read_buf s"
  using dispatch_buf [of send h c cmd cid s]
  by (cases cmd) (auto simp: handle_command_def Let_def split: sum.split option.split prod.split)

lemma decode_from_error_nonempty: "decode_from k buf = Some (Inl e, rest) \<Longrightarrow> buf \<noteq> []"
  by (auto simp: decode_from_def FRAME_HEADER_SIZE_def)

lemma flush_published_buf: "read_buf (fst (flush_published s W)) = read_buf s"
  by (simp add: flush_published_def)

lemma frame_step_takes:
  "\<exists>cont s' W'. frame_step send iter cfg c h s W = Some (cont, s', W') \<and>
     (cont \<longrightarrow> length (read_buf s') < length (read_buf s)) \<and> length (read_buf s') \<le> length (read_buf s)"
proof (cases "ss_state s = Connected \<and> next_frame_is_pub (read_buf s)")
  case True
  then have ne: "read_buf s \<noteq> []" using pub_header by (force simp: FRAME_HEADER_SIZE_def)
  obtain r buf W1 where
    "dispatch_publish_batch_from_read_buf send iter h (ss_auth s) (c_max_frame_size cfg) (read_buf s) W = Some (r, buf, W1)"
    "\<And>n. r = Inr (True, n) \<Longrightarrow> length buf < length (read_buf s)" "\<And>x. r = Inr x \<Longrightarrow> length buf \<le> length (read_buf s)"
    using dispatch_publish_batch_from_read_buf_takes True by metis
  then show ?thesis using True ne by (cases r) (auto simp: frame_step_def Let_def)
next
  case False
  show ?thesis
  proof (cases rule: decode_from_cases [of "c_max_frame_size cfg" "read_buf s"])
    case short
    then show ?thesis
      using False by (auto simp: frame_step_def Let_def flush_published_def)
  next
    case (big n)
    then show ?thesis
      using False decode_from_error_nonempty [OF big(1)] by (auto simp: frame_step_def Let_def split: prod.split)
  next
    case (bad e n)
    then show ?thesis
      using False decode_from_error_nonempty [OF bad(1)] by (auto simp: frame_step_def Let_def split: prod.split)
  next
    case (frame f)
    let ?s = "s\<lparr>read_buf := drop (total_frame_size (f_header f)) (read_buf s)\<rparr>"
    have less: "length (read_buf ?s) < length (read_buf s)" using decode_from_less [OF frame(1)] by simp
    obtain rc where rc: "from_frame f = Some rc" using from_frame_total [of f] by auto
    show ?thesis
    proof (cases rc)
      case (Inl e)
      then show ?thesis using False frame(1) rc less by (auto simp: frame_step_def Let_def)
    next
      case (Inr cmd)
      obtain k s' W' where hc: "handle_command send cfg c h cmd (correlation_id (f_header f)) ?s W = (k, s', W')"
        using prod_cases3 by blast
      then have "read_buf s' = read_buf ?s" using handle_command_buf [of send cfg c h cmd _ ?s W] by (metis fst_conv snd_conv)
      then show ?thesis using False frame(1) rc Inr less hc by (auto simp: frame_step_def Let_def)
    qed
  qed
qed

lemma frame_step_le:
  "frame_step send iter cfg c h s W = Some (k, s', W') \<Longrightarrow> length (read_buf s') \<le> length (read_buf s)"
  using frame_step_takes [of send iter cfg c h s W] by auto

lemma frame_step_less:
  "frame_step send iter cfg c h s W = Some (True, s', W') \<Longrightarrow> length (read_buf s') < length (read_buf s)"
  using frame_step_takes [of send iter cfg c h s W] by auto

function process_frames ::
  "('h, 'w) sender \<Rightarrow> batch_order \<Rightarrow> server_config \<Rightarrow> connection_id \<Rightarrow> 'h \<Rightarrow> session \<Rightarrow> ('h, 'w) env \<Rightarrow>
   (session \<times> ('h, 'w) env) option" where
  "process_frames send iter cfg c h s W =
     (case frame_step send iter cfg c h s W of
        None \<Rightarrow> None
      | Some (cont, s', W') \<Rightarrow> if cont then process_frames send iter cfg c h s' W' else Some (s', W'))"
  by pat_completeness auto
termination
  by (relation "measure (\<lambda>(send, iter, cfg, c, h, s, W). length (read_buf s))") (auto simp: frame_step_less)

declare process_frames.simps [simp del]

lemma process_frames_total: "process_frames send iter cfg c h s W \<noteq> None"
proof (induction send iter cfg c h s W rule: process_frames.induct)
  case (1 send iter cfg c h s W)
  obtain k s' W' where f: "frame_step send iter cfg c h s W = Some (k, s', W')"
    using frame_step_takes [of send iter cfg c h s W] by blast
  then show ?case using "1.IH" [OF f refl refl] by (subst process_frames.simps) simp
qed

section \<open>The life of a connection\<close>

text \<open>
  What the \<open>select!\<close> of the read loop yields: data (none at end of stream), a read error, a heartbeat tick with the
  nanoseconds since the last activity, or shutdown with the data that arrived while draining.
\<close>

datatype event = EvData bytes | EvReadError | EvTick nat | EvShutdown "bytes option"

definition nanos :: "u64 \<Rightarrow> nat" where
  "nanos secs = unat secs * 1000000000"

text \<open>
  The set-up of a session.  \<open>mpsc::channel\<close> panics on a capacity of zero or above \<open>Semaphore::MAX_PERMITS\<close>
  (\<open>usize::MAX >> 3\<close>), and \<open>tokio::time::interval\<close> on a period of zero; nothing checks the configuration before.
\<close>

definition MAX_PERMITS :: nat where
  "MAX_PERMITS = 2 ^ 61 - 1"

definition session_setup :: "server_config \<Rightarrow> session option" where
  "session_setup cfg =
     (if connection_output_buffer cfg = 0 \<or> connection_output_buffer cfg > MAX_PERMITS then None
      else if heartbeat_interval_secs cfg = 0 then None
      else Some session_new)"

definition connection_event ::
  "('h, 'w) sender \<Rightarrow> batch_order \<Rightarrow> server_config \<Rightarrow> connection_id \<Rightarrow> 'h \<Rightarrow> event \<Rightarrow> session \<Rightarrow> ('h, 'w) env \<Rightarrow>
   (bool \<times> session \<times> ('h, 'w) env) option" where
  "connection_event send iter cfg c h ev s W =
     (case ev of
        EvData bs \<Rightarrow>
          if bs = [] then Some (False, s, W)
          else map_option (\<lambda>sw. (True, sw)) (process_frames send iter cfg c h (s\<lparr>read_buf := read_buf s @ bs\<rparr>) W)
      | EvReadError \<Rightarrow> Some (False, s, W)
      | EvTick elapsed \<Rightarrow>
          if ss_state s \<noteq> Connected then Some (True, s, W)
          else if elapsed > nanos (heartbeat_timeout_secs cfg) then Some (False, s, W)
          else
            (let W1 = (if elapsed > nanos (heartbeat_interval_secs cfg) then send_out send h (frame_new Ping 0) W else W)
             in map_option (\<lambda>sw. (True, sw)) (process_frames send iter cfg c h s W1))
      | EvShutdown data \<Rightarrow>
          if ss_state s = Connected then
            Some (False, s\<lparr>ss_state := Draining, read_buf := read_buf s @ (case data of Some bs \<Rightarrow> bs | None \<Rightarrow> [])\<rparr>,
              send_out send h (frame_new Drain 0) W)
          else Some (False, s, W))"

definition close_connection :: "connection_id \<Rightarrow> session \<Rightarrow> ('h, 'w) env \<Rightarrow> ('h, 'w) env" where
  "close_connection c s W =
     (let W1 = (if local_published s > 0 then count (inc_published_by (local_published s)) W else W)
      in W1\<lparr>w_broker := remove_connection c (w_broker W1)\<rparr>)"

text \<open>The read loop and the clean-up behind it.  The flag of the result says whether the connection is still open after the events.\<close>

fun connection_loop ::
  "('h, 'w) sender \<Rightarrow> batch_order \<Rightarrow> server_config \<Rightarrow> connection_id \<Rightarrow> 'h \<Rightarrow> event list \<Rightarrow> session \<Rightarrow> ('h, 'w) env \<Rightarrow>
   (bool \<times> session \<times> ('h, 'w) env) option" where
  "connection_loop send iter cfg c h [] s W = Some (True, s, W)"
| "connection_loop send iter cfg c h (ev # evs) s W =
     (case connection_event send iter cfg c h ev s W of
        None \<Rightarrow> None
      | Some (open, s', W') \<Rightarrow>
          if open then connection_loop send iter cfg c h evs s' W'
          else Some (False, s', close_connection c s' W'))"

lemma connection_event_total: "connection_event send iter cfg c h ev s W \<noteq> None"
  using process_frames_total by (auto simp: connection_event_def Let_def split: event.split)

lemma connection_loop_total: "connection_loop send iter cfg c h evs s W \<noteq> None"
proof (induction evs arbitrary: s W)
  case (Cons ev evs)
  obtain k s' W' where "connection_event send iter cfg c h ev s W = Some (k, s', W')"
    using connection_event_total [of send iter cfg c h ev s W] by auto
  then show ?case using Cons.IH by (cases k) simp_all
qed simp

text \<open>A connection from its first poll on; \<open>None\<close> is a panic.\<close>

definition handle_connection ::
  "('h, 'w) sender \<Rightarrow> batch_order \<Rightarrow> server_config \<Rightarrow> connection_id \<Rightarrow> 'h \<Rightarrow> event list \<Rightarrow> ('h, 'w) env \<Rightarrow>
   (bool \<times> session \<times> ('h, 'w) env) option" where
  "handle_connection send iter cfg c h evs W =
     (case session_setup cfg of
        None \<Rightarrow> None
      | Some s \<Rightarrow> connection_loop send iter cfg c h evs s W)"

lemma session_setup_Some: "session_setup cfg = Some s \<Longrightarrow> s = session_new"
  by (simp add: session_setup_def split: if_splits)

lemma session_setup_None:
  "session_setup cfg = None \<longleftrightarrow> connection_output_buffer cfg = 0 \<or> connection_output_buffer cfg > MAX_PERMITS \<or> heartbeat_interval_secs cfg = 0"
  by (simp add: session_setup_def)

lemma default_setup: "session_setup server_config_default = Some session_new"
  by (simp add: session_setup_def server_config_default_def MAX_PERMITS_def)

lemma handle_connection_loop:
  "handle_connection send iter cfg c h evs W = Some r \<Longrightarrow> connection_loop send iter cfg c h evs session_new W = Some r"
  by (auto simp: handle_connection_def dest: session_setup_Some split: option.splits)

section \<open>The write task\<close>

fun encode_outbound :: "outbound_frame \<Rightarrow> bytes \<Rightarrow> bytes" where
  "encode_outbound (Raw f) buf = encode_into f buf"
| "encode_outbound (MsgOut m) buf = encode_msg_into m buf"

text \<open>\<open>try_recv\<close> until the queue is empty or the buffer has 128 KiB.\<close>

fun fill_buf :: "outbound_frame list \<Rightarrow> bytes \<Rightarrow> bytes \<times> outbound_frame list" where
  "fill_buf [] buf = (buf, [])"
| "fill_buf (x # q) buf =
     (let buf' = encode_outbound x buf in if length buf' \<ge> 131072 then (buf', q) else fill_buf q buf')"

lemma fill_buf_shorter: "fill_buf q buf = (b, q') \<Longrightarrow> length q' \<le> length q"
  by (induction q arbitrary: buf) (fastforce simp: Let_def split: if_splits)+

text \<open>The buffers written for what is queued.\<close>

function write_task :: "outbound_frame list \<Rightarrow> bytes list" where
  "write_task [] = []"
| "write_task (x # q) = (case fill_buf q (encode_outbound x []) of (buf, q') \<Rightarrow> buf # write_task q')"
  by pat_completeness auto
termination by (relation "measure length") (auto dest!: fill_buf_shorter [OF sym])

fun outbound_wire :: "outbound_frame \<Rightarrow> frame" where
  "outbound_wire (Raw f) = f"
| "outbound_wire (MsgOut m) = msg_frame m"

lemma encode_outbound_wire: "encode_outbound x buf = buf @ frame_encode (outbound_wire x)"
  by (cases x) (simp_all add: encode_msg_frame frame_encode_eq encode_into_def)

lemma fill_buf_wire:
  "fill_buf q buf = (b, q') \<Longrightarrow> \<exists>n. q' = drop n q \<and> b = buf @ wire (map outbound_wire (take n q))"
proof (induction q arbitrary: buf)
  case (Cons x q)
  show ?case
  proof (cases "length (encode_outbound x buf) \<ge> 131072")
    case True
    then show ?thesis using Cons.prems by (intro exI [of _ 1]) (simp add: encode_outbound_wire)
  next
    case False
    then have "fill_buf q (encode_outbound x buf) = (b, q')" using Cons.prems by simp
    from Cons.IH [OF this] obtain n where "q' = drop n q" "b = encode_outbound x buf @ wire (map outbound_wire (take n q))" by blast
    then show ?thesis by (intro exI [of _ "Suc n"]) (simp add: encode_outbound_wire)
  qed
qed simp

lemma write_task_wire: "concat (write_task q) = wire (map outbound_wire q)"
proof (induction q rule: write_task.induct)
  case (2 x q)
  obtain b q' where f: "fill_buf q (encode_outbound x []) = (b, q')" by fastforce
  from fill_buf_wire [OF f] obtain n where n: "q' = drop n q" "b = frame_encode (outbound_wire x) @ wire (map outbound_wire (take n q))"
    by (auto simp: encode_outbound_wire)
  have "wire (map outbound_wire (take n q)) @ wire (map outbound_wire (drop n q)) = wire (map outbound_wire q)"
    by (metis append_take_drop_id concat_append map_append)
  then show ?case using 2 [OF f [symmetric]] f n by simp
qed simp

end
