(* ===== verification/Session_Inv.thy ===== *)
theory Session_Inv
  imports Session_Loop
begin

text \<open>
  What a session does to the broker.  Everything but SUB and UNSUB commands leaves the registered
  subscriptions alone (\<open>keeps_subs\<close>), so an iteration of the frame loop registers nothing, registers one permitted
  subscription of its own connection, or removes one.
\<close>

section \<open>Operations that keep the subscriptions\<close>

definition keeps_subs :: "'h broker \<Rightarrow> 'h broker \<Rightarrow> bool" where
  "keeps_subs b b' \<longleftrightarrow>
     (broker_inv b \<longrightarrow> broker_inv b' \<and> b_registry b' = b_registry b \<and> sub_id_gen b' = sub_id_gen b)"

lemma keeps_refl [simp, intro]: "keeps_subs b b"
  by (simp add: keeps_subs_def)

lemma keeps_trans: "keeps_subs a b \<Longrightarrow> keeps_subs b c \<Longrightarrow> keeps_subs a c"
  by (simp add: keeps_subs_def)

lemma keeps_frame: "(broker_inv b \<Longrightarrow> broker_inv b' \<and> broker_frame b b') \<Longrightarrow> keeps_subs b b'"
  by (auto simp: keeps_subs_def broker_frame_def)

lemma keeps_parse_subject: "parse_subject t b = (r, b') \<Longrightarrow> keeps_subs b b'"
proof (rule keeps_frame)
  assume p: "parse_subject t b = (r, b')" and inv: "broker_inv b"
  then have "cache_ok b" by (simp add: broker_inv_def)
  from parse_subject_spec(3) [OF this, of t] parse_subject_inv [OF inv, of t]
  show "broker_inv b' \<and> broker_frame b b'" by (simp add: p)
qed

lemma keeps_parse_reply: "parse_reply reply b = (r, b') \<Longrightarrow> keeps_subs b b'"
  by (auto simp: parse_reply_def split: option.splits prod.splits sum.splits dest: keeps_parse_subject)

lemma keeps_publish_allowed: "publish_allowed ctx t b = (al, b') \<Longrightarrow> keeps_subs b b'"
  by (auto simp: publish_allowed_def split: if_splits option.splits prod.splits sum.splits dest: keeps_parse_subject)

lemma keeps_publish_refused: "publish_refused ctx cmd b = (r, b') \<Longrightarrow> keeps_subs b b'"
  by (auto simp: publish_refused_def split: broker_command.splits option.splits prod.splits sum.splits
      dest: keeps_parse_subject)

lemma keeps_publish_item: "publish_item_of p b = (it, b') \<Longrightarrow> keeps_subs b b'"
  by (auto simp: publish_item_of_def Let_def split: option.splits prod.splits sum.splits
      dest: keeps_parse_subject keeps_parse_reply intro: keeps_trans)

lemma keeps_publish_items: "publish_items ps b = (its, b') \<Longrightarrow> keeps_subs b b'"
proof (induction ps arbitrary: b its)
  case (Cons p ps)
  then show ?case
    by (fastforce simp: Let_def split: prod.splits dest: keeps_publish_item intro: keeps_trans)
qed simp

lemma keeps_publish_with_str: "keeps_subs b (fst (publish_with_str dv t d r hs (b, w)))"
proof (rule keeps_frame)
  assume inv: "broker_inv b"
  let ?b = "b\<lparr>b_metrics := inc_published (b_metrics b)\<rparr>"
  have 1: "broker_inv ?b" "broker_frame b ?b" using published_inv [OF inv] published_frame by blast+
  obtain res b2 where p: "parse_subject t ?b = (res, b2)" by fastforce
  have "broker_inv b2" "broker_frame ?b b2"
    using parse_subject_inv [OF 1(1), of t] parse_subject_spec(3) [of ?b t] 1(1) p by (simp_all add: broker_inv_def)
  with 1 have 2: "broker_inv b2" "broker_frame b b2" by (blast intro: broker_frame_trans)+
  have "broker_frame b (fst (publish_with_str dv t d r hs (b, w)))"
    using 1(2) 2 p frame_deliver_matches [OF 2(1), THEN conjunct1, THEN broker_frame_trans [OF 2(2)]]
    by (auto simp: publish_with_str_def Let_def split: sum.split prod.split)
  then show "broker_inv (fst (publish_with_str dv t d r hs (b, w))) \<and> broker_frame b (fst (publish_with_str dv t d r hs (b, w)))"
    using publish_with_str_inv [OF inv, of dv t d r hs w] by (rule conjI [rotated])
qed

lemma keeps_publish_batch: "keeps_subs b (fst (publish_batch dv iter items (b, w)))"
proof (rule keeps_frame)
  assume inv: "broker_inv b"
  let ?b = "b\<lparr>b_metrics := inc_published_by (of_nat (length items)) (b_metrics b)\<rparr>"
  have 1: "broker_inv ?b" "broker_frame b ?b" using published_inv [OF inv] published_frame by blast+
  have "broker_frame ?b (fst (publish_batch_stages dv iter items (?b, w)))"
  proof -
    obtain st b1 w1 where s1: "fold (batch_item dv) items (\<lparr>pending = [], last_match = None, sub_cache = []\<rparr>, ?b, w) = (st, b1, w1)"
      using prod_cases3 by blast
    obtain b2 w2 where s2: "fold (flush_pending dv) (iter (pending st)) (b1, w1) = (b2, w2)" by fastforce
    have "broker_frame ?b b1" using batch_items_inv [OF 1(1) s1] by blast
    moreover have "broker_frame b1 b2" using flush_all_frame [OF s2] by blast
    ultimately show ?thesis using s1 s2 by (auto simp: publish_batch_stages_def intro: broker_frame_trans)
  qed
  then have "broker_frame b (fst (publish_batch dv iter items (b, w)))"
    using 1(2) published_frame(3) [of ?b]
    by (auto simp: publish_batch_def Let_def split: option.split prod.split intro: broker_frame_trans)
  then show "broker_inv (fst (publish_batch dv iter items (b, w))) \<and> broker_frame b (fst (publish_batch dv iter items (b, w)))"
    using publish_batch_inv [OF inv, of dv iter items w] by (rule conjI [rotated])
qed

lemma keeps_dispatch_publish_batch:
  assumes d: "dispatch_publish_batch send iter ps (b, w) = (b', w')"
  shows "keeps_subs b b'"
proof (cases "ps = []")
  case False
  obtain its b1 where i: "publish_items ps b = (its, b1)" by fastforce
  have "fst (publish_batch (channel_deliver send) iter its (b1, w)) = b'"
    using d i False by (simp add: dispatch_publish_batch_def)
  with keeps_publish_batch [of b1 "channel_deliver send" iter its w] have "keeps_subs b1 b'" by simp
  with keeps_publish_items [OF i] show ?thesis by (rule keeps_trans)
qed (use d in \<open>simp add: dispatch_publish_batch_def\<close>)

section \<open>Metrics and sending\<close>

definition session_metric :: "(core_metrics \<Rightarrow> core_metrics) \<Rightarrow> bool" where
  "session_metric g \<longleftrightarrow> (\<forall>m. active_subscriptions (g m) = active_subscriptions m)"

lemma session_metrics [simp]:
  "session_metric inc_active_connections" "session_metric (inc_published_by n)" "session_metric inc_protocol_errors"
  by (simp_all add: session_metric_def metrics_defs)

lemma keeps_count: "session_metric g \<Longrightarrow> keeps_subs (w_broker W) (w_broker (count g W))"
  by (simp add: keeps_subs_def count_def session_metric_def broker_inv_defs group_subs_def)

lemma keeps_count_trans [simp, intro!]:
  "keeps_subs b (w_broker W) \<Longrightarrow> session_metric g \<Longrightarrow> keeps_subs b (w_broker (count g W))"
  using keeps_count keeps_trans by blast

lemma send_out_broker [simp]: "w_broker (send_out send h f W) = w_broker W"
  by (simp add: send_out_def)

lemma send_publish_denied_broker [simp]: "w_broker (send_publish_denied send h cid W) = w_broker W"
  by (simp add: send_publish_denied_def)

lemma keeps_flush_published: "flush_published s W = (s', W') \<Longrightarrow> keeps_subs (w_broker W) (w_broker W')"
  using keeps_count [of "inc_published_by (local_published s)" W] by (auto simp: flush_published_def split: if_splits)

section \<open>The PUB fast path keeps the subscriptions\<close>

lemma keeps_drain_restricted:
  "drain_restricted n send h ctx k p pd buf W = Some (r, buf', W') \<Longrightarrow> keeps_subs (w_broker W) (w_broker W')"
proof (induction n arbitrary: p pd buf W)
  case (Suc n)
  show ?case
    using Suc.prems
    by (auto simp: Let_def split: if_splits option.splits sum.splits prod.splits bind_splits
        dest!: Suc.IH keeps_publish_allowed intro: keeps_trans)
qed simp

lemma keeps_collect_commands:
  "collect_commands n send h ctx k p cs buf W = Some (r, buf', W') \<Longrightarrow> keeps_subs (w_broker W) (w_broker W')"
proof (induction n arbitrary: p cs buf W)
  case (Suc n)
  show ?case
    using Suc.prems
    by (auto simp: Let_def split: if_splits option.splits sum.splits prod.splits bind_splits
        dest!: Suc.IH keeps_publish_allowed intro: keeps_trans)
qed simp

lemma keeps_read_buf_batch:
  assumes d: "dispatch_publish_batch_from_read_buf send iter h ctx k buf W = Some (r, buf', W')"
  shows "keeps_subs (w_broker W) (w_broker W')"
proof (cases "\<not> has_active_subscriptions (w_broker W) \<and> \<not> router_has_wildcards (w_broker W)")
  case True
  with d show ?thesis
    by (auto simp: dispatch_publish_batch_from_read_buf_def drain_publish_batch_without_subscribers_def
        split: if_splits bind_splits dest: keeps_drain_restricted)
next
  case False
  with d show ?thesis
    by (auto simp: dispatch_publish_batch_from_read_buf_def Let_def split: if_splits bind_splits sum.splits prod.splits
        dest!: keeps_collect_commands keeps_dispatch_publish_batch intro: keeps_trans)
qed

section \<open>The effect of an iteration\<close>

text \<open>
  What a connection has asked for is read off the bytes it received.  \<open>connects\<close>: among them is a CONNECT frame whose
  credentials the configuration accepts, with that context.  \<open>asked\<close>: there is a SUB frame for the pattern, behind a
  CONNECT frame whose context allows it.
\<close>

definition connects :: "server_config \<Rightarrow> bytes \<Rightarrow> auth_context \<Rightarrow> bool" where
  "connects cfg bs ctx \<longleftrightarrow> (\<exists>pre f post con. bs = pre @ frame_encode f @ post \<and>
     from_frame f = Some (Inr (CmdConnect con)) \<and> validate_auth (auth con) cfg = Inr ctx)"

definition asked :: "server_config \<Rightarrow> bytes \<Rightarrow> subject_pattern \<Rightarrow> bool" where
  "asked cfg bs p \<longleftrightarrow> (\<exists>pre f post sc ctx. bs = pre @ frame_encode f @ post \<and>
     from_frame f = Some (Inr (CmdSubscribe sc)) \<and> pattern_parse (sc_subject_pattern sc) = Inr p \<and>
     connects cfg pre ctx \<and> can_subscribe ctx p)"

lemma connects_append: "connects cfg bs ctx \<Longrightarrow> connects cfg (bs @ rest) ctx"
  unfolding connects_def by (metis append.assoc)

lemma asked_append: "asked cfg bs p \<Longrightarrow> asked cfg (bs @ rest) p"
  unfolding asked_def by (metis append.assoc)

text \<open>
  The state of a session against the bytes \<open>R\<close> it received: what is not yet processed is their end, and a connected
  session has the context of a CONNECT frame before that.
\<close>

definition session_ok :: "server_config \<Rightarrow> bytes \<Rightarrow> session \<Rightarrow> bool" where
  "session_ok cfg R s \<longleftrightarrow> (\<exists>pre. R = pre @ read_buf s \<and> (ss_state s = Connected \<longrightarrow> connects cfg pre (ss_auth s)))"

lemma session_ok_new: "ss_state s \<noteq> Connected \<Longrightarrow> session_ok cfg (read_buf s) s"
  by (simp add: session_ok_def)

lemma session_ok_suffix:
  assumes "session_ok cfg R s" and "suffix buf (read_buf s)" and "ss_state s' = ss_state s" and "ss_auth s' = ss_auth s"
    and "read_buf s' = buf"
  shows "session_ok cfg R s'"
proof -
  obtain pre where pre: "R = pre @ read_buf s" "ss_state s = Connected \<longrightarrow> connects cfg pre (ss_auth s)"
    using assms(1) by (auto simp: session_ok_def)
  obtain mid where "read_buf s = mid @ buf" using assms(2) by (auto simp: suffix_def)
  then show ?thesis using pre assms(3-5) connects_append unfolding session_ok_def by (intro exI [of _ "pre @ mid"]) auto
qed

lemma session_ok_more:
  "session_ok cfg R s \<Longrightarrow> session_ok cfg (R @ bs) (s\<lparr>read_buf := read_buf s @ bs\<rparr>)"
  by (auto simp: session_ok_def)

text \<open>What one iteration may do to the broker; \<open>A\<close> are the patterns it may subscribe to.\<close>

inductive session_effect ::
  "(subject_pattern \<Rightarrow> bool) \<Rightarrow> server_config \<Rightarrow> connection_id \<Rightarrow> 'h \<Rightarrow> 'h broker \<Rightarrow> 'h broker \<Rightarrow> bool"
  for A :: "subject_pattern \<Rightarrow> bool" and cfg :: server_config and c :: connection_id and h :: 'h where
  keeps: "keeps_subs b b' \<Longrightarrow> session_effect A cfg c h b b'"
| subscribes: "A p \<Longrightarrow> pattern_parse t = Inr p \<Longrightarrow>
    subscription_count_for_connection c b < max_subscriptions_per_connection cfg \<Longrightarrow>
    subscribe c p qg h b = (i, b') \<Longrightarrow> session_effect A cfg c h b b'"
| unsubscribes: "session_effect A cfg c h b (unsubscribe c i b)"

lemma effect_refl [simp]: "session_effect A cfg c h b b"
  by (rule session_effect.keeps) simp

lemma subscribe_refused_None:
  assumes "subscribe_refused cfg c ctx (CmdSubscribe sc) b = None" and "pattern_parse (sc_subject_pattern sc) = Inr p"
  shows "can_subscribe ctx p \<and> subscription_count_for_connection c b < max_subscriptions_per_connection cfg"
  using assms by (auto simp: subscribe_refused_def split: if_splits)

lemma keeps_dispatch_publish:
  "keeps_subs (w_broker W) (w_broker (snd (dispatch send h c (CmdPublish p) cid (s, W))))"
proof (cases "from_utf8 (pc_subject p)")
  case (Some t)
  obtain r b where pr: "parse_reply (pc_reply_to p) (w_broker W) = (r, b)" by fastforce
  show ?thesis
    using Some pr keeps_trans [OF keeps_parse_reply [OF pr] keeps_publish_with_str] by (simp add: split_def Let_def)
qed simp

text \<open>A SUB command the context allows is for one of the patterns \<open>A\<close>.\<close>

definition covered :: "(subject_pattern \<Rightarrow> bool) \<Rightarrow> auth_context \<Rightarrow> broker_command \<Rightarrow> bool" where
  "covered A ctx cmd \<longleftrightarrow> (\<forall>sc p. cmd = CmdSubscribe sc \<longrightarrow> pattern_parse (sc_subject_pattern sc) = Inr p \<longrightarrow> can_subscribe ctx p \<longrightarrow> A p)"

lemma dispatch_effect:
  assumes "covered A ctx cmd"
    and "subscribe_refused cfg c ctx cmd (w_broker W) = None"
  shows "session_effect A cfg c h (w_broker W) (w_broker (snd (dispatch send h c cmd cid (s, W))))"
proof (cases cmd)
  case (CmdPublish p)
  then show ?thesis using session_effect.keeps [OF keeps_dispatch_publish] by simp
next
  case (CmdSubscribe sc)
  show ?thesis
  proof (cases "pattern_parse (sc_subject_pattern sc)")
    case (Inr p)
    with subscribe_refused_None [of cfg c ctx sc "w_broker W" p] assms(2) CmdSubscribe
    have "A p" "subscription_count_for_connection c (w_broker W) < max_subscriptions_per_connection cfg"
      using assms(1) Inr CmdSubscribe by (simp_all add: covered_def)
    with Inr CmdSubscribe show ?thesis
      by (auto simp: Let_def split: prod.split intro: session_effect.subscribes)
  qed (simp add: CmdSubscribe session_effect.keeps)
next
  case (CmdUnsubscribe u)
  then show ?thesis using session_effect.unsubscribes by (simp add: Let_def)
qed (simp_all add: session_effect.keeps Let_def)

lemma publish_refused_same:
  "publish_refused ctx cmd b = (r, b') \<Longrightarrow> b' = b \<or> (\<exists>p. cmd = CmdPublish p)"
  by (cases cmd) (simp_all add: publish_refused_def)

lemma authorised_effect:
  assumes g: "covered A ctx cmd"
    and ok: "subscribe_refused cfg c ctx cmd (w_broker W) = None"
    and pr: "publish_refused ctx cmd (w_broker W) = (r, b)"
  shows "session_effect A cfg c h (w_broker W) (w_broker (snd (dispatch send h c cmd cid (s, W\<lparr>w_broker := b\<rparr>))))"
proof (cases "b = w_broker W")
  case True
  then show ?thesis using dispatch_effect [OF g ok, of h send cid s] by simp
next
  case False
  with publish_refused_same [OF pr] obtain p where p: "cmd = CmdPublish p" by blast
  show ?thesis
    using keeps_trans [OF keeps_publish_refused [OF pr], of "w_broker (snd (dispatch send h c cmd cid (s, W\<lparr>w_broker := b\<rparr>)))"]
      keeps_dispatch_publish [of "W\<lparr>w_broker := b\<rparr>" send h c p cid s]
    by (simp add: p session_effect.keeps)
qed

lemma handle_command_other:
  assumes "\<And>con. cmd \<noteq> CmdConnect con" and "cmd \<noteq> CmdPing"
  shows "handle_command send cfg c h cmd cid s W =
     (if ss_state s \<noteq> Connected then (True, s, W)
      else
        (case subscribe_refused cfg c (ss_auth s) cmd (w_broker W) of
           Some text \<Rightarrow> (True, s, send_out send h (error_frame cid text) W)
         | None \<Rightarrow>
             (let (refused, b) = publish_refused (ss_auth s) cmd (w_broker W); W1 = W\<lparr>w_broker := b\<rparr> in
              if refused then (True, s, send_out send h (error_frame cid (lit ''permission denied for publish'')) W1)
              else (True, dispatch send h c cmd cid (s, W1)))))"
  using assms by (cases cmd) (simp_all only: handle_command_def broker_command.case, blast+)

lemma dispatch_session:
  "ss_state (fst (dispatch send h c cmd cid (s, W))) = ss_state s"
  "ss_auth (fst (dispatch send h c cmd cid (s, W))) = ss_auth s"
  by (cases cmd; auto simp: Let_def split: option.split sum.split prod.split)+

text \<open>The command of a frame that was received behind \<open>pre\<close>.\<close>

lemma handle_command_effect:
  assumes R: "R = pre @ frame_encode f @ read_buf s" and f: "from_frame f = Some (Inr cmd)"
    and ok: "ss_state s = Connected \<longrightarrow> connects cfg pre (ss_auth s)"
    and hc: "handle_command send cfg c h cmd cid s W = (k, s', W')"
  shows "session_effect (asked cfg R) cfg c h (w_broker W) (w_broker W') \<and> session_ok cfg R s' \<and>
    (ss_state s' = ss_state s \<or> ss_state s' = Connected)"
proof -
  have buf: "read_buf s' = read_buf s" using handle_command_buf [of send cfg c h cmd cid s W] hc by simp
  have same: "session_ok cfg R s'" if "ss_state s' = ss_state s" "ss_auth s' = ss_auth s"
    using that ok buf R connects_append unfolding session_ok_def by (intro exI [of _ "pre @ frame_encode f"]) auto
  show ?thesis
  proof (cases "(\<exists>con. cmd = CmdConnect con) \<or> cmd = CmdPing")
    case True
    have new: "session_ok cfg R s'" if "cmd = CmdConnect con" "validate_auth (auth con) cfg = Inr (ss_auth s')" for con
    proof -
      have "connects cfg (pre @ frame_encode f) (ss_auth s')" unfolding connects_def using f that by (metis append.right_neutral)
      then show ?thesis unfolding session_ok_def using R buf by (intro exI [of _ "pre @ frame_encode f"]) simp
    qed
    show ?thesis
      using True hc same new by (auto simp: handle_command_def split: sum.splits intro!: session_effect.keeps)
  next
    case False
    show ?thesis
    proof (cases "ss_state s = Connected \<and> subscribe_refused cfg c (ss_auth s) cmd (w_broker W) = None")
      case True
      have "asked cfg R p" if "cmd = CmdSubscribe sc" "pattern_parse (sc_subject_pattern sc) = Inr p" "can_subscribe (ss_auth s) p" for sc p
        unfolding asked_def using that ok R f True by (intro exI [of _ pre] exI [of _ f] exI [of _ "read_buf s"]) auto
      then have g: "covered (asked cfg R) (ss_auth s) cmd" by (simp add: covered_def)
      obtain r b where pr: "publish_refused (ss_auth s) cmd (w_broker W) = (r, b)" by fastforce
      note eff = authorised_effect [OF g _ pr, of cfg c h send cid s] keeps_publish_refused [OF pr]
      show ?thesis
        using hc False True pr same eff dispatch_session [of send h c cmd cid s "W\<lparr>w_broker := b\<rparr>"]
        by (cases r) (auto simp: handle_command_other intro: session_effect.keeps)
    next
      case f: False
      then show ?thesis
        using hc False same by (auto simp: handle_command_other split: if_splits intro: session_effect.keeps)
    qed
  qed
qed

lemma frame_step_effect:
  assumes ok: "session_ok cfg R s" and f: "frame_step send iter cfg c h s W = Some (k, s', W')"
  shows "session_effect (asked cfg R) cfg c h (w_broker W) (w_broker W') \<and> session_ok cfg R s' \<and>
    (ss_state s' = ss_state s \<or> ss_state s' = Connected)"
proof (cases "ss_state s = Connected \<and> next_frame_is_pub (read_buf s)")
  case True
  then obtain r buf W1 where d: "dispatch_publish_batch_from_read_buf send iter h (ss_auth s) (c_max_frame_size cfg) (read_buf s) W = Some (r, buf, W1)"
    using dispatch_publish_batch_from_read_buf_takes by metis
  have b: "suffix (read_buf s') (read_buf s)" "ss_state s' = ss_state s" "ss_auth s' = ss_auth s"
    using f True d read_buf_batch_suffix [OF d] by (auto simp: frame_step_def Let_def split: if_splits sum.splits)
  have "keeps_subs (w_broker W) (w_broker W')"
    using f True d keeps_read_buf_batch [OF d] by (auto simp: frame_step_def Let_def split: if_splits sum.splits)
  then show ?thesis using session_ok_suffix [OF ok b refl] session_effect.keeps b(2) by simp
next
  case False
  have unprocessed: "session_ok cfg R s" "session_ok cfg R (s\<lparr>read_buf := []\<rparr>)"
    "session_ok cfg R (s\<lparr>local_published := 0\<rparr>)" "session_ok cfg R (s\<lparr>local_published := 0, read_buf := []\<rparr>)"
    by (rule session_ok_suffix [OF ok _ _ _ refl]; simp)+
  show ?thesis
  proof (cases rule: decode_from_cases [of "c_max_frame_size cfg" "read_buf s"])
    case (frame g)
    let ?s = "s\<lparr>read_buf := drop (total_frame_size (f_header g)) (read_buf s)\<rparr>"
    obtain pre where "R = pre @ read_buf s" and pre: "ss_state s = Connected \<longrightarrow> connects cfg pre (ss_auth s)"
      using ok by (auto simp: session_ok_def)
    then have R: "R = pre @ frame_encode g @ read_buf ?s" using frame(2) by simp
    have ok1: "session_ok cfg R ?s" by (rule session_ok_suffix [OF ok suffix_drop]) simp_all
    obtain rc where rc: "from_frame g = Some rc" using from_frame_total [of g] by auto
    show ?thesis
    proof (cases rc)
      case (Inl e)
      then have "s' = ?s" and "keeps_subs (w_broker W) (w_broker W')"
        using f False frame(1) rc by (auto simp: frame_step_def Let_def split: if_splits)
      then show ?thesis using ok1 session_effect.keeps by simp
    next
      case (Inr cmd)
      then have "handle_command send cfg c h cmd (correlation_id (f_header g)) ?s W = (k, s', W')"
        using f False frame(1) rc by (simp add: frame_step_def Let_def split: if_splits)
      from handle_command_effect [OF R _ _ this] rc Inr pre show ?thesis by simp
    qed
  qed (use f False unprocessed in
      \<open>auto simp: frame_step_def Let_def flush_published_def split: if_splits intro!: session_effect.keeps\<close>)
qed

section \<open>Runs of a session\<close>

text \<open>\<open>n\<close> iterations.  A subscription takes one id, so the ids do not run out as long as \<open>n\<close> of them are left.\<close>

inductive session_run ::
  "(subject_pattern \<Rightarrow> bool) \<Rightarrow> server_config \<Rightarrow> connection_id \<Rightarrow> 'h \<Rightarrow> nat \<Rightarrow> 'h broker \<Rightarrow> 'h broker \<Rightarrow> bool"
  for A :: "subject_pattern \<Rightarrow> bool" and cfg :: server_config and c :: connection_id and h :: 'h where
  run_refl: "session_run A cfg c h 0 b b"
| run_step: "session_run A cfg c h n b b' \<Longrightarrow> session_effect A cfg c h b' b'' \<Longrightarrow> session_run A cfg c h (Suc n) b b''"

lemma session_run_trans:
  "session_run A cfg c h m b' b'' \<Longrightarrow> session_run A cfg c h n b b' \<Longrightarrow> session_run A cfg c h (n + m) b b''"
  by (induction rule: session_run.induct) (auto intro: session_run.intros)

lemma session_effect_mono:
  assumes "session_effect A cfg c h b b'" and "\<And>p. A p \<Longrightarrow> B p"
  shows "session_effect B cfg c h b b'"
  using assms(1) by cases (auto intro: session_effect.intros assms(2))

lemma session_run_mono:
  "session_run A cfg c h n b b' \<Longrightarrow> (\<And>p. A p \<Longrightarrow> B p) \<Longrightarrow> session_run B cfg c h n b b'"
  by (induction rule: session_run.induct) (auto intro: session_run.intros session_effect_mono)

lemma session_run_one: "session_effect A cfg c h b b' \<Longrightarrow> session_run A cfg c h (Suc 0) b b'"
  by (rule run_step [OF run_refl])

text \<open>What runs keep: the subscriptions of others are not changed, those added are the connection's own and permitted.\<close>

definition own_sub :: "(subject_pattern \<Rightarrow> bool) \<Rightarrow> connection_id \<Rightarrow> 'h \<Rightarrow> 'h subscription \<Rightarrow> bool" where
  "own_sub A c h t \<longleftrightarrow> sub_connection_id t = c \<and> sub_delivery t = h \<and> A (sub_pattern t)"

definition confined :: "(subject_pattern \<Rightarrow> bool) \<Rightarrow> connection_id \<Rightarrow> 'h \<Rightarrow> 'h broker \<Rightarrow> 'h broker \<Rightarrow> bool" where
  "confined A c h b b' \<longleftrightarrow> (\<forall>i t. get_ref b' i = Some t \<longrightarrow> get_ref b i = Some t \<or> own_sub A c h t)"

definition within_limit :: "server_config \<Rightarrow> connection_id \<Rightarrow> 'h broker \<Rightarrow> bool" where
  "within_limit cfg c b \<longleftrightarrow> subscription_count_for_connection c b \<le> max_subscriptions_per_connection cfg"

lemma confined_refl [simp]: "confined A c h b b"
  by (simp add: confined_def)

lemma confined_trans: "confined A c h b b' \<Longrightarrow> confined A c h b' b'' \<Longrightarrow> confined A c h b b''"
  unfolding confined_def by blast

lemma within_limit_fewer:
  "count_for_connection (b_registry b') c \<le> count_for_connection (b_registry b) c \<Longrightarrow> within_limit cfg c b \<Longrightarrow> within_limit cfg c b'"
  by (simp add: within_limit_def subscription_count_for_connection_def)

lemma count_for_connection_remove:
  "count_for_connection (snd (registry_remove i r)) c \<le> count_for_connection r c"
  by (auto simp: registry_remove_def count_for_connection_def retain_not_def split: option.split)

text \<open>One effect: the invariant, the ids used, confinement and the limit.\<close>

lemma session_effect_sound:
  assumes "session_effect A cfg c h b b'" and inv: "broker_inv b" and room: "unat (counter (sub_id_gen b)) + 1 < 2 ^ 64"
  shows "broker_inv b' \<and> unat (counter (sub_id_gen b')) \<le> unat (counter (sub_id_gen b)) + 1 \<and>
    confined A c h b b' \<and> (within_limit cfg c b \<longrightarrow> within_limit cfg c b')"
  using assms(1)
proof (cases rule: session_effect.cases)
  case keeps
  then show ?thesis
    using inv by (simp add: keeps_subs_def confined_def within_limit_def subscription_count_for_connection_def)
next
  case (subscribes p t qg i)
  have "broker_inv b'" by (rule subscribe_inv [OF inv pattern_parse_wf [OF subscribes(2), THEN conjunct1] room subscribes(4)])
  moreover from subscribe_shape [OF inv subscribes(4)] obtain key where
    i: "i = counter (sub_id_gen b)" "b_registry b' = registry_add i c p qg key h (b_registry b)"
      "counter (sub_id_gen b') = counter (sub_id_gen b) + 1" by metis
  moreover have "own_sub A c h (subscription_new i c p qg key h)"
    using subscribes(1) by (auto simp: own_sub_def subscription_new_def)
  moreover have "unat (counter (sub_id_gen b) + 1) = unat (counter (sub_id_gen b)) + 1"
    using room unat_add_lem [of "counter (sub_id_gen b)" 1] by simp
  moreover have "within_limit cfg c b'"
    using subscribes(3) i(2)
    by (auto simp: within_limit_def subscription_count_for_connection_def count_for_connection_def registry_add_def conn_ids_def Let_def
        split: option.splits)
  ultimately show ?thesis by (auto simp: confined_def registry_add_subscriptions)
next
  case (unsubscribes i)
  show ?thesis
  proof (cases "get_ref b i")
    case None
    then have "unsubscribe c i b = b" by (simp add: unsubscribe_def registry_remove_def)
    with inv unsubscribes show ?thesis by simp
  next
    case (Some t)
    note sh = unsubscribe_shape [OF Some, of c]
    have "within_limit cfg c b \<longrightarrow> within_limit cfg c b'"
      using within_limit_fewer [of b' c b cfg] count_for_connection_remove [of i "b_registry b" c] by (simp add: unsubscribes sh(2))
    with unsubscribe_inv [OF inv] show ?thesis by (simp add: unsubscribes confined_def sh(1,3))
  qed
qed

lemma session_run_sound:
  assumes "session_run A cfg c h n b b'" and "broker_inv b" and "unat (counter (sub_id_gen b)) + n < 2 ^ 64"
  shows "broker_inv b' \<and> unat (counter (sub_id_gen b')) \<le> unat (counter (sub_id_gen b)) + n \<and>
    confined A c h b b' \<and> (within_limit cfg c b \<longrightarrow> within_limit cfg c b')"
  using assms
proof (induction rule: session_run.induct)
  case (run_step n b b' b'')
  have IH: "broker_inv b'" "unat (counter (sub_id_gen b')) \<le> unat (counter (sub_id_gen b)) + n"
    "confined A c h b b'" "within_limit cfg c b \<longrightarrow> within_limit cfg c b'" using run_step.IH run_step.prems by simp_all
  have "unat (counter (sub_id_gen b')) + 1 < 2 ^ 64" using IH(2) run_step.prems(2) by simp
  from session_effect_sound [OF run_step.hyps(2) IH(1) this] IH show ?case by (auto intro: confined_trans)
qed simp

section \<open>Frames and events as runs\<close>

lemma process_frames_run:
  "session_ok cfg R s \<Longrightarrow> process_frames send iter cfg c h s W = Some (s', W') \<Longrightarrow>
     \<exists>n. session_run (asked cfg R) cfg c h n (w_broker W) (w_broker W') \<and> n + length (read_buf s') \<le> length (read_buf s) + 1 \<and> session_ok cfg R s' \<and>
       (ss_state s' = ss_state s \<or> ss_state s' = Connected)"
proof (induction send iter cfg c h s W rule: process_frames.induct)
  case (1 send iter cfg c h s W)
  obtain k s1 W1 where f: "frame_step send iter cfg c h s W = Some (k, s1, W1)"
    using frame_step_takes [of send iter cfg c h s W] by blast
  note eff = frame_step_effect [OF "1.prems"(1) f]
  note one = session_run_one [OF eff [THEN conjunct1]]
  show ?case
  proof (cases k)
    case True
    then have p: "process_frames send iter cfg c h s1 W1 = Some (s', W')"
      using "1.prems"(2) f by (subst (asm) process_frames.simps) simp
    from "1.IH" [OF f refl refl True] eff p obtain n where
      n: "session_run (asked cfg R) cfg c h n (w_broker W1) (w_broker W')" "n + length (read_buf s') \<le> length (read_buf s1) + 1" "session_ok cfg R s'"
        "ss_state s' = ss_state s1 \<or> ss_state s' = Connected" by blast
    have "length (read_buf s1) < length (read_buf s)" using frame_step_less [of send iter cfg c h s W s1 W1] f True by simp
    then show ?thesis
      using session_run_trans [OF n(1) one] n(2-4) eff by (intro exI [of _ "Suc 0 + n"]) auto
  next
    case False
    then have "s' = s1" "W' = W1" using "1.prems"(2) f by (subst (asm) process_frames.simps, simp)+
    then show ?thesis using one eff frame_step_le [OF f] by (intro exI [of _ "Suc 0"]) auto
  qed
qed

fun event_cost :: "event \<Rightarrow> nat" where
  "event_cost (EvData bs) = length bs + 1"
| "event_cost EvReadError = 0"
| "event_cost (EvTick _) = 1"
| "event_cost (EvShutdown data) = (case data of Some bs \<Rightarrow> length bs | None \<Rightarrow> 0)"

text \<open>The bytes an event brings to be processed.  What arrives while a connection drains is never looked at.\<close>

fun event_bytes :: "event \<Rightarrow> bytes" where
  "event_bytes (EvData bs) = bs"
| "event_bytes _ = []"

lemma connection_event_run:
  assumes ok: "session_ok cfg R s" and ev: "connection_event send iter cfg c h ev s W = Some (k, s', W')"
  shows "\<exists>n. session_run (asked cfg (R @ event_bytes ev)) cfg c h n (w_broker W) (w_broker W') \<and>
    n + length (read_buf s') \<le> length (read_buf s) + event_cost ev \<and> (k \<longrightarrow> session_ok cfg (R @ event_bytes ev) s')"
proof -
  have still: "\<exists>n. session_run A cfg c h n b b \<and> n \<le> m" for A b m using run_refl by (intro exI [of _ 0]) simp
  have frames: "\<exists>n. session_run (asked cfg Q) cfg c h n (w_broker W) (w_broker W') \<and>
      n + length (read_buf s') \<le> length (read_buf x) + 1 \<and> session_ok cfg Q s'"
    if "session_ok cfg Q x" "process_frames send iter cfg c h x X = Some (s', W')" "w_broker X = w_broker W" for Q x X
    using process_frames_run [OF that(1,2)] that(3) by auto
  show ?thesis
  proof (cases ev)
    case (EvData bs)
    show ?thesis
    proof (cases "bs = []")
      case True
      then show ?thesis using ev ok EvData still by (auto simp: connection_event_def)
    next
      case False
      then have "process_frames send iter cfg c h (s\<lparr>read_buf := read_buf s @ bs\<rparr>) W = Some (s', W')"
        using ev EvData by (auto simp: connection_event_def)
      from frames [OF session_ok_more [OF ok, of bs] this refl] show ?thesis using EvData by (auto simp: add.assoc)
    qed
  next
    case EvReadError
    then show ?thesis using ev ok still by (auto simp: connection_event_def)
  next
    case (EvTick e)
    then show ?thesis
      using ev ok frames [OF ok] still by (auto simp: connection_event_def Let_def split: if_splits)
  next
    case (EvShutdown data)
    then show ?thesis
      using ev run_refl by (auto simp: connection_event_def split: if_splits option.splits intro!: exI [of _ 0])
  qed
qed

text \<open>The broker as the events left it, before the clean-up that closes the connection.\<close>

lemma connection_loop_run:
  assumes "session_ok cfg R s" and "connection_loop send iter cfg c h evs s W = Some (open, s', W')"
  shows "\<exists>n X. session_run (asked cfg (R @ concat (map event_bytes evs))) cfg c h n (w_broker W) (w_broker X) \<and>
    n \<le> length (read_buf s) + sum_list (map event_cost evs) \<and> W' = (if open then X else close_connection c s' X)"
  using assms
proof (induction evs arbitrary: R s W)
  case Nil
  then show ?case using run_refl by (intro exI [of _ 0] exI [of _ W]) auto
next
  case (Cons ev evs)
  let ?A = "asked cfg (R @ concat (map event_bytes (ev # evs)))"
  obtain k s1 W1 where e: "connection_event send iter cfg c h ev s W = Some (k, s1, W1)"
    using connection_event_total [of send iter cfg c h ev s W] by auto
  from connection_event_run [OF Cons.prems(1) e] obtain n where
    n: "session_run (asked cfg (R @ event_bytes ev)) cfg c h n (w_broker W) (w_broker W1)"
      "n + length (read_buf s1) \<le> length (read_buf s) + event_cost ev" "k \<longrightarrow> session_ok cfg (R @ event_bytes ev) s1" by blast
  have n1: "session_run ?A cfg c h n (w_broker W) (w_broker W1)"
    using session_run_mono [OF n(1), of ?A] asked_append [of cfg "R @ event_bytes ev" _ "concat (map event_bytes evs)"] by simp
  show ?case
  proof (cases k)
    case True
    then have "connection_loop send iter cfg c h evs s1 W1 = Some (open, s', W')" using Cons.prems(2) e by simp
    from Cons.IH [OF n(3) [rule_format, OF True] this] obtain m X where
      m: "session_run ?A cfg c h m (w_broker W1) (w_broker X)" "m \<le> length (read_buf s1) + sum_list (map event_cost evs)"
        "W' = (if open then X else close_connection c s' X)" by auto
    show ?thesis
      using session_run_trans [OF m(1) n1] m(2,3) n(2) by (intro exI [of _ "n + m"] exI [of _ X]) auto
  next
    case False
    then show ?thesis using Cons.prems(2) e n1 n(2) by (intro exI [of _ n] exI [of _ W1]) auto
  qed
qed

section \<open>Closing a connection\<close>

lemma close_connection_broker:
  assumes inv: "broker_inv (w_broker X)"
  shows "broker_inv (w_broker (close_connection c s X))"
    and "subscription_count_for_connection c (w_broker (close_connection c s X)) = 0"
    and "get_ref (w_broker (close_connection c s X)) i = Some t \<Longrightarrow> get_ref (w_broker X) i = Some t"
proof -
  let ?Y = "if local_published s > 0 then count (inc_published_by (local_published s)) X else X"
  have Y: "broker_inv (w_broker ?Y)" "b_registry (w_broker ?Y) = b_registry (w_broker X)"
    using keeps_count [of "inc_published_by (local_published s)" X] inv by (auto simp: keeps_subs_def)
  have eq: "w_broker (close_connection c s X) = remove_connection c (w_broker ?Y)" by (simp add: close_connection_def Let_def)
  note sh = remove_connection_shape [OF Y(1), of c]
  show "broker_inv (w_broker (close_connection c s X))" unfolding eq by (rule remove_connection_inv [OF Y(1)])
  show "subscription_count_for_connection c (w_broker (close_connection c s X)) = 0"
    unfolding eq by (simp add: subscription_count_for_connection_def count_for_connection_def sh(3))
  show "get_ref (w_broker (close_connection c s X)) i = Some t \<Longrightarrow> get_ref (w_broker X) i = Some t"
    unfolding eq by (simp add: sh(1) Y(2) split: if_splits)
qed

end
