(* ===== verification/Session_Pub.thy ===== *)
theory Session_Pub
  imports Session_Inv
begin

text \<open>
  The PUB fast path reads commands straight from the read buffer.  Where it accepts one, the slow path
  (\<open>Frame::decode_from\<close> then \<open>BrokerCommand::from_frame\<close>) reads the same command from the same bytes; a run of
  encoded PUB frames becomes one call of \<open>dispatch_publish_batch\<close>.
\<close>

definition layout_of :: "frame \<Rightarrow> pub_frame_layout" where
  "layout_of f = \<lparr>l_correlation_id = correlation_id (f_header f), header_start = FRAME_HEADER_SIZE,
     header_end = FRAME_HEADER_SIZE + length (f_headers f), payload_start = FRAME_HEADER_SIZE + length (f_headers f),
     payload_end = FRAME_HEADER_SIZE + length (f_headers f) + length (f_payload f), l_total = total_frame_size (f_header f)\<rparr>"

definition is_pub :: "frame \<Rightarrow> bool" where
  "is_pub f \<longleftrightarrow> h_frame_type (f_header f) = as_u8 Pub"

lemma header_encode_fields:
  "from_be (take 2 (header_encode h @ rest)) = magic h"
  "(header_encode h @ rest) ! 2 = version h" "(header_encode h @ rest) ! 3 = h_frame_type h"
  "from_be (take 8 (drop 6 (header_encode h @ rest))) = correlation_id h"
  by (simp_all add: header_encode_def nth_append)

lemma next_frame_is_pub_encode: "next_frame_is_pub (frame_encode f @ rest) \<longleftrightarrow> is_pub f"
  using header_encode_fields(3) [of "f_header f" "f_headers f @ f_payload f @ rest"]
  by (simp add: next_frame_is_pub_def frame_encode_eq is_pub_def idx_def FRAME_HEADER_SIZE_def)

lemma peek_encode:
  assumes wf: "frame_wf k f" and pub: "is_pub f"
  shows "peek_pub_frame_layout k (frame_encode f @ rest) = Some (Inr (Some (layout_of f)))"
proof -
  let ?h = "f_header f" and ?r = "f_headers f @ f_payload f @ rest"
  define buf where "buf = header_encode ?h @ ?r"
  note fs = header_encode_fields [of ?h ?r, folded buf_def] header_encode_lens [of ?h ?r, folded buf_def]
  have len: "length buf = FRAME_HEADER_SIZE + length (f_headers f) + length (f_payload f) + length rest" by (simp add: buf_def)
  then have reads: "be_at 4 buf 14 = Some (header_len ?h)" "be_at 4 buf 18 = Some (payload_len ?h)" "be_at 2 buf 0 = Some (magic ?h)"
    "idx buf 2 = Some (version ?h)" "idx buf 3 = Some (h_frame_type ?h)" "be_at 8 buf 6 = Some (correlation_id ?h)"
    using fs by (simp_all add: FRAME_HEADER_SIZE_def idx_def)
  have "frame_encode f @ rest = buf" by (simp add: buf_def frame_encode_eq)
  then show ?thesis
    using wf pub len
    by (simp add: peek_pub_frame_layout_def reads is_pub_def frame_wf_def total_frame_size_def header_ok_def layout_of_def Let_def)
qed

lemma encoded_sections:
  assumes "frame_wf k f"
  shows "sub_slice (frame_encode f @ rest) 0 (l_total (layout_of f)) = Some (frame_encode f)"
    and "drop (l_total (layout_of f)) (frame_encode f @ rest) = rest"
    and "sub_slice (frame_encode f) (header_start (layout_of f)) (header_end (layout_of f)) = Some (f_headers f)"
    and "sub_slice (frame_encode f) (payload_start (layout_of f)) (payload_end (layout_of f)) = Some (f_payload f)"
  using length_frame_encode [OF assms] by (simp_all add: layout_of_def) (simp_all add: frame_encode_eq)

lemma from_frame_pub: "is_pub f \<Longrightarrow> from_frame f = pub_from_frame f"
  by (simp add: is_pub_def from_frame_def del: as_u8.simps)

lemma pub_from_frame_ranges:
  assumes sl: "sl = unat (from_be (take 2 (f_payload f)) :: u16)" and rl: "rl = unat (from_be (take 2 (drop (2 + sl) (f_payload f))) :: u16)"
    and len: "2 + sl + 2 + rl \<le> length (f_payload f)"
    and hs: "(if f_headers f = [] then Some (Inr None) else map_option (map_sum id Some) (decode_headers (f_headers f))) = Some (Inr h)"
  shows "pub_from_frame f = Some (Inr (CmdPublish \<lparr>pc_subject = take sl (drop 2 (f_payload f)),
     pc_payload = drop (2 + sl + 2 + rl) (f_payload f),
     pc_reply_to = (if rl > 0 then Some (take rl (drop (2 + sl + 2) (f_payload f))) else None), pc_headers = h\<rparr>))"
proof -
  define p where "p = f_payload f"
  obtain w1 :: u16 where w1: "be_at 2 p 0 = Some w1" "unat w1 = sl" using sl len by (simp add: p_def)
  obtain w2 :: u16 where w2: "be_at 2 (drop (2 + sl) p) 0 = Some w2" "unat w2 = rl" using rl len by (simp add: p_def)
  have h: "(if f_headers f \<noteq> [] then map_option (map_sum id Some) (decode_headers (f_headers f)) else Some (Inr None)) = Some (Inr h)"
    using hs by (simp split: if_splits)
  have L: "2 + sl + 2 + rl \<le> length p" using len by (simp add: p_def)
  have r: "sub_slice p (2 + sl) (length p) = Some (drop (2 + sl) p)" using L by simp
  show ?thesis
  proof (cases "rl > 0")
    case True
    then show ?thesis
      using L unfolding pub_from_frame_def h p_def [symmetric] Let_def w1 bind.bind_lunit w1(2) r
      by (simp add: w2 [simplified] try_bind_def) arith
  next
    case False
    then show ?thesis
      using L unfolding pub_from_frame_def h p_def [symmetric] Let_def w1 bind.bind_lunit w1(2) r
      by (simp add: w2 [simplified] try_bind_def)
  qed
qed

lemma fast_decode_slow:
  assumes wf: "frame_wf k f" and pub: "is_pub f"
    and d: "decode_publish_command_from_buf (layout_of f) (frame_encode f @ rest) = Some (Inr (cmd, cid), r)"
  shows "r = rest \<and> cid = correlation_id (f_header f) \<and> from_frame f = Some (Inr (CmdPublish cmd))"
proof -
  note secs = encoded_sections [OF wf]
  obtain hs where hs: "(if f_headers f = [] then Some (Inr None) else map_option (map_sum id Some) (decode_headers (f_headers f))) = Some hs"
    using header_section_total by blast
  let ?p = "f_payload f"
  note dd = d [unfolded decode_publish_command_from_buf_def secs Let_def bind.bind_lunit hs]
  show ?thesis
  proof (cases rule: parse_publish_payload_ranges [of ?p])
    case (bad e)
    with dd show ?thesis by simp
  next
    case (good sl rl)
    show ?thesis
    proof (cases hs)
      case (Inl e)
      with dd good(1) show ?thesis by simp
    next
      case (Inr h)
      have c: "r = rest \<and> cid = correlation_id (f_header f) \<and>
        cmd = \<lparr>pc_subject = take sl (drop 2 ?p), pc_payload = drop (2 + sl + 2 + rl) ?p,
          pc_reply_to = (if rl > 0 then Some (take rl (drop (2 + sl + 2) ?p)) else None), pc_headers = h\<rparr>"
        using dd good(1,4) Inr by (cases "rl = 0") (auto simp: layout_of_def)
      then show ?thesis using pub_from_frame_ranges [OF good(2-4), of h] hs Inr from_frame_pub [OF pub] by auto
    qed
  qed
qed

lemma header_decode_ok:
  assumes "FRAME_HEADER_SIZE \<le> length b" and "from_be (take 2 b) = ZETMQ_MAGIC" and "b ! 2 = CURRENT_VERSION"
  shows "\<exists>x. header_decode b = Some (Inr x)"
proof -
  have "take 1 (drop 2 b) = [b ! 2]" using assms(1) by (simp add: take_Suc_conv_app_nth FRAME_HEADER_SIZE_def)
  then show ?thesis using assms by (simp add: header_decode_def FRAME_HEADER_SIZE_def)
qed

lemma peek_frame:
  assumes peek: "peek_pub_frame_layout k buf = Some (Inr (Some l))"
  obtains f rest where "buf = frame_encode f @ rest" "frame_wf k f" "is_pub f" "l = layout_of f"
proof (cases rule: peek_layout_cases [of k buf])
  case (layout hl pl)
  let ?t = "FRAME_HEADER_SIZE + hl + pl"
  have "take FRAME_HEADER_SIZE (take ?t buf) = take FRAME_HEADER_SIZE buf" by (simp add: min_def)
  moreover have "\<exists>x. header_decode (take FRAME_HEADER_SIZE buf) = Some (Inr x)"
    using layout(5,7,8) by (intro header_decode_ok) (simp_all add: FRAME_HEADER_SIZE_def min_def)
  ultimately obtain x where x: "header_decode (take FRAME_HEADER_SIZE (take ?t buf)) = Some (Inr x)" by auto
  obtain h pl' :: u32 where h: "be_at 4 buf 14 = Some h" "unat h = hl" "be_at 4 buf 18 = Some pl'" "unat pl' = pl"
    using layout(3-5) by (simp add: FRAME_HEADER_SIZE_def)
  have le: "FRAME_HEADER_SIZE \<le> length buf" "FRAME_HEADER_SIZE \<le> ?t" using layout(5) by simp_all
  have "\<exists>f. decode_from k buf = Some (Inr (Some f), drop ?t buf)"
    using layout(5,6) le x unfolding decode_from_def h bind.bind_lunit Let_def h(2,4)
    by (cases x; cases "hl > 0"; cases "pl > 0") auto
  then obtain f where f: "buf = frame_encode f @ drop ?t buf" "frame_wf k f"
    by (cases rule: decode_from_cases [of k buf]) auto
  have "FRAME_HEADER_SIZE \<le> length buf" using layout(5) by simp
  then have "next_frame_is_pub buf" using layout(9) by (simp add: next_frame_is_pub_def idx_def FRAME_HEADER_SIZE_def)
  then have pub: "is_pub f" using next_frame_is_pub_encode f(1) by metis
  moreover have "l = layout_of f" using peek peek_encode [OF f(2) pub] f(1) by (metis Inr_inject option.inject)
  ultimately show ?thesis using that f by blast
qed (use peek in simp_all)

lemma fast_path_slow_path:
  assumes "peek_pub_frame_layout k buf = Some (Inr (Some l))" and "decode_publish_command_from_buf l buf = Some (Inr (cmd, cid), rest)"
  shows "\<exists>f. decode_from k buf = Some (Inr (Some f), rest) \<and> correlation_id (f_header f) = cid \<and>
    from_frame f = Some (Inr (CmdPublish cmd))"
proof -
  from peek_frame [OF assms(1)] obtain f r where
    f: "buf = frame_encode f @ r" "frame_wf k f" "is_pub f" "l = layout_of f" by blast
  from fast_decode_slow [OF f(2,3)] assms(2) f(1,4) decode_from_encode [OF f(2)] show ?thesis by blast
qed

section \<open>A run of PUB frames\<close>

definition pub_frame_of :: "publish_command \<Rightarrow> frame" where
  "pub_frame_of p = pub_frame (pc_subject p) (pc_reply_to p) (pc_payload p) (pc_headers p)"

text \<open>Commands whose fields fit the widths of the wire format.\<close>

definition pub_ok :: "nat \<Rightarrow> publish_command \<Rightarrow> bool" where
  "pub_ok k p \<longleftrightarrow> length (pc_subject p) < 2 ^ 16 \<and> (\<forall>r. pc_reply_to p = Some r \<longrightarrow> r \<noteq> [] \<and> length r < 2 ^ 16) \<and>
     (\<forall>h. pc_headers p = Some h \<longrightarrow> headers_ok h) \<and> length (frame_encode (pub_frame_of p)) \<le> k \<and> k < 2 ^ 32"

lemma pub_frame_of_fields:
  "f_payload (pub_frame_of p) = u16_bytes (of_nat (length (pc_subject p))) @ pc_subject p
     @ (case pc_reply_to p of None \<Rightarrow> u16_bytes 0 | Some r \<Rightarrow> u16_bytes (of_nat (length r)) @ r) @ pc_payload p"
  "f_headers (pub_frame_of p) = (case pc_headers p of None \<Rightarrow> [] | Some h \<Rightarrow> encode_headers h)"
  "is_pub (pub_frame_of p)" "correlation_id (f_header (pub_frame_of p)) = 0"
  by (simp_all add: pub_frame_of_def pub_frame_def with_payload_def with_headers_def frame_new_def frame_header_new_def is_pub_def Let_def
      split: option.split)

lemma pub_frame_of_wf:
  assumes "pub_ok k p" shows "frame_wf k (pub_frame_of p)"
proof -
  let ?f = "pub_frame_of p"
  have "FRAME_HEADER_SIZE + length (f_headers ?f) + length (f_payload ?f) \<le> k" and k: "k < 2 ^ 32"
    using assms by (simp_all add: pub_ok_def frame_encode_eq)
  moreover have "n \<le> k \<Longrightarrow> unat (of_nat n :: u32) = n" for n using k by (simp add: unat_of_nat)
  moreover have "header_len (f_header ?f) = of_nat (length (f_headers ?f))" "payload_len (f_header ?f) = of_nat (length (f_payload ?f))"
    "header_ok (f_header ?f)"
    by (simp_all add: pub_frame_of_def pub_frame_def with_payload_def with_headers_def frame_new_def frame_header_new_def header_ok_def Let_def
      split: option.split)
  ultimately show ?thesis by (simp add: frame_wf_def total_frame_size_def)
qed

lemma pub_frame_of_parse:
  assumes "pub_ok k p"
  shows "decode_publish_command_from_buf (layout_of (pub_frame_of p)) (frame_encode (pub_frame_of p) @ rest) = Some (Inr (p, 0), rest)"
proof -
  let ?f = "pub_frame_of p"
  have "(if f_headers ?f \<noteq> [] then map_option (map_sum id Some) (decode_headers (f_headers ?f)) else Some (Inr None)) = Some (Inr (pc_headers p))"
    using assms by (intro section_headers) (simp add: pub_frame_of_fields pub_ok_def split: option.split)
  then have h: "(if f_headers ?f = [] then Some (Inr None) else map_option (map_sum id Some) (decode_headers (f_headers ?f))) = Some (Inr (pc_headers p))"
    by (simp split: if_splits)
  have L: "length (pc_subject p) < 2 ^ 16" using assms by (simp add: pub_ok_def)
  note secs = encoded_sections [OF pub_frame_of_wf [OF assms]]
  show ?thesis
  proof (cases "pc_reply_to p")
    case None
    then show ?thesis
      unfolding decode_publish_command_from_buf_def secs Let_def bind.bind_lunit h
      using L by (simp add: pub_frame_of_fields parse_publish_payload_def unat_of_nat_u16 Let_def layout_of_def)
  next
    case (Some r)
    then have "r \<noteq> []" "length r < 2 ^ 16" using assms by (simp_all add: pub_ok_def)
    with Some show ?thesis
      unfolding decode_publish_command_from_buf_def secs Let_def bind.bind_lunit h
      using L by (simp add: pub_frame_of_fields parse_publish_payload_def unat_of_nat_u16 Let_def layout_of_def)
  qed
qed

lemma collect_pub_frames:
  assumes "is_publish_unrestricted ctx" and "\<not> next_frame_is_pub rest"
  shows "\<forall>p \<in> set ps. pub_ok k p \<Longrightarrow> length ps \<le> n \<Longrightarrow>
    collect_commands n send h ctx k processed cs (wire (map pub_frame_of ps) @ rest) W =
      Some (Inr (processed + length ps, cs @ ps), rest, W)"
proof (induction ps arbitrary: n processed cs)
  case Nil
  then show ?case using assms(2) by (cases n) simp_all
next
  case (Cons p ps)
  then obtain m where n: "n = Suc m" by (cases n) auto
  let ?r = "wire (map pub_frame_of ps) @ rest"
  have ok: "pub_ok k p" using Cons.prems by simp
  have al: "publish_allowed ctx (pc_subject p) (w_broker W) = (True, w_broker W)" using assms(1) by (simp add: publish_allowed_def)
  show ?case
    using Cons.IH [of m "processed + 1" "cs @ [p]"] Cons.prems n
      peek_encode [OF pub_frame_of_wf [OF ok] pub_frame_of_fields(3), of ?r] pub_frame_of_parse [OF ok, of ?r]
      next_frame_is_pub_encode [of "pub_frame_of p" ?r] pub_frame_of_fields(3) [of p]
    by (simp add: al)
qed

lemma read_buf_pub_frames:
  assumes "has_active_subscriptions (w_broker W)" and "is_publish_unrestricted ctx" and "\<not> next_frame_is_pub rest"
    and "\<forall>p \<in> set ps. pub_ok k p" and "length ps \<le> PUB_BATCH_LIMIT" and "ps \<noteq> []"
    and "dispatch_publish_batch send iter ps (w_broker W, w_chan W) = (b, w)"
  shows "dispatch_publish_batch_from_read_buf send iter h ctx k (wire (map pub_frame_of ps) @ rest) W =
    Some (Inr (True, 0), rest, W\<lparr>w_broker := b, w_chan := w\<rparr>)"
  using assms collect_pub_frames [OF assms(2-5), of send h 0 "[]" W]
  by (simp add: dispatch_publish_batch_from_read_buf_def)

lemma frame_step_pub_frames:
  assumes "ss_state s = Connected" and "read_buf s = wire (map pub_frame_of ps) @ rest"
    and "has_active_subscriptions (w_broker W)" and "is_publish_unrestricted (ss_auth s)" and "\<not> next_frame_is_pub rest"
    and ok: "\<forall>p \<in> set ps. pub_ok (c_max_frame_size cfg) p" and "length ps \<le> PUB_BATCH_LIMIT" and ne: "ps \<noteq> []"
    and "dispatch_publish_batch send iter ps (w_broker W, w_chan W) = (b, w)" and "local_published s = 0"
  shows "frame_step send iter cfg c h s W = Some (True, s\<lparr>read_buf := rest\<rparr>, W\<lparr>w_broker := b, w_chan := w\<rparr>)"
proof -
  obtain p qs where ps: "ps = p # qs" using ne by (cases ps) auto
  have "next_frame_is_pub (read_buf s)"
    using next_frame_is_pub_encode [of "pub_frame_of p" "wire (map pub_frame_of qs) @ rest"] pub_frame_of_fields(3) [of p]
    by (simp add: assms(2) ps)
  then show ?thesis
    using assms read_buf_pub_frames [of W "ss_auth s" rest ps "c_max_frame_size cfg" send iter b w h]
    by (simp add: frame_step_def LOCAL_PUBLISHED_FLUSH_THRESHOLD_def Let_def)
qed

lemma process_pub_frames:
  assumes "ss_state s = Connected" and "read_buf s = wire (map pub_frame_of ps)"
    and "has_active_subscriptions (w_broker W)" and "is_publish_unrestricted (ss_auth s)"
    and "\<forall>p \<in> set ps. pub_ok (c_max_frame_size cfg) p" and "length ps \<le> PUB_BATCH_LIMIT" and "ps \<noteq> []"
    and "dispatch_publish_batch send iter ps (w_broker W, w_chan W) = (b, w)" and "local_published s = 0"
  shows "process_frames send iter cfg c h s W = Some (s\<lparr>read_buf := []\<rparr>, W\<lparr>w_broker := b, w_chan := w\<rparr>)"
proof -
  let ?s = "s\<lparr>read_buf := []\<rparr>" and ?W = "W\<lparr>w_broker := b, w_chan := w\<rparr>"
  have "frame_step send iter cfg c h ?s ?W = Some (False, ?s, ?W)"
    using assms(9) by (simp add: frame_step_def next_frame_is_pub_def decode_from_def flush_published_def FRAME_HEADER_SIZE_def)
  then have stop: "process_frames send iter cfg c h ?s ?W = Some (?s, ?W)" by (subst process_frames.simps) simp
  have "\<not> next_frame_is_pub []" by (simp add: next_frame_is_pub_def FRAME_HEADER_SIZE_def)
  from frame_step_pub_frames [of s ps "[]", OF assms(1) _ assms(3,4) this assms(5-9), of c h]
  show ?thesis using assms(2) stop by (subst process_frames.simps) simp
qed

text \<open>The batch of a restricted session holds permitted commands only.\<close>

definition permitted :: "auth_context \<Rightarrow> publish_command \<Rightarrow> bool" where
  "permitted ctx p \<longleftrightarrow> is_publish_unrestricted ctx \<or>
     (case from_utf8 (pc_subject p) of
        None \<Rightarrow> False
      | Some t \<Rightarrow> (case subject_parse t of Inl _ \<Rightarrow> False | Inr s \<Rightarrow> can_publish ctx s))"

lemma publish_allowed_permitted:
  assumes "cache_ok b" and "publish_allowed ctx (pc_subject p) b = (al, b')"
  shows "(al \<longleftrightarrow> permitted ctx p) \<and> cache_ok b'"
proof (cases "is_publish_unrestricted ctx \<or> from_utf8 (pc_subject p) = None")
  case True
  then show ?thesis using assms by (auto simp: publish_allowed_def permitted_def split: if_splits)
next
  case False
  then obtain t where t: "from_utf8 (pc_subject p) = Some t" by blast
  obtain r b1 where p: "parse_subject t b = (r, b1)" by fastforce
  have "subject_parse t = r" "cache_ok b1" using parse_subject_spec [OF assms(1), of t] p by simp_all
  then show ?thesis
    using False t p assms(2) by (auto simp: publish_allowed_def permitted_def split: sum.splits)
qed

lemma collect_permitted:
  "cache_ok (w_broker W) \<Longrightarrow> collect_commands n send h ctx k p cs buf W = Some (Inr (p', cs'), buf', W') \<Longrightarrow>
     \<exists>ds. cs' = cs @ ds \<and> (\<forall>d \<in> set ds. permitted ctx d)"
proof (induction n arbitrary: p cs buf W)
  case (Suc n)
  show ?case
  proof (cases "next_frame_is_pub buf")
    case True
    show ?thesis
    proof (cases rule: peek_layout_cases [of k buf])
      case (layout hl pl)
      from Suc.prems(2) True layout(1) obtain d rest where
        d: "decode_publish_command_from_buf \<lparr>l_correlation_id = from_be (take 8 (drop 6 buf)),
          header_start = FRAME_HEADER_SIZE, header_end = FRAME_HEADER_SIZE + hl, payload_start = FRAME_HEADER_SIZE + hl,
          payload_end = FRAME_HEADER_SIZE + hl + pl, l_total = FRAME_HEADER_SIZE + hl + pl\<rparr> buf = Some (d, rest)"
        by (auto split: bind_splits)
      show ?thesis
      proof (cases d)
        case (Inl e)
        then show ?thesis using Suc.prems(2) True layout(1) d by simp
      next
        case (Inr x)
        obtain cmd cid where x: "x = (cmd, cid)" by fastforce
        obtain al b where pa: "publish_allowed ctx (pc_subject cmd) (w_broker W) = (al, b)" by fastforce
        note al = publish_allowed_permitted [OF Suc.prems(1) pa]
        let ?W = "if al then W\<lparr>w_broker := b\<rparr> else send_publish_denied send h cid (W\<lparr>w_broker := b\<rparr>)"
        have "collect_commands n send h ctx k (p + 1) (if al then cs @ [cmd] else cs) rest ?W = Some (Inr (p', cs'), buf', W')"
          using Suc.prems(2) True d Inr x by (cases al) (simp_all add: layout(1) pa Let_def)
        moreover have "cache_ok (w_broker ?W)" using al by simp
        ultimately obtain ds where "cs' = (if al then cs @ [cmd] else cs) @ ds" "\<forall>d \<in> set ds. permitted ctx d"
          using Suc.IH by blast
        then show ?thesis using al by (intro exI [of _ "if al then cmd # ds else ds"]) auto
      qed
    qed (use Suc.prems(2) True in auto)
  qed (use Suc.prems(2) in simp)
qed simp

end
