(* ===== verification/Session_Channel.thy ===== *)
theory Session_Channel
  imports Session_Pub
begin

text \<open>
  The outbound channels.  \<open>outbound_channel\<close> is what a session relies on of \<open>tokio::sync::mpsc\<close>: a frame that is
  accepted is appended to the queue of its channel, one that is refused changes nothing.  The handle the broker
  delivers to is then a \<open>delivery_handle\<close>, so the order lemmas of the broker hold for the queues.
\<close>

definition msgs_of :: "outbound_frame list \<Rightarrow> delivery_message list" where
  "msgs_of q = List.map_filter (\<lambda>f. case f of MsgOut m \<Rightarrow> Some m | Raw _ \<Rightarrow> None) q"

lemma msgs_of_simps [simp]:
  "msgs_of [] = []" "msgs_of (q @ [MsgOut m]) = msgs_of q @ [m]" "msgs_of (q @ [Raw f]) = msgs_of q"
  by (simp_all add: msgs_of_def List.map_filter_def)

locale outbound_channel =
  fixes send :: "('h, 'w) sender" and queue :: "'w \<Rightarrow> 'h \<Rightarrow> outbound_frame list"
  assumes sent: "send h f w = (True, w') \<Longrightarrow> queue w' = (queue w)(h := queue w h @ [f])"
    and refused: "send h f w = (False, w') \<Longrightarrow> queue w' = queue w"
begin

lemma send_queue:
  "queue (snd (send h f w)) = (queue w)(h := queue w h @ (if fst (send h f w) then [f] else []))"
  by (cases "send h f w"; cases "fst (send h f w)") (auto dest: sent refused)

lemma queue_send_out:
  "queue (w_chan (send_out send h f W)) =
     (queue (w_chan W))(h := queue (w_chan W) h @ (if fst (send h (Raw f) (w_chan W)) then [Raw f] else []))"
  by (simp add: send_out_def send_queue)

text \<open>A peer that is not connected has written to its own queue only.\<close>

lemma gated_queue:
  "\<exists>gs. queue (fold (\<lambda>f w. snd (send h (Raw f) w)) fs w) = (queue w)(h := queue w h @ map Raw gs)"
proof (induction fs arbitrary: w)
  case Nil
  then show ?case by (intro exI [of _ "[]"]) simp
next
  case (Cons f fs)
  from Cons.IH [of "snd (send h (Raw f) w)"] obtain gs where
    "queue (fold (\<lambda>f w. snd (send h (Raw f) w)) fs (snd (send h (Raw f) w))) =
      (queue (snd (send h (Raw f) w)))(h := queue (snd (send h (Raw f) w)) h @ map Raw gs)" by blast
  then show ?case
    by (cases "fst (send h (Raw f) w)"; intro exI [of _ "(if fst (send h (Raw f) w) then [f] else []) @ gs"])
      (simp_all add: send_queue)
qed

end

sublocale outbound_channel \<subseteq> handle: delivery_handle "channel_deliver send" "\<lambda>w h. msgs_of (queue w h)"
proof
  show "(\<lambda>h. msgs_of (queue w' h)) = (\<lambda>h. msgs_of (queue w h))(h := msgs_of (queue w h) @ [m])"
    if "channel_deliver send h m w = (Delivered, w')" for h m w w'
    using that sent [of h "MsgOut m" w w'] by (auto simp: channel_deliver_def split: prod.splits bool.splits)
  show "(\<lambda>h. msgs_of (queue w' h)) = (\<lambda>h. msgs_of (queue w h))"
    if "channel_deliver send h m w = (st, w')" "st \<noteq> Delivered" for h m w st w'
    using that refused [of h "MsgOut m" w w'] by (auto simp: channel_deliver_def split: prod.splits bool.splits)
qed

text \<open>\<open>mpsc::channel(connection_output_buffer)\<close>: a queue of bounded length.\<close>

definition bounded_send :: "nat \<Rightarrow> ('h, 'h \<Rightarrow> outbound_frame list) sender" where
  "bounded_send capacity h f w =
     (if length (w h) < capacity then (True, w(h := w h @ [f])) else (False, w))"

definition unbounded_send :: "('h, 'h \<Rightarrow> outbound_frame list) sender" where
  "unbounded_send h f w = (True, w(h := w h @ [f]))"

interpretation unbounded: outbound_channel unbounded_send "\<lambda>w. w"
  by unfold_locales (auto simp: unbounded_send_def)

interpretation bounded: outbound_channel "bounded_send capacity" "\<lambda>w. w"
  by unfold_locales (auto simp: bounded_send_def split: if_splits)

section \<open>Items of a batch\<close>

text \<open>The item a PUB command stands for: none when its subject is not a subject; a reply that is not one is dropped.\<close>

definition parse_opt :: "bytes \<Rightarrow> subject option" where
  "parse_opt bs = (case from_utf8 bs of None \<Rightarrow> None | Some t \<Rightarrow> (case subject_parse t of Inl _ \<Rightarrow> None | Inr s \<Rightarrow> Some s))"

definition item_of :: "publish_command \<Rightarrow> publish_item option" where
  "item_of p = map_option (\<lambda>s. \<lparr>i_subject = s, i_payload = pc_payload p,
     i_reply_to = Option.bind (pc_reply_to p) parse_opt, i_headers = pc_headers p\<rparr>) (parse_opt (pc_subject p))"

lemma parse_reply_spec:
  assumes "cache_ok b" and "parse_reply r b = (x, b')"
  shows "x = Option.bind r parse_opt \<and> cache_ok b'"
proof (cases "Option.bind r from_utf8")
  case None
  then show ?thesis using assms by (auto simp: parse_reply_def parse_opt_def split: option.splits)
next
  case (Some t)
  then obtain bs where r: "r = Some bs" "from_utf8 bs = Some t" by (auto split: bind_splits)
  obtain y b1 where p: "parse_subject t b = (y, b1)" by fastforce
  have "subject_parse t = y" "cache_ok b1" using parse_subject_spec [OF assms(1), of t] p by simp_all
  then show ?thesis using assms(2) r p by (cases y) (auto simp: parse_reply_def parse_opt_def)
qed

lemma publish_item_of_spec:
  assumes "cache_ok b" and "publish_item_of p b = (it, b')"
  shows "it = item_of p \<and> cache_ok b'"
proof (cases "from_utf8 (pc_subject p)")
  case None
  then show ?thesis using assms by (simp add: publish_item_of_def item_of_def parse_opt_def)
next
  case (Some t)
  obtain y b1 where p: "parse_subject t b = (y, b1)" by fastforce
  have y: "subject_parse t = y" "cache_ok b1" using parse_subject_spec [OF assms(1), of t] p by simp_all
  obtain r b2 where r: "parse_reply (pc_reply_to p) b1 = (r, b2)" by fastforce
  show ?thesis
    using assms(2) Some p y r parse_reply_spec [OF y(2) r]
    by (cases y) (auto simp: publish_item_of_def item_of_def parse_opt_def)
qed

lemma publish_items_spec:
  "cache_ok b \<Longrightarrow> fst (publish_items ps b) = List.map_filter item_of ps"
proof (induction ps arbitrary: b)
  case (Cons p ps)
  obtain it b1 where i: "publish_item_of p b = (it, b1)" by fastforce
  show ?case
    using Cons.IH [of b1] publish_item_of_spec [OF Cons.prems i] i
    by (auto simp: map_filter_simps split_def Let_def split: option.split)
qed (simp add: List.map_filter_def)

lemma batch_msgs_registry:
  assumes "b_registry b' = b_registry b" shows "batch_msgs b' j items = batch_msgs b j items"
proof -
  have "wants b' j = wants b j" by (simp add: wants_def fun_eq_iff assms)
  moreover have "is_fanout b' j = is_fanout b j" by (simp add: is_fanout_def assms)
  ultimately show ?thesis by (simp add: batch_msgs_def assms)
qed

lemma active_when_subscribed:
  assumes inv: "broker_inv b" and j: "get_ref b j = Some t"
  shows "has_active_subscriptions b"
proof -
  have fin: "finite (dom (get_ref b))" using inv registry_finite by (auto simp: broker_inv_def)
  have "unat ` dom (get_ref b) \<subseteq> {..< unat (counter (sub_id_gen b))}"
    using inv by (auto simp: broker_inv_def ids_ok_def word_less_nat_alt)
  then have "card (unat ` dom (get_ref b)) \<le> unat (counter (sub_id_gen b))"
    by (metis card_lessThan card_mono finite_lessThan)
  then have "card (dom (get_ref b)) \<le> unat (counter (sub_id_gen b))"
    by (subst (asm) card_image) (auto simp: inj_on_def unsigned_word_eqI)
  then have "card (dom (get_ref b)) < 2 ^ 64"
    using unsigned_less [of "counter (sub_id_gen b)", where 'a = nat] by simp
  moreover have "card (dom (get_ref b)) > 0" using fin j by (auto simp: card_gt_0_iff)
  ultimately show ?thesis
    using inv by (simp add: has_active_subscriptions_def broker_inv_def count_ok_def word_less_nat_alt unat_of_nat)
qed

section \<open>Order on the queues\<close>

context outbound_channel
begin

text \<open>
  A run of PUB frames in the read buffer of a connection: what a subscription without a queue group finds on its
  queue is the messages that match, in the order of the frames, from the first on.
\<close>

lemma pub_frames_delivered:
  assumes inv: "broker_inv (w_broker W)" and iter: "\<And>xs. mset (iter xs) = mset xs"
    and j: "get_ref (w_broker W) j = Some t" "sub_queue_group_key t = None"
    and s: "ss_state s = Connected" "read_buf s = wire (map pub_frame_of ps)" "is_publish_unrestricted (ss_auth s)" "local_published s = 0"
    and ps: "\<forall>p \<in> set ps. pub_ok (c_max_frame_size cfg) p" "length ps \<le> PUB_BATCH_LIMIT" "ps \<noteq> []"
  shows "\<exists>W' n. process_frames send iter cfg c h s W = Some (s\<lparr>read_buf := []\<rparr>, W') \<and>
    for_sub j (msgs_of (queue (w_chan W') (sub_delivery t))) =
      for_sub j (msgs_of (queue (w_chan W) (sub_delivery t))) @
      take n (batch_msgs (w_broker W) j (List.map_filter item_of ps)) \<and>
    ((\<forall>h f w. fst (send h f w)) \<longrightarrow> n = length (batch_msgs (w_broker W) j (List.map_filter item_of ps)))"
proof -
  let ?b = "w_broker W"
  obtain b w where d: "dispatch_publish_batch send iter ps (?b, w_chan W) = (b, w)" by fastforce
  have run: "process_frames send iter cfg c h s W = Some (s\<lparr>read_buf := []\<rparr>, W\<lparr>w_broker := b, w_chan := w\<rparr>)"
    by (rule process_pub_frames [OF s(1,2) active_when_subscribed [OF inv j(1)] s(3) ps d s(4)])
  obtain its b1 where i: "publish_items ps ?b = (its, b1)" by fastforce
  have b1: "broker_inv b1" "b_registry b1 = b_registry ?b" using keeps_publish_items [OF i] inv by (simp_all add: keeps_subs_def)
  have its: "its = List.map_filter item_of ps" using publish_items_spec [of ?b ps] inv i by (simp add: broker_inv_def)
  have "publish_batch (channel_deliver send) iter its (b1, w_chan W) = (b, w)"
    using d i ps(3) by (simp add: dispatch_publish_batch_def)
  from handle.publish_batch_order [OF b1(1) iter _ j(2) this] j(1) b1(2) obtain n where
    n: "reliable (channel_deliver send) \<longrightarrow> n = length (batch_msgs b1 j its)"
    "for_sub j (msgs_of (queue w (sub_delivery t))) =
      for_sub j (msgs_of (queue (w_chan W) (sub_delivery t))) @ take n (batch_msgs b1 j its)" by auto
  moreover have "reliable (channel_deliver send)" if "\<forall>h f w. fst (send h f w)"
    using that by (auto simp: reliable_def channel_deliver_def split: prod.split bool.split) (metis fst_conv)
  ultimately show ?thesis
    using run its batch_msgs_registry [OF b1(2), of j]
    by (intro exI [of _ "W\<lparr>w_broker := b, w_chan := w\<rparr>"] exI [of _ n]) simp
qed

end

end
