(* ===== verification/Session_Gate.thy ===== *)
theory Session_Gate
  imports Session_Inv
begin

text \<open>
  Before a CONNECT has been accepted.  A peer that is not connected gets frames on its own channel and may raise the
  count of protocol errors; it does nothing else to the broker and starts no task.
\<close>

definition gated :: "('h, 'w) sender \<Rightarrow> 'h \<Rightarrow> ('h, 'w) env \<Rightarrow> ('h, 'w) env \<Rightarrow> bool" where
  "gated send h W W' \<longleftrightarrow> w_tasks W' = w_tasks W \<and>
     (\<exists>n. w_broker W' = (w_broker W)\<lparr>b_metrics := (b_metrics (w_broker W))\<lparr>protocol_errors := n\<rparr>\<rparr>) \<and>
     (\<exists>fs. w_chan W' = fold (\<lambda>f w. snd (send h (Raw f) w)) fs (w_chan W))"

lemma gated_refl [simp, intro]: "gated send h W W"
  by (auto simp: gated_def intro: exI [of _ "[]"] exI [of _ "protocol_errors (b_metrics (w_broker W))"])

lemma gated_trans: "gated send h W X \<Longrightarrow> gated send h X Y \<Longrightarrow> gated send h W Y"
  unfolding gated_def
proof (elim conjE exE, intro conjI)
  fix n m fs gs
  assume "w_chan X = fold (\<lambda>f w. snd (send h (Raw f) w)) fs (w_chan W)"
    and "w_chan Y = fold (\<lambda>f w. snd (send h (Raw f) w)) gs (w_chan X)"
  then show "\<exists>fs. w_chan Y = fold (\<lambda>f w. snd (send h (Raw f) w)) fs (w_chan W)" by (intro exI [of _ "fs @ gs"]) simp
qed auto

lemma gated_send_out [simp]: "gated send h W X \<Longrightarrow> gated send h W (send_out send h f X)"
proof (erule gated_trans)
  have "w_chan (send_out send h f X) = fold (\<lambda>f w. snd (send h (Raw f) w)) [f] (w_chan X)" by (simp add: send_out_def)
  then show "gated send h X (send_out send h f X)"
    unfolding gated_def
    by (intro conjI exI [of _ "[f]"] exI [of _ "protocol_errors (b_metrics (w_broker X))"]) (simp_all add: send_out_def)
qed

lemma gated_error [simp]: "gated send h W (count inc_protocol_errors W)"
  unfolding gated_def by (auto simp: count_def inc_protocol_errors_def intro: exI [of _ "[]"])

text \<open>The session as it is before the first CONNECT.\<close>

definition waiting :: "session \<Rightarrow> bool" where
  "waiting s \<longleftrightarrow> ss_state s = New \<and> local_published s = 0"

lemma waiting_new [simp]: "waiting session_new"
  by (simp add: waiting_def session_new_def)

lemma handle_command_gated:
  assumes "waiting s" and "handle_command send cfg c h cmd cid s W = (k, s', W')"
  shows "ss_state s' = Connected \<or> waiting s' \<and> gated send h W W'"
  using assms by (cases cmd) (auto simp: handle_command_def waiting_def split: sum.splits)

lemma frame_step_gated:
  assumes "waiting s" and "frame_step send iter cfg c h s W = Some (k, s', W')"
  shows "ss_state s' = Connected \<or> waiting s' \<and> gated send h W W'"
proof -
  have w: "waiting (s\<lparr>read_buf := buf\<rparr>)" for buf using assms(1) by (simp add: waiting_def)
  show ?thesis
    using assms
    by (auto simp: frame_step_def Let_def flush_published_def waiting_def [of s] w
        split: if_splits bind_splits sum.splits prod.splits option.splits dest!: handle_command_gated [OF w])
qed

text \<open>A session that is connected stays so, and one that waits at the end waited all along.\<close>

lemma process_frames_gated:
  "waiting s \<Longrightarrow> process_frames send iter cfg c h s W = Some (s', W') \<Longrightarrow>
     ss_state s' = Connected \<or> waiting s' \<and> gated send h W W'"
proof (induction send iter cfg c h s W rule: process_frames.induct)
  case (1 send iter cfg c h s W)
  obtain k s1 W1 where f: "frame_step send iter cfg c h s W = Some (k, s1, W1)"
    using frame_step_takes [of send iter cfg c h s W] by blast
  have s: "session_ok cfg (read_buf s) s" using "1.prems"(1) by (intro session_ok_new) (simp add: waiting_def)
  have s1: "session_ok cfg (read_buf s) s1" using frame_step_effect [OF s f] by blast
  show ?case
  proof (cases k)
    case True
    then have p: "process_frames send iter cfg c h s1 W1 = Some (s', W')"
      using "1.prems"(2) f by (subst (asm) process_frames.simps) simp
    show ?thesis
      using frame_step_gated [OF "1.prems"(1) f]
    proof
      assume "ss_state s1 = Connected"
      then show ?thesis using process_frames_run [OF s1 p] by auto
    next
      assume w: "waiting s1 \<and> gated send h W W1"
      with "1.IH" [OF f refl refl True _ p] show ?thesis by (blast intro: gated_trans)
    qed
  next
    case False
    then have "s' = s1" "W' = W1" using "1.prems"(2) f by (subst (asm) process_frames.simps, simp)+
    then show ?thesis using frame_step_gated [OF "1.prems"(1) f] by simp
  qed
qed

lemma connection_event_gated:
  assumes "waiting s" and "connection_event send iter cfg c h ev s W = Some (k, s', W')"
  shows "ss_state s' = Connected \<or> waiting s' \<and> gated send h W W'"
proof -
  have w: "waiting (s\<lparr>read_buf := buf\<rparr>)" for buf using assms(1) by (simp add: waiting_def)
  show ?thesis
    using assms
    by (cases ev) (auto simp: connection_event_def Let_def waiting_def [of s] waiting_def [of s'] split: if_splits
        dest!: process_frames_gated [OF w] process_frames_gated [OF assms(1)] intro: gated_trans)
qed

lemma connected_event:
  assumes "session_ok cfg R s" and "ss_state s \<in> {Connected, Draining}"
    and "connection_event send iter cfg c h ev s W = Some (k, s', W')"
  shows "ss_state s' \<in> {Connected, Draining}"
  using assms(2,3)
  by (cases ev) (auto simp: connection_event_def Let_def split: if_splits
      dest!: process_frames_run [OF session_ok_more [OF assms(1)]] process_frames_run [OF assms(1)])

lemma connected_stays:
  "session_ok cfg R s \<Longrightarrow> ss_state s \<in> {Connected, Draining} \<Longrightarrow>
     connection_loop send iter cfg c h evs s W = Some (k, s', W') \<Longrightarrow> ss_state s' \<in> {Connected, Draining}"
proof (induction evs arbitrary: R s W)
  case (Cons ev evs)
  obtain j s1 W1 where e: "connection_event send iter cfg c h ev s W = Some (j, s1, W1)"
    using connection_event_total [of send iter cfg c h ev s W] by auto
  have "j \<longrightarrow> session_ok cfg (R @ event_bytes ev) s1" using connection_event_run [OF Cons.prems(1) e] by blast
  with connected_event [OF Cons.prems(1,2) e] Cons.IH [of "R @ event_bytes ev" s1 W1] Cons.prems(3) e show ?case by (cases j) simp_all
qed simp

lemma connection_loop_gated:
  assumes "waiting s" and "connection_loop send iter cfg c h evs s W = Some (k, s', W')"
  shows "ss_state s' \<in> {Connected, Draining} \<or>
    (\<exists>X. waiting s' \<and> gated send h W X \<and> W' = (if k then X else close_connection c s' X))"
  using assms
proof (induction evs arbitrary: s W)
  case (Cons ev evs)
  obtain j s1 W1 where e: "connection_event send iter cfg c h ev s W = Some (j, s1, W1)"
    using connection_event_total [of send iter cfg c h ev s W] by auto
  have "session_ok cfg (read_buf s) s" using Cons.prems(1) by (intro session_ok_new) (simp add: waiting_def)
  then have s1: "j \<longrightarrow> session_ok cfg (read_buf s @ event_bytes ev) s1" using connection_event_run [OF _ e] by blast
  from connection_event_gated [OF Cons.prems(1) e] show ?case
  proof
    assume c: "ss_state s1 = Connected"
    show ?thesis
    proof (cases j)
      case True
      then show ?thesis using connected_stays [OF s1 [rule_format], of send iter c h evs W1 k s' W'] Cons.prems(2) e c by simp
    next
      case False
      then show ?thesis using Cons.prems(2) e c by simp
    qed
  next
    assume w: "waiting s1 \<and> gated send h W W1"
    show ?thesis
    proof (cases j)
      case True
      then have "connection_loop send iter cfg c h evs s1 W1 = Some (k, s', W')" using Cons.prems(2) e by simp
      from Cons.IH [OF _ this] w show ?thesis by (blast intro: gated_trans)
    next
      case False
      then show ?thesis using Cons.prems(2) e w by auto
    qed
  qed
qed auto

end
