(* ===== verification/Session_Theorems.thy ===== *)
theory Session_Theorems
  imports Session_Channel Session_Gate Core_Theorems Protocol_Theorems
begin

text \<open>
  The properties of a client connection on the server, from the bytes it reads to the bytes it writes.
\<close>

section \<open>A connection on its own\<close>

text \<open>
  C21: a connection handler panics exactly when its set-up does, that is when the configuration has an output buffer of
  zero or of more than \<open>MAX_PERMITS\<close> frames or a heartbeat interval of zero.  Otherwise it gets through any sequence of
  events with any bytes in them, and its read loop does so from any state: no slice or index is out of range, and every
  loop over the read buffer ends.
\<close>

theorem connection_never_panics:
  "(handle_connection send iter cfg c h evs W = None \<longleftrightarrow>
      connection_output_buffer cfg = 0 \<or> connection_output_buffer cfg > MAX_PERMITS \<or> heartbeat_interval_secs cfg = 0) \<and>
   (\<exists>open s' W'. connection_loop send iter cfg c h evs s W = Some (open, s', W'))"
proof
  show "\<exists>open s' W'. connection_loop send iter cfg c h evs s W = Some (open, s', W')"
    using connection_loop_total [of send iter cfg c h evs s W] by auto
  show "handle_connection send iter cfg c h evs W = None \<longleftrightarrow>
      connection_output_buffer cfg = 0 \<or> connection_output_buffer cfg > MAX_PERMITS \<or> heartbeat_interval_secs cfg = 0"
    using session_setup_None [of cfg] connection_loop_total by (cases "session_setup cfg") (auto simp: handle_connection_def)
qed

text \<open>
  C19: whatever a client sends, its connection keeps the broker's invariant and stays inside its permissions.  A
  subscription that is in the registry afterwards was there before, or it belongs to this connection, delivers to its
  channel and was asked for by it: among the bytes the connection received is a SUB frame for its pattern, behind a
  CONNECT frame with credentials the configuration accepts, and the context those credentials give allows the pattern.
  The connection never has more subscriptions than \<open>max_subscriptions_per_connection\<close>, and none once it is closed.
\<close>

theorem session_confined:
  assumes inv: "broker_inv (w_broker W)" and new: "subscription_count_for_connection c (w_broker W) = 0"
    and room: "unat (counter (sub_id_gen (w_broker W))) + sum_list (map event_cost evs) < 2 ^ 64"
    and run: "handle_connection send iter cfg c h evs W = Some (open, s', W')"
  shows "broker_inv (w_broker W') \<and>
    (\<forall>i t. get_ref (w_broker W') i = Some t \<longrightarrow> get_ref (w_broker W) i = Some t \<or>
       sub_connection_id t = c \<and> sub_delivery t = h \<and>
       (\<exists>pre f mid g post con sc ctx.
          concat (map event_bytes evs) = pre @ frame_encode f @ mid @ frame_encode g @ post \<and>
          from_frame f = Some (Inr (CmdConnect con)) \<and> validate_auth (auth con) cfg = Inr ctx \<and>
          from_frame g = Some (Inr (CmdSubscribe sc)) \<and> pattern_parse (sc_subject_pattern sc) = Inr (sub_pattern t) \<and>
          can_subscribe ctx (sub_pattern t))) \<and>
    subscription_count_for_connection c (w_broker W') \<le> (if open then max_subscriptions_per_connection cfg else 0)"
proof -
  let ?R = "concat (map event_bytes evs)"
  have "session_ok cfg [] session_new" using session_ok_new [of session_new cfg] by (simp add: session_new_def)
  from connection_loop_run [OF this handle_connection_loop [OF run]] obtain n X where
    n: "session_run (asked cfg ?R) cfg c h n (w_broker W) (w_broker X)" "n \<le> sum_list (map event_cost evs)"
      "W' = (if open then X else close_connection c s' X)" by (auto simp: session_new_def)
  have X: "broker_inv (w_broker X)" "confined (asked cfg ?R) c h (w_broker W) (w_broker X)" "within_limit cfg c (w_broker X)"
    using session_run_sound [OF n(1) inv] room n(2) new by (simp_all add: within_limit_def)
  have close: "\<not> open \<Longrightarrow> subscription_count_for_connection c (w_broker W') = 0" "broker_inv (w_broker W')"
    "get_ref (w_broker W') i = Some t \<Longrightarrow> get_ref (w_broker X) i = Some t" for i t
    using close_connection_broker [OF X(1), of c s'] X(1) n(3) by (cases "open"; simp)+
  have "get_ref (w_broker W) i = Some t \<or> sub_connection_id t = c \<and> sub_delivery t = h \<and> asked cfg ?R (sub_pattern t)"
    if "get_ref (w_broker W') i = Some t" for i t
    using X(2) close(3) [OF that] by (auto simp: confined_def own_sub_def)
  moreover have "\<exists>pre f mid g post con sc ctx. ?R = pre @ frame_encode f @ mid @ frame_encode g @ post \<and>
      from_frame f = Some (Inr (CmdConnect con)) \<and> validate_auth (auth con) cfg = Inr ctx \<and>
      from_frame g = Some (Inr (CmdSubscribe sc)) \<and> pattern_parse (sc_subject_pattern sc) = Inr p \<and> can_subscribe ctx p"
    if "asked cfg ?R p" for p
    using that unfolding asked_def connects_def by (elim exE conjE) (simp, blast)
  moreover have "subscription_count_for_connection c (w_broker W') \<le> (if open then max_subscriptions_per_connection cfg else 0)"
    using X(3) close(1) n(3) by (cases "open") (simp_all add: within_limit_def)
  ultimately show ?thesis using close(2) by blast
qed

definition env_new :: "(nat, nat \<Rightarrow> outbound_frame list) env" where
  "env_new = \<lparr>w_broker = broker_new, w_chan = (\<lambda>_. []), w_tasks = []\<rparr>"

definition evs_sub :: "event list" where
  "evs_sub = [EvData (frame_encode (connect_frame None AuthNone)), EvTick 31000000000,
     EvData (frame_encode (build_sub_frame (lit ''a.*'') None 7)), EvData []]"

theorem session_confined_witness:
  "\<exists>open s' W'. handle_connection (bounded_send 4) (\<lambda>ps. ps) server_config_default 1 0 evs_sub env_new = Some (open, s', W') \<and>
     broker_inv (w_broker W') \<and> subscription_count_for_connection 1 (w_broker W') \<le> 1024"
proof -
  have "handle_connection (bounded_send 4) (\<lambda>ps. ps) server_config_default 1 0 evs_sub env_new \<noteq> None"
    using connection_loop_total default_setup by (simp add: handle_connection_def)
  then obtain p s' W' where run: "handle_connection (bounded_send 4) (\<lambda>ps. ps) server_config_default 1 0 evs_sub env_new = Some (p, s', W')" by auto
  have W: "broker_inv (w_broker env_new)" "subscription_count_for_connection 1 (w_broker env_new) = 0"
    by (simp_all add: env_new_def broker_new_inv)
      (simp add: subscription_count_for_connection_def count_for_connection_def broker_new_def registry_new_def)
  have "length (frame_encode (connect_frame None AuthNone)) = 22"
    by (simp add: connect_frame_def connect_encode_payload_def frame_encode_eq frame_new_def FRAME_HEADER_SIZE_def)
  moreover have "length (frame_encode (build_sub_frame (lit ''a.*'') None 7)) = 26"
    by (simp add: build_sub_frame_def with_payload_def frame_encode_eq frame_new_def FRAME_HEADER_SIZE_def)
  ultimately have "unat (counter (sub_id_gen (w_broker env_new))) + sum_list (map event_cost evs_sub) < 2 ^ 64"
    by (simp add: evs_sub_def env_new_def new_counter)
  from session_confined [OF W this run] run show ?thesis by (auto simp: server_config_default_def split: if_splits)
qed

definition cfg_token :: server_config where
  "cfg_token = server_config_default\<lparr>c_auth := \<lparr>auth_type = lit ''token'', auth_token = Some (lit ''t''), auth_users = []\<rparr>\<rparr>"

section \<open>Publishing\<close>

text \<open>
  C22: the fast path that reads PUB commands out of the read buffer agrees with the general decoder: what it
  accepts as a command, with its correlation id and the bytes left over, is what \<open>decode_from\<close> and
  \<open>from_frame\<close> make of the same buffer.
\<close>

theorem pub_fast_path_agrees:
  assumes "peek_pub_frame_layout k buf = Some (Inr (Some layout))"
    and "decode_publish_command_from_buf layout buf = Some (Inr (cmd, cid), rest)"
  shows "\<exists>f. decode_from k buf = Some (Inr (Some f), rest) \<and> correlation_id (f_header f) = cid \<and>
    from_frame f = Some (Inr (CmdPublish cmd))"
  by (rule fast_path_slow_path [OF assms])

definition pub_a :: publish_command where
  "pub_a = \<lparr>pc_subject = tok_a, pc_payload = [7], pc_reply_to = None, pc_headers = None\<rparr>"

lemma pub_a_ok: "pub_ok 2097152 pub_a"
  by (simp add: pub_ok_def pub_a_def pub_frame_of_def pub_frame_def frame_encode_eq frame_new_def with_payload_def tok_a_def FRAME_HEADER_SIZE_def)

theorem pub_fast_path_agrees_witness:
  "\<exists>f. decode_from 2097152 (frame_encode (pub_frame_of pub_a) @ [1]) = Some (Inr (Some f), [1]) \<and>
    correlation_id (f_header f) = 0 \<and> from_frame f = Some (Inr (CmdPublish pub_a))"
  by (rule pub_fast_path_agrees [OF peek_encode [OF pub_frame_of_wf [OF pub_a_ok] pub_frame_of_fields(3)] pub_frame_of_parse [OF pub_a_ok]])

text \<open>
  PUB frames in the read buffer of a connected, unrestricted publisher, one batch of them, leave the buffer empty
  and put on the channel of every subscription without a queue group the messages whose subject routes to it, in the order
  of the frames, after what was queued for it before: all of them when the channels accept every frame; a full
  channel cuts the sequence short, it never reorders it.  \<open>iter\<close> is the order in which the pending map is flushed.
\<close>

lemma published_frames_queued_in_order:
  assumes "outbound_channel send queue" and "\<And>xs. mset (iter xs) = mset xs"
    and "broker_inv (w_broker W)" and "get_ref (w_broker W) j = Some t" and "sub_queue_group_key t = None"
    and "ss_state s = Connected" and "is_publish_unrestricted (ss_auth s)" and "local_published s = 0"
    and "read_buf s = wire (map pub_frame_of ps)" and "\<forall>p \<in> set ps. pub_ok (c_max_frame_size cfg) p"
    and "ps \<noteq> []" and "length ps \<le> PUB_BATCH_LIMIT"
  shows "\<exists>W' n. process_frames send iter cfg c h s W = Some (s\<lparr>read_buf := []\<rparr>, W') \<and>
    for_sub j (msgs_of (queue (w_chan W') (sub_delivery t))) =
      for_sub j (msgs_of (queue (w_chan W) (sub_delivery t))) @
      take n (batch_msgs (w_broker W) j (List.map_filter item_of ps)) \<and>
    ((\<forall>h f w. fst (send h f w)) \<longrightarrow> n = length (batch_msgs (w_broker W) j (List.map_filter item_of ps)))"
  by (rule outbound_channel.pub_frames_delivered [OF assms(1,3,2,4,5,6,9,7,8,10,12,11)])

definition env_fan :: "(nat, nat \<Rightarrow> outbound_frame list) env" where
  "env_fan = \<lparr>w_broker = bk_fan, w_chan = (\<lambda>_. []), w_tasks = []\<rparr>"

definition publisher :: session where
  "publisher = session_new\<lparr>ss_state := Connected, read_buf := wire (map pub_frame_of [pub_a, pub_a])\<rparr>"

lemma bk_fan_sub: "\<exists>t. get_ref bk_fan 1 = Some t \<and> sub_queue_group_key t = None \<and> sub_delivery t = 0"
  by (simp add: bk_fan_def run_simps subscription_new_def)

lemma item_of_pub_a: "item_of pub_a = Some (publish_item_new subj_a [7])"
proof -
  have "subject_parse tok_a = Inr subj_a" using subject_parse_raw [OF subj_a_wf] by (simp add: subj_a_def)
  moreover have "from_utf8 tok_a = Some tok_a" by (simp add: tok_a_def from_utf8_def utf8_step_def)
  ultimately show ?thesis by (simp add: item_of_def parse_opt_def pub_a_def publish_item_new_def)
qed

lemma published_frames_queued_in_order_witness:
  "\<exists>W'. process_frames unbounded_send (\<lambda>ps. ps) server_config_default 2 9 publisher env_fan = Some (publisher\<lparr>read_buf := []\<rparr>, W') \<and>
    for_sub 1 (msgs_of (w_chan W' 0)) =
      batch_msgs bk_fan 1 [publish_item_new subj_a [7], publish_item_new subj_a [7]]"
proof -
  obtain t where t: "get_ref (w_broker env_fan) 1 = Some t" "sub_queue_group_key t = None" "sub_delivery t = 0"
    using bk_fan_sub by (auto simp: env_fan_def)
  have inv: "broker_inv (w_broker env_fan)" by (simp add: env_fan_def bk_fan_inv)
  have ok: "\<forall>p \<in> set [pub_a, pub_a]. pub_ok (c_max_frame_size server_config_default) p"
    using pub_a_ok by (simp add: server_config_default_def)
  have s: "ss_state publisher = Connected" "is_publish_unrestricted (ss_auth publisher)" "local_published publisher = 0"
    "read_buf publisher = wire (map pub_frame_of [pub_a, pub_a])" "[pub_a, pub_a] \<noteq> []" "length [pub_a, pub_a] \<le> PUB_BATCH_LIMIT"
    by (simp_all add: publisher_def session_new_def unrestricted_def is_publish_unrestricted_def PUB_BATCH_LIMIT_def)
  have items: "List.map_filter item_of [pub_a, pub_a] = [publish_item_new subj_a [7], publish_item_new subj_a [7]]"
    by (simp add: map_filter_simps item_of_pub_a)
  from published_frames_queued_in_order [OF unbounded.outbound_channel_axioms refl inv t(1,2) s(1-4) ok s(5,6), of 2 9, unfolded items]
  show ?thesis by (auto simp: t(3) unbounded_send_def env_fan_def)
qed

text \<open>
  The fast path of a session with publish permissions batches permitted commands only: the subject of each
  parses and one of the publish patterns of the session matches it.
\<close>

lemma batched_commands_are_permitted:
  assumes "broker_inv (w_broker W)" and "\<not> is_publish_unrestricted ctx"
    and "collect_commands n send h ctx k 0 [] buf W = Some (Inr (processed, commands), rest, W')"
  shows "\<forall>p \<in> set commands. \<exists>t s. from_utf8 (pc_subject p) = Some t \<and> subject_parse t = Inr s \<and>
    list_ex (\<lambda>q. matches q s) (publish_patterns ctx)"
proof
  fix p assume "p \<in> set commands"
  moreover have "cache_ok (w_broker W)" using assms(1) by (simp add: broker_inv_def)
  ultimately have "permitted ctx p" using collect_permitted [OF _ assms(3)] by auto
  with assms(2) show "\<exists>t s. from_utf8 (pc_subject p) = Some t \<and> subject_parse t = Inr s \<and> list_ex (\<lambda>q. matches q s) (publish_patterns ctx)"
    by (auto simp: permitted_def can_publish_def is_publish_unrestricted_def split: option.splits sum.splits)
qed

lemma batched_commands_are_permitted_witness:
  "\<exists>processed commands rest W'. collect_commands 2 (bounded_send 4) 9 ctx_ab 100 0 [] (wire (map pub_frame_of [pub_a])) env_fan =
      Some (Inr (processed, commands), rest, W') \<and>
    list_all (\<lambda>p. \<exists>t s. from_utf8 (pc_subject p) = Some t \<and> subject_parse t = Inr s \<and>
      list_ex (\<lambda>q. matches q s) (publish_patterns ctx_ab)) commands"
proof -
  let ?buf = "frame_encode (pub_frame_of pub_a) @ []"
  have ok: "pub_ok 100 pub_a" using pub_a_ok by (simp add: pub_ok_def)
      (simp add: pub_a_def pub_frame_of_def pub_frame_def frame_encode_eq frame_new_def with_payload_def tok_a_def FRAME_HEADER_SIZE_def)
  obtain al b where al: "publish_allowed ctx_ab (pc_subject pub_a) (w_broker env_fan) = (al, b)" by fastforce
  have stop: "\<not> next_frame_is_pub []" by (simp add: next_frame_is_pub_def FRAME_HEADER_SIZE_def)
  have "\<exists>p cs rest W'. collect_commands (Suc 1) (bounded_send 4) 9 ctx_ab 100 0 [] ?buf env_fan = Some (Inr (p, cs), rest, W')"
    using peek_encode [OF pub_frame_of_wf [OF ok] pub_frame_of_fields(3), of "[]"] pub_frame_of_parse [OF ok, of "[]"]
      next_frame_is_pub_encode [of "pub_frame_of pub_a" "[]"] pub_frame_of_fields(3) [of pub_a]
    by (simp only: collect_commands.simps bind.bind_lunit) (cases al; simp add: al stop)
  then obtain p cs rest W' where c: "collect_commands 2 (bounded_send 4) 9 ctx_ab 100 0 [] (wire (map pub_frame_of [pub_a])) env_fan =
      Some (Inr (p, cs), rest, W')" by (simp add: numeral_2_eq_2)  auto
  have "broker_inv (w_broker env_fan)" "\<not> is_publish_unrestricted ctx_ab"
    by (simp_all add: env_fan_def bk_fan_inv is_publish_unrestricted_def ctx_ab_def)
  from batched_commands_are_permitted [OF this c] c show ?thesis by (auto simp: list_all_iff)
qed

section \<open>Out of the channel\<close>

text \<open>
  What the write task makes of a queue of outbound frames, in however many writes and however the bytes are cut
  on the way, is taken off a buffer as exactly those frames, in order and with nothing left over.
\<close>

lemma queued_frames_decode:
  assumes "list_all (frame_wf k \<circ> outbound_wire) q" and "concat chunks = concat (write_task q)"
  shows "fold (feed k) chunks ([], []) = (map outbound_wire q, [])"
  using feed_chunks [of k "map outbound_wire q" 0 "[]" chunks] assms by (simp add: write_task_wire list.pred_map)

section \<open>Where the code falls short\<close>

text \<open>
  A CONNECT with credentials that are refused does not end the connection: the error frame is sent and the
  frame loop left, but the connection goes on waiting for data, so a peer may keep guessing.
\<close>

lemma refused_connect_keeps_connection:
  assumes "auth_ok a" and "validate_auth a cfg = Inl msg" and "frame_wf (c_max_frame_size cfg) (connect_frame name a)"
  shows "connection_event send iter cfg c h (EvData (frame_encode (connect_frame name a))) session_new W =
    Some (True, session_new, send_out send h (error_frame 0 msg) W)"
proof -
  let ?f = "connect_frame name a"
  let ?s = "session_new\<lparr>read_buf := frame_encode ?f\<rparr>"
  have d: "decode_from (c_max_frame_size cfg) (frame_encode ?f) = Some (Inr (Some ?f), [])"
    using decode_from_encode [OF assms(3), of "[]"] by simp
  have cid: "correlation_id (f_header ?f) = 0"
    by (simp add: connect_frame_def frame_new_def frame_header_new_def with_payload_def Let_def split: option.split)
  have ne: "frame_encode ?f \<noteq> []" using length_frame_encode [OF assms(3)] by (auto simp: total_frame_size_def FRAME_HEADER_SIZE_def)
  have s: "ss_state session_new = New" "session_new\<lparr>read_buf := []\<rparr> = session_new" "read_buf session_new = []" by (simp_all add: session_new_def)
  have "frame_step send iter cfg c h ?s W = Some (False, session_new, send_out send h (error_frame 0 msg) W)"
    using d connect_frame_decodes [OF assms(1), of name] assms(2) cid
    by (simp add: frame_step_def handle_command_def connect_command_new_def s)
  then have "process_frames send iter cfg c h ?s W = Some (session_new, send_out send h (error_frame 0 msg) W)"
    by (subst process_frames.simps) simp
  moreover have "session_new\<lparr>read_buf := read_buf session_new @ frame_encode ?f\<rparr> = ?s" by (simp only: s(3) append_Nil)
  ultimately show ?thesis using ne by (simp only: connection_event_def event.case if_False option.map)
qed

lemma refused_connect_keeps_connection_witness:
  "connection_event (bounded_send 4) (\<lambda>ps. ps) cfg_token 1 0 (EvData (frame_encode (connect_frame None (Token (lit ''x''))))) session_new env_new =
    Some (True, session_new, send_out (bounded_send 4) 0 (error_frame 0 (lit ''authentication failed: invalid token'')) env_new)"
proof (rule refused_connect_keeps_connection)
  show "auth_ok (Token (lit ''x''))" by (simp add: lit_def utf8_step_def)
  have "Token (lit ''x'') \<noteq> Token (lit ''t'')" "lit ''token'' \<noteq> lit ''none''" by (simp_all add: lit_def)
  then show "validate_auth (Token (lit ''x'')) cfg_token = Inl (lit ''authentication failed: invalid token'')"
    by (simp add: cfg_token_def validate_auth_def auth_is_enabled_def)
  show "frame_wf (c_max_frame_size cfg_token) (connect_frame None (Token (lit ''x'')))"
    by (simp add: connect_frame_def connect_encode_payload_def frame_wf_def header_ok_def frame_new_def frame_header_new_def
        with_payload_def total_frame_size_def FRAME_HEADER_SIZE_def cfg_token_def server_config_default_def)
qed

lemma remove_unknown_connection:
  "by_connection (b_registry b) c = None \<Longrightarrow> remove_connection c b = b\<lparr>b_metrics := dec_active_connections (b_metrics b)\<rparr>"
  by (simp add: remove_connection_def remove_all_for_connection_def conn_ids_def fun_upd_idem)

text \<open>
  C20: until a CONNECT is accepted a peer can do next to nothing, whatever it sent.  Compared with the state before, the
  broker differs in the count of protocol errors only (no subscription, group, cache entry or other counter), no stream
  task was started, and frames were put on the peer's own channel.  When the connection is closed, \<open>active_connections\<close>
  falls by one as well, though it never counted this connection.
\<close>

theorem unauthenticated_peer_is_inert:
  assumes run: "handle_connection send iter cfg c h evs W = Some (open, s', W')" and still: "ss_state s' = New"
    and fresh: "by_connection (b_registry (w_broker W)) c = None"
  shows "\<exists>n fs. w_broker W' = (w_broker W)\<lparr>b_metrics := (b_metrics (w_broker W))\<lparr>protocol_errors := n,
        active_connections := active_connections (b_metrics (w_broker W)) - (if open then 0 else 1)\<rparr>\<rparr> \<and>
    w_tasks W' = w_tasks W \<and> w_chan W' = fold (\<lambda>f w. snd (send h (Raw f) w)) fs (w_chan W)"
proof -
  from connection_loop_gated [OF waiting_new handle_connection_loop [OF run]] still obtain X where
    X: "waiting s'" "gated send h W X" "W' = (if open then X else close_connection c s' X)" by auto
  obtain n fs where g: "w_broker X = (w_broker W)\<lparr>b_metrics := (b_metrics (w_broker W))\<lparr>protocol_errors := n\<rparr>\<rparr>"
    "w_tasks X = w_tasks W" "w_chan X = fold (\<lambda>f w. snd (send h (Raw f) w)) fs (w_chan W)"
    using X(2) unfolding gated_def by blast
  have "by_connection (b_registry (w_broker X)) c = None" using fresh by (simp add: g(1))
  from remove_unknown_connection [OF this] X(1,3) g show ?thesis
    by (intro exI [of _ n] exI [of _ fs]) (simp add: waiting_def close_connection_def dec_active_connections_def)
qed

text \<open>A peer presents a wrong token and hangs up: the counter of active connections is below zero.\<close>

theorem unauthenticated_peer_is_inert_witness:
  "\<exists>W'. handle_connection (bounded_send 4) (\<lambda>ps. ps) cfg_token 1 0
       [EvData (frame_encode (connect_frame None (Token (lit ''x'')))), EvData []] env_new = Some (False, session_new, W') \<and>
     active_connections (b_metrics (w_broker W')) = - 1 \<and> b_registry (w_broker W') = b_registry broker_new \<and> w_tasks W' = []"
proof -
  let ?evs = "[EvData (frame_encode (connect_frame None (Token (lit ''x'')))), EvData []]"
  let ?W = "send_out (bounded_send 4) 0 (error_frame 0 (lit ''authentication failed: invalid token'')) env_new"
  have "session_setup cfg_token = Some session_new" by (simp add: session_setup_def cfg_token_def server_config_default_def MAX_PERMITS_def)
  then have run: "handle_connection (bounded_send 4) (\<lambda>ps. ps) cfg_token 1 0 ?evs env_new = Some (False, session_new, close_connection 1 session_new ?W)"
    by (simp only: handle_connection_def option.case connection_loop.simps refused_connect_keeps_connection_witness prod.case if_True)
      (simp add: connection_event_def)
  have "ss_state session_new = New" "by_connection (b_registry (w_broker env_new)) 1 = None"
    by (simp_all add: session_new_def env_new_def broker_new_def registry_new_def)
  from unauthenticated_peer_is_inert [OF run this] run show ?thesis
    by (auto simp: env_new_def broker_new_def core_metrics_new_def)
qed

text \<open>
  An UNSUB command removes the subscription it names whichever connection sends it: \<open>unsubscribe\<close> does not look
  at the connection.
\<close>

lemma unsubscribe_ignores_owner:
  "get_ref (w_broker (snd (dispatch send h c (CmdUnsubscribe \<lparr>uc_subscription_id = i\<rparr>) cid (s, W)))) i = None"
  by (cases "get_ref (w_broker W) i")
    (simp_all add: Let_def unsubscribe_shape(1), simp add: unsubscribe_def registry_remove_def)

text \<open>
  The stream commands of the server create and delete streams, but nothing it does creates a consumer, so
  acknowledgements change nothing, whatever tasks ran before.
\<close>

lemma acks_have_no_effect:
  "run_store_task send (TaskAck stream name sequence) (fold (run_store_task send) ts (store_manager_new, w)) =
     fold (run_store_task send) ts (store_manager_new, w)"
proof -
  have keep: "cm_consumers (fst (run_store_task send t (m, w))) = []" if "cm_consumers m = []" for t m w
    using that by (cases t) (auto simp: mgr_create_stream_def mgr_delete_stream_def manager_ack_def Let_def split: prod.split)
  have "cm_consumers (fst (fold (run_store_task send) ts (m, w))) = []" if "cm_consumers m = []" for m
    using that
  proof (induction ts arbitrary: m w)
    case (Cons t ts)
    obtain m' w' where t: "run_store_task send t (m, w) = (m', w')" by fastforce
    then have "cm_consumers m' = []" using keep [OF Cons.prems, of t w] by simp
    with Cons.IH [of m' w'] t show ?case by simp
  qed simp
  from this [of store_manager_new] have "cm_consumers (fst (fold (run_store_task send) ts (store_manager_new, w))) = []"
    by (simp add: store_manager_new_def)
  then show ?thesis by (cases "fold (run_store_task send) ts (store_manager_new, w)") (simp add: manager_ack_def)
qed

end
