(* ===== verification/Segments.thy ===== *)
theory Segments
  imports Store Headers
begin

text \<open>
  Log segments (\<open>zetmq-store/src/segment.rs\<close>): records in a file with an index of their offsets in memory.  The
  file (\<open>tokio::fs::File\<close>) is the parameter \<open>ops\<close>; what the segment relies on of it is the locale
  \<open>seekable_file\<close>: a sequence of bytes and a cursor that reads, writes and seeks move.  The loop that
  rebuilds the index runs until a read fails, so it is a partial function; it is shown to return.
\<close>

section \<open>Files\<close>

record 'f file_ops =
  fo_read :: "nat \<Rightarrow> 'f \<Rightarrow> bytes option \<times> 'f"
  fo_write :: "bytes \<Rightarrow> 'f \<Rightarrow> bool \<times> 'f"
  fo_seek :: "nat \<Rightarrow> 'f \<Rightarrow> bool \<times> 'f"
  fo_seek_by :: "nat \<Rightarrow> 'f \<Rightarrow> bool \<times> 'f"

text \<open>\<open>?\<close> on an operation that moves the file.\<close>

definition and_then :: "('f \<Rightarrow> 'a option \<times> 'f) \<Rightarrow> ('a \<Rightarrow> 'f \<Rightarrow> 'b option \<times> 'f) \<Rightarrow> 'f \<Rightarrow> 'b option \<times> 'f" where
  "and_then m k f = (case m f of (None, f') \<Rightarrow> (None, f') | (Some a, f') \<Rightarrow> k a f')"

definition give :: "'a \<Rightarrow> 'f \<Rightarrow> 'a option \<times> 'f" where
  "give a f = (Some a, f)"

definition check :: "('f \<Rightarrow> bool \<times> 'f) \<Rightarrow> 'f \<Rightarrow> unit option \<times> 'f" where
  "check m f = (case m f of (b, f') \<Rightarrow> (if b then Some () else None, f'))"

definition read_u64 :: "'f file_ops \<Rightarrow> 'f \<Rightarrow> u64 option \<times> 'f" where
  "read_u64 ops = and_then (fo_read ops 8) (\<lambda>b. give (from_be b))"

definition read_u32 :: "'f file_ops \<Rightarrow> 'f \<Rightarrow> u32 option \<times> 'f" where
  "read_u32 ops = and_then (fo_read ops 4) (\<lambda>b. give (from_be b))"

definition read_string :: "'f file_ops \<Rightarrow> 'f \<Rightarrow> str option \<times> 'f" where
  "read_string ops = and_then (fo_read ops 2) (\<lambda>l.
     and_then (fo_read ops (unat (from_be l :: u16))) (\<lambda>b. give (from_utf8_lossy b)))"

definition read_optional_string :: "'f file_ops \<Rightarrow> 'f \<Rightarrow> str option option \<times> 'f" where
  "read_optional_string ops = and_then (read_string ops) (\<lambda>s. give (if s = [] then None else Some s))"

section \<open>Segments\<close>

record index_entry =
  ie_offset :: u64
  ie_timestamp :: u64

record 'f segment =
  sg_file :: 'f
  sg_index :: "index_entry list"
  base_sequence :: u64
  bytes_written :: u64

record stored_record =
  sr_sequence :: u64
  sr_timestamp :: u64
  sr_subject :: str
  sr_reply_to :: "str option"
  sr_payload :: bytes

text \<open>The bytes of a record, with the casts of the lengths.\<close>

definition record_bytes :: "stored_record \<Rightarrow> bytes" where
  "record_bytes r = u64_bytes (sr_sequence r) @ u64_bytes (sr_timestamp r)
     @ u16_bytes (of_nat (length (sr_subject r))) @ sr_subject r
     @ (case sr_reply_to r of Some p \<Rightarrow> u16_bytes (of_nat (length p)) @ p | None \<Rightarrow> u16_bytes 0)
     @ u32_bytes (of_nat (length (sr_payload r))) @ sr_payload r"

definition segment_append ::
  "'f file_ops \<Rightarrow> str \<Rightarrow> str option \<Rightarrow> bytes \<Rightarrow> u64 \<Rightarrow> 'f segment \<Rightarrow> (store_error + u64) \<times> 'f segment" where
  "segment_append ops subj reply payload timestamp s =
     (let seq = base_sequence s + of_nat (length (sg_index s));
          offset = bytes_written s;
          buf = record_bytes \<lparr>sr_sequence = seq, sr_timestamp = timestamp, sr_subject = subj,
            sr_reply_to = reply, sr_payload = payload\<rparr>
      in case fo_write ops buf (sg_file s) of
           (False, f) \<Rightarrow> (Inl (StoreIo []), s\<lparr>sg_file := f\<rparr>)
         | (True, f) \<Rightarrow> (Inr seq, s\<lparr>sg_file := f,
             sg_index := sg_index s @ [\<lparr>ie_offset = offset, ie_timestamp = timestamp\<rparr>],
             bytes_written := bytes_written s + of_nat (length buf)\<rparr>))"

definition read_record :: "'f file_ops \<Rightarrow> 'f \<Rightarrow> stored_record option \<times> 'f" where
  "read_record ops =
     and_then (read_u64 ops) (\<lambda>seq.
     and_then (read_u64 ops) (\<lambda>ts.
     and_then (read_string ops) (\<lambda>subj.
     and_then (read_optional_string ops) (\<lambda>reply.
     and_then (read_u32 ops) (\<lambda>pl.
     and_then (fo_read ops (unat pl)) (\<lambda>payload.
     give \<lparr>sr_sequence = seq, sr_timestamp = ts, sr_subject = subj, sr_reply_to = reply, sr_payload = payload\<rparr>))))))"

definition segment_read ::
  "'f file_ops \<Rightarrow> u64 \<Rightarrow> 'f segment \<Rightarrow> (store_error + stored_record option) \<times> 'f segment" where
  "segment_read ops sequence s =
     (if sequence < base_sequence s then (Inr None, s)
      else case idx (sg_index s) (unat (sequence - base_sequence s)) of
             None \<Rightarrow> (Inr None, s)
           | Some e \<Rightarrow>
               (case and_then (check (fo_seek ops (unat (ie_offset e)))) (\<lambda>_. read_record ops) (sg_file s) of
                  (None, f) \<Rightarrow> (Inl (StoreIo []), s\<lparr>sg_file := f\<rparr>)
                | (Some r, f) \<Rightarrow> (Inr (Some r), s\<lparr>sg_file := f\<rparr>)))"

definition segment_last_sequence :: "'f segment \<Rightarrow> u64 option" where
  "segment_last_sequence s =
     (if sg_index s = [] then None else Some (base_sequence s + of_nat (length (sg_index s)) - 1))"

text \<open>One iteration of \<open>rebuild_index\<close>: the timestamp and the size of the record the file is at.\<close>

definition scan_record :: "'f file_ops \<Rightarrow> 'f \<Rightarrow> (u64 \<times> nat) option \<times> 'f" where
  "scan_record ops =
     and_then (fo_read ops 16) (\<lambda>header. let timestamp = from_be (drop 8 header) in
     and_then (fo_read ops 2) (\<lambda>slen. let subject_len = unat (from_be slen :: u16) in
     and_then (check (fo_seek_by ops subject_len)) (\<lambda>_.
     and_then (fo_read ops 2) (\<lambda>rlen. let reply_len = unat (from_be rlen :: u16) in
     and_then (if reply_len > 0 then check (fo_seek_by ops reply_len) else give ()) (\<lambda>_.
     and_then (fo_read ops 4) (\<lambda>plen. let payload_len = unat (from_be plen :: u32) in
     and_then (check (fo_seek_by ops payload_len)) (\<lambda>_.
     give (timestamp, 8 + 8 + 2 + subject_len + 2 + reply_len + 4 + payload_len))))))))"

partial_function (option) rebuild_loop ::
  "'f file_ops \<Rightarrow> u64 \<Rightarrow> index_entry list \<Rightarrow> 'f \<Rightarrow> (u64 \<times> index_entry list \<times> 'f) option" where
  "rebuild_loop ops offset ix f =
     (case scan_record ops f of
        (None, f') \<Rightarrow> Some (offset, ix, f')
      | (Some (timestamp, sz), f') \<Rightarrow>
          rebuild_loop ops (offset + of_nat sz) (ix @ [\<lparr>ie_offset = offset, ie_timestamp = timestamp\<rparr>]) f')"

definition rebuild_index :: "'f file_ops \<Rightarrow> 'f segment \<Rightarrow> ((store_error + unit) \<times> 'f segment) option" where
  "rebuild_index ops s =
     (case fo_seek ops 0 (sg_file s) of
        (False, f) \<Rightarrow> Some (Inl (StoreIo []), s\<lparr>sg_file := f\<rparr>)
      | (True, f) \<Rightarrow>
          map_option (\<lambda>(offset, ix, f'). (Inr (), s\<lparr>sg_file := f', sg_index := ix, bytes_written := offset\<rparr>))
            (rebuild_loop ops 0 (sg_index s) f))"

text \<open>\<open>open\<close>: the file as the operating system opened it, which is empty unless it existed.\<close>

definition segment_open :: "'f file_ops \<Rightarrow> bool \<Rightarrow> 'f \<Rightarrow> u64 \<Rightarrow> (store_error + 'f segment) option" where
  "segment_open ops existed f base =
     (let s = \<lparr>sg_file = f, sg_index = [], base_sequence = base, bytes_written = 0\<rparr> in
      if existed then
        map_option (\<lambda>(r, s'). case r of Inl e \<Rightarrow> Inl e | Inr _ \<Rightarrow> Inr s') (rebuild_index ops s)
      else Some (Inr s))"

section \<open>Records and their places\<close>

text \<open>Records whose lengths fit their fields and whose texts are UTF-8; an empty reply subject is read as none.\<close>

definition record_ok :: "stored_record \<Rightarrow> bool" where
  "record_ok r \<longleftrightarrow> valid_utf8 (sr_subject r) \<and> length (sr_subject r) < 2 ^ 16 \<and>
     (\<forall>p. sr_reply_to r = Some p \<longrightarrow> valid_utf8 p \<and> p \<noteq> [] \<and> length p < 2 ^ 16) \<and> length (sr_payload r) < 2 ^ 32"

definition log_bytes :: "stored_record list \<Rightarrow> bytes" where
  "log_bytes rs = concat (map record_bytes rs)"

fun entries_from :: "nat \<Rightarrow> stored_record list \<Rightarrow> index_entry list" where
  "entries_from n [] = []"
| "entries_from n (r # rs) =
     \<lparr>ie_offset = of_nat n, ie_timestamp = sr_timestamp r\<rparr> # entries_from (n + length (record_bytes r)) rs"

lemma log_bytes_simps [simp]:
  "log_bytes [] = []" "log_bytes (r # rs) = record_bytes r @ log_bytes rs" "log_bytes (rs @ qs) = log_bytes rs @ log_bytes qs"
  by (simp_all add: log_bytes_def)

lemma length_entries_from [simp]: "length (entries_from n rs) = length rs"
  by (induction n rs rule: entries_from.induct) auto

lemma entries_from_append: "entries_from n (rs @ qs) = entries_from n rs @ entries_from (n + length (log_bytes rs)) qs"
  by (induction n rs rule: entries_from.induct) (auto simp: add.assoc)

lemma entries_from_nth:
  "i < length rs \<Longrightarrow> entries_from n rs ! i =
     \<lparr>ie_offset = of_nat (n + length (log_bytes (take i rs))), ie_timestamp = sr_timestamp (rs ! i)\<rparr>"
  by (induction n rs arbitrary: i rule: entries_from.induct) (auto simp: nth_Cons add.assoc split: nat.split)

section \<open>What the segment relies on\<close>

locale seekable_file =
  fixes ops :: "'f file_ops" and content :: "'f \<Rightarrow> bytes" and cursor :: "'f \<Rightarrow> nat"
  assumes read_exact: "cursor f + n \<le> length (content f) \<Longrightarrow> fo_read ops n f = (r, f') \<Longrightarrow>
      r = Some (take n (drop (cursor f) (content f))) \<and> content f' = content f \<and> cursor f' = cursor f + n"
    and read_at_end: "cursor f = length (content f) \<Longrightarrow> 0 < n \<Longrightarrow> fo_read ops n f = (r, f') \<Longrightarrow>
      r = None \<and> content f' = content f \<and> cursor f' = cursor f"
    and write_all: "cursor f \<le> length (content f) \<Longrightarrow> fo_write ops bs f = (True, f') \<Longrightarrow>
      content f' = take (cursor f) (content f) @ bs @ drop (cursor f + length bs) (content f) \<and> cursor f' = cursor f + length bs"
    and seek_start: "n \<le> length (content f) \<Longrightarrow> fo_seek ops n f = (ok, f') \<Longrightarrow> ok \<and> content f' = content f \<and> cursor f' = n"
    and seek_current: "cursor f + n \<le> length (content f) \<Longrightarrow> fo_seek_by ops n f = (ok, f') \<Longrightarrow> ok \<and> content f' = content f \<and> cursor f' = cursor f + n"
begin

text \<open>The bytes ahead of the cursor, and a computation that reads \<open>bs\<close> there as \<open>a\<close>.\<close>

definition sees :: "'f \<Rightarrow> bytes \<Rightarrow> bool" where
  "sees f bs \<longleftrightarrow> cursor f \<le> length (content f) \<and> drop (cursor f) (content f) = bs"

definition parses :: "('f \<Rightarrow> 'a option \<times> 'f) \<Rightarrow> bytes \<Rightarrow> 'a \<Rightarrow> bool" where
  "parses m bs a \<longleftrightarrow> (\<forall>f rest. sees f (bs @ rest) \<longrightarrow>
     (\<exists>f'. m f = (Some a, f') \<and> content f' = content f \<and> cursor f' = cursor f + length bs))"

lemma sees_length: "sees f bs \<Longrightarrow> cursor f + length bs = length (content f)"
  by (auto simp: sees_def)

lemma sees_step:
  assumes "sees f (bs @ rest)" and "content f' = content f" and "cursor f' = cursor f + length bs"
  shows "sees f' rest"
proof -
  have "drop (length bs) (drop (cursor f) (content f)) = rest" using assms(1) by (simp add: sees_def)
  then show ?thesis using assms sees_length [OF assms(1)] by (simp add: sees_def add.commute)
qed

lemma parses_give: "parses (give a) [] a"
  by (simp add: parses_def give_def)

lemma parses_then:
  assumes m: "parses m bs a" and k: "parses (k a) bs' b"
  shows "parses (and_then m k) (bs @ bs') b"
  unfolding parses_def
proof (intro allI impI)
  fix f rest assume f: "sees f ((bs @ bs') @ rest)"
  then obtain f1 where f1: "m f = (Some a, f1)" "content f1 = content f" "cursor f1 = cursor f + length bs"
    using m unfolding parses_def by (metis append_assoc)
  have "sees f1 (bs' @ rest)" using sees_step [OF _ f1(2,3)] f by simp
  then obtain f2 where "k a f1 = (Some b, f2)" "content f2 = content f1" "cursor f2 = cursor f1 + length bs'"
    using k unfolding parses_def by blast
  then show "\<exists>f'. and_then m k f = (Some b, f') \<and> content f' = content f \<and> cursor f' = cursor f + length (bs @ bs')"
    using f1 by (simp add: and_then_def)
qed

lemma parses_read: "parses (fo_read ops (length bs)) bs bs"
  unfolding parses_def
proof (intro allI impI)
  fix f rest assume f: "sees f (bs @ rest)"
  obtain r f' where r: "fo_read ops (length bs) f = (r, f')" by fastforce
  have "cursor f + length bs \<le> length (content f)" using sees_length [OF f] by simp
  from read_exact [OF this r] f r
  show "\<exists>f'. fo_read ops (length bs) f = (Some bs, f') \<and> content f' = content f \<and> cursor f' = cursor f + length bs"
    by (simp add: sees_def)
qed

lemma parses_seek: "parses (check (fo_seek_by ops (length bs))) bs ()"
  unfolding parses_def
proof (intro allI impI)
  fix f rest assume f: "sees f (bs @ rest)"
  obtain ok f' where r: "fo_seek_by ops (length bs) f = (ok, f')" by fastforce
  have "cursor f + length bs \<le> length (content f)" using sees_length [OF f] by simp
  from seek_current [OF this r] r
  show "\<exists>f'. check (fo_seek_by ops (length bs)) f = (Some (), f') \<and> content f' = content f \<and> cursor f' = cursor f + length bs"
    by (simp add: check_def)
qed

lemma parses_value:
  assumes "length bs = n" and "g bs = a" shows "parses (and_then (fo_read ops n) (\<lambda>b. give (g b))) bs a"
proof -
  have "parses (and_then (fo_read ops n) (\<lambda>b. give (g b))) (bs @ []) a"
    using assms parses_read [of bs] parses_give [of a] by (intro parses_then) auto
  then show ?thesis by simp
qed

lemma parses_words: "parses (read_u64 ops) (u64_bytes w) w" "parses (read_u32 ops) (u32_bytes v) v"
  unfolding read_u64_def read_u32_def by (rule parses_value; simp)+

lemma parses_string:
  assumes "valid_utf8 s" and "length s < 2 ^ 16"
  shows "parses (read_string ops) (u16_bytes (of_nat (length s)) @ s) s"
proof -
  let ?l = "u16_bytes (of_nat (length s))"
  have n: "unat (from_be ?l :: u16) = length s" using assms(2) by (simp add: unat_of_nat_u16)
  have "parses (fo_read ops 2) ?l ?l" using parses_read [of ?l] by simp
  moreover have "parses (and_then (fo_read ops (unat (from_be ?l :: u16))) (\<lambda>b. give (from_utf8_lossy b))) s s"
    unfolding n using assms(1) by (intro parses_value) (simp_all add: from_utf8_lossy_valid)
  ultimately show ?thesis unfolding read_string_def by (rule parses_then)
qed

text \<open>The reply of a record: a length field and, if it is not zero, the text.\<close>

definition reply_bytes :: "str option \<Rightarrow> bytes" where
  "reply_bytes p = (case p of Some t \<Rightarrow> u16_bytes (of_nat (length t)) @ t | None \<Rightarrow> u16_bytes 0)"

lemma record_bytes_eq:
  "record_bytes r = u64_bytes (sr_sequence r) @ u64_bytes (sr_timestamp r) @
     (u16_bytes (of_nat (length (sr_subject r))) @ sr_subject r) @ reply_bytes (sr_reply_to r) @
     u32_bytes (of_nat (length (sr_payload r))) @ sr_payload r"
  by (simp add: record_bytes_def reply_bytes_def)

lemma parses_reply:
  assumes "\<And>t. p = Some t \<Longrightarrow> valid_utf8 t \<and> t \<noteq> [] \<and> length t < 2 ^ 16"
  shows "parses (read_optional_string ops) (reply_bytes p) p"
proof (cases p)
  case None
  have "parses (read_string ops) (u16_bytes (of_nat (length ([] :: str))) @ []) []" by (rule parses_string) simp_all
  from parses_then [OF this, of "\<lambda>s. give (if s = [] then None else Some s)" "[]" p] None parses_give [of p]
  show ?thesis by (simp add: read_optional_string_def reply_bytes_def)
next
  case (Some t)
  have "parses (read_string ops) (u16_bytes (of_nat (length t)) @ t) t" by (rule parses_string) (use assms Some in auto)
  from parses_then [OF this, of "\<lambda>s. give (if s = [] then None else Some s)" "[]" p] Some assms parses_give [of p]
  show ?thesis by (simp add: read_optional_string_def reply_bytes_def)
qed

lemma parses_record:
  assumes "record_ok r" shows "parses (read_record ops) (record_bytes r) r"
proof -
  have d: "parses (fo_read ops (unat (of_nat (length (sr_payload r)) :: u32))) (sr_payload r) (sr_payload r)"
    using assms parses_read [of "sr_payload r"] by (simp add: record_ok_def unat_of_nat)
  have p: "parses (read_optional_string ops) (reply_bytes (sr_reply_to r)) (sr_reply_to r)"
    using assms by (intro parses_reply) (auto simp: record_ok_def)
  have t: "parses (read_string ops) (u16_bytes (of_nat (length (sr_subject r))) @ sr_subject r) (sr_subject r)"
    using assms by (intro parses_string) (simp_all add: record_ok_def)
  have eq: "record_bytes r = u64_bytes (sr_sequence r) @ u64_bytes (sr_timestamp r) @
     (u16_bytes (of_nat (length (sr_subject r))) @ sr_subject r) @ reply_bytes (sr_reply_to r) @
     u32_bytes (of_nat (length (sr_payload r))) @ sr_payload r @ []" by (simp add: record_bytes_eq)
  show ?thesis
    unfolding read_record_def eq
    by (rule parses_then [OF parses_words(1)], rule parses_then [OF parses_words(1)], rule parses_then [OF t],
        rule parses_then [OF p], rule parses_then [OF parses_words(2)], rule parses_then [OF d]) (use parses_give [of r] in \<open>cases r, simp\<close>)
qed

lemma parses_scan:
  assumes "record_ok r" shows "parses (scan_record ops) (record_bytes r) (sr_timestamp r, length (record_bytes r))"
proof -
  let ?h = "u64_bytes (sr_sequence r) @ u64_bytes (sr_timestamp r)" and ?s = "u16_bytes (of_nat (length (sr_subject r)))"
    and ?d = "u32_bytes (of_nat (length (sr_payload r)))"
  define n where "n = (case sr_reply_to r of Some t \<Rightarrow> length t | None \<Rightarrow> 0)"
  define t where "t = (case sr_reply_to r of Some t \<Rightarrow> t | None \<Rightarrow> [])"
  have p: "reply_bytes (sr_reply_to r) = u16_bytes (of_nat n) @ t" and nt: "length t = n"
    by (simp_all add: reply_bytes_def n_def t_def split: option.split)
  have L: "unat (from_be ?s :: u16) = length (sr_subject r)" "unat (from_be (u16_bytes (of_nat n)) :: u16) = n"
      "unat (from_be ?d :: u32) = length (sr_payload r)"
    using assms by (auto simp: record_ok_def unat_of_nat_u16 unat_of_nat n_def split: option.split)
  have reads: "parses (fo_read ops 16) ?h ?h" "parses (fo_read ops 2) w w" if "length w = 2" for w
    using parses_read [of ?h] parses_read [of w] that by simp_all
  have four: "parses (fo_read ops 4) ?d ?d" using parses_read [of ?d] by simp
  have skip: "parses (if n > 0 then check (fo_seek_by ops n) else give ()) t ()"
    using parses_seek [of t] parses_give [of "()"] nt by (cases "n > 0") simp_all
  have eq: "record_bytes r = ?h @ ?s @ sr_subject r @ u16_bytes (of_nat n) @ t @ ?d @ sr_payload r @ []"
    by (simp add: record_bytes_eq p)
  have len: "8 + 8 + 2 + length (sr_subject r) + 2 + n + 4 + length (sr_payload r) = length (record_bytes r)"
    by (simp add: record_bytes_eq p nt)
  have ts: "from_be (drop 8 ?h) = sr_timestamp r" by simp
  show ?thesis
    unfolding scan_record_def Let_def eq
    by (rule parses_then [OF reads(1) [of "[0, 0]"]], simp, rule parses_then [OF reads(2)], simp, unfold L, rule parses_then [OF parses_seek],
        rule parses_then [OF reads(2)], simp, unfold L, rule parses_then [OF skip], rule parses_then [OF four], unfold L,
        rule parses_then [OF parses_seek])
      (use len parses_give [of "(sr_timestamp r, length (record_bytes r))"] in \<open>simp add: eq add.assoc\<close>)
qed

section \<open>The log as the segment keeps it\<close>

text \<open>The file holds the records, the index their places; the cursor is at the end when the next append is to be right.\<close>

definition holds :: "'f segment \<Rightarrow> stored_record list \<Rightarrow> bool" where
  "holds s rs \<longleftrightarrow> list_all record_ok rs \<and> content (sg_file s) = log_bytes rs \<and> sg_index s = entries_from 0 rs \<and>
     bytes_written s = of_nat (length (log_bytes rs)) \<and> length (log_bytes rs) < 2 ^ 64"

definition at_end :: "'f segment \<Rightarrow> bool" where
  "at_end s \<longleftrightarrow> cursor (sg_file s) = length (content (sg_file s))"

lemma segment_append_holds:
  assumes h: "holds s rs" and e: "at_end s"
    and a: "segment_append ops subj reply payload ts s = (Inr q, s')"
    and r: "r = \<lparr>sr_sequence = q, sr_timestamp = ts, sr_subject = subj, sr_reply_to = reply, sr_payload = payload\<rparr>" "record_ok r"
    and room: "length (log_bytes rs) + length (record_bytes r) < 2 ^ 64"
  shows "q = base_sequence s + of_nat (length rs) \<and> holds s' (rs @ [r]) \<and> at_end s' \<and> base_sequence s' = base_sequence s"
proof -
  have q: "q = base_sequence s + of_nat (length (sg_index s))"
    using a by (auto simp: segment_append_def Let_def split: prod.splits bool.splits)
  obtain f where w: "fo_write ops (record_bytes r) (sg_file s) = (True, f)"
    and s': "s' = s\<lparr>sg_file := f, sg_index := sg_index s @ [\<lparr>ie_offset = bytes_written s, ie_timestamp = ts\<rparr>],
      bytes_written := bytes_written s + of_nat (length (record_bytes r))\<rparr>"
    using a q r(1) by (auto simp: segment_append_def Let_def split: prod.splits bool.splits)
  have f: "content f = log_bytes rs @ record_bytes r" "cursor f = length (log_bytes rs) + length (record_bytes r)"
    using write_all [OF _ w] h e by (simp_all add: holds_def at_end_def)
  have "entries_from 0 (rs @ [r]) = sg_index s @ [\<lparr>ie_offset = bytes_written s, ie_timestamp = ts\<rparr>]"
    using h r(1) by (simp add: entries_from_append holds_def)
  then show ?thesis
    using h r f q room by (simp add: holds_def at_end_def s')
qed

lemma segment_read_holds:
  assumes h: "holds s rs" and i: "i < length rs" "unat (base_sequence s) + i < 2 ^ 64"
  shows "\<exists>f. segment_read ops (base_sequence s + of_nat i) s = (Inr (Some (rs ! i)), s\<lparr>sg_file := f\<rparr>) \<and> holds (s\<lparr>sg_file := f\<rparr>) rs"
proof -
  let ?q = "base_sequence s + of_nat i" and ?f = "sg_file s"
  let ?n = "length (log_bytes (take i rs))"
  have rs: "log_bytes rs = log_bytes (take i rs) @ record_bytes (rs ! i) @ log_bytes (drop (Suc i) rs)"
    using id_take_nth_drop [OF i(1)] by (metis append_Cons append_Nil log_bytes_simps(2,3))
  have ui: "unat (of_nat i :: u64) = i" using i(2) by (simp add: unat_of_nat)
  have "unat ?q = unat (base_sequence s) + i"
    using i(2) ui unat_add_lem [of "base_sequence s" "of_nat i"] by simp
  then have q: "\<not> ?q < base_sequence s" "unat (?q - base_sequence s) = i" by (simp_all add: word_less_nat_alt ui)
  have "?n < 2 ^ 64" using h rs by (simp add: holds_def)
  then have e: "idx (sg_index s) i = Some \<lparr>ie_offset = of_nat ?n, ie_timestamp = sr_timestamp (rs ! i)\<rparr>" "unat (of_nat ?n :: u64) = ?n"
    using h i(1) by (simp_all add: holds_def entries_from_nth unat_of_nat)
  obtain ok f1 where f1: "fo_seek ops ?n ?f = (ok, f1)" by fastforce
  have s1: "ok" "content f1 = log_bytes rs" "cursor f1 = ?n" using seek_start [OF _ f1] h rs by (simp_all add: holds_def)
  have "sees f1 (record_bytes (rs ! i) @ log_bytes (drop (Suc i) rs))" using s1(2,3) by (simp add: sees_def rs)
  moreover have "record_ok (rs ! i)" using h i(1) by (simp add: holds_def list_all_length)
  ultimately obtain f2 where f2: "read_record ops f1 = (Some (rs ! i), f2)" "content f2 = content f1"
    using parses_record unfolding parses_def by blast
  have "segment_read ops ?q s = (Inr (Some (rs ! i)), s\<lparr>sg_file := f2\<rparr>)"
    using q e f1 s1(1) f2(1) by (simp add: segment_read_def and_then_def check_def)
  then show ?thesis using h f2(2) s1(2) by (intro exI [of _ f2]) (simp add: holds_def)
qed

lemma rebuild_loop_log:
  "list_all record_ok rs \<Longrightarrow> sees f (log_bytes rs) \<Longrightarrow>
     \<exists>f'. rebuild_loop ops (of_nat n) ix f = Some (of_nat (n + length (log_bytes rs)), ix @ entries_from n rs, f') \<and>
       content f' = content f \<and> cursor f' = length (content f)"
proof (induction rs arbitrary: n ix f)
  case Nil
  obtain r f' where r: "fo_read ops 16 f = (r, f')" by fastforce
  have e: "cursor f = length (content f)" using Nil.prems(2) sees_length by fastforce
  from read_at_end [OF e _ r] have "scan_record ops f = (None, f')" "content f' = content f" "cursor f' = cursor f"
    using r by (simp_all add: scan_record_def and_then_def)
  then show ?case using e by (subst rebuild_loop.simps) simp
next
  case (Cons r rs)
  have "sees f (record_bytes r @ log_bytes rs)" using Cons.prems(2) by simp
  then obtain f1 where f1: "scan_record ops f = (Some (sr_timestamp r, length (record_bytes r)), f1)" "content f1 = content f"
      "sees f1 (log_bytes rs)"
    using parses_scan [of r] Cons.prems(1) sees_step [of f "record_bytes r" "log_bytes rs"] unfolding parses_def by (simp, blast)
  from Cons.IH [OF _ f1(3), of "n + length (record_bytes r)" "ix @ [\<lparr>ie_offset = of_nat n, ie_timestamp = sr_timestamp r\<rparr>]"] Cons.prems(1)
  show ?case using f1(1,2) by (subst rebuild_loop.simps) (auto simp: add.assoc)
qed

lemma segment_open_holds:
  assumes "list_all record_ok rs" and "content f = log_bytes rs" and "length (log_bytes rs) < 2 ^ 64"
  shows "\<exists>s. segment_open ops True f base = Some (Inr s) \<and> holds s rs \<and> at_end s \<and> base_sequence s = base"
proof -
  obtain ok f1 where f1: "fo_seek ops 0 f = (ok, f1)" by fastforce
  have s1: "ok" "content f1 = log_bytes rs" "cursor f1 = 0" using seek_start [OF _ f1] assms(2) by simp_all
  have "sees f1 (log_bytes rs)" using s1 by (simp add: sees_def)
  from rebuild_loop_log [OF assms(1) this, of 0 "[]"] obtain f' where
    "rebuild_loop ops 0 [] f1 = Some (of_nat (length (log_bytes rs)), entries_from 0 rs, f')" "content f' = content f1"
      "cursor f' = length (content f1)" by auto
  then show ?thesis
    using f1 s1 assms by (simp add: segment_open_def rebuild_index_def holds_def at_end_def)
qed

end

section \<open>A file of bytes\<close>

definition byte_file :: "(bytes \<times> nat) file_ops" where
  "byte_file = \<lparr>
     fo_read = (\<lambda>n (d, c). if c + n \<le> length d then (Some (take n (drop c d)), (d, c + n)) else (None, (d, max c (length d)))),
     fo_write = (\<lambda>bs (d, c). (True, (take c (d @ replicate (c - length d) 0) @ bs @ drop (c + length bs) d, c + length bs))),
     fo_seek = (\<lambda>n (d, c). (True, (d, n))),
     fo_seek_by = (\<lambda>n (d, c). (True, (d, c + n)))\<rparr>"

interpretation bytes: seekable_file byte_file fst snd
  by unfold_locales (auto simp: byte_file_def split: if_splits)

section \<open>Appending, reading, reopening\<close>

type_synonym log_entry = "str \<times> str option \<times> bytes \<times> u64"

fun append_all :: "'f file_ops \<Rightarrow> log_entry list \<Rightarrow> 'f segment \<Rightarrow> (store_error + u64 list) \<times> 'f segment" where
  "append_all ops [] s = (Inr [], s)"
| "append_all ops ((subj, reply, payload, ts) # es) s =
     (case segment_append ops subj reply payload ts s of
        (Inl e, s') \<Rightarrow> (Inl e, s')
      | (Inr q, s') \<Rightarrow> (case append_all ops es s' of (Inl e, s'') \<Rightarrow> (Inl e, s'') | (Inr qs, s'') \<Rightarrow> (Inr (q # qs), s'')))"

fun entry_record :: "u64 \<Rightarrow> log_entry \<Rightarrow> stored_record" where
  "entry_record q (subj, reply, payload, ts) =
     \<lparr>sr_sequence = q, sr_timestamp = ts, sr_subject = subj, sr_reply_to = reply, sr_payload = payload\<rparr>"

definition entry_size :: "log_entry \<Rightarrow> nat" where
  "entry_size e = length (record_bytes (entry_record 0 e))"

definition entry_ok :: "log_entry \<Rightarrow> bool" where
  "entry_ok e \<longleftrightarrow> record_ok (entry_record 0 e)"

text \<open>The records of entries appended when \<open>n\<close> are there already.\<close>

definition entry_records :: "u64 \<Rightarrow> nat \<Rightarrow> log_entry list \<Rightarrow> stored_record list" where
  "entry_records base n es = map2 (\<lambda>i e. entry_record (base + of_nat i) e) [n ..< n + length es] es"

lemma entry_sizes: "length (record_bytes (entry_record q e)) = entry_size e" "record_ok (entry_record q e) = entry_ok e"
  by (cases e; simp add: entry_size_def entry_ok_def record_bytes_def record_ok_def split: option.split)+

lemma entry_records_Cons: "entry_records base n (e # es) = entry_record (base + of_nat n) e # entry_records base (Suc n) es"
  by (simp add: entry_records_def upt_conv_Cons del: upt_Suc)

context seekable_file
begin

lemma append_all_holds:
  assumes "holds s rs" and "at_end s" and "append_all ops es s = (Inr qs, s')" and "list_all entry_ok es"
    and "length (log_bytes rs) + sum_list (map entry_size es) < 2 ^ 64"
  shows "qs = map (\<lambda>i. base_sequence s + of_nat i) [length rs ..< length rs + length es] \<and>
    holds s' (rs @ entry_records (base_sequence s) (length rs) es) \<and> base_sequence s' = base_sequence s"
  using assms
proof (induction es arbitrary: s rs qs)
  case Nil
  then show ?case by (simp add: entry_records_def)
next
  case (Cons e es)
  obtain subj reply payload ts where e: "e = (subj, reply, payload, ts)" by (cases e)
  obtain q s1 qs1 where a: "segment_append ops subj reply payload ts s = (Inr q, s1)"
    and rest: "append_all ops es s1 = (Inr qs1, s')" and qs: "qs = q # qs1"
    using Cons.prems(3) e by (auto split: prod.splits sum.splits)
  let ?r = "entry_record q e"
  have r: "?r = \<lparr>sr_sequence = q, sr_timestamp = ts, sr_subject = subj, sr_reply_to = reply, sr_payload = payload\<rparr>" "record_ok ?r"
    using Cons.prems(4) by (simp_all add: e entry_sizes(2)) (simp add: entry_sizes(2) flip: entry_record.simps)
  have s1: "q = base_sequence s + of_nat (length rs)" "holds s1 (rs @ [?r])" "at_end s1" "base_sequence s1 = base_sequence s"
    using segment_append_holds [OF Cons.prems(1,2) a r] Cons.prems(5) by (auto simp: entry_sizes)
  from Cons.IH [OF s1(2,3) rest] Cons.prems(4,5) s1 qs show ?case
    by (simp add: entry_sizes entry_records_Cons upt_conv_Cons del: upt_Suc)
qed

lemma log_survives:
  assumes new: "content f = []" "cursor f = 0" and opened: "segment_open ops False f base = Some (Inr s)"
    and app: "append_all ops es s = (Inr qs, s')" and ok: "list_all entry_ok es"
    and room: "sum_list (map entry_size es) < 2 ^ 64" "unat base + length es \<le> 2 ^ 64"
  shows "qs = map (\<lambda>i. base + of_nat i) [0 ..< length es] \<and>
    (\<exists>s2. segment_open ops True (sg_file s') base = Some (Inr s2) \<and> sg_index s2 = sg_index s' \<and> bytes_written s2 = bytes_written s' \<and>
      (\<forall>i < length es. fst (segment_read ops (qs ! i) s') = Inr (Some (entry_record (qs ! i) (es ! i))) \<and>
        fst (segment_read ops (qs ! i) s2) = Inr (Some (entry_record (qs ! i) (es ! i)))))"
proof -
  have s: "s = \<lparr>sg_file = f, sg_index = [], base_sequence = base, bytes_written = 0\<rparr>" using opened by (simp add: segment_open_def)
  let ?rs = "entry_records base 0 es"
  have "holds s []" "at_end s" using new by (simp_all add: s holds_def at_end_def)
  from append_all_holds [OF this app ok] room(1) have
    qs: "qs = map (\<lambda>i. base + of_nat i) [0 ..< length es]" and h: "holds s' ?rs" and base: "base_sequence s' = base" by (simp_all add: s)
  have "list_all record_ok ?rs" "content (sg_file s') = log_bytes ?rs" "length (log_bytes ?rs) < 2 ^ 64" using h by (simp_all add: holds_def)
  from segment_open_holds [OF this, of base] obtain s2 where
    s2: "segment_open ops True (sg_file s') base = Some (Inr s2)" "holds s2 ?rs" "base_sequence s2 = base" by blast
  have "fst (segment_read ops (qs ! i) t) = Inr (Some (entry_record (qs ! i) (es ! i)))"
    if "i < length es" "holds t ?rs" "base_sequence t = base" for i t
    using segment_read_holds [OF that(2), of i] that(1,3) room(2) by (auto simp: entry_records_def qs)
  moreover have "sg_index s2 = sg_index s'" "bytes_written s2 = bytes_written s'" using h s2(2) by (simp_all add: holds_def)
  ultimately show ?thesis using qs s2 h base by blast
qed

end

text \<open>
  C37: what is appended to a new segment can be read back: the records get consecutive sequence numbers from the
  base, each is read as it was appended, and opening the file again scans it to the same index and size, so that
  every record is read as before.  Every length must fit its field and the file a 64-bit offset.
\<close>

theorem segment_log_survives:
  assumes disk: "seekable_file ops content cursor" and new: "content f = []" "cursor f = 0"
    and opened: "segment_open ops False f base = Some (Inr s)"
    and app: "append_all ops es s = (Inr qs, s')" and ok: "list_all entry_ok es"
    and room: "sum_list (map entry_size es) < 2 ^ 64" "unat base + length es \<le> 2 ^ 64"
  shows "qs = map (\<lambda>i. base + of_nat i) [0 ..< length es] \<and>
    (\<exists>s2. segment_open ops True (sg_file s') base = Some (Inr s2) \<and> sg_index s2 = sg_index s' \<and> bytes_written s2 = bytes_written s' \<and>
      (\<forall>i < length es. fst (segment_read ops (qs ! i) s') = Inr (Some (entry_record (qs ! i) (es ! i))) \<and>
        fst (segment_read ops (qs ! i) s2) = Inr (Some (entry_record (qs ! i) (es ! i)))))"
  by (rule seekable_file.log_survives [OF assms])

definition three_entries :: "log_entry list" where
  "three_entries = [(lit ''a'', None, [1], 7), (lit ''b'', Some (lit ''r''), [2], 8), (lit ''c'', None, [], 9)]"

definition new_segment :: "(bytes \<times> nat) segment" where
  "new_segment = \<lparr>sg_file = ([], 0), sg_index = [], base_sequence = 1, bytes_written = 0\<rparr>"

lemma byte_append: "\<exists>q s'. segment_append byte_file subj reply payload ts s = (Inr q, s')"
  by (cases "sg_file s") (simp add: segment_append_def byte_file_def Let_def)

lemma byte_append_all: "\<exists>qs s'. append_all byte_file es s = (Inr qs, s')"
proof (induction es arbitrary: s)
  case (Cons e es)
  obtain subj reply payload ts where e: "e = (subj, reply, payload, ts)" by (cases e)
  obtain q s1 where "segment_append byte_file subj reply payload ts s = (Inr q, s1)" using byte_append by blast
  moreover obtain qs s2 where "append_all byte_file es s1 = (Inr qs, s2)" using Cons.IH by blast
  ultimately show ?case by (simp add: e)
qed simp

theorem segment_log_survives_witness:
  "\<exists>qs s'. append_all byte_file three_entries new_segment = (Inr qs, s') \<and> qs = [1, 2, 3] \<and>
     fst (segment_read byte_file 2 s') = Inr (Some (entry_record 2 (lit ''b'', Some (lit ''r''), [2], 8)))"
proof -
  obtain qs s' where a: "append_all byte_file three_entries new_segment = (Inr qs, s')"
    using byte_append_all by blast
  have o: "segment_open byte_file False ([], 0) 1 = Some (Inr new_segment)" by (simp add: segment_open_def new_segment_def)
  have ok: "list_all entry_ok three_entries"
    by (simp add: three_entries_def entry_ok_def record_ok_def lit_def utf8_step_def)
  have room: "sum_list (map entry_size three_entries) < 2 ^ 64" "unat (1 :: u64) + length three_entries \<le> 2 ^ 64"
    by (simp_all add: three_entries_def entry_size_def record_bytes_def)
  note t = segment_log_survives [OF bytes.seekable_file_axioms _ _ o a ok room]
  have "qs = [1, 2, 3]" using t by (simp add: three_entries_def upt_rec)
  moreover have "fst (segment_read byte_file (qs ! 1) s') = Inr (Some (entry_record (qs ! 1) (three_entries ! 1)))"
  proof -
    have "1 < length three_entries" by (simp add: three_entries_def)
    with t show ?thesis by auto
  qed
  ultimately show ?thesis using a by (simp add: three_entries_def)
qed

text \<open>
  Reading moves the cursor that the next append writes at.  After two appends, a read of the first record and a
  third append, the third record lies over the second: number 2 is read as record 3, and number 3 cannot be
  read.
\<close>

lemma append_after_read_overwrites:
  "\<exists>s1 s2 s3. append_all byte_file [(lit ''a'', None, [1], 7), (lit ''b'', None, [2], 8)] new_segment = (Inr [1, 2], s1) \<and>
     segment_read byte_file 1 s1 = (Inr (Some (entry_record 1 (lit ''a'', None, [1], 7))), s2) \<and>
     segment_append byte_file (lit ''c'') None [3] 9 s2 = (Inr 3, s3) \<and>
     fst (segment_read byte_file 2 s3) = Inr (Some (entry_record 3 (lit ''c'', None, [3], 9))) \<and>
     fst (segment_read byte_file 3 s3) = Inl (StoreIo [])"
  by (simp add: segment_append_def segment_read_def read_record_def and_then_def check_def give_def read_u64_def read_u32_def read_string_def
      read_optional_string_def byte_file_def new_segment_def record_bytes_def lit_def Let_def utf8_step_def)

end
