(* ===== verification/Client.thy ===== *)
theory Client
  imports Wire "HOL-Library.AList"
begin

text \<open>
  The client (\<open>zetmq-client/src\<close>): options, the TLS guards, the handshake, the read task and the operations of a
  connection, and the client with its tracked subscriptions and reconnection.  Each operation is cut where the source
  awaits another task: sending a SUB and registering the subscription once the SUBACK has come are two definitions.
  The channel of a subscription (\<open>mpsc::Sender\<close>) is a parameter \<open>send\<close>; a oneshot sender is a name, and what is sent
  to it a signal.  A panic of the read task is the value \<open>None\<close>.
\<close>

section \<open>Options and errors\<close>

datatype client_auth = CaNone | CaToken str | CaUserPass str str

text \<open>A \<open>Duration\<close> is its number of nanoseconds.\<close>

definition secs :: "nat \<Rightarrow> nat" where
  "secs n = n * 10 ^ 9"

definition DURATION_MAX :: nat where
  "DURATION_MAX = secs (2 ^ 64 - 1) + 999999999"

record client_options =
  addr :: str
  opt_name :: "str option"
  max_frame_size :: nat
  connect_timeout :: nat
  request_timeout :: nat
  opt_auth :: client_auth
  tls :: bool
  tls_skip_verify :: bool
  reconnect_enabled :: bool
  max_reconnect_attempts :: nat
  reconnect_delay :: nat
  reconnect_backoff :: bool

definition client_options_default :: client_options where
  "client_options_default = \<lparr>addr = lit ''127.0.0.1:4222'', opt_name = None, max_frame_size = 2 * 1024 * 1024,
     connect_timeout = secs 5, request_timeout = secs 5, opt_auth = CaNone, tls = False, tls_skip_verify = False,
     reconnect_enabled = False, max_reconnect_attempts = 10, reconnect_delay = secs 1, reconnect_backoff = True\<rparr>"

definition client_options_new :: "str \<Rightarrow> client_options" where
  "client_options_new a = client_options_default\<lparr>addr := a\<rparr>"

definition with_token :: "str \<Rightarrow> client_options \<Rightarrow> client_options" where
  "with_token t o1 = o1\<lparr>opt_auth := CaToken t\<rparr>"

definition with_userpass :: "str \<Rightarrow> str \<Rightarrow> client_options \<Rightarrow> client_options" where
  "with_userpass u p o1 = o1\<lparr>opt_auth := CaUserPass u p\<rparr>"

definition with_tls :: "bool \<Rightarrow> client_options \<Rightarrow> client_options" where
  "with_tls skip_verify o1 = o1\<lparr>tls := True, tls_skip_verify := skip_verify\<rparr>"

definition with_reconnect :: "bool \<Rightarrow> client_options \<Rightarrow> client_options" where
  "with_reconnect enabled o1 = o1\<lparr>reconnect_enabled := enabled\<rparr>"

definition with_max_reconnect_attempts :: "nat \<Rightarrow> client_options \<Rightarrow> client_options" where
  "with_max_reconnect_attempts attempts o1 = o1\<lparr>max_reconnect_attempts := attempts\<rparr>"

definition with_reconnect_delay :: "nat \<Rightarrow> client_options \<Rightarrow> client_options" where
  "with_reconnect_delay delay o1 = o1\<lparr>reconnect_delay := delay\<rparr>"

definition with_reconnect_backoff :: "bool \<Rightarrow> client_options \<Rightarrow> client_options" where
  "with_reconnect_backoff enabled o1 = o1\<lparr>reconnect_backoff := enabled\<rparr>"

datatype client_error =
  ConnectionFailed str
| Disconnected
| ClientProtocol protocol_error
| ClientIo str
| Timeout
| SubscriptionClosed
| ServerErr str

fun client_error_display :: "client_error \<Rightarrow> str" where
  "client_error_display (ConnectionFailed s) = lit ''connection failed: '' @ s"
| "client_error_display Disconnected = lit ''disconnected''"
| "client_error_display (ClientProtocol e) = lit ''protocol error: '' @ protocol_error_display e"
| "client_error_display (ClientIo s) = lit ''io error: '' @ s"
| "client_error_display Timeout = lit ''request timeout''"
| "client_error_display SubscriptionClosed = lit ''subscription closed''"
| "client_error_display (ServerErr s) = lit ''server error: '' @ s"

section \<open>TLS guards\<close>

definition to_ascii_lowercase :: "str \<Rightarrow> str" where
  "to_ascii_lowercase = map (\<lambda>b. if 65 \<le> b \<and> b \<le> 90 then b + 32 else b)"

definition env_allows_insecure_tls :: "str option \<Rightarrow> bool" where
  "env_allows_insecure_tls v =
     (case v of None \<Rightarrow> False
      | Some s \<Rightarrow> to_ascii_lowercase (trim s) \<in> {lit ''1'', lit ''true'', lit ''yes'', lit ''on''})"

definition env_string :: "str option \<Rightarrow> str option" where
  "env_string v = (case v of None \<Rightarrow> None | Some s \<Rightarrow> if trim s = [] then None else Some (trim s))"

text \<open>\<open>find\<close> and \<open>rsplit_once\<close> with an ASCII character.\<close>

fun find_byte :: "u8 \<Rightarrow> str \<Rightarrow> nat option" where
  "find_byte c [] = None"
| "find_byte c (b # s) = (if b = c then Some 0 else map_option Suc (find_byte c s))"

definition rsplit_once :: "u8 \<Rightarrow> str \<Rightarrow> (str \<times> str) option" where
  "rsplit_once c s = map_option (\<lambda>n. (take (length s - n - 1) s, drop (length s - n) s)) (find_byte c (rev s))"

definition extract_host_from_addr :: "str \<Rightarrow> str option" where
  "extract_host_from_addr a =
     (if take 1 a = lit ''['' then
        (let rest = drop 1 a in
         case find_byte 93 rest of
           None \<Rightarrow> None
         | Some e \<Rightarrow>
             (let host = take e rest; remainder = drop (e + 1) rest in
              if host \<noteq> [] \<and> take 1 remainder = lit '':'' \<and> length remainder > 1 then Some host else None))
      else
        (case rsplit_once 58 a of
           None \<Rightarrow> None
         | Some (host, port) \<Rightarrow> if host = [] \<or> port = [] then None else Some host))"

definition resolve_tls_server_name_from_inputs :: "str \<Rightarrow> str option \<Rightarrow> client_error + str" where
  "resolve_tls_server_name_from_inputs a override =
     (case env_string override of
        Some server_name \<Rightarrow> Inr server_name
      | None \<Rightarrow>
          (case extract_host_from_addr a of
             Some host \<Rightarrow> Inr host
           | None \<Rightarrow> Inl (ConnectionFailed (lit ''could not derive TLS server name from address `'' @ a
               @ lit ''`; set ZETMQ_TLS_SERVER_NAME to override it''))))"

text \<open>How the server certificate is checked; \<open>allow\<close> is the value of \<open>ZETMQ_ALLOW_INSECURE_TLS\<close>.\<close>

datatype cert_check = NoVerifier | NativeRoots

definition build_tls_connector :: "str option \<Rightarrow> bool \<Rightarrow> client_error + cert_check" where
  "build_tls_connector allow skip_verify =
     (if skip_verify then
        (if \<not> env_allows_insecure_tls allow
         then Inl (ConnectionFailed (lit ''refusing to disable TLS certificate verification; set ZETMQ_ALLOW_INSECURE_TLS=1 for development only''))
         else Inr NoVerifier)
      else Inr NativeRoots)"

section \<open>Handshake\<close>

definition auth_info_of :: "client_auth \<Rightarrow> auth_info" where
  "auth_info_of a = (case a of CaNone \<Rightarrow> AuthNone | CaToken t \<Rightarrow> Token t | CaUserPass u p \<Rightarrow> UserPass u p)"

definition handshake_frame :: "client_options \<Rightarrow> frame" where
  "handshake_frame opts = connect_frame (opt_name opts) (auth_info_of (opt_auth opts))"

text \<open>
  The loop that waits for the CONNACK, over what the reads return; the empty read is the end of the stream.  It
  decodes once per read, and what is left of its buffer is dropped when it ends.  \<open>HsWaiting\<close>: the reads so far do not
  decide.
\<close>

datatype handshake_result = HsConnected | HsFailed client_error | HsWaiting bytes | HsPanic

fun handshake :: "nat \<Rightarrow> bytes list \<Rightarrow> bytes \<Rightarrow> handshake_result \<times> bytes list" where
  "handshake k [] buf = (HsWaiting buf, [])"
| "handshake k (chunk # reads) buf =
     (if chunk = [] then (HsFailed (ConnectionFailed (lit ''connection closed before CONNACK'')), reads)
      else
        (case decode_from k (buf @ chunk) of
           Some (Inr (Some f), rest) \<Rightarrow>
             (case from_u8 (h_frame_type (f_header f)) of
                Inl e \<Rightarrow> (HsFailed (ClientProtocol e), reads)
              | Inr Connack \<Rightarrow> (HsConnected, reads)
              | Inr Error \<Rightarrow> (HsFailed (ServerErr (from_utf8_lossy (f_payload f))), reads)
              | Inr _ \<Rightarrow> handshake k reads rest)
         | Some (Inr None, rest) \<Rightarrow> handshake k reads rest
         | Some (Inl e, _) \<Rightarrow> (HsFailed (ClientProtocol e), reads)
         | None \<Rightarrow> (HsPanic, reads)))"

section \<open>Connections\<close>

text \<open>Maps are association lists, oneshot senders are numbers; \<open>conn_out\<close> is what was put into the write channel.\<close>

record 'tx conn_state =
  cs_subscriptions :: "(u64 \<times> 'tx) list"
  pending_subs :: "(u64 \<times> nat) list"
  pending_flush :: "(u64 \<times> nat) list"

datatype signal = SubackIs nat u64 | FlushDone nat

record ('tx, 'w) connection =
  has_write_tx :: bool
  writer_alive :: bool
  conn_out :: "frame list"
  conn_buf :: bytes
  conn_st :: "'tx conn_state"
  sub_counter :: u64
  connected :: bool
  oneshots :: nat
  signals :: "signal list"
  conn_chan :: 'w

type_synonym ('tx, 'w) tx_send = "'tx \<Rightarrow> client_message \<Rightarrow> 'w \<Rightarrow> bool \<times> 'w"

abbreviation set_subs :: "((u64 \<times> 'tx) list \<Rightarrow> (u64 \<times> 'tx) list) \<Rightarrow> ('tx, 'w) connection \<Rightarrow> ('tx, 'w) connection" where
  "set_subs g c \<equiv> c\<lparr>conn_st := (conn_st c)\<lparr>cs_subscriptions := g (cs_subscriptions (conn_st c))\<rparr>\<rparr>"

abbreviation set_pending_subs :: "((u64 \<times> nat) list \<Rightarrow> (u64 \<times> nat) list) \<Rightarrow> ('tx, 'w) connection \<Rightarrow> ('tx, 'w) connection" where
  "set_pending_subs g c \<equiv> c\<lparr>conn_st := (conn_st c)\<lparr>pending_subs := g (pending_subs (conn_st c))\<rparr>\<rparr>"

abbreviation set_pending_flush :: "((u64 \<times> nat) list \<Rightarrow> (u64 \<times> nat) list) \<Rightarrow> ('tx, 'w) connection \<Rightarrow> ('tx, 'w) connection" where
  "set_pending_flush g c \<equiv> c\<lparr>conn_st := (conn_st c)\<lparr>pending_flush := g (pending_flush (conn_st c))\<rparr>\<rparr>"

abbreviation subs_of :: "('tx, 'w) connection \<Rightarrow> u64 \<rightharpoonup> 'tx" where
  "subs_of c \<equiv> map_of (cs_subscriptions (conn_st c))"

section \<open>The read task\<close>

definition min_key :: "(u64 \<times> nat) list \<Rightarrow> u64 option" where
  "min_key ps = (case map fst ps of [] \<Rightarrow> None | k # ks \<Rightarrow> Some (fold min ks k))"

definition resolve_flush :: "u64 \<Rightarrow> ('tx, 'w) connection \<Rightarrow> ('tx, 'w) connection" where
  "resolve_flush corr_id c =
     (case (if corr_id = 0 then min_key (pending_flush (conn_st c)) else Some corr_id) of
        None \<Rightarrow> c
      | Some k \<Rightarrow>
          (case map_of (pending_flush (conn_st c)) k of
             None \<Rightarrow> c
           | Some tx \<Rightarrow> (set_pending_flush (AList.delete k) c)\<lparr>signals := signals c @ [FlushDone tx]\<rparr>))"

definition dispatch_msg ::
  "('tx, 'w) tx_send \<Rightarrow> frame \<Rightarrow> ('tx, 'w) connection \<Rightarrow> ((client_error + unit) \<times> ('tx, 'w) connection) option" where
  "dispatch_msg send f c = do {
     r \<leftarrow> decode_msg f;
     case r of
       Inl e \<Rightarrow> Some (Inl (ClientProtocol e), c)
     | Inr (i, m) \<Rightarrow>
         (case subs_of c i of
            None \<Rightarrow> Some (Inr (), c)
          | Some tx \<Rightarrow>
              (case send tx m (conn_chan c) of
                 (True, w) \<Rightarrow> Some (Inr (), c\<lparr>conn_chan := w\<rparr>)
               | (False, w) \<Rightarrow> Some (Inr (), set_subs (AList.delete i) (c\<lparr>conn_chan := w\<rparr>))))
   }"

definition resolve_suback :: "frame \<Rightarrow> ('tx, 'w) connection \<Rightarrow> ('tx, 'w) connection" where
  "resolve_suback f c =
     (let corr_id = correlation_id (f_header f) in
      if length (f_payload f) \<ge> 8 then
        (case map_of (pending_subs (conn_st c)) corr_id of
           None \<Rightarrow> c
         | Some tx \<Rightarrow> (set_pending_subs (AList.delete corr_id) c)
             \<lparr>signals := signals c @ [SubackIs tx (from_be (take 8 (f_payload f)))]\<rparr>)
      else c)"

text \<open>The write channel refuses a frame once the write task has ended.\<close>

definition channel_send :: "frame \<Rightarrow> ('tx, 'w) connection \<Rightarrow> bool \<times> ('tx, 'w) connection" where
  "channel_send f c = (if writer_alive c then (True, c\<lparr>conn_out := conn_out c @ [f]\<rparr>) else (False, c))"

definition read_frame ::
  "('tx, 'w) tx_send \<Rightarrow> frame \<Rightarrow> ('tx, 'w) connection \<Rightarrow> ('tx, 'w) connection option" where
  "read_frame send f c =
     (case from_u8 (h_frame_type (f_header f)) of
        Inl _ \<Rightarrow> Some c
      | Inr ft \<Rightarrow>
          (case ft of
             Msg \<Rightarrow> map_option snd (dispatch_msg send f c)
           | Suback \<Rightarrow> Some (resolve_suback f c)
           | Ping \<Rightarrow> Some (snd (channel_send (frame_new Pong 0) c))
           | Pong \<Rightarrow> Some (resolve_flush (correlation_id (f_header f)) c)
           | _ \<Rightarrow> Some c))"

definition READ_MAX :: nat where
  "READ_MAX = 2 * 1024 * 1024"

text \<open>\<open>while let Ok(Some(frame))\<close>: the loop ends on an incomplete frame and on an error; both leave what they leave.\<close>

function read_frames :: "('tx, 'w) tx_send \<Rightarrow> bytes \<Rightarrow> ('tx, 'w) connection \<Rightarrow> (bytes \<times> ('tx, 'w) connection) option" where
  "read_frames send buf c =
     (case decode_from READ_MAX buf of
        Some (Inr (Some f), rest) \<Rightarrow>
          (case read_frame send f c of None \<Rightarrow> None | Some c' \<Rightarrow> read_frames send rest c')
      | Some (_, rest) \<Rightarrow> Some (rest, c)
      | None \<Rightarrow> None)"
  by pat_completeness auto
termination by (relation "measure (\<lambda>(send, buf, c). length buf)") (auto simp: decode_from_less)

declare read_frames.simps [simp del]

text \<open>What the task does with the reads so far; the empty read ends it.\<close>

fun read_task :: "('tx, 'w) tx_send \<Rightarrow> bytes list \<Rightarrow> ('tx, 'w) connection \<Rightarrow> ('tx, 'w) connection option" where
  "read_task send [] c = Some c"
| "read_task send (chunk # reads) c =
     (if chunk = [] then Some (c\<lparr>connected := False\<rparr>)
      else
        (case read_frames send (conn_buf c @ chunk) c of
           None \<Rightarrow> None
         | Some (buf, c') \<Rightarrow> read_task send reads (c'\<lparr>conn_buf := buf\<rparr>)))"

section \<open>The write task\<close>

fun fill_frames :: "frame list \<Rightarrow> bytes \<Rightarrow> bytes \<times> frame list" where
  "fill_frames [] buf = (buf, [])"
| "fill_frames (f # q) buf =
     (let buf' = encode_into f buf in if length buf' \<ge> 131072 then (buf', q) else fill_frames q buf')"

lemma fill_frames_shorter: "fill_frames q buf = (b, q') \<Longrightarrow> length q' \<le> length q"
  by (induction q arbitrary: buf) (fastforce simp: Let_def split: if_splits)+

function client_write_task :: "frame list \<Rightarrow> bytes list" where
  "client_write_task [] = []"
| "client_write_task (f # q) = (case fill_frames q (encode_into f []) of (buf, q') \<Rightarrow> buf # client_write_task q')"
  by pat_completeness auto
termination by (relation "measure length") (auto dest!: fill_frames_shorter [OF sym])

end
