(* ===== verification/Client_Ops.thy ===== *)
theory Client_Ops
  imports Client
begin

text \<open>
  Operations of a client connection (\<open>connection.rs\<close>) and of the client with its tracked subscriptions and
  reconnection (\<open>client.rs\<close>).  What other tasks do to the connection while an operation waits is the parameter
  \<open>client_env\<close>: for the SUBACK, and during a pause between two attempts; so are the outcome of a new connection and the
  iteration order of a hash map.
\<close>

section \<open>Operations of a connection\<close>

definition next_sub_id :: "('tx, 'w) connection \<Rightarrow> u64 \<times> ('tx, 'w) connection" where
  "next_sub_id c = (sub_counter c, c\<lparr>sub_counter := sub_counter c + 1\<rparr>)"

definition send_frame :: "frame \<Rightarrow> ('tx, 'w) connection \<Rightarrow> (client_error + unit) \<times> ('tx, 'w) connection" where
  "send_frame f c =
     (if \<not> has_write_tx c then (Inl Disconnected, c)
      else (case channel_send f c of (True, c') \<Rightarrow> (Inr (), c') | (False, c') \<Rightarrow> (Inl Disconnected, c')))"

definition oneshot_channel :: "('tx, 'w) connection \<Rightarrow> nat \<times> ('tx, 'w) connection" where
  "oneshot_channel c = (oneshots c, c\<lparr>oneshots := oneshots c + 1\<rparr>)"

text \<open>\<open>suback_rx.await\<close>: what it returns and the connection by then.\<close>

type_synonym ('tx, 'w) suback_wait = "nat \<Rightarrow> ('tx, 'w) connection \<Rightarrow> (client_error + u64) \<times> ('tx, 'w) connection"

definition subscribe_send ::
  "('tx, 'w) suback_wait \<Rightarrow> u64 \<Rightarrow> frame \<Rightarrow> 'tx \<Rightarrow> ('tx, 'w) connection \<Rightarrow> (client_error + u64) \<times> ('tx, 'w) connection" where
  "subscribe_send wait corr_id f tx c =
     (let (suback_tx, c1) = oneshot_channel c;
          c2 = set_pending_subs (AList.update corr_id suback_tx) c1
      in case send_frame f c2 of
           (Inl e, c3) \<Rightarrow> (Inl e, c3)
         | (Inr _, c3) \<Rightarrow>
             (case wait suback_tx c3 of
                (Inl e, c4) \<Rightarrow> (Inl e, c4)
              | (Inr server_sub_id, c4) \<Rightarrow> (Inr server_sub_id, set_subs (AList.update server_sub_id tx) c4)))"

definition remove_subscription :: "u64 \<Rightarrow> ('tx, 'w) connection \<Rightarrow> ('tx, 'w) connection" where
  "remove_subscription i c = set_subs (AList.delete i) c"

text \<open>\<open>flush\<close> up to its wait, with the correlation id and the oneshot it waits for, and what it does when the time is over.\<close>

definition flush_begin :: "('tx, 'w) connection \<Rightarrow> (client_error + u64 \<times> nat) \<times> ('tx, 'w) connection" where
  "flush_begin c =
     (let (corr_id, c1) = next_sub_id c;
          (flush_tx, c2) = oneshot_channel c1;
          c3 = set_pending_flush (AList.update corr_id flush_tx) c2
      in case send_frame (frame_new Ping corr_id) c3 of
           (Inl e, c4) \<Rightarrow> (Inl e, set_pending_flush (AList.delete corr_id) c4)
         | (Inr _, c4) \<Rightarrow> (Inr (corr_id, flush_tx), c4))"

definition flush_timeout :: "u64 \<Rightarrow> ('tx, 'w) connection \<Rightarrow> client_error \<times> ('tx, 'w) connection" where
  "flush_timeout corr_id c = (Timeout, set_pending_flush (AList.delete corr_id) c)"

definition conn_close :: "('tx, 'w) connection \<Rightarrow> ('tx, 'w) connection" where
  "conn_close c = c\<lparr>connected := False, has_write_tx := False, writer_alive := False\<rparr>"

section \<open>Connecting\<close>

text \<open>
  What \<open>connect\<close> relies on: the TCP connection with the reads it will return, the TLS session made of it, the
  environment variables, and rustls's test of server names.
\<close>

record net =
  net_tcp :: "str \<Rightarrow> client_error + bytes list"
  net_tls :: "cert_check \<Rightarrow> str \<Rightarrow> bytes list \<Rightarrow> client_error + bytes list"
  net_name_ok :: "str \<Rightarrow> bool"
  net_allow_insecure :: "str option"
  net_server_name :: "str option"

definition open_stream :: "net \<Rightarrow> client_options \<Rightarrow> client_error + bytes list" where
  "open_stream N opts =
     (case net_tcp N (addr opts) of
        Inl e \<Rightarrow> Inl e
      | Inr reads \<Rightarrow>
          if tls opts then
            (case build_tls_connector (net_allow_insecure N) (tls_skip_verify opts) of
               Inl e \<Rightarrow> Inl e
             | Inr connector \<Rightarrow>
                 (case resolve_tls_server_name_from_inputs (addr opts) (net_server_name N) of
                    Inl e \<Rightarrow> Inl e
                  | Inr server_name \<Rightarrow>
                      if \<not> net_name_ok N server_name then Inl (ConnectionFailed (lit ''invalid TLS server name''))
                      else net_tls N connector server_name reads))
          else Inr reads)"

definition connection_new :: "frame \<Rightarrow> 'w \<Rightarrow> ('tx, 'w) connection" where
  "connection_new f w = \<lparr>has_write_tx = True, writer_alive = True, conn_out = [f], conn_buf = [],
     conn_st = \<lparr>cs_subscriptions = [], pending_subs = [], pending_flush = []\<rparr>,
     sub_counter = 1, connected = True, oneshots = 0, signals = [], conn_chan = w\<rparr>"

text \<open>The new connection and the reads left for its read task; \<open>None\<close> while the handshake is undecided.\<close>

definition connect :: "net \<Rightarrow> client_options \<Rightarrow> 'w \<Rightarrow> (client_error + ('tx, 'w) connection \<times> bytes list) option" where
  "connect N opts w =
     (case open_stream N opts of
        Inl e \<Rightarrow> Some (Inl e)
      | Inr reads \<Rightarrow>
          (case handshake (max_frame_size opts) reads [] of
             (HsConnected, reads') \<Rightarrow> Some (Inr (connection_new (handshake_frame opts) w, reads'))
           | (HsFailed e, _) \<Rightarrow> Some (Inl e)
           | _ \<Rightarrow> None))"

section \<open>The client\<close>

record 'tx active_subscription =
  as_subject :: str
  as_queue_group :: "str option"
  as_server_sub_id :: u64
  as_tx :: 'tx

type_synonym 'tx tracked = "(u64 \<times> 'tx active_subscription) list"

record ('tx, 'w) client =
  cl_conn :: "('tx, 'w) connection"
  cl_opts :: client_options
  cl_subs :: "'tx tracked"
  inbox_prefix :: str
  reply_counter :: u64
  cl_closed :: bool

text \<open>\<open>generate_inbox_prefix\<close>: \<open>_INBOX.{:016x}.{}\<close> of a random number and the process-wide counter.\<close>

definition hex16 :: "u64 \<Rightarrow> str" where
  "hex16 w = map (\<lambda>k. hex_digit 97 (unat w div 16 ^ k mod 16)) (rev [0 ..< 16])"

definition generate_inbox_prefix :: "u64 \<Rightarrow> u64 \<Rightarrow> str \<times> u64" where
  "generate_inbox_prefix rand_part n = (lit ''_INBOX.'' @ hex16 rand_part @ lit ''.'' @ dec (unat n), n + 1)"

definition connect_with_options ::
  "net \<Rightarrow> client_options \<Rightarrow> u64 \<Rightarrow> u64 \<Rightarrow> 'w \<Rightarrow> (client_error + ('tx, 'w) client \<times> bytes list) option" where
  "connect_with_options N opts rand_part n w =
     (case connect N opts w of
        None \<Rightarrow> None
      | Some (Inl e) \<Rightarrow> Some (Inl e)
      | Some (Inr (c, reads)) \<Rightarrow>
          Some (Inr (\<lparr>cl_conn = c, cl_opts = opts, cl_subs = [], inbox_prefix = fst (generate_inbox_prefix rand_part n),
            reply_counter = 0, cl_closed = False\<rparr>, reads)))"

record ('tx, 'w) client_env =
  ce_wait :: "('tx, 'w) suback_wait"
  ce_pause :: "nat \<Rightarrow> ('tx, 'w) connection \<Rightarrow> ('tx, 'w) connection"
  ce_connect :: "nat \<Rightarrow> client_error + ('tx, 'w) connection"
  ce_iter :: "'tx tracked \<Rightarrow> 'tx tracked"

text \<open>The loop of \<open>replay_subscriptions\<close>: the remapping, or the first error.\<close>

fun resubscribe ::
  "('tx, 'w) suback_wait \<Rightarrow> 'tx tracked \<Rightarrow> ('tx, 'w) connection \<Rightarrow> (client_error + (u64 \<times> u64) list) \<times> ('tx, 'w) connection" where
  "resubscribe wait [] c = (Inr [], c)"
| "resubscribe wait ((stable_id, a) # as) c =
     (let (corr_id, c1) = next_sub_id c in
      case subscribe_send wait corr_id (build_sub_frame (as_subject a) (as_queue_group a) corr_id) (as_tx a) c1 of
        (Inl e, c2) \<Rightarrow> (Inl e, c2)
      | (Inr server_sub_id, c2) \<Rightarrow>
          (case resubscribe wait as c2 of
             (Inl e, c3) \<Rightarrow> (Inl e, c3)
           | (Inr remapped, c3) \<Rightarrow> (Inr ((stable_id, server_sub_id) # remapped), c3)))"

definition remap :: "u64 \<times> u64 \<Rightarrow> 'tx tracked \<Rightarrow> 'tx tracked" where
  "remap = (\<lambda>(stable_id, server_sub_id) subs.
     case map_of subs stable_id of
       None \<Rightarrow> subs
     | Some a \<Rightarrow> AList.update stable_id (a\<lparr>as_server_sub_id := server_sub_id\<rparr>) subs)"

definition replay_subscriptions ::
  "('tx, 'w) client_env \<Rightarrow> 'tx tracked \<Rightarrow> ('tx, 'w) connection \<Rightarrow> (client_error + unit) \<times> ('tx, 'w) connection \<times> 'tx tracked" where
  "replay_subscriptions E subs c =
     (case resubscribe (ce_wait E) (ce_iter E subs) c of
        (Inl e, c') \<Rightarrow> (Inl e, c', subs)
      | (Inr remapped, c') \<Rightarrow> (Inr (), c', fold remap remapped subs))"

definition saturating_mul :: "nat \<Rightarrow> nat \<Rightarrow> nat" where
  "saturating_mul d n = min (d * n) DURATION_MAX"

text \<open>The attempts still to make, the number of this one, the delay and the last error; the pauses made are returned.\<close>

primrec reconnect_loop ::
  "nat \<Rightarrow> ('tx, 'w) client_env \<Rightarrow> client_options \<Rightarrow> bool \<Rightarrow> nat \<Rightarrow> nat \<Rightarrow> client_error \<Rightarrow> 'tx tracked \<Rightarrow> ('tx, 'w) connection \<Rightarrow>
   (client_error + unit) \<times> nat list \<times> ('tx, 'w) connection \<times> 'tx tracked" where
  "reconnect_loop 0 E opts wait_first attempt delay last_error subs c = (Inl last_error, [], c, subs)"
| "reconnect_loop (Suc n) E opts wait_first attempt delay last_error subs c =
     (let pauses = (if wait_first \<or> attempt > 0 then [delay] else []);
          c1 = (if wait_first \<or> attempt > 0 then ce_pause E delay c else c)
      in if connected c1 then (Inr (), pauses, c1, subs)
         else
           (case ce_connect E attempt of
              Inr c2 \<Rightarrow> (case replay_subscriptions E subs c2 of (r, c3, subs') \<Rightarrow> (r, pauses, c3, subs'))
            | Inl e \<Rightarrow>
                (case reconnect_loop n E opts wait_first (attempt + 1)
                        (if reconnect_backoff opts then saturating_mul delay 2 else delay) e subs (conn_close c1) of
                   (r, ps, c', subs') \<Rightarrow> (r, pauses @ ps, c', subs'))))"

definition reconnect_once ::
  "('tx, 'w) client_env \<Rightarrow> client_options \<Rightarrow> bool \<Rightarrow> 'tx tracked \<Rightarrow> ('tx, 'w) connection \<Rightarrow>
   (client_error + unit) \<times> nat list \<times> ('tx, 'w) connection \<times> 'tx tracked" where
  "reconnect_once E opts wait_first subs c =
     reconnect_loop (max_reconnect_attempts opts) E opts wait_first 0 (reconnect_delay opts) Disconnected subs c"

definition ensure_connected :: "('tx, 'w) client_env \<Rightarrow> ('tx, 'w) client \<Rightarrow> (client_error + unit) \<times> ('tx, 'w) client" where
  "ensure_connected E cl =
     (if \<not> reconnect_enabled (cl_opts cl) \<or> connected (cl_conn cl) then (Inr (), cl)
      else
        (case reconnect_once E (cl_opts cl) False (cl_subs cl) (cl_conn cl) of
           (r, _, c, subs) \<Rightarrow> (r, cl\<lparr>cl_conn := c, cl_subs := subs\<rparr>)))"

text \<open>One round of the background loop of \<open>spawn_reconnect_loop\<close>.\<close>

definition reconnect_round :: "('tx, 'w) client_env \<Rightarrow> ('tx, 'w) client \<Rightarrow> ('tx, 'w) client" where
  "reconnect_round E cl =
     (if cl_closed cl \<or> connected (cl_conn cl) then cl
      else
        (case reconnect_once E (cl_opts cl) True (cl_subs cl) (cl_conn cl) of
           (_, _, c, subs) \<Rightarrow> cl\<lparr>cl_conn := c, cl_subs := subs\<rparr>))"

definition subscribe_internal ::
  "('tx, 'w) client_env \<Rightarrow> str \<Rightarrow> str option \<Rightarrow> bool \<Rightarrow> 'tx \<Rightarrow> ('tx, 'w) client \<Rightarrow> (client_error + u64) \<times> ('tx, 'w) client" where
  "subscribe_internal E subj queue_group track_reconnect tx cl =
     (case ensure_connected E cl of
        (Inl e, cl1) \<Rightarrow> (Inl e, cl1)
      | (Inr _, cl1) \<Rightarrow>
          (let (corr_id, c1) = next_sub_id (cl_conn cl1) in
           case subscribe_send (ce_wait E) corr_id (build_sub_frame subj queue_group corr_id) tx c1 of
             (Inl e, c2) \<Rightarrow> (Inl e, cl1\<lparr>cl_conn := c2\<rparr>)
           | (Inr i, c2) \<Rightarrow>
               (Inr i, cl1\<lparr>cl_conn := c2, cl_subs := (if track_reconnect
                  then AList.update i \<lparr>as_subject = subj, as_queue_group = queue_group, as_server_sub_id = i, as_tx = tx\<rparr> (cl_subs cl1)
                  else cl_subs cl1)\<rparr>)))"

definition client_unsubscribe :: "u64 \<Rightarrow> ('tx, 'w) client \<Rightarrow> (client_error + unit) \<times> ('tx, 'w) client" where
  "client_unsubscribe i cl =
     (let server_sub_id = (case map_of (cl_subs cl) i of Some a \<Rightarrow> as_server_sub_id a | None \<Rightarrow> i);
          cl1 = cl\<lparr>cl_subs := AList.delete i (cl_subs cl)\<rparr>
      in case send_frame (unsub_frame server_sub_id) (cl_conn cl1) of
           (Inl e, c) \<Rightarrow> (Inl e, cl1\<lparr>cl_conn := c\<rparr>)
         | (Inr _, c) \<Rightarrow> (Inr (), cl1\<lparr>cl_conn := remove_subscription server_sub_id c\<rparr>))"

definition publish_with_reply ::
  "('tx, 'w) client_env \<Rightarrow> str \<Rightarrow> str option \<Rightarrow> bytes \<Rightarrow> header_map option \<Rightarrow> ('tx, 'w) client \<Rightarrow> (client_error + unit) \<times> ('tx, 'w) client" where
  "publish_with_reply E subj reply_to payload hs cl =
     (case ensure_connected E cl of
        (Inl e, cl1) \<Rightarrow> (Inl e, cl1)
      | (Inr _, cl1) \<Rightarrow>
          (case send_frame (pub_frame subj reply_to payload hs) (cl_conn cl1) of (r, c) \<Rightarrow> (r, cl1\<lparr>cl_conn := c\<rparr>)))"

definition reply_subject_of :: "('tx, 'w) client \<Rightarrow> str" where
  "reply_subject_of cl = inbox_prefix cl @ lit ''.'' @ dec (unat (reply_counter cl))"

text \<open>
  \<open>request\<close>: \<open>next\<close> is what \<open>reply_sub.next()\<close> gives within the time, by then with the given connection;
  a time-out and a closed channel return without unsubscribing.
\<close>

definition request ::
  "('tx, 'w) client_env \<Rightarrow> (u64 \<Rightarrow> ('tx, 'w) client \<Rightarrow> (client_error + client_message) \<times> ('tx, 'w) client) \<Rightarrow>
   str \<Rightarrow> bytes \<Rightarrow> 'tx \<Rightarrow> ('tx, 'w) client \<Rightarrow> (client_error + client_message) \<times> ('tx, 'w) client" where
  "request E next subj payload tx cl =
     (let reply_subject = reply_subject_of cl;
          cl1 = cl\<lparr>reply_counter := reply_counter cl + 1\<rparr>
      in case subscribe_internal E reply_subject None False tx cl1 of
           (Inl e, cl2) \<Rightarrow> (Inl e, cl2)
         | (Inr i, cl2) \<Rightarrow>
             (case publish_with_reply E subj (Some reply_subject) payload None cl2 of
                (Inl e, cl3) \<Rightarrow> (Inl e, cl3)
              | (Inr _, cl3) \<Rightarrow>
                  (case next i cl3 of
                     (Inl e, cl4) \<Rightarrow> (Inl e, cl4)
                   | (Inr m, cl4) \<Rightarrow> (Inr m, snd (client_unsubscribe i cl4)))))"

text \<open>\<open>flush\<close> and \<open>send_frame\<close> of the client connect first; \<open>client_flush\<close> goes up to the wait.\<close>

definition client_flush :: "('tx, 'w) client_env \<Rightarrow> ('tx, 'w) client \<Rightarrow> (client_error + u64 \<times> nat) \<times> ('tx, 'w) client" where
  "client_flush E cl =
     (case ensure_connected E cl of
        (Inl e, cl1) \<Rightarrow> (Inl e, cl1)
      | (Inr _, cl1) \<Rightarrow> (case flush_begin (cl_conn cl1) of (r, c) \<Rightarrow> (r, cl1\<lparr>cl_conn := c\<rparr>)))"

definition client_send_frame :: "('tx, 'w) client_env \<Rightarrow> frame \<Rightarrow> ('tx, 'w) client \<Rightarrow> (client_error + unit) \<times> ('tx, 'w) client" where
  "client_send_frame E f cl =
     (case ensure_connected E cl of
        (Inl e, cl1) \<Rightarrow> (Inl e, cl1)
      | (Inr _, cl1) \<Rightarrow> (case send_frame f (cl_conn cl1) of (r, c) \<Rightarrow> (r, cl1\<lparr>cl_conn := c\<rparr>)))"

definition client_close :: "('tx, 'w) client \<Rightarrow> ('tx, 'w) client" where
  "client_close cl = (if cl_closed cl then cl else cl\<lparr>cl_closed := True, cl_conn := conn_close (cl_conn cl)\<rparr>)"

end
