(* ===== verification/Client_Read.thy ===== *)
theory Client_Read
  imports Client_Ops Session_Channel
begin

text \<open>
  What the read task makes of the bytes of a server: the frames in order, whatever the reads are, and from the MSG
  frames what the channel of each subscription receives.
\<close>

section \<open>Frames in order\<close>

fun read_seq :: "('tx, 'w) tx_send \<Rightarrow> frame list \<Rightarrow> ('tx, 'w) connection \<Rightarrow> ('tx, 'w) connection option" where
  "read_seq send [] c = Some c"
| "read_seq send (f # fs) c = (case read_frame send f c of None \<Rightarrow> None | Some c' \<Rightarrow> read_seq send fs c')"

lemma read_seq_append: "read_seq send (fs @ gs) c = Option.bind (read_seq send fs c) (read_seq send gs)"
  by (induction fs arbitrary: c) (auto split: option.split)

lemma read_frame_buf:
  "read_frame send f (c\<lparr>conn_buf := b\<rparr>) = map_option (\<lambda>c'. c'\<lparr>conn_buf := b\<rparr>) (read_frame send f c)"
proof -
  have "dispatch_msg send f (c\<lparr>conn_buf := b\<rparr>) = map_option (\<lambda>(r, c'). (r, c'\<lparr>conn_buf := b\<rparr>)) (dispatch_msg send f c)"
    by (simp add: dispatch_msg_def split: option.split sum.split prod.split bool.split bind_split)
  moreover have "resolve_suback f (c\<lparr>conn_buf := b\<rparr>) = (resolve_suback f c)\<lparr>conn_buf := b\<rparr>"
    by (simp add: resolve_suback_def Let_def split: option.split)
  moreover have "resolve_flush i (c\<lparr>conn_buf := b\<rparr>) = (resolve_flush i c)\<lparr>conn_buf := b\<rparr>" for i
    by (simp add: resolve_flush_def split: option.split)
  moreover have "snd (channel_send g (c\<lparr>conn_buf := b\<rparr>)) = (snd (channel_send g c))\<lparr>conn_buf := b\<rparr>" for g
    by (simp add: channel_send_def)
  ultimately show ?thesis
    by (simp add: read_frame_def option.map_comp comp_def case_prod_unfold split: sum.split frame_type.split)
qed

lemma read_seq_buf: "read_seq send fs (c\<lparr>conn_buf := b\<rparr>) = map_option (\<lambda>c'. c'\<lparr>conn_buf := b\<rparr>) (read_seq send fs c)"
  by (induction fs arbitrary: c) (auto simp: read_frame_buf split: option.split)

lemma read_frames_drain:
  "list_all (frame_wf READ_MAX) fs \<Longrightarrow> drain READ_MAX p = ([], p) \<Longrightarrow>
     read_frames send (wire fs @ p) c = map_option (Pair p) (read_seq send fs c)"
proof (induction fs arbitrary: c)
  case Nil
  show ?case
  proof (cases rule: decode_from_cases [of READ_MAX p])
    case short
    then show ?thesis by (subst read_frames.simps) simp
  next
    case (frame f)
    then show ?thesis using Nil by (subst (asm) drain.simps) (simp split: prod.splits)
  next
    case (big n)
    then show ?thesis using Nil by (subst (asm) drain.simps) (auto simp: decode_from_def FRAME_HEADER_SIZE_def)
  next
    case (bad e n)
    then show ?thesis using Nil by (subst (asm) drain.simps) (auto simp: decode_from_def FRAME_HEADER_SIZE_def)
  qed
next
  case (Cons f fs)
  have "decode_from READ_MAX (frame_encode f @ wire fs @ p) = Some (Inr (Some f), wire fs @ p)"
    using Cons.prems(1) by (simp add: decode_from_encode)
  then show ?case
    using Cons by (subst read_frames.simps) (simp split: option.split)
qed

text \<open>However the bytes are cut, the task handles the frames one after the other.\<close>

lemma read_task_wire:
  assumes wf: "list_all (frame_wf READ_MAX) fs" and w: "wire fs = conn_buf c @ concat reads"
    and inc: "drain READ_MAX (conn_buf c) = ([], conn_buf c)" and ne: "[] \<notin> set reads"
  shows "read_task send reads c = map_option (\<lambda>c'. c'\<lparr>conn_buf := []\<rparr>) (read_seq send fs c)"
  using wf w inc ne
proof (induction reads arbitrary: fs c)
  case Nil
  have "fs = []"
  proof (cases fs)
    case (Cons f gs)
    then have "fst (drain READ_MAX (conn_buf c)) \<noteq> []"
      using Nil.prems(1,2) drain_frame [of READ_MAX f "wire gs"] by (auto split: prod.splits)
    with Nil.prems(3) show ?thesis by simp
  qed
  with Nil.prems(2) show ?case by simp
next
  case (Cons r reads)
  have r: "r \<noteq> []" using Cons.prems(4) by auto
  from drain_prefix [OF Cons.prems(1), of "conn_buf c @ r" "concat reads"] Cons.prems(2) obtain m p where
    d: "drain READ_MAX (conn_buf c @ r) = (take m fs, p)" and q: "conn_buf c @ r = wire (take m fs) @ p" by auto
  have fs: "fs = take m fs @ drop m fs" by simp
  have p: "drain READ_MAX p = ([], p)" by (rule drain_rest [OF d])
  have wf: "list_all (frame_wf READ_MAX) (take m fs)" "list_all (frame_wf READ_MAX) (drop m fs)"
    using Cons.prems(1) by (auto simp: list_all_iff dest: in_set_takeD in_set_dropD)
  have "wire (take m fs) @ wire (drop m fs) = wire (take m fs) @ p @ concat reads"
    using Cons.prems(2) q by (metis append_assoc append_take_drop_id concat.simps(2) concat_append map_append)
  then have w: "wire (drop m fs) = p @ concat reads" by simp
  have rd: "read_frames send (conn_buf c @ r) c = map_option (Pair p) (read_seq send (take m fs) c)"
    unfolding q by (rule read_frames_drain [OF wf(1) p])
  have step: "read_seq send fs c = Option.bind (read_seq send (take m fs) c) (read_seq send (drop m fs))"
    by (subst fs, rule read_seq_append)
  show ?case
  proof (cases "read_seq send (take m fs) c")
    case None
    then show ?thesis using rd step r by simp
  next
    case (Some c')
    have "read_task send reads (c'\<lparr>conn_buf := p\<rparr>) = map_option (\<lambda>c'. c'\<lparr>conn_buf := []\<rparr>) (read_seq send (drop m fs) (c'\<lparr>conn_buf := p\<rparr>))"
      using wf(2) w p Cons.prems(4) by (intro Cons.IH) simp_all
    then show ?thesis using rd step Some r by (simp add: read_seq_buf option.map_comp comp_def)
  qed
qed

section \<open>Channels of subscriptions\<close>

lemma msg_frame_type: "from_u8 (h_frame_type (f_header (msg_frame m))) = Inr Msg"
  by (simp add: msg_frame_def with_payload_size_def frame_header_new_def Let_def del: as_u8.simps)

text \<open>Frames other than MSG touch neither the subscriptions nor their channels.\<close>

lemma resolve_simps [simp]:
  "cs_subscriptions (conn_st (resolve_suback f c)) = cs_subscriptions (conn_st c)"
  "conn_chan (resolve_suback f c) = conn_chan c" "conn_out (resolve_suback f c) = conn_out c"
  "cs_subscriptions (conn_st (resolve_flush i c)) = cs_subscriptions (conn_st c)"
  "conn_chan (resolve_flush i c) = conn_chan c" "conn_out (resolve_flush i c) = conn_out c"
  by (simp_all add: resolve_suback_def resolve_flush_def Let_def split: option.split)

lemma read_frame_other:
  assumes "from_u8 (h_frame_type (f_header f)) \<noteq> Inr Msg"
  shows "\<exists>c'. read_frame send f c = Some c' \<and> cs_subscriptions (conn_st c') = cs_subscriptions (conn_st c) \<and>
     conn_chan c' = conn_chan c \<and> (\<exists>ys. conn_out c' = conn_out c @ ys)"
proof (cases "from_u8 (h_frame_type (f_header f))")
  case (Inr ft)
  then show ?thesis using assms by (cases ft) (simp_all add: read_frame_def channel_send_def)
qed (simp add: read_frame_def)

definition client_msg :: "delivery_message \<Rightarrow> client_message" where
  "client_msg m = \<lparr>cm_subject = s_raw (d_subject m), cm_reply_to = map_option s_raw (d_reply_to m),
     cm_headers = d_headers m, cm_payload = d_payload m\<rparr>"

definition outbound_ok :: "outbound_frame \<Rightarrow> bool" where
  "outbound_ok x = (case x of
     Raw f \<Rightarrow> frame_wf READ_MAX f \<and> from_u8 (h_frame_type (f_header f)) \<noteq> Inr Msg
   | MsgOut m \<Rightarrow> msg_ok READ_MAX m)"

lemma outbound_ok_wf: "outbound_ok x \<Longrightarrow> frame_wf READ_MAX (outbound_wire x)"
  by (cases x) (simp_all add: outbound_ok_def msg_frame_wf)

text \<open>
  What the read task relies on of \<open>mpsc::Sender::send\<close>: it fails exactly when the receiver is gone, and a message
  that is sent is appended to what its channel received.
\<close>

locale message_channel =
  fixes send :: "('tx, 'w) tx_send" and received :: "'w \<Rightarrow> 'tx \<Rightarrow> client_message list" and live :: "'w \<Rightarrow> 'tx \<Rightarrow> bool"
  assumes sent: "send tx m w = (ok, w') \<Longrightarrow> ok = live w tx \<and> live w' = live w \<and>
      received w' = (if ok then (received w)(tx := received w tx @ [m]) else received w)"
begin

text \<open>What a frame leaves alone: the entries of the channels that are live, and who is live.\<close>

definition keeps_live :: "('tx, 'w) connection \<Rightarrow> ('tx, 'w) connection \<Rightarrow> bool" where
  "keeps_live c c' \<longleftrightarrow> live (conn_chan c') = live (conn_chan c) \<and>
     (\<forall>i tx. live (conn_chan c) tx \<longrightarrow> (subs_of c' i = Some tx) = (subs_of c i = Some tx))"

lemma keeps_live_refl [simp]: "keeps_live c c"
  by (simp add: keeps_live_def)

lemma keeps_live_trans: "keeps_live a b \<Longrightarrow> keeps_live b c \<Longrightarrow> keeps_live a c"
  by (simp add: keeps_live_def)

lemma dispatch_msg_effect:
  assumes "dispatch_msg send f c = Some (r, c')"
  shows "keeps_live c c' \<and> conn_out c' = conn_out c"
  using assms
proof (cases "decode_msg f")
  case (Some d)
  show ?thesis
  proof (cases d)
    case (Inr im)
    obtain i m where im: "im = (i, m)" by (cases im)
    show ?thesis
    proof (cases "subs_of c i")
      case None
      then show ?thesis using assms Some Inr im by (simp add: dispatch_msg_def)
    next
      case (Some tx)
      obtain ok w where s: "send tx m (conn_chan c) = (ok, w)" by fastforce
      from sent [OF s] have l: "ok = live (conn_chan c) tx" "live w = live (conn_chan c)" by simp_all
      have "c' = (if ok then c\<lparr>conn_chan := w\<rparr> else set_subs (AList.delete i) (c\<lparr>conn_chan := w\<rparr>))"
        using assms \<open>decode_msg f = Some d\<close> Inr im Some s by (simp add: dispatch_msg_def split: bool.splits)
      with l Some show ?thesis by (auto simp: keeps_live_def delete_conv')
    qed
  qed (use assms Some in \<open>simp add: dispatch_msg_def\<close>)
qed (simp add: dispatch_msg_def)

lemma read_frame_effect:
  assumes "read_frame send f c = Some c'"
  shows "keeps_live c c' \<and> (\<exists>ys. conn_out c' = conn_out c @ ys)"
proof (cases "from_u8 (h_frame_type (f_header f)) = Inr Msg")
  case True
  then show ?thesis using assms dispatch_msg_effect [of f c] by (auto simp: read_frame_def)
next
  case False
  from read_frame_other [OF False, of send c] assms show ?thesis by (auto simp: keeps_live_def)
qed

lemma read_frame_msg:
  assumes "msg_ok k m"
  shows "\<exists>c'. read_frame send (msg_frame m) c = Some c' \<and>
     (\<forall>tx. live (conn_chan c) tx \<longrightarrow> received (conn_chan c') tx =
        received (conn_chan c) tx @ (if subs_of c (d_subscription_id m) = Some tx then [client_msg m] else []))"
proof -
  note t = msg_frame_type [of m]
  show ?thesis
  proof (cases "subs_of c (d_subscription_id m)")
    case None
    then show ?thesis using t decode_msg_frame [OF assms] by (simp add: read_frame_def dispatch_msg_def)
  next
    case (Some tx)
    obtain ok w where s: "send tx (client_msg m) (conn_chan c) = (ok, w)" by fastforce
    have "dispatch_msg send (msg_frame m) c =
        Some (Inr (), if ok then c\<lparr>conn_chan := w\<rparr> else set_subs (AList.delete (d_subscription_id m)) (c\<lparr>conn_chan := w\<rparr>))"
      using decode_msg_frame [OF assms] Some s by (simp add: dispatch_msg_def client_msg_def)
    then show ?thesis using t sent [OF s] Some by (auto simp: read_frame_def)
  qed
qed

lemma read_frame_outbound:
  assumes "outbound_ok x"
  shows "\<exists>c'. read_frame send (outbound_wire x) c = Some c' \<and> keeps_live c c' \<and>
     (\<forall>tx. live (conn_chan c) tx \<longrightarrow> received (conn_chan c') tx =
        received (conn_chan c) tx @ [client_msg m. m \<leftarrow> msgs_of [x], subs_of c (d_subscription_id m) = Some tx])"
proof (cases x)
  case (Raw f)
  then have f: "from_u8 (h_frame_type (f_header f)) \<noteq> Inr Msg" using assms by (simp add: outbound_ok_def)
  from read_frame_other [OF f, of send c] obtain c' where c': "read_frame send f c = Some c'" "conn_chan c' = conn_chan c" by blast
  then show ?thesis using Raw read_frame_effect [OF c'(1)] by (simp add: msgs_of_def List.map_filter_def)
next
  case (MsgOut m)
  then have "msg_ok READ_MAX m" using assms by (simp add: outbound_ok_def)
  from read_frame_msg [OF this, of c] obtain c' where c': "read_frame send (msg_frame m) c = Some c'"
    "\<forall>tx. live (conn_chan c) tx \<longrightarrow> received (conn_chan c') tx =
        received (conn_chan c) tx @ (if subs_of c (d_subscription_id m) = Some tx then [client_msg m] else [])" by blast
  then show ?thesis using MsgOut read_frame_effect [OF c'(1)] by (simp add: msgs_of_def List.map_filter_def)
qed

lemma read_seq_outbound:
  "list_all outbound_ok q \<Longrightarrow>
   \<exists>c'. read_seq send (map outbound_wire q) c = Some c' \<and> keeps_live c c' \<and>
     (\<forall>tx. live (conn_chan c) tx \<longrightarrow> received (conn_chan c') tx =
        received (conn_chan c) tx @ [client_msg m. m \<leftarrow> msgs_of q, subs_of c (d_subscription_id m) = Some tx])"
proof (induction q arbitrary: c)
  case Nil
  then show ?case by simp
next
  case (Cons x q)
  from read_frame_outbound [of x c] Cons.prems obtain c1 where c1: "read_frame send (outbound_wire x) c = Some c1" "keeps_live c c1"
    "\<And>tx. live (conn_chan c) tx \<Longrightarrow> received (conn_chan c1) tx =
        received (conn_chan c) tx @ [client_msg m. m \<leftarrow> msgs_of [x], subs_of c (d_subscription_id m) = Some tx]" by auto
  from Cons.IH [of c1] Cons.prems obtain c2 where c2: "read_seq send (map outbound_wire q) c1 = Some c2" "keeps_live c1 c2"
    "\<And>tx. live (conn_chan c1) tx \<Longrightarrow> received (conn_chan c2) tx =
        received (conn_chan c1) tx @ [client_msg m. m \<leftarrow> msgs_of q, subs_of c1 (d_subscription_id m) = Some tx]" by auto
  have "msgs_of (x # q) = msgs_of [x] @ msgs_of q" by (simp add: msgs_of_def List.map_filter_def)
  moreover have "live (conn_chan c1) tx" "(subs_of c1 i = Some tx) = (subs_of c i = Some tx)" if "live (conn_chan c) tx" for tx i
    using that c1(2) by (simp_all add: keeps_live_def)
  ultimately have "received (conn_chan c2) tx =
        received (conn_chan c) tx @ [client_msg m. m \<leftarrow> msgs_of (x # q), subs_of c (d_subscription_id m) = Some tx]"
    if "live (conn_chan c) tx" for tx using that c1(3) c2(3) by simp
  then show ?case using c1(1) c2(1) keeps_live_trans [OF c1(2) c2(2)] by simp
qed

text \<open>From the queue of the server to the channels of the subscriptions.\<close>

lemma queue_received:
  assumes q: "list_all outbound_ok q" and reads: "concat reads = concat (write_task q)" "[] \<notin> set reads"
    and c: "conn_buf c = []"
  shows "\<exists>c'. read_task send reads c = Some c' \<and> conn_buf c' = [] \<and> keeps_live c c' \<and>
     (\<forall>tx. live (conn_chan c) tx \<longrightarrow> received (conn_chan c') tx =
        received (conn_chan c) tx @ [client_msg m. m \<leftarrow> msgs_of q, subs_of c (d_subscription_id m) = Some tx])"
proof -
  have "list_all (frame_wf READ_MAX) (map outbound_wire q)" using q by (auto simp: list_all_iff outbound_ok_wf)
  from read_task_wire [OF this _ _ reads(2), of c send] reads(1) c
  have "read_task send reads c = map_option (\<lambda>c'. c'\<lparr>conn_buf := []\<rparr>) (read_seq send (map outbound_wire q) c)"
    by (simp add: write_task_wire)
  with read_seq_outbound [OF q, of c] show ?thesis by (auto simp: keeps_live_def)
qed

lemma read_frames_effect:
  "read_frames send buf c = Some (b, c') \<Longrightarrow> keeps_live c c' \<and> (\<exists>ys. conn_out c' = conn_out c @ ys)"
proof (induction "length buf" arbitrary: buf c rule: less_induct)
  case less
  show ?case
  proof (cases rule: decode_from_cases [of READ_MAX buf])
    case (frame f)
    let ?rest = "drop (total_frame_size (f_header f)) buf"
    obtain c1 where c1: "read_frame send f c = Some c1" "read_frames send ?rest c1 = Some (b, c')"
      using less.prems frame(1) by (subst (asm) read_frames.simps) (simp split: option.splits)
    have "keeps_live c1 c' \<and> (\<exists>ys. conn_out c' = conn_out c1 @ ys)"
      using c1(2) decode_from_less [OF frame(1)] by (intro less.hyps)
    then show ?thesis using read_frame_effect [OF c1(1)] keeps_live_trans [of c c1 c'] by auto
  qed (use less.prems in \<open>auto simp: read_frames.simps [of send buf c]\<close>)
qed

lemma read_task_effect:
  "read_task send reads c = Some c' \<Longrightarrow> keeps_live c c' \<and> (\<exists>ys. conn_out c' = conn_out c @ ys)"
proof (induction reads arbitrary: c)
  case (Cons chunk reads)
  show ?case
  proof (cases "chunk = []")
    case False
    then obtain b c1 where c1: "read_frames send (conn_buf c @ chunk) c = Some (b, c1)" "read_task send reads (c1\<lparr>conn_buf := b\<rparr>) = Some c'"
      using Cons.prems by (auto split: option.splits)
    have "keeps_live (c1\<lparr>conn_buf := b\<rparr>) c' \<and> (\<exists>ys. conn_out c' = conn_out (c1\<lparr>conn_buf := b\<rparr>) @ ys)" using c1(2) by (rule Cons.IH)
    moreover have "keeps_live c c1 \<and> (\<exists>ys. conn_out c1 = conn_out c @ ys)" by (rule read_frames_effect [OF c1(1)])
    moreover have "keeps_live c1 (c1\<lparr>conn_buf := b\<rparr>)" by (simp add: keeps_live_def)
    ultimately show ?thesis by (auto intro: keeps_live_trans)
  qed (use Cons.prems in \<open>auto simp: keeps_live_def\<close>)
qed simp

end

section \<open>Instances\<close>

text \<open>Channels as lists with the receivers that are there.\<close>

definition mpsc_send :: "('tx, ('tx \<Rightarrow> client_message list) \<times> ('tx \<Rightarrow> bool)) tx_send" where
  "mpsc_send tx m w = (if snd w tx then (True, (fst w)(tx := fst w tx @ [m]), snd w) else (False, w))"

interpretation mpsc: message_channel mpsc_send fst snd
  by unfold_locales (auto simp: mpsc_send_def split: if_splits)

end
