(* ===== verification/Client_Replay.thy ===== *)
theory Client_Replay
  imports Client_Read
begin

text \<open>
  Reconnection: what \<open>replay_subscriptions\<close> does to the new connection and to the tracked subscriptions, whatever
  the read task does while it waits for each SUBACK.
\<close>

section \<open>Waiting for a SUBACK\<close>

text \<open>
  What an operation relies on while it waits: receivers may go away but none comes back, the channels that stay live
  keep their entries, and the write channel only grows.
\<close>

locale suback_waiting =
  fixes wait :: "('tx, 'w) suback_wait" and live :: "'w \<Rightarrow> 'tx \<Rightarrow> bool"
  assumes waited: "wait n c = (r, c') \<Longrightarrow>
      (\<forall>tx. live (conn_chan c') tx \<longrightarrow> live (conn_chan c) tx) \<and>
      (\<forall>i tx. live (conn_chan c') tx \<longrightarrow> subs_of c i = Some tx \<longrightarrow> subs_of c' i = Some tx) \<and>
      (\<exists>ys. conn_out c' = conn_out c @ ys)"
begin

lemma subscribe_send_effect:
  assumes "subscribe_send wait corr f tx c = (Inr i, c')"
  shows "subs_of c' i = Some tx \<and> (\<forall>t. live (conn_chan c') t \<longrightarrow> live (conn_chan c) t) \<and>
    (\<forall>j t. live (conn_chan c') t \<longrightarrow> j \<noteq> i \<longrightarrow> subs_of c j = Some t \<longrightarrow> subs_of c' j = Some t) \<and>
    (\<exists>ys. conn_out c' = conn_out c @ f # ys)"
proof -
  let ?c2 = "set_pending_subs (AList.update corr (oneshots c)) (c\<lparr>oneshots := oneshots c + 1\<rparr>)"
  obtain c3 c4 where s: "send_frame f ?c2 = (Inr (), c3)" and w: "wait (oneshots c) c3 = (Inr i, c4)"
    and c': "c' = set_subs (AList.update i tx) c4"
    using assms by (auto simp: subscribe_send_def oneshot_channel_def Let_def split: prod.splits sum.splits)
  have c3: "cs_subscriptions (conn_st c3) = cs_subscriptions (conn_st c)" "conn_chan c3 = conn_chan c" "conn_out c3 = conn_out c @ [f]"
    using s by (auto simp: send_frame_def channel_send_def split: if_splits)
  from waited [OF w] c3 show ?thesis by (auto simp: c' update_conv')
qed

text \<open>A tracked subscription is in force on a connection: its SUB was sent, and its channel, if live, registered.\<close>

definition in_force :: "('tx, 'w) connection \<Rightarrow> 'tx active_subscription \<Rightarrow> u64 \<Rightarrow> bool" where
  "in_force c a i \<longleftrightarrow> (live (conn_chan c) (as_tx a) \<longrightarrow> subs_of c i = Some (as_tx a)) \<and>
     (\<exists>corr. build_sub_frame (as_subject a) (as_queue_group a) corr \<in> set (conn_out c))"

text \<open>What is kept of a connection when the subscriptions \<open>ids\<close> are made.\<close>

definition grows :: "('tx, 'w) connection \<Rightarrow> u64 set \<Rightarrow> ('tx, 'w) connection \<Rightarrow> bool" where
  "grows c ids c' \<longleftrightarrow> (\<forall>t. live (conn_chan c') t \<longrightarrow> live (conn_chan c) t) \<and>
     (\<forall>j t. live (conn_chan c') t \<longrightarrow> j \<notin> ids \<longrightarrow> subs_of c j = Some t \<longrightarrow> subs_of c' j = Some t) \<and>
     set (conn_out c) \<subseteq> set (conn_out c')"

lemma in_force_grows: "in_force c a i \<Longrightarrow> grows c ids c' \<Longrightarrow> i \<notin> ids \<Longrightarrow> in_force c' a i"
  by (auto simp: in_force_def grows_def)

lemma subscribe_send_grows:
  assumes "subscribe_send wait corr (build_sub_frame (as_subject a) (as_queue_group a) corr) (as_tx a) c = (Inr i, c')"
  shows "grows c {i} c' \<and> in_force c' a i"
  using subscribe_send_effect [OF assms] by (auto simp: grows_def in_force_def)

lemma resubscribe_effect:
  "resubscribe wait as c = (Inr rm, c') \<Longrightarrow> distinct (map snd rm) \<Longrightarrow>
     grows c (set (map snd rm)) c' \<and> list_all2 (\<lambda>(s, a) (s', i). s = s' \<and> in_force c' a i) as rm"
proof (induction as arbitrary: c rm)
  case Nil
  then show ?case by (simp add: grows_def)
next
  case (Cons sa as)
  obtain s a where sa: "sa = (s, a)" by (cases sa)
  obtain i c1 rm' where one: "subscribe_send wait (sub_counter c) (build_sub_frame (as_subject a) (as_queue_group a) (sub_counter c)) (as_tx a)
        (c\<lparr>sub_counter := sub_counter c + 1\<rparr>) = (Inr i, c1)"
    and rest: "resubscribe wait as c1 = (Inr rm', c')" and rm: "rm = (s, i) # rm'"
    using Cons.prems(1) by (auto simp: sa next_sub_id_def split: prod.splits sum.splits)
  have d: "distinct (map snd rm')" "i \<notin> set (map snd rm')" using Cons.prems(2) by (simp_all add: rm)
  from subscribe_send_grows [OF one] have g: "grows c {i} c1" and f: "in_force c1 a i" by (simp_all add: grows_def)
  from Cons.IH [OF rest d(1)] have g': "grows c1 (set (map snd rm')) c'"
    and all: "list_all2 (\<lambda>(s, a) (s', i). s = s' \<and> in_force c' a i) as rm'" by simp_all
  have "grows c (set (map snd rm)) c'" using g g' unfolding grows_def by (auto simp: rm)
  moreover have "in_force c' a i" using f g' d(2) by (rule in_force_grows)
  ultimately show ?case using all by (simp add: rm sa)
qed

end

text \<open>Waiting while the read task handles what it reads: \<open>script\<close> is what arrives while oneshot \<open>n\<close> is awaited.\<close>

definition suback_for :: "nat \<Rightarrow> signal list \<Rightarrow> u64 option" where
  "suback_for n ss = (case List.map_filter (\<lambda>s. case s of SubackIs k i \<Rightarrow> if k = n then Some i else None | _ \<Rightarrow> None) ss of
     [] \<Rightarrow> None | i # _ \<Rightarrow> Some i)"

definition read_wait :: "('tx, 'w) tx_send \<Rightarrow> (nat \<Rightarrow> bytes list) \<Rightarrow> ('tx, 'w) suback_wait" where
  "read_wait send script n c =
     (case read_task send (script n) c of
        None \<Rightarrow> (Inl Disconnected, c)
      | Some c' \<Rightarrow> (case suback_for n (signals c') of None \<Rightarrow> Inl Disconnected | Some i \<Rightarrow> Inr i, c'))"

sublocale message_channel \<subseteq> waiting: suback_waiting "read_wait send script" live for script
proof
  show "(\<forall>tx. live (conn_chan c') tx \<longrightarrow> live (conn_chan c) tx) \<and>
      (\<forall>i tx. live (conn_chan c') tx \<longrightarrow> subs_of c i = Some tx \<longrightarrow> subs_of c' i = Some tx) \<and> (\<exists>ys. conn_out c' = conn_out c @ ys)"
    if w: "read_wait send script n c = (r, c')" for n c r c'
  proof (cases "read_task send (script n) c")
    case None
    then show ?thesis using w by (simp add: read_wait_def)
  next
    case (Some c1)
    then have "c' = c1" using w by (simp add: read_wait_def)
    then show ?thesis using read_task_effect [OF Some] by (auto simp: keeps_live_def)
  qed
qed

section \<open>Remapping\<close>

lemma map_other: "k \<notin> fst ` set xs \<Longrightarrow> map (\<lambda>(s, x). (s, if s = k then g x else x)) xs = xs"
  by (induction xs) auto

lemma update_at: "map_of xs k = Some a \<Longrightarrow> distinct (map fst xs) \<Longrightarrow>
    AList.update k b xs = map (\<lambda>(s, x). (s, if s = k then b else x)) xs"
proof (induction xs)
  case (Cons p xs)
  show ?case
  proof (cases "fst p = k")
    case True
    then have "k \<notin> fst ` set xs" using Cons.prems(2) by auto
    from map_other [OF this, of "\<lambda>_. b"] True show ?thesis by (cases p) simp
  next
    case False
    then show ?thesis using Cons by (cases p) simp
  qed
qed simp

definition remapped :: "(u64 \<times> u64) list \<Rightarrow> 'tx tracked \<Rightarrow> 'tx tracked" where
  "remapped rm subs = map (\<lambda>(s, a). (s, case map_of rm s of None \<Rightarrow> a | Some i \<Rightarrow> a\<lparr>as_server_sub_id := i\<rparr>)) subs"

lemma remap_map:
  "distinct (map fst subs) \<Longrightarrow> remap (s, i) subs = map (\<lambda>(t, a). (t, if t = s then a\<lparr>as_server_sub_id := i\<rparr> else a)) subs"
proof (cases "map_of subs s")
  case None
  then have "s \<notin> fst ` set subs" by (simp add: map_of_eq_None_iff)
  from map_other [OF this] None show ?thesis by (simp add: remap_def)
next
  case (Some a)
  assume d: "distinct (map fst subs)"
  have one: "x = a" if "(s, x) \<in> set subs" for x using map_of_is_SomeI [OF d that] Some by simp
  have "remap (s, i) subs = map (\<lambda>(t, x). (t, if t = s then a\<lparr>as_server_sub_id := i\<rparr> else x)) subs"
    by (simp only: remap_def prod.case Some option.case update_at [OF Some d])
  also have "\<dots> = map (\<lambda>(t, x). (t, if t = s then x\<lparr>as_server_sub_id := i\<rparr> else x)) subs"
  proof (rule map_cong [OF refl])
    fix p assume p: "p \<in> set subs"
    obtain t x where tx: "p = (t, x)" by (rule prod.exhaust)
    show "(case p of (t, x) \<Rightarrow> (t, if t = s then a\<lparr>as_server_sub_id := i\<rparr> else x)) = (case p of (t, x) \<Rightarrow> (t, if t = s then x\<lparr>as_server_sub_id := i\<rparr> else x))"
      unfolding tx using p one [of x] by (cases "t = s") (simp_all add: tx)
  qed
  finally show ?thesis .
qed

lemma fold_remap: "distinct (map fst rm) \<Longrightarrow> distinct (map fst subs) \<Longrightarrow> fold remap rm subs = remapped rm subs"
proof (induction rm arbitrary: subs)
  case Nil
  then show ?case by (simp add: remapped_def map_idI)
next
  case (Cons p rm)
  obtain s i where p: "p = (s, i)" by (cases p)
  let ?subs = "map (\<lambda>(t, a). (t, if t = s then a\<lparr>as_server_sub_id := i\<rparr> else a)) subs"
  have "map fst ?subs = map fst subs" by (auto simp: comp_def)
  then have "distinct (map fst ?subs)" using Cons.prems(2) by (simp only:)
  with Cons.prems(1) have "fold remap rm ?subs = remapped rm ?subs" by (intro Cons.IH) (simp_all only: p list.map distinct.simps)
  moreover have "map_of rm s = None" using Cons.prems(1) by (simp add: p map_of_eq_None_iff)
  ultimately show ?case using Cons.prems(2) by (auto simp: p remap_map remapped_def comp_def intro!: map_cong split: option.split)
qed

section \<open>The replay\<close>

lemma remapped_all:
  assumes "mset as = mset subs" and "distinct (map fst subs)" and "list_all2 (\<lambda>(s, a) (s', i). s = s' \<and> P a i) as rm"
  shows "distinct (map fst rm) \<and> mset (map (as_server_sub_id \<circ> snd) (remapped rm subs)) = mset (map snd rm) \<and>
    (\<forall>(s, a) \<in> set subs. \<exists>i. (s, a\<lparr>as_server_sub_id := i\<rparr>) \<in> set (remapped rm subs) \<and> P a i)"
proof -
  have fst: "map fst rm = map fst as" using assms(3) by (induction rule: list_all2_induct) auto
  have "mset (map fst as) = mset (map fst subs)" using assms(1) by (metis mset_map)
  then have d: "distinct (map fst rm)" using fst assms(2) by (metis mset_eq_imp_distinct_iff)
  have at: "\<exists>i. map_of rm s = Some i \<and> P a i" if "(s, a) \<in> set as" for s a
  proof -
    from that obtain k where k: "k < length as" "as ! k = (s, a)" by (auto simp: in_set_conv_nth)
    then have "k < length rm" "fst (rm ! k) = s" "P a (snd (rm ! k))"
      using assms(3) by (auto simp: list_all2_conv_all_nth)
    then show ?thesis using d by (metis map_of_is_SomeI nth_mem prod.collapse)
  qed
  have "map (\<lambda>(s, a). the (map_of rm s)) as = map snd rm"
  proof -
    have "map (\<lambda>(s, a). the (map_of rm s)) as = map (the \<circ> map_of rm) (map fst rm)" by (simp add: fst comp_def case_prod_unfold)
    also have "\<dots> = map snd rm" using d by (auto simp: comp_def intro!: map_cong)
    finally show ?thesis .
  qed
  moreover have "mset (map (\<lambda>(s, a). the (map_of rm s)) subs) = mset (map (\<lambda>(s, a). the (map_of rm s)) as)"
    by (simp only: mset_map assms(1))
  ultimately have ids: "mset (map (\<lambda>(s, a). the (map_of rm s)) subs) = mset (map snd rm)" by (simp only:)
  have sub: "set as = set subs" using assms(1) by (rule mset_eq_setD)
  have "map (as_server_sub_id \<circ> snd) (remapped rm subs) = map (\<lambda>(s, a). the (map_of rm s)) subs"
    using at sub by (force simp: remapped_def split: option.split)
  then have "mset (map (as_server_sub_id \<circ> snd) (remapped rm subs)) = mset (map snd rm)"
    by (simp only: ids)
  moreover have "\<exists>i. (s, a\<lparr>as_server_sub_id := i\<rparr>) \<in> set (remapped rm subs) \<and> P a i" if "(s, a) \<in> set subs" for s a
    using at [of s a] that sub by (force simp: remapped_def)
  ultimately show ?thesis using d by blast
qed

lemma resubscribe_keys:
  "resubscribe wait as c = (Inr rm, c') \<Longrightarrow> list_all2 (\<lambda>(s, a) (s', i). s = s' \<and> True) as rm"
  by (induction as arbitrary: c rm) (auto split: prod.splits sum.splits)

context suback_waiting
begin

lemma replay_in_force:
  assumes E: "ce_wait E = wait" "mset (ce_iter E subs) = mset subs" and d: "distinct (map fst subs)"
    and r: "replay_subscriptions E subs c = (Inr (), c', subs')" and ids: "distinct (map (as_server_sub_id \<circ> snd) subs')"
  shows "map fst subs' = map fst subs \<and>
    (\<forall>(s, a) \<in> set subs. \<exists>i. (s, a\<lparr>as_server_sub_id := i\<rparr>) \<in> set subs' \<and> in_force c' a i)"
proof -
  obtain rm where rs: "resubscribe wait (ce_iter E subs) c = (Inr rm, c')" and subs': "subs' = fold remap rm subs"
    using r by (auto simp: replay_subscriptions_def E(1) split: prod.splits sum.splits)
  have keys: "list_all2 (\<lambda>(s, a) (s', i). s = s' \<and> True) (ce_iter E subs) rm" by (rule resubscribe_keys [OF rs])
  from remapped_all [OF E(2) d keys] have rm: "distinct (map fst rm)"
    and m: "mset (map (as_server_sub_id \<circ> snd) (remapped rm subs)) = mset (map snd rm)" by simp_all
  have subs'': "subs' = remapped rm subs" unfolding subs' by (rule fold_remap [OF rm d])
  have "distinct (map snd rm)" using ids m unfolding subs'' by (metis mset_eq_imp_distinct_iff)
  from resubscribe_effect [OF rs this] have "list_all2 (\<lambda>(s, a) (s', i). s = s' \<and> in_force c' a i) (ce_iter E subs) rm" by simp
  from remapped_all [OF E(2) d this] have
    "\<forall>(s, a) \<in> set subs. \<exists>i. (s, a\<lparr>as_server_sub_id := i\<rparr>) \<in> set (remapped rm subs) \<and> in_force c' a i" by blast
  moreover have "map fst (remapped rm subs) = map fst subs" by (auto simp: remapped_def)
  ultimately show ?thesis unfolding subs'' by blast
qed

end

end
