(* ===== verification/Client_Theorems.thy ===== *)
theory Client_Theorems
  imports Client_Replay
begin

text \<open>
  Properties of the client: what reaches the channels of its subscriptions, what a reconnection restores, and where
  the client falls short of what it promises.
\<close>

section \<open>From the server's queue to the subscriptions\<close>

text \<open>
  C23: what the server queues for a connection reaches the subscriptions of the client.  The server's write task writes
  the queue, the bytes arrive in whatever pieces, and the client's read task takes them without panicking and with
  nothing left over; every channel that is live has then received exactly the messages queued for the subscriptions
  it is registered for, in order, with subject, reply subject, headers and payload.
\<close>

theorem subscriptions_receive_in_order:
  assumes "message_channel send received live" and "list_all outbound_ok q"
    and "concat reads = concat (write_task q)" and "[] \<notin> set reads" and "conn_buf c = []"
  shows "\<exists>c'. read_task send reads c = Some c' \<and> conn_buf c' = [] \<and>
     (\<forall>tx. live (conn_chan c) tx \<longrightarrow> received (conn_chan c') tx =
        received (conn_chan c) tx @ [client_msg m. m \<leftarrow> msgs_of q, subs_of c (d_subscription_id m) = Some tx])"
  using message_channel.queue_received [OF assms] by blast

definition two_subs :: "(nat, (nat \<Rightarrow> client_message list) \<times> (nat \<Rightarrow> bool)) connection" where
  "two_subs = set_subs (\<lambda>_. [(1, 10), (2, 20)]) (connection_new (frame_new Connect 0) (\<lambda>_. [], \<lambda>_. True))"

definition delivery_to :: "u64 \<Rightarrow> u8 \<Rightarrow> delivery_message" where
  "delivery_to i b = \<lparr>d_subscription_id = i, d_connection_id = 1, d_subject = \<lparr>s_raw = lit ''a'', s_tokens = [lit ''a'']\<rparr>,
     d_payload = [b], d_reply_to = None, d_headers = None\<rparr>"

definition mixed_queue :: "outbound_frame list" where
  "mixed_queue = [MsgOut (delivery_to 1 5), Raw (frame_new Pong 0), MsgOut (delivery_to 2 6), MsgOut (delivery_to 1 7)]"

lemma delivery_to_ok: "msg_ok READ_MAX (delivery_to i b)"
  by (simp add: msg_ok_def delivery_to_def frame_encode_eq msg_frame_def msg_payload_def with_payload_size_def FRAME_HEADER_SIZE_def
      READ_MAX_def Let_def)

lemma pong_ok: "outbound_ok (Raw (frame_new Pong 0))"
  by (simp add: outbound_ok_def frame_wf_def header_ok_def frame_new_def frame_header_new_def
      total_frame_size_def FRAME_HEADER_SIZE_def READ_MAX_def from_u8_def)

lemma mixed_queue_ok: "list_all outbound_ok mixed_queue"
  using pong_ok by (simp add: mixed_queue_def outbound_ok_def delivery_to_ok)

theorem subscriptions_receive_in_order_witness:
  "\<exists>c'. read_task mpsc_send [concat (write_task mixed_queue)] two_subs = Some c' \<and>
     fst (conn_chan c') 10 = [client_msg (delivery_to 1 5), client_msg (delivery_to 1 7)] \<and> fst (conn_chan c') 20 = [client_msg (delivery_to 2 6)]"
proof -
  have "header_encode h \<noteq> []" for h by (metis length_header_encode FRAME_HEADER_SIZE_def list.size(3) zero_neq_numeral)
  then have "frame_encode f \<noteq> []" for f by (simp add: frame_encode_eq)
  then have w: "concat (write_task mixed_queue) \<noteq> []"
    by (simp only: write_task_wire mixed_queue_def list.map concat.simps append_is_Nil_conv simp_thms)
  have c: "conn_buf two_subs = []" "conn_chan two_subs = (\<lambda>_. [], \<lambda>_. True)" "subs_of two_subs = [1 \<mapsto> 10, 2 \<mapsto> 20]"
    by (auto simp: two_subs_def connection_new_def)
  have m: "msgs_of mixed_queue = [delivery_to 1 5, delivery_to 2 6, delivery_to 1 7]"
    by (simp add: mixed_queue_def msgs_of_def List.map_filter_def)
  define rs where "rs = [concat (write_task mixed_queue)]"
  have "concat rs = concat (write_task mixed_queue)" "[] \<notin> set rs" using w by (simp_all only: rs_def concat.simps append_Nil2 list.set) auto
  from subscriptions_receive_in_order [OF mpsc.message_channel_axioms mixed_queue_ok this c(1)] obtain c' where
    r: "read_task mpsc_send rs two_subs = Some c'" and
    "\<And>tx. fst (conn_chan c') tx = [client_msg m. m \<leftarrow> msgs_of mixed_queue, subs_of two_subs (d_subscription_id m) = Some tx]"
    by (auto simp: c(2))
  then have "fst (conn_chan c') 10 = [client_msg (delivery_to 1 5), client_msg (delivery_to 1 7)]" "fst (conn_chan c') 20 = [client_msg (delivery_to 2 6)]"
    by (simp_all add: m c(3)) (simp_all add: delivery_to_def)
  with r show ?thesis unfolding rs_def by blast
qed

section \<open>Reconnection\<close>

text \<open>
  C38: a replay that succeeds restores the tracked subscriptions.  Whatever else is read while each SUBACK is awaited
  and in whatever order the map is iterated, every tracked subscription keeps its stable id, its SUB frame was sent,
  and its channel, if it is still live, is registered under the new server id the entry carries, as long as the
  server gave distinct ids.
\<close>

theorem replay_restores_subscriptions:
  assumes "suback_waiting (ce_wait E) live" and "mset (ce_iter E subs) = mset subs" and "distinct (map fst subs)"
    and "replay_subscriptions E subs c = (Inr (), c', subs')" and "distinct (map (as_server_sub_id \<circ> snd) subs')"
  shows "map fst subs' = map fst subs \<and>
    (\<forall>(s, a) \<in> set subs. \<exists>i. (s, a\<lparr>as_server_sub_id := i\<rparr>) \<in> set subs' \<and>
       (live (conn_chan c') (as_tx a) \<longrightarrow> subs_of c' i = Some (as_tx a)) \<and>
       (\<exists>corr. build_sub_frame (as_subject a) (as_queue_group a) corr \<in> set (conn_out c')))"
  using suback_waiting.replay_in_force [OF assms(1) refl assms(2-5)] suback_waiting.in_force_def [OF assms(1)] by simp

type_synonym demo_world = "(nat \<Rightarrow> client_message list) \<times> (nat \<Rightarrow> bool)"

definition demo_wait :: "(nat, demo_world) suback_wait" where
  "demo_wait n c = (Inr (of_nat n + 7), c)"

definition demo_env :: "(nat, demo_world) client_env" where
  "demo_env = \<lparr>ce_wait = demo_wait, ce_pause = \<lambda>_ c. c, ce_connect = \<lambda>_. Inl Disconnected, ce_iter = rev\<rparr>"

definition demo_active :: "str \<Rightarrow> u64 \<Rightarrow> nat \<Rightarrow> nat active_subscription" where
  "demo_active t i n = \<lparr>as_subject = t, as_queue_group = None, as_server_sub_id = i, as_tx = n\<rparr>"

definition demo_conn :: "(nat, demo_world) connection" where
  "demo_conn = connection_new (frame_new Connect 0) (\<lambda>_. [], \<lambda>_. True)"

lemma demo_waiting: "suback_waiting demo_wait snd"
  by unfold_locales (simp add: demo_wait_def)

lemma demo_replay:
  "\<exists>c'. replay_subscriptions demo_env [(1, demo_active (lit ''a'') 1 10), (2, demo_active (lit ''b'') 2 20)] demo_conn =
     (Inr (), c', [(1, demo_active (lit ''a'') 8 10), (2, demo_active (lit ''b'') 7 20)]) \<and> snd (conn_chan c') = (\<lambda>_. True)"
  by (simp add: replay_subscriptions_def demo_env_def demo_wait_def demo_conn_def connection_new_def demo_active_def subscribe_send_def
      oneshot_channel_def next_sub_id_def send_frame_def channel_send_def remap_def)

theorem replay_restores_subscriptions_witness:
  "\<exists>c'. replay_subscriptions demo_env [(1, demo_active (lit ''a'') 1 10), (2, demo_active (lit ''b'') 2 20)] demo_conn =
     (Inr (), c', [(1, demo_active (lit ''a'') 8 10), (2, demo_active (lit ''b'') 7 20)]) \<and> subs_of c' 8 = Some 10 \<and> subs_of c' 7 = Some 20"
proof -
  let ?subs = "[(1, demo_active (lit ''a'') 1 10), (2, demo_active (lit ''b'') 2 20)]"
  let ?subs' = "[(1, demo_active (lit ''a'') 8 10), (2, demo_active (lit ''b'') 7 20)]"
  obtain c' where r: "replay_subscriptions demo_env ?subs demo_conn = (Inr (), c', ?subs')" and l: "snd (conn_chan c') = (\<lambda>_. True)"
    using demo_replay by blast
  have "suback_waiting (ce_wait demo_env) snd" "mset (ce_iter demo_env ?subs) = mset ?subs"
    using demo_waiting by (simp_all add: demo_env_def)
  from replay_restores_subscriptions [OF this _ r] l
  have "subs_of c' 8 = Some 10 \<and> subs_of c' 7 = Some 20" by (auto simp: demo_active_def)
  with r show ?thesis by blast
qed

lemma length_update_in: "k \<in> fst ` set xs \<Longrightarrow> length (AList.update k v xs) = length xs"
  by (induction xs) auto

text \<open>
  Tracked subscriptions are keyed by the id the server gave at first, and a later server may give that id again.
  When a new subscription receives the id under which an older one is tracked, the older entry is replaced: the old
  channel goes on receiving under its current server id, but nothing of it is left to replay or to unsubscribe.
\<close>

lemma reused_id_loses_subscription:
  assumes "suback_waiting (ce_wait E) live" and "connected (cl_conn cl)"
    and "subscribe_internal E subj queue_group True tx cl = (Inr i, cl')"
    and "map_of (cl_subs cl) i = Some old" and "as_server_sub_id old \<noteq> i"
    and "subs_of (cl_conn cl) (as_server_sub_id old) = Some (as_tx old)" and "live (conn_chan (cl_conn cl')) (as_tx old)"
  shows "map_of (cl_subs cl') i = Some \<lparr>as_subject = subj, as_queue_group = queue_group, as_server_sub_id = i, as_tx = tx\<rparr> \<and>
    length (cl_subs cl') = length (cl_subs cl) \<and>
    subs_of (cl_conn cl') (as_server_sub_id old) = Some (as_tx old) \<and> subs_of (cl_conn cl') i = Some tx"
proof -
  let ?c = "(cl_conn cl)\<lparr>sub_counter := sub_counter (cl_conn cl) + 1\<rparr>"
  let ?new = "\<lparr>as_subject = subj, as_queue_group = queue_group, as_server_sub_id = i, as_tx = tx\<rparr>"
  obtain corr c2 where s: "subscribe_send (ce_wait E) corr (build_sub_frame subj queue_group corr) tx ?c = (Inr i, c2)"
    and cl': "cl' = cl\<lparr>cl_conn := c2, cl_subs := AList.update i ?new (cl_subs cl)\<rparr>"
    using assms(2,3) by (auto simp: subscribe_internal_def ensure_connected_def next_sub_id_def split: prod.splits sum.splits)
  have "i \<in> fst ` set (cl_subs cl)" using assms(4) by (metis map_of_eq_None_iff option.distinct(1))
  then have "length (AList.update i ?new (cl_subs cl)) = length (cl_subs cl)" by (rule length_update_in)
  with suback_waiting.subscribe_send_effect [OF assms(1) s] assms(5-7) show ?thesis by (auto simp: cl' update_conv')
qed

definition demo_client :: "(nat, demo_world) client" where
  "demo_client = \<lparr>cl_conn = set_subs (\<lambda>_. [(3, 10)]) demo_conn, cl_opts = client_options_default,
     cl_subs = [(7, demo_active (lit ''a'') 3 10)], inbox_prefix = [], reply_counter = 0, cl_closed = False\<rparr>"

text \<open>
  The pauses of the background reconnection while every attempt fails: one per attempt, doubling up to the longest
  \<open>Duration\<close>.
\<close>

lemma reconnect_backoff_pauses:
  assumes "\<And>k. ce_connect E k = Inl (err k)" and "\<And>d c. \<not> connected c \<Longrightarrow> \<not> connected (ce_pause E d c)" and "reconnect_backoff opts"
  shows "\<not> connected c \<Longrightarrow> delay \<le> DURATION_MAX \<Longrightarrow> \<exists>r c'. reconnect_loop n E opts True attempt delay e subs c =
    (Inl r, map (\<lambda>k. min (delay * 2 ^ k) DURATION_MAX) [0 ..< n], c', subs)"
proof (induction n arbitrary: attempt delay e c)
  case (Suc n)
  let ?d = "saturating_mul delay 2"
  have nc: "\<not> connected (conn_close (ce_pause E delay c))" by (simp add: conn_close_def)
  have "?d \<le> DURATION_MAX" by (simp add: saturating_mul_def)
  from Suc.IH [OF nc this, of "attempt + 1" "err attempt"] obtain r c' where
    "reconnect_loop n E opts True (attempt + 1) ?d (err attempt) subs (conn_close (ce_pause E delay c)) =
      (Inl r, map (\<lambda>k. min (?d * 2 ^ k) DURATION_MAX) [0 ..< n], c', subs)" by blast
  moreover have "map (\<lambda>k. min (delay * 2 ^ k) DURATION_MAX) [0 ..< Suc n] = delay # map (\<lambda>k. min (?d * 2 ^ k) DURATION_MAX) [0 ..< n]"
  proof -
    have "min (delay * 2 ^ Suc k) DURATION_MAX = min (?d * 2 ^ k) DURATION_MAX" for k
    proof (cases "delay * 2 \<le> DURATION_MAX")
      case False
      have m: "DURATION_MAX \<le> DURATION_MAX * 2 ^ k" by simp
      also from False have "DURATION_MAX * 2 ^ k \<le> (delay * 2) * 2 ^ k" by (intro mult_right_mono) auto
      finally have "min (delay * 2 ^ Suc k) DURATION_MAX = DURATION_MAX" by (simp add: min_absorb2 mult.assoc)
      moreover have "?d = DURATION_MAX" using False by (simp add: saturating_mul_def)
      ultimately show ?thesis using m by (simp only: min_absorb2)
    qed (simp add: saturating_mul_def)
    then show ?thesis using Suc.prems(2) by (simp only: upt_conv_Cons [OF zero_less_Suc] map_Suc_upt [symmetric] list.map map_map comp_def) simp
  qed
  ultimately show ?case using assms(2) [OF Suc.prems(1), of delay] assms(3) by (simp add: assms(1) Let_def del: upt_Suc)
qed simp

section \<open>Frames the client cannot take\<close>

lemma decode_from_too_large:
  assumes "total_frame_size h > k"
  shows "decode_from k (header_encode h @ bs) = Some (Inl (FrameTooLarge (total_frame_size h) k), header_encode h @ bs)"
proof -
  have "be_at 4 (header_encode h @ bs) 14 = Some (header_len h)" "be_at 4 (header_encode h @ bs) 18 = Some (payload_len h)"
    using header_encode_lens [of h bs] by (simp_all add: FRAME_HEADER_SIZE_def)
  then show ?thesis using assms by (simp add: decode_from_def Let_def total_frame_size_def)
qed

section \<open>TLS\<close>

text \<open>
  Certificates go unchecked only when the options ask for it and the environment allows it; otherwise the connector
  is refused or checks against the platform's roots.
\<close>

lemma insecure_tls_needs_both:
  "build_tls_connector allow skip = Inr NoVerifier \<longleftrightarrow> skip \<and> env_allows_insecure_tls allow"
  "build_tls_connector allow skip = Inr NativeRoots \<longleftrightarrow> \<not> skip"
  by (simp_all add: build_tls_connector_def)

text \<open>The documentation asks for the value 1; other values are accepted too.\<close>

lemma insecure_tls_by_other_values: "env_allows_insecure_tls (Some (lit ''TRUE''))"
  by (simp add: env_allows_insecure_tls_def to_ascii_lowercase_def lit_def trim_def trim_start_def trim_end_def ws_encodings_def strip_front_id stripped_def)

lemma find_byte_append: "c \<notin> set s \<Longrightarrow> find_byte c (s @ c # t) = Some (length s)"
  by (induction s) auto

text \<open>The host of \<open>host:port\<close> and of \<open>[host]:port\<close>.\<close>

lemma extract_host:
  assumes "host \<noteq> []" and "port \<noteq> []" and "58 \<notin> set port" and "hd host \<noteq> 91"
  shows "extract_host_from_addr (host @ 58 # port) = Some host"
proof -
  have "find_byte 58 (rev port @ 58 # rev host) = Some (length (rev port))" using assms(3) by (intro find_byte_append) simp
  then have "rsplit_once 58 (host @ 58 # port) = Some (host, port)" by (simp add: rsplit_once_def)
  then show ?thesis using assms by (cases host) (simp_all add: extract_host_from_addr_def lit_def)
qed

lemma extract_bracketed_host:
  assumes "host \<noteq> []" and "port \<noteq> []" and "93 \<notin> set host"
  shows "extract_host_from_addr (91 # host @ 93 # 58 # port) = Some host"
  using assms find_byte_append [of 93 host "58 # port"] by (simp add: extract_host_from_addr_def lit_def)

section \<open>What operations leave behind\<close>

text \<open>A message for a subscription that is not registered yet, though its SUBACK has been read, is dropped.\<close>

lemma message_before_registration_is_dropped:
  "msg_ok k m \<Longrightarrow> subs_of c (d_subscription_id m) = None \<Longrightarrow> read_frame send (msg_frame m) c = Some c"
  by (simp add: read_frame_def dispatch_msg_def decode_msg_frame msg_frame_type)

text \<open>What arrives behind the CONNACK in the same read is dropped with the buffer of the handshake.\<close>

lemma handshake_drops_rest:
  assumes "frame_wf k (frame_new Connack 0)"
  shows "handshake k ((frame_encode (frame_new Connack 0) @ rest) # reads) [] = (HsConnected, reads)"
proof -
  have "frame_encode (frame_new Connack 0) @ rest \<noteq> []"
    by (simp add: frame_encode_eq header_encode_def)
  moreover have "from_u8 (h_frame_type (f_header (frame_new Connack 0))) = Inr Connack"
    by (simp add: frame_new_def frame_header_new_def del: as_u8.simps)
  ultimately show ?thesis using decode_from_encode [OF assms, of rest] by simp
qed

text \<open>
  The server answers PING with correlation id 0, so a PONG resolves the oldest flush that still waits.  After a flush
  that timed out, its late PONG confirms the next one.
\<close>

lemma late_pong_confirms_next_flush:
  "\<exists>c1 c2 c3. flush_begin demo_conn = (Inr (1, 0), c1) \<and> flush_begin (snd (flush_timeout 1 c1)) = (Inr (2, 1), c2) \<and>
     read_frame mpsc_send (frame_new Pong 0) c2 = Some c3 \<and> signals c3 = [FlushDone 1] \<and>
     conn_out c2 = [frame_new Connect 0, frame_new Ping 1, frame_new Ping 2]"
  by (simp add: flush_begin_def demo_conn_def connection_new_def next_sub_id_def oneshot_channel_def send_frame_def channel_send_def
      flush_timeout_def read_frame_def frame_new_def frame_header_new_def from_u8_def resolve_flush_def min_key_def)

text \<open>A request that times out keeps its reply subscription on the connection and on the server.\<close>

lemma timed_out_request_keeps_subscription:
  "\<exists>cl'. request demo_env (\<lambda>i cl. (Inl Timeout, cl)) (lit ''s'') [] 30 demo_client = (Inl Timeout, cl') \<and> subs_of (cl_conn cl') 7 = Some 30"
  by (simp add: request_def subscribe_internal_def publish_with_reply_def ensure_connected_def demo_client_def client_options_default_def
      demo_env_def demo_wait_def demo_conn_def connection_new_def subscribe_send_def oneshot_channel_def next_sub_id_def send_frame_def channel_send_def Let_def
      reply_subject_of_def)

text \<open>A failed replay keeps the old server ids, also of what was subscribed again before the failure.\<close>

lemma failed_replay_keeps_ids: "replay_subscriptions E subs c = (Inl e, c', subs') \<Longrightarrow> subs' = subs"
  by (auto simp: replay_subscriptions_def split: prod.splits sum.splits)

section \<open>Reply subjects\<close>

lemma hex_digits: "c \<in> set (hex16 w) \<Longrightarrow> (0x30 \<le> c \<and> c \<le> 0x39) \<or> (0x61 \<le> c \<and> c \<le> 0x66)"
proof -
  have "(0x30 \<le> hex_digit 97 d \<and> hex_digit 97 d \<le> 0x39) \<or> (0x61 \<le> hex_digit 97 d \<and> hex_digit 97 d \<le> 0x66)" if "d < 16" for d
  proof -
    from that have "d \<in> set [0 ..< 16]" by simp
    then show ?thesis by (auto simp: hex_digit_def upt_rec)
  qed
  moreover assume "c \<in> set (hex16 w)"
  then obtain d where "c = hex_digit 97 (d mod 16)" by (auto simp: hex16_def)
  moreover have "d mod 16 < 16" for d :: nat by simp
  ultimately show ?thesis by blast
qed

text \<open>Requests of a client use different reply subjects until the counter wraps, and clients of a process different prefixes.\<close>

lemma reply_subjects_differ:
  assumes "inbox_prefix a = inbox_prefix b" shows "reply_subject_of a = reply_subject_of b \<longleftrightarrow> reply_counter a = reply_counter b"
  using assms by (auto simp: reply_subject_of_def dec_inj word_unat_eq_iff)

lemma length_hex16 [simp]: "length (hex16 w) = 16"
  by (simp add: hex16_def)

lemma inbox_prefixes_differ:
  "fst (generate_inbox_prefix r m) = fst (generate_inbox_prefix r' n) \<Longrightarrow> m = n"
  by (auto simp: generate_inbox_prefix_def append_eq_append_conv dec_inj word_unat_eq_iff)

text \<open>The reply subject of a request is one the server accepts, as it is.\<close>

definition token_byte :: "u8 \<Rightarrow> bool" where
  "token_byte c \<longleftrightarrow> (0x30 \<le> c \<and> c \<le> 0x39) \<or> (0x41 \<le> c \<and> c \<le> 0x7A)"

lemma token_byte_graphic: "token_byte c \<Longrightarrow> graphic c"
  by (auto simp: token_byte_def graphic_def word_le_nat_alt word_less_nat_alt)

lemma no_token_byte: "token_byte c \<Longrightarrow> c \<noteq> dot \<and> c \<noteq> star \<and> c \<noteq> gt"
  by (auto simp: token_byte_def)

lemma token_bytes: "list_all token_byte (lit ''_INBOX'')" "list_all token_byte (hex16 w)" "list_all token_byte (dec n)"
proof -
  show "list_all token_byte (lit ''_INBOX'')" by (simp add: lit_def token_byte_def)
  have "token_byte c" if "c \<in> set (hex16 w)" for c
    using hex_digits [OF that] by (auto simp: token_byte_def word_le_nat_alt)
  then show "list_all token_byte (hex16 w)" by (simp add: list_all_iff)
  show "list_all token_byte (dec n)" using dec_digits [of _ n] by (auto simp: list_all_iff token_byte_def)
qed

lemma length_dec: "n < 10 ^ k \<Longrightarrow> 0 < k \<Longrightarrow> length (dec n) \<le> k"
proof (induction n arbitrary: k rule: dec.induct)
  case (1 n)
  show ?case
  proof (cases "n < 10")
    case True
    then show ?thesis using 1 by (simp add: dec.simps [of n])
  next
    case False
    then obtain j where k: "k = Suc j" "0 < j" using 1 by (cases k; cases "k - 1") auto
    then have "n div 10 < 10 ^ j" using 1 by auto
    with 1(1) [OF False _ k(2)] show ?thesis using False by (simp add: dec.simps [of n] k)
  qed
qed

lemma reply_subject_accepted:
  assumes "inbox_prefix cl = fst (generate_inbox_prefix r n)"
  shows "subject_parse (reply_subject_of cl) = Inr \<lparr>s_raw = reply_subject_of cl,
    s_tokens = [lit ''_INBOX'', hex16 r, dec (unat n), dec (unat (reply_counter cl))]\<rparr>"
proof -
  let ?ts = "[lit ''_INBOX'', hex16 r, dec (unat n), dec (unat (reply_counter cl))]" and ?s = "reply_subject_of cl"
  have s: "?s = join dot ?ts"
    by (simp add: reply_subject_of_def assms generate_inbox_prefix_def lit_def)
  have t: "\<forall>t \<in> set ?ts. list_all token_byte t" using token_bytes by simp
  then have c: "c \<in> set ?s \<Longrightarrow> c = dot \<or> token_byte c" for c by (auto simp: s list_all_iff)
  moreover have "graphic dot" by (simp add: graphic_def)
  ultimately have "list_all graphic ?s" using token_byte_graphic unfolding list_all_iff by blast
  then have trim: "trim ?s = ?s" by (rule trim_graphic)
  have len: "length (dec (unat w)) \<le> 20" for w :: u64 by (rule length_dec) (use unsigned_less [of w, where 'a = nat] in simp_all)
  have split: "split_on dot ?s = ?ts" unfolding s using t no_token_byte by (intro split_on_join) (auto simp: list_all_iff)
  have "length ?s \<le> MAX_SUBJECT_LEN" using len [of n] len [of "reply_counter cl"] by (simp add: s MAX_SUBJECT_LEN_def lit_def)
  moreover have "star \<notin> set ?s" "gt \<notin> set ?s" using c [of star] c [of gt] no_token_byte by auto
  moreover have "[] \<notin> set ?ts" "?s \<noteq> []" using length_hex16 [of r] dec_not_Nil [symmetric] by (auto simp: s lit_def simp del: length_hex16)
  ultimately have "subject_wf \<lparr>s_raw = ?s, s_tokens = ?ts\<rparr>"
    unfolding subject_wf_def subject.simps trim split by (simp add: MAX_TOKENS_def)
  from subject_parse_raw [OF this] show ?thesis by simp
qed

end
