(* ===== verification/Pipeline.thy ===== *)
theory Pipeline
  imports Session_Theorems Client_Theorems
begin

text \<open>
  From a publisher to a subscriber: what the session of the publisher puts on the channels of the others is what the
  clients at their ends can read.  \<open>keeps\<close> is a property of the world of the channels that delivering a message keeps;
  a batch then keeps it, whatever the subscriptions are.
\<close>

section \<open>What a batch keeps\<close>

definition keeps :: "('h, 'w) deliverer \<Rightarrow> ('w \<Rightarrow> bool) \<Rightarrow> delivery_message \<Rightarrow> bool" where
  "keeps dv I d \<longleftrightarrow> (\<forall>h w. I w \<longrightarrow> I (snd (dv h d w)))"

definition keeps_msg :: "('h, 'w) deliverer \<Rightarrow> ('w \<Rightarrow> bool) \<Rightarrow> message \<Rightarrow> bool" where
  "keeps_msg dv I m \<longleftrightarrow> (\<forall>i c. keeps dv I (make_delivery i c m))"

lemma keeps_msgD: "keeps_msg dv I m \<Longrightarrow> I w \<Longrightarrow> I (snd (dv h (make_delivery i c m) w))"
  by (simp add: keeps_msg_def keeps_def)

lemma fold_keeps:
  "(\<And>x s. x \<in> set xs \<Longrightarrow> P s \<Longrightarrow> P (f x s)) \<Longrightarrow> P s \<Longrightarrow> P (fold f xs s)"
  by (induction xs arbitrary: s) auto

lemma deliver_to_subscriber_keeps:
  "keeps_msg dv I m \<Longrightarrow> I (snd p) \<Longrightarrow> I (snd (deliver_to_subscriber dv i m p))"
  by (cases p) (auto simp: deliver_to_subscriber_def split_def Let_def keeps_msgD split: option.split)

lemma deliver_queue_group_keeps:
  "keeps_msg dv I m \<Longrightarrow> I (snd p) \<Longrightarrow> I (snd (deliver_queue_group dv k ms m p))"
  by (cases p) (auto simp: deliver_queue_group_def deliver_to_subscriber_keeps split: option.split prod.split)

lemma classify_match_keeps:
  "keeps_msg dv I m \<Longrightarrow> I (snd (snd q)) \<Longrightarrow> I (snd (snd (classify_match dv m i q)))"
  by (cases q) (auto simp: classify_match_def split_def Let_def deliver_queue_group_keeps split: option.split)

lemma deliver_matches_keeps:
  assumes "keeps_msg dv I m" and "I (snd p)"
  shows "I (snd (deliver_matches dv m ids p))"
proof -
  obtain b w where p: "p = (b, w)" by (cases p)
  obtain st b1 w1 where c: "fold (classify_match dv m) ids (\<lparr>fanout = [], group_members = [], last_key = None\<rparr>, b, w) = (st, b1, w1)"
    by (cases "fold (classify_match dv m) ids (\<lparr>fanout = [], group_members = [], last_key = None\<rparr>, b, w)")
  have "I (snd (snd (fold (classify_match dv m) ids (\<lparr>fanout = [], group_members = [], last_key = None\<rparr>, b, w))))"
    by (rule fold_keeps [where P = "\<lambda>q. I (snd (snd q))"]) (use assms in \<open>simp_all add: p classify_match_keeps\<close>)
  then have "I w1" by (simp add: c)
  moreover have "I (snd (fold (deliver_fanout dv m) fs q))" if "I (snd q)" for fs q
    by (rule fold_keeps [where P = "\<lambda>q. I (snd q)"])
      (use that assms(1) in \<open>auto simp: deliver_fanout_def split_def Let_def keeps_msgD\<close>)
  ultimately show ?thesis
    using assms(1) by (auto simp: deliver_matches_def p c split_def Let_def deliver_queue_group_keeps split: option.split)
qed

text \<open>Stage 1 of a batch: the world, and what is pending.\<close>

definition keeps_stage :: "('h, 'w) deliverer \<Rightarrow> ('w \<Rightarrow> bool) \<Rightarrow> batch_state \<times> 'h broker \<times> 'w \<Rightarrow> bool" where
  "keeps_stage dv I = (\<lambda>(st, b, w). I w \<and> (\<forall>(i, ds) \<in> set (pending st). \<forall>d \<in> set ds. keeps dv I d))"

lemma batch_match_keeps:
  assumes m: "keeps_msg dv I (item_message it)" and q: "keeps_stage dv I q"
  shows "keeps_stage dv I (batch_match dv it i q)"
proof -
  obtain st b w where s: "q = (st, b, w)" by (cases q)
  obtain r st1 where c: "cached_info b i st = (r, st1)" by fastforce
  then have p: "pending st1 = pending st" by (auto simp: cached_info_def Let_def split: option.splits prod.splits)
  have "keeps dv I (make_delivery i conn (item_message it))" for conn using m by (simp add: keeps_msg_def)
  then show ?thesis
    using q m deliver_matches_keeps [OF m, of "(b, w)" "[i]"]
    by (fastforce simp: s batch_match_def c p keeps_stage_def split: option.split dest!: set_push)
qed

lemma batch_item_keeps:
  assumes m: "keeps_msg dv I (item_message it)" and q: "keeps_stage dv I q"
  shows "keeps_stage dv I (batch_item dv it q)"
proof -
  obtain st b w where s: "q = (st, b, w)" by (cases q)
  have st: "keeps_stage dv I (st\<lparr>last_match := x\<rparr>, b, w)" for x using q by (simp add: s keeps_stage_def)
  show ?thesis
    unfolding s batch_item_fold by (rule fold_keeps [where P = "keeps_stage dv I"]) (simp_all add: st batch_match_keeps [OF m])
qed

lemma deliver_batch_keeps:
  "\<forall>d \<in> set ds. keeps dv I d \<Longrightarrow> I w \<Longrightarrow> I (snd (deliver_batch dv h ds w))"
proof (induction ds arbitrary: w)
  case (Cons d ds)
  then have "I (snd (dv h d w))" by (simp add: keeps_def)
  with Cons show ?case by (auto simp: split_def Let_def split: delivery_status.split)
qed simp

lemma flush_pending_keeps:
  assumes "\<forall>d \<in> set (snd e). keeps dv I d" and "I (snd p)" and "snd e \<noteq> []"
  shows "I (snd (flush_pending dv e p))"
proof -
  have "keeps dv I (hd (snd e))" using assms(1,3) by simp
  then show ?thesis
    using assms deliver_batch_keeps [OF assms(1)]
    by (cases e; cases p) (auto simp: flush_pending_def keeps_def split_def Let_def split: option.split)
qed


lemma publish_batch_keeps:
  assumes inv: "broker_inv b" and iter: "\<And>xs. mset (iter xs) = mset xs" and I: "I w"
    and its: "\<forall>it \<in> set items. keeps_msg dv I (item_message it)"
  shows "I (snd (publish_batch dv iter items (b, w)))"
proof -
  let ?b = "b\<lparr>b_metrics := inc_published_by (of_nat (length items)) (b_metrics b)\<rparr>"
  let ?st = "\<lparr>pending = [], last_match = None, sub_cache = []\<rparr>"
  obtain st b1 w1 where f: "fold (batch_item dv) items (?st, ?b, w) = (st, b1, w1)"
    by (cases "fold (batch_item dv) items (?st, ?b, w)")
  have "keeps_stage dv I (fold (batch_item dv) items (?st, ?b, w))"
    by (rule fold_keeps [where P = "keeps_stage dv I"]) (use its I in \<open>simp_all add: batch_item_keeps\<close>, simp add: keeps_stage_def)
  then have st: "I w1" "\<forall>e \<in> set (pending st). \<forall>d \<in> set (snd e). keeps dv I d" by (auto simp: f keeps_stage_def)
  have ne: "\<forall>e \<in> set (pending st). snd e \<noteq> []"
    using batch_items_pend [OF published_inv(2) [OF inv] initial_batch_state(1,2) f] by (auto simp: pending_wf_def)
  have "I (snd (fold (flush_pending dv) (iter (pending st)) (b1, w1)))"
    by (rule fold_keeps [where P = "\<lambda>p. I (snd p)"])
      (use st ne in \<open>simp_all add: flush_pending_keeps iter_pending(2) [OF iter [of "pending st"]]\<close>)
  moreover have "I (snd (deliver_batch dv h (map (\<lambda>it. make_delivery i c (item_message it)) items) w))" for h i c
    by (rule deliver_batch_keeps) (use its I in \<open>auto simp: keeps_msg_def\<close>)
  ultimately show ?thesis
    using I by (auto simp: publish_batch_def publish_batch_stages_def f split_def Let_def split: option.split)
qed

section \<open>From a PUB frame to a MSG frame\<close>

text \<open>A MSG frame has the 8 bytes of the subscription id that the PUB frame has not.\<close>

lemma length_trim: "length (trim s) \<le> length s"
proof -
  have "length (strip_front es t) \<le> length t" for es t using strip_front_suffix [THEN suffix_length_le] .
  from this [of "map rev ws_encodings" "rev (strip_front ws_encodings s)"] this [of ws_encodings s]
  show ?thesis by (simp add: trim_def trim_start_def trim_end_def)
qed

lemma parse_opt_wf: "parse_opt bs = Some s \<Longrightarrow> subject_wf s \<and> s_raw s = trim bs"
  by (auto simp: parse_opt_def from_utf8_def subject_parse_Inr_iff split: option.splits sum.splits if_splits)

lemma item_of_fields:
  assumes "item_of p = Some it"
  shows "subject_wf (i_subject it)" "s_raw (i_subject it) = trim (pc_subject p)" "i_payload it = pc_payload p" "i_headers it = pc_headers p"
    and "i_reply_to it = Some r \<Longrightarrow> subject_wf r \<and> (\<exists>bs. pc_reply_to p = Some bs \<and> s_raw r = trim bs)"
    and "pc_reply_to p = None \<Longrightarrow> i_reply_to it = None"
  using assms by (auto simp: item_of_def parse_opt_wf split: bind_splits)

lemma msg_frame_fields:
  "f_payload (msg_frame (make_delivery i c (item_message it))) = u16_bytes (of_nat (length (s_raw (i_subject it)))) @ s_raw (i_subject it)
     @ (case i_reply_to it of Some r \<Rightarrow> u16_bytes (of_nat (length (s_raw r))) @ s_raw r | None \<Rightarrow> u16_bytes 0)
     @ u64_bytes i @ i_payload it"
  "f_headers (msg_frame (make_delivery i c (item_message it))) = (case i_headers it of None \<Rightarrow> [] | Some h \<Rightarrow> encode_headers h)"
  by (simp_all add: msg_frame_def msg_payload_def make_delivery_def item_message_def Let_def)

lemma msg_frame_length:
  assumes "item_of p = Some it"
  shows "length (frame_encode (msg_frame (make_delivery i c (item_message it)))) \<le> length (frame_encode (pub_frame_of p)) + 8"
    and "trim (pc_subject p) = pc_subject p \<Longrightarrow> pc_reply_to p = None \<Longrightarrow>
      length (frame_encode (msg_frame (make_delivery i c (item_message it)))) = length (frame_encode (pub_frame_of p)) + 8"
  using item_of_fields [OF assms] length_trim [of "pc_subject p"]
  by (auto simp: frame_encode_eq msg_frame_fields pub_frame_of_fields intro: add_mono [OF length_trim length_trim] trans_le_add1 [OF length_trim] split: option.split)

lemma pub_msg_ok:
  assumes "pub_ok k p" and "item_of p = Some it" and "k + 8 \<le> n" and "n < 2 ^ 32"
  shows "msg_ok n (make_delivery i c (item_message it))"
proof -
  have short: "length (s_raw s) < 2 ^ 16 \<and> s_raw s \<noteq> []" if "subject_wf s" for s
    using that by (simp add: subject_wf_def MAX_SUBJECT_LEN_def)
  have "length (frame_encode (msg_frame (make_delivery i c (item_message it)))) \<le> n"
    using msg_frame_length(1) [OF assms(2), of i c] assms(1,3) by (simp add: pub_ok_def)
  then show ?thesis
    using assms(1,4) item_of_fields [OF assms(2)] short [of "i_subject it"]
    by (auto simp: msg_ok_def pub_ok_def make_delivery_def item_message_def dest!: short)
qed

section \<open>Through the session of the publisher\<close>

context outbound_channel
begin

lemma channel_deliver_ok:
  assumes "msg_ok READ_MAX d" and "\<forall>h. list_all outbound_ok (queue w h)"
  shows "\<forall>h. list_all outbound_ok (queue (snd (channel_deliver send h' d w)) h)"
proof -
  have "queue (snd (channel_deliver send h' d w)) = queue (snd (send h' (MsgOut d) w))"
    by (simp add: channel_deliver_def split: prod.split bool.split)
  with assms show ?thesis by (simp add: send_queue outbound_ok_def)
qed

text \<open>
  When every PUB frame leaves room for the subscription id, the frames on the channels stay readable for the clients.
\<close>

lemma pub_frames_readable:
  assumes inv: "broker_inv (w_broker W)" and iter: "\<And>xs. mset (iter xs) = mset xs" and act: "has_active_subscriptions (w_broker W)"
    and s: "ss_state s = Connected" "read_buf s = wire (map pub_frame_of ps)" "is_publish_unrestricted (ss_auth s)" "local_published s = 0"
    and ps: "\<forall>p \<in> set ps. pub_ok (c_max_frame_size cfg) p" "length ps \<le> PUB_BATCH_LIMIT" "ps \<noteq> []"
    and room: "\<forall>p \<in> set ps. pub_ok (READ_MAX - 8) p"
    and q: "\<forall>h. list_all outbound_ok (queue (w_chan W) h)"
    and run: "process_frames send iter cfg c h s W = Some (s', W')"
  shows "\<forall>h. list_all outbound_ok (queue (w_chan W') h)"
proof -
  let ?b = "w_broker W" and ?I = "\<lambda>w. \<forall>h. list_all outbound_ok (queue w h)"
  obtain b w where d: "dispatch_publish_batch send iter ps (?b, w_chan W) = (b, w)" by fastforce
  have W': "W' = W\<lparr>w_broker := b, w_chan := w\<rparr>"
    using process_pub_frames [OF s(1,2) act s(3) ps d s(4), of c h] run by simp
  obtain its b1 where i: "publish_items ps ?b = (its, b1)" by fastforce
  have b1: "broker_inv b1" using keeps_publish_items [OF i] inv by (simp add: keeps_subs_def)
  have its: "its = List.map_filter item_of ps" using publish_items_spec [of ?b ps] inv i by (simp add: broker_inv_def)
  have "keeps_msg (channel_deliver send) ?I (item_message it)" if it: "it \<in> set its" for it
  proof -
    obtain p where "p \<in> set ps" "item_of p = Some it" using it its by (auto simp: List.map_filter_def)
    then have "msg_ok READ_MAX (make_delivery i c (item_message it))" for i c
      using room by (intro pub_msg_ok [of "READ_MAX - 8"]) (simp_all add: READ_MAX_def)
    then show ?thesis by (auto simp: keeps_msg_def keeps_def channel_deliver_ok)
  qed
  then have "?I (snd (publish_batch (channel_deliver send) iter its (b1, w_chan W)))"
    by (intro publish_batch_keeps [OF b1 iter, where I = ?I]) (use q in auto)
  then show ?thesis using d i ps(3) by (simp add: dispatch_publish_batch_def W')
qed

end

section \<open>What is routed to a subscription\<close>

definition client_item :: "publish_item \<Rightarrow> client_message" where
  "client_item it = \<lparr>cm_subject = s_raw (i_subject it), cm_reply_to = map_option s_raw (i_reply_to it),
     cm_headers = i_headers it, cm_payload = i_payload it\<rparr>"

lemma batch_msgs_matching:
  assumes inv: "broker_inv b" and j: "get_ref b j = Some t" "sub_queue_group_key t = None"
    and wf: "\<forall>it \<in> set items. subject_wf (i_subject it)"
  shows "map client_msg (batch_msgs b j items) = map client_item (filter (\<lambda>it. matches (sub_pattern t) (i_subject it)) items)"
    and "d \<in> set (batch_msgs b j items) \<Longrightarrow> d_subscription_id d = j"
proof -
  have "wants b j it = matches (sub_pattern t) (i_subject it)" if "it \<in> set items" for it
    using set_match_ids(1) [OF inv] wf that j(1) by (simp add: wants_def matching_def)
  then have "filter (wants b j) items = filter (\<lambda>it. matches (sub_pattern t) (i_subject it)) items" by (rule filter_cong [OF refl])
  moreover have "is_fanout b j" using j by (simp add: is_fanout_def)
  ultimately have "batch_msgs b j items = map (\<lambda>it. make_delivery j (sub_connection_id t) (item_message it))
      (filter (\<lambda>it. matches (sub_pattern t) (i_subject it)) items)" using j by (simp add: batch_msgs_def)
  then show "map client_msg (batch_msgs b j items) = map client_item (filter (\<lambda>it. matches (sub_pattern t) (i_subject it)) items)"
    "d \<in> set (batch_msgs b j items) \<Longrightarrow> d_subscription_id d = j"
    by (auto simp: make_delivery_def item_message_def client_msg_def client_item_def)
qed

text \<open>What a subscription is to receive of the commands of a publisher.\<close>

definition routed :: "'h subscription \<Rightarrow> publish_command list \<Rightarrow> client_message list" where
  "routed t ps = map client_item (filter (\<lambda>it. matches (sub_pattern t) (i_subject it)) (List.map_filter item_of ps))"

lemma batch_msgs_routed:
  assumes "broker_inv b" and "get_ref b j = Some t" and "sub_queue_group_key t = None"
  shows "map client_msg (batch_msgs b j (List.map_filter item_of ps)) = routed t ps"
  unfolding routed_def by (rule batch_msgs_matching [OF assms]) (auto simp: List.map_filter_def item_of_fields(1))

lemma comprehension_filter: "[f x. x \<leftarrow> xs, P x] = map f (filter P xs)"
  by (induction xs) simp_all

lemma concat_nonempty: "concat (filter (\<lambda>x. x \<noteq> []) xs) = concat xs"
  by (induction xs) simp_all

section \<open>A frame above the limit of the client\<close>

lemma read_task_stalls:
  assumes big: "total_frame_size h > READ_MAX"
  shows "conn_buf c @ concat reads = header_encode h @ bs \<Longrightarrow> [] \<notin> set reads \<Longrightarrow>
    read_task send reads c = Some (c\<lparr>conn_buf := header_encode h @ bs\<rparr>)"
proof (induction reads arbitrary: c)
  case (Cons r reads)
  let ?buf = "conn_buf c @ r"
  have w: "?buf @ concat reads = header_encode h @ bs" using Cons.prems(1) by simp
  have "\<exists>r. decode_from READ_MAX ?buf = Some (r, ?buf) \<and> (\<forall>f. r \<noteq> Inr (Some f))"
  proof (cases "length ?buf < FRAME_HEADER_SIZE")
    case False
    then have "take FRAME_HEADER_SIZE ?buf = header_encode h" using arg_cong [OF w, of "take FRAME_HEADER_SIZE"] by simp
    then obtain us where "?buf = header_encode h @ us" by (metis append_take_drop_id)
    with decode_from_too_large [OF big, of us] show ?thesis by auto
  qed (simp add: decode_from_def)
  then have "read_frames send ?buf c = Some (?buf, c)"
    by (subst read_frames.simps) (auto split: sum.split option.split)
  then show ?case using Cons.IH [of "c\<lparr>conn_buf := ?buf\<rparr>"] Cons.prems w by (cases "r = []") simp_all
qed simp

lemma msg_above_limit:
  assumes "pub_ok READ_MAX p" and "item_of p = Some it" and "READ_MAX < length (frame_encode (msg_frame (make_delivery i c (item_message it))))"
  shows "total_frame_size (f_header (msg_frame (make_delivery i c (item_message it)))) > READ_MAX"
proof -
  have "msg_ok (READ_MAX + 8) (make_delivery i c (item_message it))"
    by (rule pub_msg_ok [OF assms(1,2)]) (simp_all add: READ_MAX_def)
  from length_frame_encode [OF msg_frame_wf [OF this]] assms(3) show ?thesis by simp
qed

end
