(* ===== verification/Client_Api.thy ===== *)
theory Client_Api
  imports Pipeline
begin

text \<open>
  The operations of \<open>client.rs\<close> that an application calls, made of those of \<open>Client_Ops\<close>, and of \<open>connection.rs\<close> the
  replacement of a connection and the two readings of the environment.
\<close>

section \<open>Connections\<close>

definition insecure_tls_allowed :: "net \<Rightarrow> bool" where
  "insecure_tls_allowed N = env_allows_insecure_tls (net_allow_insecure N)"

definition resolve_tls_server_name :: "net \<Rightarrow> str \<Rightarrow> client_error + str" where
  "resolve_tls_server_name N a = resolve_tls_server_name_from_inputs a (net_server_name N)"

text \<open>\<open>Connection::reconnect\<close> closes first: when connecting fails, the closed connection is what is left.\<close>

definition reconnect ::
  "net \<Rightarrow> client_options \<Rightarrow> 'w \<Rightarrow> ('tx, 'w) connection \<Rightarrow> ((client_error + bytes list) \<times> ('tx, 'w) connection) option" where
  "reconnect N opts w c =
     (case connect N opts w of
        None \<Rightarrow> None
      | Some (Inl e) \<Rightarrow> Some (Inl e, conn_close c)
      | Some (Inr (c', reads)) \<Rightarrow> Some (Inr reads, c'))"

section \<open>The operations an application calls\<close>

definition client_connect :: "net \<Rightarrow> str \<Rightarrow> u64 \<Rightarrow> u64 \<Rightarrow> 'w \<Rightarrow> (client_error + ('tx, 'w) client \<times> bytes list) option" where
  "client_connect N a = connect_with_options N (client_options_new a)"

definition connect_with_token :: "net \<Rightarrow> str \<Rightarrow> str \<Rightarrow> u64 \<Rightarrow> u64 \<Rightarrow> 'w \<Rightarrow> (client_error + ('tx, 'w) client \<times> bytes list) option" where
  "connect_with_token N a token = connect_with_options N (with_token token (client_options_new a))"

definition connect_with_userpass ::
  "net \<Rightarrow> str \<Rightarrow> str \<Rightarrow> str \<Rightarrow> u64 \<Rightarrow> u64 \<Rightarrow> 'w \<Rightarrow> (client_error + ('tx, 'w) client \<times> bytes list) option" where
  "connect_with_userpass N a username password = connect_with_options N (with_userpass username password (client_options_new a))"

definition client_publish ::
  "('tx, 'w) client_env \<Rightarrow> str \<Rightarrow> bytes \<Rightarrow> ('tx, 'w) client \<Rightarrow> (client_error + unit) \<times> ('tx, 'w) client" where
  "client_publish E subj payload = publish_with_reply E subj None payload None"

definition publish_with_headers ::
  "('tx, 'w) client_env \<Rightarrow> str \<Rightarrow> header_map \<Rightarrow> bytes \<Rightarrow> ('tx, 'w) client \<Rightarrow> (client_error + unit) \<times> ('tx, 'w) client" where
  "publish_with_headers E subj hs payload = publish_with_reply E subj None payload (Some hs)"

definition subscribe_with_queue ::
  "('tx, 'w) client_env \<Rightarrow> str \<Rightarrow> str option \<Rightarrow> 'tx \<Rightarrow> ('tx, 'w) client \<Rightarrow> (client_error + u64) \<times> ('tx, 'w) client" where
  "subscribe_with_queue E subj queue_group = subscribe_internal E subj queue_group True"

definition client_subscribe ::
  "('tx, 'w) client_env \<Rightarrow> str \<Rightarrow> 'tx \<Rightarrow> ('tx, 'w) client \<Rightarrow> (client_error + u64) \<times> ('tx, 'w) client" where
  "client_subscribe E subj = subscribe_with_queue E subj None"

text \<open>
  A client that connects with the token the server was configured with is accepted: the first frame on its connection is
  decoded to a CONNECT that \<open>validate_auth\<close> grants everything.  The token must fit its length field.
\<close>

lemma token_client_accepted:
  fixes cl :: "('tx, 'w) client"
  assumes c: "connect_with_token N a token r k w = Some (Inr (cl, reads))" and "auth_ok (Token token)"
    and cfg: "auth_is_enabled (c_auth cfg)" "auth_type (c_auth cfg) = lit ''token''" "auth_token (c_auth cfg) = Some token"
  shows "\<exists>f cmd. conn_out (cl_conn cl) = [f] \<and> from_frame f = Some (Inr (CmdConnect cmd)) \<and> validate_auth (auth cmd) cfg = Inr unrestricted"
proof -
  have "conn_out (cl_conn cl) = [handshake_frame (with_token token (client_options_new a))]"
    using c by (auto simp: connect_with_token_def connect_with_options_def connect_def connection_new_def
        split: option.splits sum.splits prod.splits handshake_result.splits)
  moreover have "handshake_frame (with_token token (client_options_new a)) = connect_frame (opt_name (client_options_new a)) (Token token)"
    by (simp add: handshake_frame_def auth_info_of_def with_token_def)
  ultimately show ?thesis
    using connect_frame_decodes [OF assms(2)] cfg by (auto simp: connect_command_new_def validate_auth_def)
qed

text \<open>A reconnection that succeeds starts from an empty state; one that fails leaves a connection that sends nothing.\<close>

lemma reconnect_fresh:
  "reconnect N opts w c = Some (Inr reads, c') \<Longrightarrow> c' = connection_new (handshake_frame opts) w"
  "reconnect N opts w c = Some (Inl e, c') \<Longrightarrow> fst (send_frame f c') = Inl Disconnected"
  by (auto simp: reconnect_def connect_def conn_close_def send_frame_def
      split: option.splits sum.splits prod.splits handshake_result.splits)

end
