(* ===== verification/Listener.thy ===== *)
theory Listener
  imports Session_Channel Core_Theorems "HOL-Library.AList"
begin

text \<open>
  The accept loop of the server (\<open>zetmq-server/src/network/listener.rs\<close>) with the sessions it spawns.  The state is
  the two counters of \<open>TcpServer\<close>, the sessions that run, and what they share.  The sessions take turns: a step of the
  server is an accepted socket, one event of one session, or work of another task that leaves the broker alone.
  TLS is a parameter; the loop that waits for the sessions to end is given what it observes.
\<close>

section \<open>Association lists\<close>

lemma set_delete: "set (AList.delete k xs) = {p \<in> set xs. fst p \<noteq> k}"
  by (auto simp: AList.delete_eq)

lemma set_update: "distinct (map fst xs) \<Longrightarrow> set (AList.update k v xs) = insert (k, v) (set (AList.delete k xs))"
  by (induction xs) (auto simp: AList.delete_eq rev_image_eqI)

lemma delete_absent: "k \<notin> fst ` set xs \<Longrightarrow> AList.delete k xs = xs"
  by (induction xs) auto

lemma sum_delete:
  fixes g :: "'k \<times> 'v \<Rightarrow> nat"
  shows "map_of xs k = Some v \<Longrightarrow> distinct (map fst xs) \<Longrightarrow>
    sum_list (map g xs) = g (k, v) + sum_list (map g (AList.delete k xs))"
proof (induction xs)
  case (Cons p xs)
  show ?case
  proof (cases "fst p = k")
    case True
    then have "k \<notin> fst ` set xs" using Cons.prems(2) by auto
    then show ?thesis using True Cons.prems(1) by (cases p) (simp add: delete_absent)
  next
    case False
    then show ?thesis using Cons by (cases p) simp
  qed
qed simp

lemma sum_update:
  fixes g :: "'k \<times> 'v \<Rightarrow> nat"
  shows "distinct (map fst xs) \<Longrightarrow> sum_list (map g (AList.update k v xs)) = g (k, v) + sum_list (map g (AList.delete k xs))"
proof (induction xs)
  case (Cons p xs)
  show ?case
  proof (cases "fst p = k")
    case True
    then have "k \<notin> fst ` set xs" using Cons.prems by auto
    then show ?thesis using True by (cases p) (simp add: delete_absent)
  next
    case False
    then show ?thesis using Cons by (cases p) simp
  qed
qed simp

lemma length_delete: "map_of xs k = Some v \<Longrightarrow> distinct (map fst xs) \<Longrightarrow> length xs = Suc (length (AList.delete k xs))"
  using sum_delete [of xs k v "\<lambda>_. 1"] by (simp add: sum_list_triv)

lemma length_update: "map_of xs k = Some v \<Longrightarrow> distinct (map fst xs) \<Longrightarrow> length (AList.update k w xs) = length xs"
  using sum_update [of xs "\<lambda>_. 1" k w] length_delete [of xs k v] by (simp add: sum_list_triv)

section \<open>Errors and TLS\<close>

datatype server_error = ServerIo str | ServerConfigErr str | ServerProtocol protocol_error | ServerCore core_error

fun server_error_display :: "server_error \<Rightarrow> str" where
  "server_error_display (ServerIo e) = lit ''io error: '' @ e"
| "server_error_display (ServerConfigErr e) = lit ''config error: '' @ e"
| "server_error_display (ServerProtocol e) = lit ''protocol error: '' @ protocol_error_display e"
| "server_error_display (ServerCore e) = lit ''core error: '' @ core_error_display e"

text \<open>What \<open>build_tls_acceptor\<close> uses of the file system and of rustls; errors are their texts.\<close>

record ('cert, 'key, 'acc) tls_env =
  te_read :: "str \<Rightarrow> str + bytes"
  te_certs :: "bytes \<Rightarrow> str + 'cert list"
  te_key :: "bytes \<Rightarrow> str + 'key option"
  te_acceptor :: "'cert list \<Rightarrow> 'key \<Rightarrow> str + 'acc"

text \<open>\<open>map_err(|e| ServerError::Config(..))?\<close>\<close>

definition or_config :: "str \<Rightarrow> (str + 'a) \<Rightarrow> ('a \<Rightarrow> (server_error + 'b) option) \<Rightarrow> (server_error + 'b) option" where
  "or_config msg r k = (case r of Inl e \<Rightarrow> Some (Inl (ServerConfigErr (msg @ e))) | Inr a \<Rightarrow> k a)"

definition build_tls_acceptor :: "('cert, 'key, 'acc) tls_env \<Rightarrow> server_config \<Rightarrow> (server_error + 'acc option) option" where
  "build_tls_acceptor T config =
     (if \<not> tls_is_enabled (c_tls config) then Some (Inr None)
      else do {
        cert_path \<leftarrow> cert_file (c_tls config);
        key_path \<leftarrow> key_file (c_tls config);
        or_config (lit (''cannot read cert file '' @ [CHR 0x27]) @ cert_path @ lit (CHR 0x27 # '': '')) (te_read T cert_path) (\<lambda>cert_bytes.
        or_config (lit (''cannot read key file '' @ [CHR 0x27]) @ key_path @ lit (CHR 0x27 # '': '')) (te_read T key_path) (\<lambda>key_bytes.
        or_config (lit ''failed to parse certs: '') (te_certs T cert_bytes) (\<lambda>certs.
        or_config (lit ''failed to parse key: '') (te_key T key_bytes) (\<lambda>k.
        case k of
          None \<Rightarrow> Some (Inl (ServerConfigErr (lit ''no private key found in key file'')))
        | Some key \<Rightarrow> or_config (lit ''TLS config error: '') (te_acceptor T certs key) (\<lambda>acc. Some (Inr (Some acc)))))))
      })"

text \<open>The two \<open>unwrap\<close>s are on paths that are there.\<close>

lemma build_tls_acceptor_no_panic: "build_tls_acceptor T config \<noteq> None"
proof (cases "tls_is_enabled (c_tls config)")
  case True
  then obtain cp kp where "cert_file (c_tls config) = Some cp" "key_file (c_tls config) = Some kp" by (auto simp: tls_is_enabled_def)
  then show ?thesis using True by (auto simp: build_tls_acceptor_def or_config_def split: sum.split option.split)
qed (simp add: build_tls_acceptor_def)

section \<open>The accept loop\<close>

record ('h, 'w) server =
  conn_counter :: u64
  sv_active :: u64
  sv_sessions :: "(connection_id \<times> 'h \<times> session) list"
  sv_accepting :: bool
  sv_env :: "('h, 'w) env"

definition server_new :: "'w \<Rightarrow> ('h, 'w) server" where
  "server_new w = \<lparr>conn_counter = 1, sv_active = 0, sv_sessions = [], sv_accepting = True,
     sv_env = \<lparr>w_broker = broker_new, w_chan = w, w_tasks = []\<rparr>\<rparr>"

text \<open>
  A socket is accepted: \<open>tls\<close> is whether its TLS handshake, if there is one, succeeds, \<open>h\<close> the channel of its session.
  The session is spawned and polled for the first time; when its set-up panics, the result is \<open>None\<close>: the release
  profile aborts the process on a panic of any task.
\<close>

definition server_accept :: "server_config \<Rightarrow> bool \<Rightarrow> 'h \<Rightarrow> ('h, 'w) server \<Rightarrow> ('h, 'w) server option" where
  "server_accept cfg tls h sv =
     (if sv_active sv \<ge> of_nat (max_connections cfg) then Some sv
      else
        (let conn_id = conn_counter sv;
             sv1 = sv\<lparr>conn_counter := conn_counter sv + 1, sv_active := sv_active sv + 1\<rparr>
         in if \<not> tls then Some (sv1\<lparr>sv_active := sv_active sv1 - 1\<rparr>)
            else
              (case session_setup cfg of
                 None \<Rightarrow> None
               | Some s \<Rightarrow> Some (sv1\<lparr>sv_sessions := sv_sessions sv1 @ [(conn_id, h, s)]\<rparr>))))"

text \<open>An event of the session of connection \<open>c\<close>; when it ends the session, the task uncounts it.\<close>

definition server_event ::
  "('h, 'w) sender \<Rightarrow> batch_order \<Rightarrow> server_config \<Rightarrow> connection_id \<Rightarrow> event \<Rightarrow> ('h, 'w) server \<Rightarrow> ('h, 'w) server option" where
  "server_event send iter cfg c ev sv =
     (case map_of (sv_sessions sv) c of
        None \<Rightarrow> Some sv
      | Some (h, s) \<Rightarrow>
          (case connection_event send iter cfg c h ev s (sv_env sv) of
             None \<Rightarrow> None
           | Some (open, s', W') \<Rightarrow>
               if open then Some (sv\<lparr>sv_sessions := AList.update c (h, s') (sv_sessions sv), sv_env := W'\<rparr>)
               else Some (sv\<lparr>sv_sessions := AList.delete c (sv_sessions sv), sv_env := close_connection c s' W',
                 sv_active := sv_active sv - 1\<rparr>)))"

section \<open>Waiting for the sessions to end\<close>

datatype drain_result = AllDrained | DrainTimeout u64 | StillDraining

text \<open>Each round sees the number of sessions and the time since the start.\<close>

fun drain_loop :: "nat \<Rightarrow> (u64 \<times> nat) list \<Rightarrow> drain_result" where
  "drain_loop timeout [] = StillDraining"
| "drain_loop timeout ((active, elapsed) # rounds) =
     (if active = 0 then AllDrained
      else if elapsed \<ge> timeout then DrainTimeout active
      else drain_loop timeout rounds)"

text \<open>It ends in the round that first sees no session or the time over, and reports which.\<close>

lemma drain_loop_ends:
  "drain_loop timeout rounds =
     (case find (\<lambda>(active, elapsed). active = 0 \<or> timeout \<le> elapsed) rounds of
        None \<Rightarrow> StillDraining
      | Some (active, _) \<Rightarrow> if active = 0 then AllDrained else DrainTimeout active)"
  by (induction timeout rounds rule: drain_loop.induct) auto

section \<open>Runs of the server\<close>

text \<open>
  \<open>n\<close> bounds the connection and subscription ids that have been given out: an accepted socket counts one, an event as
  much as the bytes it brings.
\<close>

inductive server_run :: "('h, 'w) sender \<Rightarrow> batch_order \<Rightarrow> server_config \<Rightarrow> nat \<Rightarrow> ('h, 'w) server \<Rightarrow> bool"
  for send :: "('h, 'w) sender" and iter :: batch_order and cfg :: server_config where
  starts: "server_run send iter cfg 0 (server_new w)"
| accepts: "server_run send iter cfg n sv \<Longrightarrow> sv_accepting sv \<Longrightarrow>
    h \<notin> (fst \<circ> snd) ` set (sv_sessions sv) \<Longrightarrow> server_accept cfg tls h sv = Some sv' \<Longrightarrow>
    server_run send iter cfg (Suc n) sv'"
| events: "server_run send iter cfg n sv \<Longrightarrow> server_event send iter cfg c ev sv = Some sv' \<Longrightarrow>
    server_run send iter cfg (n + event_cost ev) sv'"
| others: "server_run send iter cfg n sv \<Longrightarrow> w_broker W = w_broker (sv_env sv) \<Longrightarrow> server_run send iter cfg n (sv\<lparr>sv_env := W\<rparr>)"
| stops: "server_run send iter cfg n sv \<Longrightarrow> server_run send iter cfg n (sv\<lparr>sv_accepting := False\<rparr>)"

section \<open>What an event does to other connections\<close>

lemma effect_others:
  assumes "session_effect A cfg c h b b'" and inv: "broker_inv b" and "d \<noteq> c"
  shows "subscription_count_for_connection d b' \<le> subscription_count_for_connection d b"
  using assms(1)
proof (cases rule: session_effect.cases)
  case keeps
  then show ?thesis using inv by (simp add: keeps_subs_def subscription_count_for_connection_def)
next
  case (subscribes p t qg i)
  from subscribe_shape [OF inv subscribes(4)] obtain key where "b_registry b' = registry_add i c p qg key h (b_registry b)" by metis
  then show ?thesis using assms(3) by (simp add: subscription_count_for_connection_def count_for_connection_def registry_add_def Let_def)
next
  case (unsubscribes i)
  show ?thesis
  proof (cases "get_ref b i")
    case None
    then have "unsubscribe c i b = b" by (simp add: unsubscribe_def registry_remove_def)
    with unsubscribes show ?thesis by simp
  next
    case (Some t)
    from unsubscribe_shape(2) [OF Some, of c] show ?thesis
      using count_for_connection_remove [of i "b_registry b" d] unsubscribes by (simp add: subscription_count_for_connection_def)
  qed
qed

lemma run_others:
  assumes "session_run A cfg c h n b b'" and "broker_inv b" and "unat (counter (sub_id_gen b)) + n < 2 ^ 64" and "d \<noteq> c"
  shows "subscription_count_for_connection d b' \<le> subscription_count_for_connection d b"
  using assms(1-3)
proof (induction rule: session_run.induct)
  case (run_step n b b' b'')
  have "broker_inv b'" using session_run_sound [OF run_step.hyps(1)] run_step.prems by simp
  from effect_others [OF run_step.hyps(2) this assms(4)] run_step show ?case by simp
qed simp

lemma close_others:
  assumes "broker_inv (w_broker X)"
  shows "d \<noteq> c \<Longrightarrow> subscription_count_for_connection d (w_broker (close_connection c s X)) = subscription_count_for_connection d (w_broker X)"
    and "get_ref (w_broker (close_connection c s X)) i = Some t \<Longrightarrow> sub_connection_id t \<noteq> c"
    and "sub_id_gen (w_broker (close_connection c s X)) = sub_id_gen (w_broker X)"
proof -
  let ?Y = "if local_published s > 0 then count (inc_published_by (local_published s)) X else X"
  have Y: "broker_inv (w_broker ?Y)" "b_registry (w_broker ?Y) = b_registry (w_broker X)" "sub_id_gen (w_broker ?Y) = sub_id_gen (w_broker X)"
    using keeps_count [of "inc_published_by (local_published s)" X] assms by (auto simp: keeps_subs_def)
  have eq: "w_broker (close_connection c s X) = remove_connection c (w_broker ?Y)" by (simp add: close_connection_def Let_def)
  note sh = remove_connection_shape [OF Y(1), of c]
  show "d \<noteq> c \<Longrightarrow> subscription_count_for_connection d (w_broker (close_connection c s X)) = subscription_count_for_connection d (w_broker X)"
    unfolding eq by (simp add: subscription_count_for_connection_def count_for_connection_def sh(3) Y(2))
  show "get_ref (w_broker (close_connection c s X)) i = Some t \<Longrightarrow> sub_connection_id t \<noteq> c"
    unfolding eq by (auto simp: sh(1) subs_of_conn_def split: if_splits)
  show "sub_id_gen (w_broker (close_connection c s X)) = sub_id_gen (w_broker X)" unfolding eq by (simp only: sh(6) Y(3))
qed

section \<open>The invariant\<close>

definition pending_bytes :: "('h, 'w) server \<Rightarrow> nat" where
  "pending_bytes sv = sum_list (map (\<lambda>(c, h, s). length (read_buf s)) (sv_sessions sv))"

text \<open>A pattern that a context granted by the configuration allows, and a session that some bytes account for.\<close>

definition permitted_pattern :: "server_config \<Rightarrow> subject_pattern \<Rightarrow> bool" where
  "permitted_pattern cfg p \<longleftrightarrow> (\<exists>a ctx. validate_auth a cfg = Inr ctx \<and> can_subscribe ctx p)"

definition has_history :: "server_config \<Rightarrow> session \<Rightarrow> bool" where
  "has_history cfg s \<longleftrightarrow> (\<exists>R. session_ok cfg R s)"

lemma asked_permitted: "asked cfg R p \<Longrightarrow> permitted_pattern cfg p"
  by (auto simp: asked_def connects_def permitted_pattern_def)

lemma has_history_new: "has_history cfg session_new"
  unfolding has_history_def using session_ok_new [of session_new cfg] by (auto simp: session_new_def)

text \<open>
  Every subscription belongs to a session that runs, delivers to its channel and is permitted; every session is within
  its limit; the sessions are counted, within the limit of connections, and have ids of their own.
\<close>

definition sessions_own :: "server_config \<Rightarrow> ('h, 'w) server \<Rightarrow> bool" where
  "sessions_own cfg sv \<longleftrightarrow> (\<forall>i t. get_ref (w_broker (sv_env sv)) i = Some t \<longrightarrow>
     (\<exists>c h s. (c, h, s) \<in> set (sv_sessions sv) \<and> own_sub (permitted_pattern cfg) c h t))"

definition sessions_ok :: "server_config \<Rightarrow> ('h, 'w) server \<Rightarrow> bool" where
  "sessions_ok cfg sv \<longleftrightarrow> (\<forall>c h s. (c, h, s) \<in> set (sv_sessions sv) \<longrightarrow>
     has_history cfg s \<and> within_limit cfg c (w_broker (sv_env sv)) \<and> unat c < unat (conn_counter sv))"

definition counts_ok :: "server_config \<Rightarrow> nat \<Rightarrow> ('h, 'w) server \<Rightarrow> bool" where
  "counts_ok cfg n sv \<longleftrightarrow> unat (sv_active sv) = length (sv_sessions sv) \<and> length (sv_sessions sv) \<le> max_connections cfg \<and>
     distinct (map fst (sv_sessions sv)) \<and> unat (conn_counter sv) \<le> n + 1 \<and>
     unat (counter (sub_id_gen (w_broker (sv_env sv)))) + pending_bytes sv \<le> n + 1"

definition server_inv :: "server_config \<Rightarrow> nat \<Rightarrow> ('h, 'w) server \<Rightarrow> bool" where
  "server_inv cfg n sv \<longleftrightarrow> broker_inv (w_broker (sv_env sv)) \<and> sessions_own cfg sv \<and> sessions_ok cfg sv \<and> counts_ok cfg n sv"

lemmas server_inv_defs = server_inv_def sessions_own_def sessions_ok_def counts_ok_def

lemma server_new_inv: "server_inv cfg 0 (server_new w)"
  by (simp add: server_inv_defs server_new_def broker_new_inv pending_bytes_def new_counter)
    (simp add: broker_new_def registry_new_def)

text \<open>A connection without subscriptions has none counted.\<close>

lemma count_none:
  assumes "broker_inv b" and "\<And>i t. get_ref b i = Some t \<Longrightarrow> sub_connection_id t \<noteq> c"
  shows "subscription_count_for_connection c b = 0"
proof -
  have "set (conn_ids (b_registry b) c) = subs_of_conn (b_registry b) c"
    using assms(1) by (simp add: broker_inv_def registry_inv_def)
  also have "\<dots> = {}" using assms(2) by (auto simp: subs_of_conn_def)
  finally show ?thesis
    by (auto simp: subscription_count_for_connection_def count_for_connection_def conn_ids_def split: option.splits)
qed

text \<open>What a new connection finds: a free id, room, and no subscription under its id.\<close>

lemma server_room:
  assumes inv: "server_inv cfg n sv" and room: "n + 2 < 2 ^ 64" and m: "max_connections cfg < 2 ^ 64"
    and free: "\<not> sv_active sv \<ge> of_nat (max_connections cfg)"
  shows "unat (conn_counter sv + 1) = unat (conn_counter sv) + 1" and "length (sv_sessions sv) < max_connections cfg"
    and "unat (sv_active sv + 1) = length (sv_sessions sv) + 1" and "conn_counter sv \<notin> fst ` set (sv_sessions sv)"
    and "subscription_count_for_connection (conn_counter sv) (w_broker (sv_env sv)) = 0"
proof -
  let ?c = "conn_counter sv" and ?b = "w_broker (sv_env sv)"
  show "unat (?c + 1) = unat ?c + 1"
    using inv room unat_add_lem [of ?c 1] by (simp add: server_inv_def counts_ok_def)
  show few: "length (sv_sessions sv) < max_connections cfg"
    using free inv m by (simp add: server_inv_def counts_ok_def word_le_nat_alt unat_of_nat)
  show "unat (sv_active sv + 1) = length (sv_sessions sv) + 1"
    using few inv m unat_add_lem [of "sv_active sv" 1] by (simp add: server_inv_def counts_ok_def)
  have old: "d \<noteq> ?c" if "(d, k, s) \<in> set (sv_sessions sv)" for d k s
    using inv that by (auto simp: server_inv_def sessions_ok_def)
  then show "?c \<notin> fst ` set (sv_sessions sv)" by fastforce
  show "subscription_count_for_connection ?c ?b = 0"
  proof (rule count_none)
    show "broker_inv ?b" using inv by (simp add: server_inv_def)
    fix i t assume "get_ref ?b i = Some t"
    then obtain d k s where "(d, k, s) \<in> set (sv_sessions sv)" "own_sub (permitted_pattern cfg) d k t" using inv unfolding server_inv_def sessions_own_def by blast
    then show "sub_connection_id t \<noteq> ?c" using old [of d k s] by (auto simp: own_sub_def)
  qed
qed

lemma server_accept_inv:
  assumes inv: "server_inv cfg n sv" and room: "n + 2 < 2 ^ 64" and m: "max_connections cfg < 2 ^ 64"
    and acc: "server_accept cfg tls h sv = Some sv'"
  shows "server_inv cfg (Suc n) sv'"
proof (cases "sv_active sv \<ge> of_nat (max_connections cfg)")
  case True
  then show ?thesis using inv acc by (simp add: server_accept_def server_inv_defs pending_bytes_def)
next
  case False
  let ?c = "conn_counter sv" and ?b = "w_broker (sv_env sv)"
  note new = server_room [OF inv room m False]
  show ?thesis
  proof (cases tls)
    case True
    have sv': "sv' = sv\<lparr>conn_counter := ?c + 1, sv_active := sv_active sv + 1, sv_sessions := sv_sessions sv @ [(?c, h, session_new)]\<rparr>"
      using False True acc session_setup_Some [of cfg] by (auto simp: server_accept_def Let_def split: option.splits)
    have "sessions_own cfg sv'" using inv unfolding sv' server_inv_def sessions_own_def by (simp, blast)
    moreover have "has_history cfg x \<and> within_limit cfg d ?b \<and> unat d < unat (?c + 1)" if "(d, k, x) \<in> set (sv_sessions sv')" for d k x
    proof (cases "(d, k, x) \<in> set (sv_sessions sv)")
      case True
      then have "has_history cfg x \<and> within_limit cfg d ?b \<and> unat d < unat ?c" using inv unfolding server_inv_def sessions_ok_def by blast
      then show ?thesis using new(1) by simp
    next
      case False
      then show ?thesis using that new(1,5) has_history_new by (simp add: sv' within_limit_def)
    qed
    moreover have "counts_ok cfg (Suc n) sv'"
      using inv new(1-4) by (simp add: sv' server_inv_def counts_ok_def pending_bytes_def session_new_def)
    ultimately show ?thesis using inv by (auto simp: sv' server_inv_def sessions_ok_def)
  next
    case f: False
    then show ?thesis
      using inv False new(1) acc by (auto simp: server_accept_def Let_def server_inv_defs pending_bytes_def less_Suc_eq)
  qed
qed

text \<open>What a turn of the session of \<open>c\<close> leaves of the others: they own what they owned, within their limits.\<close>

lemma turn_inv:
  assumes inv: "server_inv cfg n sv" and s: "map_of (sv_sessions sv) c = Some (h, s)"
    and e: "connection_event send iter cfg c h ev s (sv_env sv) = Some (k, s', W')" and room: "n + event_cost ev + 1 < 2 ^ 64"
  shows "broker_inv (w_broker W') \<and> confined (permitted_pattern cfg) c h (w_broker (sv_env sv)) (w_broker W') \<and>
    (k \<longrightarrow> has_history cfg s') \<and> within_limit cfg c (w_broker W') \<and>
    (\<forall>d. d \<noteq> c \<longrightarrow> subscription_count_for_connection d (w_broker W') \<le> subscription_count_for_connection d (w_broker (sv_env sv))) \<and>
    unat (counter (sub_id_gen (w_broker W'))) + length (read_buf s') + pending_bytes (sv\<lparr>sv_sessions := AList.delete c (sv_sessions sv)\<rparr>) \<le>
      n + event_cost ev + 1"
proof -
  let ?b = "w_broker (sv_env sv)"
  have mem: "(c, h, s) \<in> set (sv_sessions sv)" using s by (rule map_of_SomeD)
  have I: "broker_inv ?b" "has_history cfg s" "within_limit cfg c ?b"
    using inv mem by (auto simp: server_inv_def sessions_ok_def)
  have d: "distinct (map fst (sv_sessions sv))" using inv by (simp add: server_inv_def counts_ok_def)
  have p: "pending_bytes sv = length (read_buf s) + pending_bytes (sv\<lparr>sv_sessions := AList.delete c (sv_sessions sv)\<rparr>)"
    using sum_delete [OF s d, of "\<lambda>(c, h, s). length (read_buf s)"] by (simp add: pending_bytes_def)
  obtain R where R: "session_ok cfg R s" using I(2) by (auto simp: has_history_def)
  from connection_event_run [OF R e] obtain m where
    m': "session_run (asked cfg (R @ event_bytes ev)) cfg c h m ?b (w_broker W')" and
    m: "m + length (read_buf s') \<le> length (read_buf s) + event_cost ev" "k \<longrightarrow> has_history cfg s'" by (auto simp: has_history_def)
  from m' have run: "session_run (permitted_pattern cfg) cfg c h m ?b (w_broker W')"
    by (rule session_run_mono) (rule asked_permitted)
  have n: "unat (counter (sub_id_gen ?b)) + pending_bytes sv \<le> n + 1" using inv by (simp add: server_inv_def counts_ok_def)
  then have r: "unat (counter (sub_id_gen ?b)) + m < 2 ^ 64" using m(1) p room by simp
  have sound: "broker_inv (w_broker W')" "unat (counter (sub_id_gen (w_broker W'))) \<le> unat (counter (sub_id_gen ?b)) + m"
    "confined (permitted_pattern cfg) c h ?b (w_broker W')" "within_limit cfg c (w_broker W')" using session_run_sound [OF run I(1) r] I(3) by simp_all
  then show ?thesis using run_others [OF run I(1) r] m n p by simp
qed

lemma owner_kept:
  assumes inv: "server_inv cfg n sv" and s: "map_of (sv_sessions sv) c = Some (h, s)"
    and "confined (permitted_pattern cfg) c h (w_broker (sv_env sv)) b" and "get_ref b i = Some t"
  shows "own_sub (permitted_pattern cfg) c h t \<or> (\<exists>d k x. (d, k, x) \<in> set (AList.delete c (sv_sessions sv)) \<and> own_sub (permitted_pattern cfg) d k t)"
proof (cases "own_sub (permitted_pattern cfg) c h t")
  case False
  then have "get_ref (w_broker (sv_env sv)) i = Some t" using assms(3,4) by (auto simp: confined_def)
  then obtain d k x where o: "(d, k, x) \<in> set (sv_sessions sv)" "own_sub (permitted_pattern cfg) d k t" using inv unfolding server_inv_def sessions_own_def by blast
  have "d \<noteq> c"
  proof
    assume "d = c"
    then have "map_of (sv_sessions sv) c = Some (k, x)" using inv o(1) by (simp add: server_inv_def counts_ok_def)
    with s o(2) False \<open>d = c\<close> show False by simp
  qed
  with o show ?thesis by (auto simp: set_delete)
qed simp

text \<open>The sessions that do not take the turn stay as they were.\<close>

lemma others_ok:
  assumes inv: "server_inv cfg n sv" and "(d, k, x) \<in> set (AList.delete c (sv_sessions sv))"
    and "\<And>d. d \<noteq> c \<Longrightarrow> subscription_count_for_connection d b \<le> subscription_count_for_connection d (w_broker (sv_env sv))"
  shows "has_history cfg x \<and> within_limit cfg d b \<and> unat d < unat (conn_counter sv)"
proof -
  have "(d, k, x) \<in> set (sv_sessions sv)" "d \<noteq> c" using assms(2) by (auto simp: set_delete)
  moreover from this have "has_history cfg x \<and> within_limit cfg d (w_broker (sv_env sv)) \<and> unat d < unat (conn_counter sv)"
    using inv unfolding server_inv_def sessions_ok_def by blast
  ultimately show ?thesis using assms(3) [of d] by (simp add: within_limit_def)
qed

lemma turn_facts:
  assumes "server_inv cfg n sv" and "map_of (sv_sessions sv) c = Some (h, s)"
    and "connection_event send iter cfg c h ev s (sv_env sv) = Some (k, s', W')" and "n + event_cost ev + 1 < 2 ^ 64"
  shows "broker_inv (w_broker W')" and "confined (permitted_pattern cfg) c h (w_broker (sv_env sv)) (w_broker W')" and "k \<Longrightarrow> has_history cfg s'"
    and "within_limit cfg c (w_broker W')"
    and "d \<noteq> c \<Longrightarrow> subscription_count_for_connection d (w_broker W') \<le> subscription_count_for_connection d (w_broker (sv_env sv))"
    and "unat (counter (sub_id_gen (w_broker W'))) + length (read_buf s') + pending_bytes (sv\<lparr>sv_sessions := AList.delete c (sv_sessions sv)\<rparr>) \<le>
      n + event_cost ev + 1"
  using turn_inv [OF assms] by simp_all

text \<open>The session goes on.\<close>

lemma session_goes_on_inv:
  assumes inv: "server_inv cfg n sv" and s: "map_of (sv_sessions sv) c = Some (h, s)"
    and e: "connection_event send iter cfg c h ev s (sv_env sv) = Some (True, s1, W1)" and room: "n + event_cost ev + 1 < 2 ^ 64"
  shows "server_inv cfg (n + event_cost ev) (sv\<lparr>sv_sessions := AList.update c (h, s1) (sv_sessions sv), sv_env := W1\<rparr>)"
    (is "server_inv cfg _ ?sv")
proof -
  have d: "distinct (map fst (sv_sessions sv))" using inv by (simp add: server_inv_def counts_ok_def)
  have idc: "unat c < unat (conn_counter sv)"
    using inv map_of_SomeD [OF s] unfolding server_inv_def sessions_ok_def by blast
  note T = turn_facts [OF inv s e room]
  have "sessions_own cfg ?sv"
    unfolding sessions_own_def using owner_kept [OF inv s T(2)] by (fastforce simp: set_update [OF d])
  moreover have "sessions_ok cfg ?sv"
    unfolding sessions_ok_def using others_ok [OF inv _ T(5)] T(3) [OF TrueI] T(4) idc by (auto simp: set_update [OF d])
  moreover have "counts_ok cfg (n + event_cost ev) ?sv"
    using inv T(6) length_update [OF s d] sum_update [OF d, of "\<lambda>(c, h, s). length (read_buf s)" c "(h, s1)"]
    by (auto simp: server_inv_def counts_ok_def pending_bytes_def distinct_update)
  ultimately show ?thesis using T(1) by (simp add: server_inv_def)
qed

text \<open>The session ends: what it registered is removed with it.\<close>

lemma session_ends_inv:
  assumes inv: "server_inv cfg n sv" and s: "map_of (sv_sessions sv) c = Some (h, s)"
    and e: "connection_event send iter cfg c h ev s (sv_env sv) = Some (False, s1, W1)" and room: "n + event_cost ev + 1 < 2 ^ 64"
  shows "server_inv cfg (n + event_cost ev) (sv\<lparr>sv_sessions := AList.delete c (sv_sessions sv),
    sv_env := close_connection c s1 W1, sv_active := sv_active sv - 1\<rparr>)"
    (is "server_inv cfg _ ?sv")
proof -
  let ?W = "close_connection c s1 W1"
  have d: "distinct (map fst (sv_sessions sv))" using inv by (simp add: server_inv_def counts_ok_def)
  note T = turn_facts [OF inv s e room]
  note close = close_connection_broker [OF T(1), of c s1] close_others [OF T(1), where c = c and s = s1]
  have "sessions_own cfg ?sv"
    unfolding sessions_own_def
  proof (intro allI impI)
    fix i t assume "get_ref (w_broker (sv_env ?sv)) i = Some t"
    then have t: "get_ref (w_broker W1) i = Some t" "sub_connection_id t \<noteq> c" using close(3) [of i t] close(5) [of i t] by simp_all
    from owner_kept [OF inv s T(2) t(1)] t(2) show "\<exists>d k x. (d, k, x) \<in> set (sv_sessions ?sv) \<and> own_sub (permitted_pattern cfg) d k t"
      by (auto simp: own_sub_def)
  qed
  moreover have "sessions_ok cfg ?sv"
    unfolding sessions_ok_def using others_ok [OF inv, of _ _ _ c "w_broker ?W"] T(5) close(4) by auto
  moreover have "counts_ok cfg (n + event_cost ev) ?sv"
  proof -
    have "unat (sv_active sv) = Suc (length (AList.delete c (sv_sessions sv)))"
      using inv length_delete [OF s d] by (simp add: server_inv_def counts_ok_def)
    then have "unat (sv_active sv - 1) = length (AList.delete c (sv_sessions sv))"
      by (cases "sv_active sv = 0") (simp_all add: unat_minus_one)
    then show ?thesis using inv T(6) length_delete [OF s d] close(6)
      by (auto simp: server_inv_def counts_ok_def pending_bytes_def distinct_delete)
  qed
  ultimately show ?thesis using close(1) by (simp add: server_inv_def)
qed

lemma server_event_inv:
  assumes inv: "server_inv cfg n sv" and ev: "server_event send iter cfg c ev sv = Some sv'" and room: "n + event_cost ev + 1 < 2 ^ 64"
  shows "server_inv cfg (n + event_cost ev) sv'"
proof (cases "map_of (sv_sessions sv) c")
  case None
  then show ?thesis using inv ev by (simp add: server_event_def server_inv_defs)
next
  case (Some hs)
  obtain h s where s: "map_of (sv_sessions sv) c = Some (h, s)" using Some by (cases hs) simp
  obtain k s1 W1 where e: "connection_event send iter cfg c h ev s (sv_env sv) = Some (k, s1, W1)"
    using ev s by (auto simp: server_event_def split: option.splits)
  show ?thesis
    using ev s e session_goes_on_inv [OF inv s _ room, of send iter s1 W1] session_ends_inv [OF inv s _ room, of send iter s1 W1]
    by (cases k) (simp_all add: server_event_def)
qed

text \<open>Every state the server reaches satisfies the invariant, as long as the 64-bit ids do not run out.\<close>

lemma server_run_inv:
  assumes "server_run send iter cfg n sv" and m: "max_connections cfg < 2 ^ 64"
  shows "n + 1 < 2 ^ 64 \<Longrightarrow> server_inv cfg n sv"
  using assms(1)
proof (induction rule: server_run.induct)
  case (starts w)
  show ?case by (rule server_new_inv)
next
  case (accepts n sv h tls sv')
  then show ?case using m by (intro server_accept_inv [OF _ _ _ accepts.hyps(4)]) simp_all
next
  case (events n sv c ev sv')
  then show ?case by (intro server_event_inv [OF _ events.hyps(2)]) simp_all
next
  case (others n sv W)
  then show ?case by (simp add: server_inv_defs pending_bytes_def)
next
  case (stops n sv)
  then show ?case by (simp add: server_inv_defs pending_bytes_def)
qed

section \<open>The server as a whole\<close>

text \<open>No event of any session panics, whatever the others did before.\<close>

lemma server_event_total: "server_event send iter cfg c ev sv \<noteq> None"
proof (cases "map_of (sv_sessions sv) c")
  case (Some hs)
  obtain h s where hs: "hs = (h, s)" by (cases hs)
  obtain k s' W' where "connection_event send iter cfg c h ev s (sv_env sv) = Some (k, s', W')"
    using connection_event_total [of send iter cfg c h ev s "sv_env sv"] by auto
  then show ?thesis using Some hs by (simp add: server_event_def)
qed (simp add: server_event_def)

text \<open>
  C15: in every state the server reaches, with any sockets accepted, any interleaving of the events of the sessions and
  any bytes in them, the broker's invariant holds; the sessions are counted exactly, no more run than
  \<open>max_connections\<close> and their ids are different; every subscription in the broker belongs to a session that runs,
  delivers to its channel and is one that credentials accepted by the configuration allow; and no session has more
  than \<open>max_subscriptions_per_connection\<close>.  In particular nothing is left in the broker when no session runs.
\<close>

theorem server_sessions_confined:
  assumes "server_run send iter cfg n sv" and "n + 1 < 2 ^ 64" and "max_connections cfg < 2 ^ 64"
  shows "broker_inv (w_broker (sv_env sv)) \<and> unat (sv_active sv) = length (sv_sessions sv) \<and>
    length (sv_sessions sv) \<le> max_connections cfg \<and> distinct (map fst (sv_sessions sv)) \<and>
    (\<forall>i t. get_ref (w_broker (sv_env sv)) i = Some t \<longrightarrow>
       (\<exists>h s a ctx. (sub_connection_id t, h, s) \<in> set (sv_sessions sv) \<and> sub_delivery t = h \<and>
          validate_auth a cfg = Inr ctx \<and> can_subscribe ctx (sub_pattern t))) \<and>
    (\<forall>c h s. (c, h, s) \<in> set (sv_sessions sv) \<longrightarrow>
       subscription_count_for_connection c (w_broker (sv_env sv)) \<le> max_subscriptions_per_connection cfg)"
proof -
  have inv: "server_inv cfg n sv" by (rule server_run_inv [OF assms(1,3,2)])
  then have "\<exists>h s a ctx. (sub_connection_id t, h, s) \<in> set (sv_sessions sv) \<and> sub_delivery t = h \<and>
      validate_auth a cfg = Inr ctx \<and> can_subscribe ctx (sub_pattern t)" if "get_ref (w_broker (sv_env sv)) i = Some t" for i t
    using that unfolding server_inv_def sessions_own_def own_sub_def permitted_pattern_def by blast
  moreover have "subscription_count_for_connection c (w_broker (sv_env sv)) \<le> max_subscriptions_per_connection cfg"
    if "(c, h, s) \<in> set (sv_sessions sv)" for c h s
    using inv that unfolding server_inv_def sessions_ok_def within_limit_def by blast
  ultimately show ?thesis using inv unfolding server_inv_def counts_ok_def by blast
qed

definition server_one :: "(nat, nat \<Rightarrow> outbound_frame list) server" where
  "server_one = the (server_accept server_config_default True 0 (server_new (\<lambda>_. [])))"

lemma server_one_accepted: "server_accept server_config_default True 0 (server_new (\<lambda>_. [])) = Some server_one"
  by (simp add: server_one_def server_accept_def default_setup Let_def)

theorem server_sessions_confined_witness:
  "\<exists>sv. server_event (bounded_send 4) (\<lambda>ps. ps) server_config_default 1 (EvData [1, 2, 3]) server_one = Some sv \<and>
     broker_inv (w_broker (sv_env sv)) \<and> unat (sv_active sv) = length (sv_sessions sv) \<and> length (sv_sessions sv) \<le> 10000"
proof -
  obtain sv where e: "server_event (bounded_send 4) (\<lambda>ps. ps) server_config_default 1 (EvData [1, 2, 3]) server_one = Some sv"
    using server_event_total [of "bounded_send 4" "\<lambda>ps. ps" server_config_default 1 "EvData [1, 2, 3]" server_one] by auto
  have "server_run (bounded_send 4) (\<lambda>ps. ps) server_config_default (Suc 0) server_one"
    by (rule accepts [OF starts _ _ server_one_accepted]) (simp_all add: server_new_def)
  from events [OF this e] have "server_run (bounded_send 4) (\<lambda>ps. ps) server_config_default 5 sv" by (simp add: eval_nat_numeral)
  from server_sessions_confined [OF this] e show ?thesis by (auto simp: server_config_default_def)
qed

end
