(* ===== verification/Admin.thy ===== *)
theory Admin
  imports Store Broker
begin

text \<open>
  The admin endpoint (\<open>zetmq-server/src/admin.rs\<close>): routing of a request line and the JSON it answers with.  The
  texts are byte lists, as everywhere; \<open>escape_json_string\<close> works on characters, of which only the ASCII ones and the
  two-byte control characters U+0080 to U+009F are treated, so it is a recursion on the UTF-8 bytes.  The order in
  which the store lists its streams is the order of its association list.
\<close>

section \<open>Requests\<close>

text \<open>\<open>lines().next()\<close>: up to the first newline, without a carriage return before it.\<close>

definition first_line :: "str \<Rightarrow> str" where
  "first_line s =
     (let l = takeWhile (\<lambda>b. b \<noteq> 10) s in
      if length l < length s \<and> l \<noteq> [] \<and> last l = 13 then butlast l else l)"

text \<open>\<open>split_whitespace\<close>: the next word and what follows it, on the UTF-8 encoding of white space.\<close>

function until_ws :: "str \<Rightarrow> str \<times> str" where
  "until_ws s =
     (case s of
        [] \<Rightarrow> ([], [])
      | b # t \<Rightarrow> if list_ex (\<lambda>e. prefix e s) ws_encodings then ([], s)
                 else (case until_ws t of (w, r) \<Rightarrow> (b # w, r)))"
  by pat_completeness auto
termination by (relation "measure length") auto

declare until_ws.simps [simp del]

definition next_word :: "str \<Rightarrow> str \<times> str" where
  "next_word s = until_ws (trim_start s)"

section \<open>JSON\<close>

definition quote :: str where "quote = [0x22]"

text \<open>The characters of a string, each its UTF-8 encoding: an ASCII byte, or a first byte and the continuation bytes after it.\<close>

function chars :: "str \<Rightarrow> str list" where
  "chars [] = []"
| "chars (b # s) =
     (if b < 0x80 then [b] # chars s else (b # takeWhile cont_byte s) # chars (dropWhile cont_byte s))"
  by pat_completeness auto
termination by (relation "measure length") (auto simp: le_imp_less_Suc length_dropWhile_le)

text \<open>\<open>char::is_control\<close>, U+0000 to U+001F and U+007F to U+009F, with the code point.\<close>

definition control_code :: "str \<Rightarrow> nat option" where
  "control_code ch =
     (case ch of
        [b] \<Rightarrow> if b < 0x20 \<or> b = 0x7F then Some (unat b) else None
      | [a, b] \<Rightarrow> if a = 0xC2 \<and> 0x80 \<le> b \<and> b \<le> 0x9F then Some (unat b) else None
      | _ \<Rightarrow> None)"

definition escape_char :: "str \<Rightarrow> str" where
  "escape_char ch =
     (if ch = [0x22] then [0x5C, 0x22]
      else if ch = [0x5C] then [0x5C, 0x5C]
      else if ch = [0x0A] then 0x5C # lit ''n''
      else if ch = [0x0D] then 0x5C # lit ''r''
      else if ch = [0x09] then 0x5C # lit ''t''
      else (case control_code ch of Some n \<Rightarrow> 0x5C # lit ''u'' @ hex4 0x61 n | None \<Rightarrow> ch))"

definition escape_json_string :: "str \<Rightarrow> str" where
  "escape_json_string s = concat (map escape_char (chars s))"

text \<open>A key with its quotes and colon, and a number.\<close>

definition key :: "string \<Rightarrow> str" where
  "key k = quote @ lit k @ quote @ lit '':''"

abbreviation num :: "u64 \<Rightarrow> str" where
  "num n \<equiv> dec (unat n)"

definition metrics_json :: "metrics_snapshot \<Rightarrow> str" where
  "metrics_json m = lit ''{'' @ key ''active_connections'' @ num (active_connections m)
     @ lit '','' @ key ''total_connections'' @ num (total_connections m)
     @ lit '','' @ key ''active_subscriptions'' @ num (active_subscriptions m)
     @ lit '','' @ key ''messages_published'' @ num (messages_published m)
     @ lit '','' @ key ''messages_delivered'' @ num (messages_delivered m)
     @ lit '','' @ key ''messages_dropped'' @ num (messages_dropped m)
     @ lit '','' @ key ''protocol_errors'' @ num (protocol_errors m) @ lit ''}''"

definition stream_json :: "stream_info_data \<Rightarrow> str" where
  "stream_json i = lit ''{'' @ key ''name'' @ quote @ escape_json_string (info_name i) @ quote
     @ lit '','' @ key ''config'' @ lit ''{'' @ key ''max_msgs'' @ num (max_msgs (info_config i))
     @ lit '','' @ key ''max_bytes'' @ num (max_bytes (info_config i))
     @ lit '','' @ key ''max_age_secs'' @ num (max_age_secs (info_config i)) @ lit ''}''
     @ lit '','' @ key ''state'' @ lit ''{'' @ key ''messages'' @ num (st_messages (info_state i))
     @ lit '','' @ key ''bytes'' @ num (st_bytes (info_state i))
     @ lit '','' @ key ''first_seq'' @ num (first_seq (info_state i))
     @ lit '','' @ key ''last_seq'' @ num (last_seq (info_state i)) @ lit ''}'' @ lit ''}''"

text \<open>The loop of \<open>streams_json\<close> over the index.\<close>

fun push_streams :: "nat \<Rightarrow> stream_info_data list \<Rightarrow> str \<Rightarrow> str" where
  "push_streams index [] json = json"
| "push_streams index (i # is) json =
     push_streams (index + 1) is ((if index > 0 then json @ lit '','' else json) @ stream_json i)"

definition streams_json :: "stream_info_data list \<Rightarrow> str" where
  "streams_json is = push_streams 0 is (lit ''['') @ lit '']''"

definition stats_json :: "metrics_snapshot \<Rightarrow> stream_info_data list \<Rightarrow> str" where
  "stats_json m is = lit ''{'' @ key ''metrics'' @ metrics_json m @ lit '','' @ key ''streams'' @ streams_json is @ lit ''}''"

definition crlf :: str where "crlf = [13, 10]"

definition json_response :: "str \<Rightarrow> str \<Rightarrow> str" where
  "json_response status body = lit ''HTTP/1.1 '' @ status @ crlf @ lit ''Content-Type: application/json'' @ crlf
     @ lit ''Content-Length: '' @ dec (length body) @ crlf @ lit ''Connection: close'' @ crlf @ crlf @ body"

definition error_json :: "string \<Rightarrow> str" where
  "error_json msg = lit ''{'' @ key ''error'' @ quote @ lit msg @ quote @ lit ''}''"

section \<open>Routing\<close>

definition route_request :: "str \<Rightarrow> 'h broker \<Rightarrow> memory_store \<Rightarrow> str" where
  "route_request request_line b store =
     (let (meth, rest) = next_word request_line; path = fst (next_word rest) in
      if meth \<noteq> lit ''GET'' then json_response (lit ''405 Method Not Allowed'') (error_json ''method not allowed'')
      else if path = lit ''/metrics'' then json_response (lit ''200 OK'') (metrics_json (snapshot (b_metrics b)))
      else if path = lit ''/streams'' then json_response (lit ''200 OK'') (streams_json (list_streams store))
      else if path = lit ''/healthz'' then json_response (lit ''200 OK'') (lit ''{'' @ key ''status'' @ quote @ lit ''ok'' @ quote @ lit ''}'')
      else if path = lit ''/stats'' then
        json_response (lit ''200 OK'') (stats_json (snapshot (b_metrics b)) (list_streams store))
      else json_response (lit ''404 Not Found'') (error_json ''not found''))"

text \<open>One read of at most 8192 bytes; nothing is written when the peer has closed.\<close>

definition admin_connection :: "bytes \<Rightarrow> 'h broker \<Rightarrow> memory_store \<Rightarrow> str" where
  "admin_connection data b store =
     (let request = take 8192 data in
      if request = [] then [] else route_request (first_line (from_utf8_lossy request)) b store)"

section \<open>What a JSON reader makes of it\<close>

text \<open>Reference: the rest of a JSON string after its opening quote (RFC 8259), with what follows the closing one.\<close>

definition hex_value :: "u8 \<Rightarrow> nat option" where
  "hex_value c = (if 0x30 \<le> c \<and> c \<le> 0x39 then Some (unat c - 0x30)
     else if 0x61 \<le> c \<and> c \<le> 0x66 then Some (unat c - 0x61 + 10)
     else if 0x41 \<le> c \<and> c \<le> 0x46 then Some (unat c - 0x41 + 10) else None)"

definition hex_number :: "u8 \<Rightarrow> u8 \<Rightarrow> u8 \<Rightarrow> u8 \<Rightarrow> nat option" where
  "hex_number a b c d = do {
     x \<leftarrow> hex_value a; y \<leftarrow> hex_value b; z \<leftarrow> hex_value c; w \<leftarrow> hex_value d;
     Some (((x * 16 + y) * 16 + z) * 16 + w)
   }"

definition utf8_of :: "nat \<Rightarrow> str" where
  "utf8_of n = (if n < 0x80 then [of_nat n]
     else if n < 0x800 then [0xC0 + of_nat (n div 64), 0x80 + of_nat (n mod 64)]
     else [0xE0 + of_nat (n div 4096), 0x80 + of_nat (n div 64 mod 64), 0x80 + of_nat (n mod 64)])"

definition json_escape :: "u8 \<Rightarrow> u8 option" where
  "json_escape c = map_of [(0x22, 0x22), (0x5C, 0x5C), (0x2F, 0x2F), (0x62, 8), (0x66, 12), (0x6E, 10), (0x72, 13), (0x74, 9)] c"

function json_string :: "str \<Rightarrow> (str \<times> str) option" where
  "json_string [] = None"
| "json_string (b # s) =
     (if b = 0x22 then Some ([], s)
      else if b < 0x20 then None
      else if b \<noteq> 0x5C then map_option (apfst (Cons b)) (json_string s)
      else
        (case s of
           [] \<Rightarrow> None
         | e # t \<Rightarrow>
             if e = 0x75 then
               (case t of
                  w # x # y # z # r \<Rightarrow>
                    (case hex_number w x y z of
                       None \<Rightarrow> None
                     | Some n \<Rightarrow> map_option (apfst ((@) (utf8_of n))) (json_string r))
                | _ \<Rightarrow> None)
             else
               (case json_escape e of
                  None \<Rightarrow> None
                | Some c \<Rightarrow> map_option (apfst (Cons c)) (json_string t))))"
  by pat_completeness auto
termination by (relation "measure length") auto

lemma hex_value_digit: "d < 16 \<Longrightarrow> hex_value (hex_digit 0x61 d) = Some d"
proof (cases "d < 10")
  case True
  then show ?thesis using unat_digit [OF True] by (simp add: hex_value_def hex_digit_def word_le_nat_alt)
next
  case False
  assume "d < 16"
  then have u: "unat (0x61 + of_nat (d - 10) :: u8) = 0x61 + (d - 10)" using False by (simp add: unat_word_ariths unat_of_nat)
  then have "hex_value (0x61 + of_nat (d - 10)) = Some (unat (0x61 + of_nat (d - 10) :: u8) - 0x61 + 10)"
    using \<open>d < 16\<close> unfolding hex_value_def word_le_nat_alt u by simp
  with u False show ?thesis by (simp add: hex_digit_def)
qed

lemma hex_digits_value:
  "n < 65536 \<Longrightarrow> ((n div 16 ^ 3 mod 16 * 16 + n div 16 ^ 2 mod 16) * 16 + n div 16 ^ 1 mod 16) * 16 + n div 16 ^ 0 mod 16 = (n :: nat)"
proof -
  assume n: "n < 65536"
  have "n div 16 ^ 3 mod 16 = n div 16 div 16 div 16" "n div 16 ^ 2 = n div 16 div 16"
    using n by (simp_all add: div_mult2_eq [symmetric])
  moreover have "x div 16 * 16 + x mod 16 = x" for x :: nat by simp
  ultimately show ?thesis by simp
qed

lemma hex_number_hex4:
  assumes "n < 65536" shows "\<exists>w x y z. hex4 0x61 n = [w, x, y, z] \<and> hex_number w x y z = Some n"
proof -
  have "hex_value (hex_digit 0x61 (m mod 16)) = Some (m mod 16)" for m by (rule hex_value_digit) simp
  then have "hex_number (hex_digit 0x61 (n div 16 ^ 3 mod 16)) (hex_digit 0x61 (n div 16 ^ 2 mod 16)) (hex_digit 0x61 (n div 16 ^ 1 mod 16))
      (hex_digit 0x61 (n div 16 ^ 0 mod 16)) = Some n"
    unfolding hex_number_def using hex_digits_value [OF assms] by (simp only: bind.bind_lunit)
  then show ?thesis unfolding hex4_def list.map by blast
qed

lemma json_string_hex:
  assumes "n < 65536"
  shows "json_string (0x5C # 0x75 # hex4 0x61 n @ r) = map_option (apfst ((@) (utf8_of n))) (json_string r)"
proof -
  from hex_number_hex4 [OF assms] obtain w x y z where h: "hex4 0x61 n = [w, x, y, z]" "hex_number w x y z = Some n" by blast
  show ?thesis unfolding h(1) by (simp add: h(2))
qed

lemma utf8_of_byte: "b < 0x80 \<Longrightarrow> utf8_of (unat b) = [b]"
  by (simp add: utf8_of_def word_less_nat_alt)

lemma utf8_of_c1:
  fixes b :: u8
  assumes "0x80 \<le> b" and "b \<le> 0x9F"
  shows "utf8_of (unat b) = [0xC2, b]"
proof -
  have u: "128 \<le> unat b" "unat b \<le> 159" using assms by (simp_all add: word_le_nat_alt)
  define k where "k = unat b - 128"
  then have k: "unat b = k + 2 * 64" "k < 64" using u by simp_all
  have "unat b div 64 = 2" "128 + unat b mod 64 = unat b" unfolding k(1) div_mult_self1 [OF zero_neq_numeral [symmetric]] mod_mult_self1 using k(2) by simp_all
  moreover have "of_nat (128 + unat b mod 64) = (of_nat (unat b) :: u8)" unfolding calculation(2) ..
  then have "0x80 + of_nat (unat b mod 64) = (of_nat (unat b) :: u8)" by (simp only: of_nat_add of_nat_numeral)
  then have "0x80 + of_nat (unat b mod 64) = b" by simp
  ultimately show ?thesis using u by (simp add: utf8_of_def)
qed

lemma append_one: "(@) [b] = Cons b"
  by (rule ext) simp

lemma json_string_plain: "list_all (\<lambda>b. 0x80 \<le> b) ch \<Longrightarrow> json_string (ch @ r) = map_option (apfst ((@) ch)) (json_string r)"
proof (induction ch)
  case Nil
  then show ?case by (cases "json_string r") auto
next
  case (Cons b ch)
  then have "b \<noteq> 0x22" "\<not> b < 0x20" "b \<noteq> 0x5C" by (auto simp: word_le_nat_alt word_less_nat_alt)
  with Cons show ?case by (cases "json_string r") (auto simp: apfst_def split: prod.split)
qed

text \<open>What \<open>chars\<close> yields: ASCII bytes, and groups of other bytes.\<close>

definition char_ok :: "str \<Rightarrow> bool" where
  "char_ok ch \<longleftrightarrow> (\<exists>b. ch = [b] \<and> b < 0x80) \<or> list_all (\<lambda>b. 0x80 \<le> b) ch"

lemma chars_ok: "list_all char_ok (chars s)"
proof (induction s rule: chars.induct)
  case (2 b s)
  have "list_all (\<lambda>b. 0x80 \<le> b) (takeWhile cont_byte s)" by (auto simp: list_all_iff cont_byte_def dest!: set_takeWhileD)
  with 2 show ?case by (auto simp: char_ok_def)
qed simp

lemma concat_chars: "concat (chars s) = s"
  by (induction s rule: chars.induct) auto

lemma json_string_escape: "json_escape e = Some c \<Longrightarrow> e \<noteq> 0x75 \<Longrightarrow> json_string (0x5C # e # r) = map_option (apfst (Cons c)) (json_string r)"
  by simp

lemma high_char:
  assumes "list_all (\<lambda>b. 0x80 \<le> b) ch"
  shows "escape_char ch = (case control_code ch of Some n \<Rightarrow> 0x5C # lit ''u'' @ hex4 0x61 n | None \<Rightarrow> ch)"
    and "control_code ch = Some n \<Longrightarrow> \<exists>b. ch = [0xC2, b] \<and> 0x80 \<le> b \<and> b \<le> 0x9F \<and> n = unat b"
proof -
  have no: "ch \<noteq> [b]" if "b < 0x80" for b using assms that by auto
  show "escape_char ch = (case control_code ch of Some n \<Rightarrow> 0x5C # lit ''u'' @ hex4 0x61 n | None \<Rightarrow> ch)"
    using no [of "0x22"] no [of "0x5C"] no [of "0x0A"] no [of "0x0D"] no [of "0x09"] by (simp add: escape_char_def)
  have "\<not> (b < 0x20 \<or> b = 0x7F)" if "ch = [b]" for b :: u8
    using no [of b] that by (auto simp: word_less_nat_alt)
  then show "control_code ch = Some n \<Longrightarrow> \<exists>b. ch = [0xC2, b] \<and> 0x80 \<le> b \<and> b \<le> 0x9F \<and> n = unat b"
    by (auto simp: control_code_def split: list.splits if_splits)
qed

lemma json_string_high:
  assumes "list_all (\<lambda>b. 0x80 \<le> b) ch"
  shows "json_string (escape_char ch @ r) = map_option (apfst ((@) ch)) (json_string r)"
proof (cases "control_code ch")
  case None
  then show ?thesis using high_char(1) [OF assms] json_string_plain [OF assms] by simp
next
  case (Some n)
  from high_char(2) [OF assms Some] obtain b where b: "ch = [0xC2, b]" "0x80 \<le> b" "b \<le> 0x9F" "n = unat b" by blast
  have n: "n < 65536" using unsigned_less [of b, where 'a = nat] b(4) by simp
  have "escape_char ch @ r = 0x5C # 0x75 # hex4 0x61 n @ r" using high_char(1) [OF assms] Some by (simp add: lit_def)
  then show ?thesis using json_string_hex [OF n] utf8_of_c1 [OF b(2,3)] b(1,4) by simp
qed

lemma json_string_ascii:
  assumes "b < 0x80" shows "json_string (escape_char [b] @ r) = map_option (apfst (Cons b)) (json_string r)"
proof -
  have esc: "json_escape 0x22 = Some 0x22" "json_escape 0x5C = Some 0x5C" "json_escape 0x6E = Some 0x0A" "json_escape 0x72 = Some 0x0D"
    "json_escape 0x74 = Some 0x09" by (simp_all add: json_escape_def)
  consider "b \<in> {0x22, 0x5C, 0x0A, 0x0D, 0x09}" | "b \<notin> {0x22, 0x5C, 0x0A, 0x0D, 0x09}" "b < 0x20 \<or> b = 0x7F"
    | "b \<notin> {0x22, 0x5C, 0x0A, 0x0D, 0x09}" "\<not> (b < 0x20 \<or> b = 0x7F)" by blast
  then show ?thesis
  proof cases
    case 1
    then show ?thesis using esc by (auto simp: escape_char_def lit_def json_string_escape simp del: json_string.simps)
  next
    case 2
    have n: "unat b < 65536" using unsigned_less [of b, where 'a = nat] by simp
    have "escape_char [b] @ r = 0x5C # 0x75 # hex4 0x61 (unat b) @ r" using 2 by (simp add: escape_char_def control_code_def lit_def)
    then show ?thesis using json_string_hex [OF n] utf8_of_byte [OF assms] by (simp add: append_one del: json_string.simps)
  next
    case 3
    then show ?thesis by (simp add: escape_char_def control_code_def)
  qed
qed

lemma escaped_name_roundtrip: "json_string (escape_json_string s @ quote @ rest) = Some (s, rest)"
proof -
  have "json_string (concat (map escape_char cs) @ quote @ rest) = Some (concat cs, rest)" if "list_all char_ok cs" for cs
    using that
  proof (induction cs)
    case Nil
    then show ?case by (simp add: quote_def)
  next
    case (Cons ch cs)
    have "json_string (escape_char ch @ t) = map_option (apfst ((@) ch)) (json_string t)" for t
      using Cons.prems json_string_high [of ch t] json_string_ascii by (auto simp: char_ok_def append_one simp del: json_string.simps)
    then show ?case using Cons by simp
  qed
  from this [OF chars_ok [of s]] show ?thesis by (simp add: escape_json_string_def concat_chars)
qed

section \<open>Reading the stream list back\<close>

text \<open>Reference: a reader of the text of \<open>/streams\<close>; numbers are digits up to the next other byte.\<close>

definition expect :: "str \<Rightarrow> str \<Rightarrow> str option" where
  "expect p s = (if prefix p s then Some (drop (length p) s) else None)"

definition digit :: "u8 \<Rightarrow> bool" where
  "digit c \<longleftrightarrow> 0x30 \<le> c \<and> c \<le> 0x39"

definition number :: "str \<Rightarrow> (u64 \<times> str) option" where
  "number s = (let ds = takeWhile digit s in if ds = [] then None else Some (of_nat (undec ds), dropWhile digit s))"

definition read_stream :: "str \<Rightarrow> (stream_info_data \<times> str) option" where
  "read_stream s = do {
     s \<leftarrow> expect (lit ''{'' @ key ''name'' @ quote) s;
     (name, s) \<leftarrow> json_string s;
     s \<leftarrow> expect (lit '','' @ key ''config'' @ lit ''{'' @ key ''max_msgs'') s;
     (mm, s) \<leftarrow> number s;
     s \<leftarrow> expect (lit '','' @ key ''max_bytes'') s;
     (mb, s) \<leftarrow> number s;
     s \<leftarrow> expect (lit '','' @ key ''max_age_secs'') s;
     (ma, s) \<leftarrow> number s;
     s \<leftarrow> expect (lit ''}'' @ lit '','' @ key ''state'' @ lit ''{'' @ key ''messages'') s;
     (ms, s) \<leftarrow> number s;
     s \<leftarrow> expect (lit '','' @ key ''bytes'') s;
     (bs, s) \<leftarrow> number s;
     s \<leftarrow> expect (lit '','' @ key ''first_seq'') s;
     (fs, s) \<leftarrow> number s;
     s \<leftarrow> expect (lit '','' @ key ''last_seq'') s;
     (ls, s) \<leftarrow> number s;
     s \<leftarrow> expect (lit ''}'' @ lit ''}'') s;
     Some (\<lparr>info_name = name, info_config = \<lparr>max_msgs = mm, max_bytes = mb, max_age_secs = ma\<rparr>,
       info_state = \<lparr>st_messages = ms, st_bytes = bs, first_seq = fs, last_seq = ls\<rparr>\<rparr>, s)
   }"

lemma expect_append [simp]: "expect p (p @ s) = Some s"
  by (simp add: expect_def)

lemma number_num [simp]: "\<not> digit c \<Longrightarrow> number (num n @ c # s) = Some (n, c # s)"
proof -
  assume c: "\<not> digit c"
  have "digit x" if "x \<in> set (num n)" for x using dec_digits [OF that] by (simp add: digit_def)
  then have "takeWhile digit (num n @ c # s) = num n" "dropWhile digit (num n @ c # s) = c # s"
    using c by (simp_all add: takeWhile_append dropWhile_append)
  then show ?thesis by (simp add: number_def)
qed

lemma expect_Cons [simp]: "expect (x # p) (x # s) = expect p s" "expect [] s = Some s"
  by (simp_all add: expect_def)

lemma read_stream_json: "read_stream (stream_json i @ s) = Some (i, s)"
proof -
  have name: "json_string (escape_json_string t @ 0x22 # r) = Some (t, r)" for t r
    using escaped_name_roundtrip [of t r] by (simp add: quote_def del: json_string.simps)
  have sep: "\<not> digit 0x2C" "\<not> digit 0x7D" by (simp_all add: digit_def)
  show ?thesis
    unfolding read_stream_def stream_json_def key_def quote_def
    by (simp add: name sep lit_def del: json_string.simps)
qed

text \<open>The elements after the first have a comma before them.\<close>

function read_rest :: "str \<Rightarrow> (stream_info_data list \<times> str) option" where
  "read_rest s =
     (case s of
        [] \<Rightarrow> None
      | c # t \<Rightarrow>
          if c = 0x5D then Some ([], t)
          else if c \<noteq> 0x2C then None
          else
            (case read_stream t of
               None \<Rightarrow> None
             | Some (i, r) \<Rightarrow> if length r < length s then map_option (apfst (Cons i)) (read_rest r) else None))"
  by pat_completeness auto
termination by (relation "measure length") auto

declare read_rest.simps [simp del]

definition read_streams :: "str \<Rightarrow> (stream_info_data list \<times> str) option" where
  "read_streams s = do {
     s \<leftarrow> expect (lit ''['') s;
     case expect (lit '']'') s of
       Some r \<Rightarrow> Some ([], r)
     | None \<Rightarrow> do {
         (i, s) \<leftarrow> read_stream s;
         (is, s) \<leftarrow> read_rest s;
         Some (i # is, s)
       }
   }"

definition stream_items :: "stream_info_data list \<Rightarrow> str" where
  "stream_items is = concat (map (\<lambda>i. 0x2C # stream_json i) is)"

lemma push_streams_items: "index > 0 \<Longrightarrow> push_streams index is json = json @ stream_items is"
  by (induction index "is" json rule: push_streams.induct) (auto simp: stream_items_def lit_def)

lemma streams_json_eq: "streams_json is = (case is of [] \<Rightarrow> lit ''[]'' | i # is \<Rightarrow> 0x5B # stream_json i @ stream_items is @ [0x5D])"
  by (cases "is") (simp_all add: streams_json_def push_streams_items lit_def)

lemma read_rest_items: "read_rest (stream_items is @ 0x5D # s) = Some (is, s)"
proof (induction "is")
  case Nil
  then show ?case by (subst read_rest.simps) (simp add: stream_items_def)
next
  case (Cons i "is")
  then show ?case by (subst read_rest.simps) (simp add: stream_items_def read_stream_json)
qed

lemma streams_json_roundtrip: "read_streams (streams_json is @ s) = Some (is, s)"
proof (cases "is")
  case Nil
  then show ?thesis by (simp add: streams_json_eq read_streams_def lit_def)
next
  case (Cons i is')
  have "expect [0x5D] (stream_json i @ t) = None" for t by (simp add: stream_json_def expect_def lit_def)
  then show ?thesis
    by (simp add: Cons streams_json_eq read_streams_def lit_def read_stream_json read_rest_items)
qed

section \<open>Requests that are understood\<close>

lemma until_ws_graphic: "list_all graphic w \<Longrightarrow> until_ws (w @ 0x20 # s) = (w, 0x20 # s)"
proof (induction w)
  case Nil
  have "list_ex (\<lambda>e. prefix e (0x20 # s)) ws_encodings" by (simp add: ws_encodings_def)
  then show ?case by (subst until_ws.simps) simp
next
  case (Cons b w)
  have "stripped ws_encodings ((b # w) @ 0x20 # s)" using Cons.prems ws_not_graphic(1) by (intro graphic_stripped) simp_all
  moreover have "[] \<notin> set ws_encodings" by (simp add: ws_encodings_def)
  ultimately have "\<not> list_ex (\<lambda>e. prefix e ((b # w) @ 0x20 # s)) ws_encodings" by (auto simp: list_ex_iff stripped_def)
  then show ?case using Cons by (subst until_ws.simps) simp
qed

lemma next_word_graphic: "list_all graphic w \<Longrightarrow> w \<noteq> [] \<Longrightarrow> next_word (w @ 0x20 # s) = (w, 0x20 # s)"
  by (cases w) (simp_all add: next_word_def trim_start_graphic until_ws_graphic [of "_ # _", simplified])

lemma next_word_space: "next_word (0x20 # s) = next_word s"
proof -
  have "find (\<lambda>e. e \<noteq> [] \<and> prefix e (0x20 # s)) ws_encodings = Some [0x20]" by (simp add: ws_encodings_def)
  then have "trim_start (0x20 # s) = trim_start s" unfolding trim_start_def by (subst strip_front.simps) simp
  then show ?thesis by (simp add: next_word_def)
qed

text \<open>
  C39: the admin endpoint reports the streams as the store lists them.  The answer to \<open>GET /streams\<close> declares the
  length of its body, and a JSON reader gets from the body, for every stream and in order, its name, whatever
  characters it has, its configuration and its state, with nothing left over.
\<close>

theorem admin_streams_report:
  "\<exists>body. route_request (lit ''GET /streams HTTP/1.1'') b store =
     lit ''HTTP/1.1 200 OK'' @ crlf @ lit ''Content-Type: application/json'' @ crlf @ lit ''Content-Length: '' @ dec (length body)
       @ crlf @ lit ''Connection: close'' @ crlf @ crlf @ body \<and>
     read_streams body = Some (list_streams store, [])"
proof -
  have g: "list_all graphic (lit ''GET'')" "list_all graphic (lit ''/streams'')" by (simp_all add: graphic_def lit_def)
  have line: "lit ''GET /streams HTTP/1.1'' = lit ''GET'' @ 0x20 # lit ''/streams'' @ 0x20 # lit ''HTTP/1.1''" by (simp add: lit_def)
  have w: "next_word (lit ''GET /streams HTTP/1.1'') = (lit ''GET'', 0x20 # lit ''/streams'' @ 0x20 # lit ''HTTP/1.1'')"
    unfolding line by (rule next_word_graphic [OF g(1)]) (simp add: lit_def)
  have p: "next_word (0x20 # lit ''/streams'' @ 0x20 # lit ''HTTP/1.1'') = (lit ''/streams'', 0x20 # lit ''HTTP/1.1'')"
    unfolding next_word_space by (rule next_word_graphic [OF g(2)]) (simp add: lit_def)
  have "lit ''/streams'' \<noteq> lit ''/metrics''" by (simp add: lit_def)
  then have "route_request (lit ''GET /streams HTTP/1.1'') b store = json_response (lit ''200 OK'') (streams_json (list_streams store))"
    by (simp only: route_request_def w p Let_def prod.case fst_conv simp_thms if_False if_True)
  moreover have "read_streams (streams_json (list_streams store)) = Some (list_streams store, [])"
    using streams_json_roundtrip [of "list_streams store" "[]"] by simp
  moreover have "lit ''HTTP/1.1 '' @ lit ''200 OK'' = lit ''HTTP/1.1 200 OK''" by (simp add: lit_def)
  ultimately show ?thesis by (intro exI conjI) (assumption | simp add: json_response_def lit_def)+
qed

end
