(* ===== verification/System.thy ===== *)
theory System
  imports Listener Admin
begin

text \<open>
  The process: \<open>zetmq-server/src/main.rs\<close> and \<open>TcpServer::new\<close> and \<open>run\<close> of \<open>network/listener.rs\<close>.  \<open>start_system\<close>
  builds the parts and binds the listeners; an event of the process is a socket or an error of \<open>accept\<close>, an event of a
  session, a step of the executor that runs a spawned store task, a signal, a round of the drain loop.  Events come in
  any order; tokio's scheduling is the choice of the next one.  \<open>None\<close> is a panic: the release profile of
  \<open>Cargo.toml\<close> has \<open>panic = "abort"\<close>, so a panic of any task is the end of the process.
\<close>

section \<open>Start-up\<close>

text \<open>\<open>run\<close> returns the error of a listener, or says how the drain loop ended; it is then over for every task.\<close>

datatype phase = Serving | Stopping | Ended "server_error + drain_result"

record ('h, 'w) system =
  sys_server :: "('h, 'w) server"
  sys_store :: consumer_manager
  sys_phase :: phase
  sys_tls :: bool
  sys_admin :: bool

text \<open>\<open>par\<close> is what \<open>available_parallelism\<close> returns.\<close>

definition worker_threads_of :: "server_config \<Rightarrow> nat option \<Rightarrow> nat" where
  "worker_threads_of cfg par =
     (if worker_threads cfg > 0 then worker_threads cfg else (case par of Some n \<Rightarrow> n | None \<Rightarrow> 4))"

text \<open>\<open>bound\<close> and \<open>admin_bound\<close> are the results of the two \<open>bind\<close>s.  An error of \<open>TcpServer::new\<close> is a panic.\<close>

definition start_system ::
  "('cert, 'key, 'acc) tls_env \<Rightarrow> str + unit \<Rightarrow> str + unit \<Rightarrow> server_config \<Rightarrow> 'w \<Rightarrow> ('h, 'w) system option" where
  "start_system T bound admin_bound cfg w =
     (case build_tls_acceptor T cfg of
        Some (Inr acceptor) \<Rightarrow>
          Some \<lparr>sys_server = server_new w, sys_store = store_manager_new,
            sys_phase = (case bound of Inl e \<Rightarrow> Ended (Inl (ServerIo e)) | Inr _ \<Rightarrow> Serving),
            sys_tls = (acceptor \<noteq> None),
            sys_admin = (case admin_bound of Inl _ \<Rightarrow> False | Inr _ \<Rightarrow> True)\<rparr>
      | _ \<Rightarrow> None)"

section \<open>Steps\<close>

datatype 'h system_event =
    SysSocket bool 'h
  | SysAcceptError str
  | SysSession connection_id event
  | SysTask nat
  | SysShutdown
  | SysDrainCheck nat

text \<open>The executor runs one of the spawned tasks to its end.\<close>

definition run_task :: "('h, 'w) sender \<Rightarrow> nat \<Rightarrow> ('h, 'w) system \<Rightarrow> ('h, 'w) system" where
  "run_task send k y =
     (let W = sv_env (sys_server y) in
      if k < length (w_tasks W) then
        (let (m, w) = run_store_task send (w_tasks W ! k) (sys_store y, w_chan W);
             W' = W\<lparr>w_chan := w, w_tasks := take k (w_tasks W) @ drop (Suc k) (w_tasks W)\<rparr>
         in y\<lparr>sys_store := m, sys_server := (sys_server y)\<lparr>sv_env := W'\<rparr>\<rparr>)
      else y)"

definition drain_check :: "server_config \<Rightarrow> nat \<Rightarrow> ('h, 'w) system \<Rightarrow> ('h, 'w) system" where
  "drain_check cfg elapsed_ms y =
     (case drain_loop (1000 * unat (drain_timeout_secs cfg)) [(sv_active (sys_server y), elapsed_ms)] of
        StillDraining \<Rightarrow> y
      | r \<Rightarrow> y\<lparr>sys_phase := Ended (Inr r)\<rparr>)"

fun ended :: "phase \<Rightarrow> bool" where
  "ended (Ended _) \<longleftrightarrow> True"
| "ended _ \<longleftrightarrow> False"

fun system_step ::
  "('h, 'w) sender \<Rightarrow> batch_order \<Rightarrow> server_config \<Rightarrow> 'h system_event \<Rightarrow> ('h, 'w) system \<Rightarrow> ('h, 'w) system option" where
  "system_step send iter cfg (SysSocket handshake h) y =
     (if sys_phase y = Serving
      then map_option (\<lambda>sv. y\<lparr>sys_server := sv\<rparr>) (server_accept cfg (\<not> sys_tls y \<or> handshake) h (sys_server y))
      else Some y)"
| "system_step send iter cfg (SysAcceptError e) y = Some
     (if sys_phase y = Serving then y\<lparr>sys_phase := Ended (Inl (ServerIo e))\<rparr> else y)"
| "system_step send iter cfg (SysSession c ev) y =
     (if ended (sys_phase y) then Some y
      else map_option (\<lambda>sv. y\<lparr>sys_server := sv\<rparr>) (server_event send iter cfg c ev (sys_server y)))"
| "system_step send iter cfg (SysTask k) y = Some (if ended (sys_phase y) then y else run_task send k y)"
| "system_step send iter cfg SysShutdown y = Some
     (if sys_phase y = Serving then y\<lparr>sys_phase := Stopping, sys_server := (sys_server y)\<lparr>sv_accepting := False\<rparr>\<rparr> else y)"
| "system_step send iter cfg (SysDrainCheck elapsed_ms) y = Some
     (if sys_phase y = Stopping then drain_check cfg elapsed_ms y else y)"

text \<open>A request to the admin port, if that could be bound.\<close>

definition system_admin :: "bytes \<Rightarrow> ('h, 'w) system \<Rightarrow> str option" where
  "system_admin data y =
     (if sys_admin y \<and> \<not> ended (sys_phase y)
      then Some (admin_connection data (w_broker (sv_env (sys_server y))) (cm_store (sys_store y))) else None)"

section \<open>Runs\<close>

text \<open>What an event adds to the identifiers given out, as in \<open>server_run\<close>.\<close>

fun system_cost :: "phase \<Rightarrow> 'h system_event \<Rightarrow> nat" where
  "system_cost ph (SysSocket _ _) = (if ph = Serving then 1 else 0)"
| "system_cost ph (SysSession _ ev) = (if ended ph then 0 else event_cost ev)"
| "system_cost ph _ = 0"

text \<open>Each accepted socket has a channel of its own.\<close>

fun new_channel :: "('h, 'w) system \<Rightarrow> 'h system_event \<Rightarrow> bool" where
  "new_channel y (SysSocket _ h) \<longleftrightarrow> h \<notin> (fst \<circ> snd) ` set (sv_sessions (sys_server y))"
| "new_channel y _ \<longleftrightarrow> True"

inductive system_run ::
  "('cert, 'key, 'acc) tls_env \<Rightarrow> ('h, 'w) sender \<Rightarrow> batch_order \<Rightarrow> server_config \<Rightarrow> nat \<Rightarrow> ('h, 'w) system \<Rightarrow> bool"
  for T :: "('cert, 'key, 'acc) tls_env" and send :: "('h, 'w) sender" and iter :: batch_order and cfg :: server_config where
  started: "start_system T bound admin_bound cfg w = Some y \<Longrightarrow> system_run T send iter cfg 0 y"
| stepped: "system_run T send iter cfg n y \<Longrightarrow> new_channel y ev \<Longrightarrow> system_step send iter cfg ev y = Some y' \<Longrightarrow>
    system_run T send iter cfg (n + system_cost (sys_phase y) ev) y'"

text \<open>The one event that can panic is a socket whose session cannot be set up.\<close>

lemma server_accept_None:
  "server_accept cfg tls h sv = None \<longleftrightarrow> tls \<and> \<not> sv_active sv \<ge> of_nat (max_connections cfg) \<and> session_setup cfg = None"
  by (simp add: server_accept_def Let_def split: option.split)

lemma system_step_None:
  "system_step send iter cfg ev y = None \<longleftrightarrow>
     (\<exists>handshake h. ev = SysSocket handshake h \<and> sys_phase y = Serving \<and> (sys_tls y \<longrightarrow> handshake) \<and>
        \<not> sv_active (sys_server y) \<ge> of_nat (max_connections cfg) \<and> session_setup cfg = None)"
  using server_event_total [of send iter cfg _ _ "sys_server y"] by (cases ev) (auto simp: server_accept_None)

lemma system_step_total: "session_setup cfg \<noteq> None \<Longrightarrow> system_step send iter cfg ev y \<noteq> None"
  by (simp add: system_step_None)

text \<open>The panics of start-up are the errors of the TLS configuration.\<close>

lemma start_system_without_tls: "\<not> tls_is_enabled (c_tls cfg) \<Longrightarrow> start_system T bound admin_bound cfg w \<noteq> None"
  by (simp add: start_system_def build_tls_acceptor_def)

lemma worker_threads_positive: "par \<noteq> Some 0 \<Longrightarrow> worker_threads_of cfg par > 0"
  by (auto simp: worker_threads_of_def split: option.split)

section \<open>The parts in the process\<close>

lemma run_task_server:
  obtains W where "sys_server (run_task send k y) = (sys_server y)\<lparr>sv_env := W\<rparr>" and "w_broker W = w_broker (sv_env (sys_server y))"
    and "sys_phase (run_task send k y) = sys_phase y"
  by (rule that [of "sv_env (sys_server (run_task send k y))"]) (simp_all add: run_task_def Let_def split: prod.split)

lemma drain_check_parts: "sys_server (drain_check cfg ms y) = sys_server y" "sys_store (drain_check cfg ms y) = sys_store y"
  by (simp_all add: drain_check_def split: drain_result.split)

lemma run_store_task_step: "store_step m (fst (run_store_task send t (m, w)))"
proof (cases t)
  case (TaskCreate n c h)
  then show ?thesis using store_step.create_stream [of m n c] by (simp add: Let_def split_def)
next
  case (TaskDelete n h)
  then show ?thesis using store_step.delete_stream [of m n] by (simp add: Let_def split_def)
next
  case (TaskAck n name q)
  then show ?thesis using store_step.ack [of m n name q] by simp
qed

text \<open>No task stores a message or creates a consumer.\<close>

definition unfilled :: "consumer_manager \<Rightarrow> bool" where
  "unfilled m \<longleftrightarrow> cm_consumers m = [] \<and> (\<forall>e \<in> set (cm_store m). snd e = stream_new (fst e) (stream_cfg (snd e)))"

lemma run_store_task_unfilled: "unfilled m \<Longrightarrow> unfilled (fst (run_store_task send t (m, w)))"
proof (cases t)
  case (TaskCreate n c h)
  then show "unfilled m \<Longrightarrow> ?thesis"
    using set_update_subset [of n "stream_new n c" "cm_store m"]
    by (fastforce simp: unfilled_def mgr_create_stream_def create_stream_def stream_new_def Let_def)
next
  case (TaskDelete n h)
  then show "unfilled m \<Longrightarrow> ?thesis"
    using set_delete_subset [of n "cm_store m"]
    by (auto simp: unfilled_def mgr_delete_stream_def delete_stream_def Let_def)
next
  case (TaskAck n name q)
  then show "unfilled m \<Longrightarrow> ?thesis" by (simp add: unfilled_def manager_ack_def)
qed

text \<open>What holds of the process between events.\<close>

definition phase_ok :: "('h, 'w) system \<Rightarrow> bool" where
  "phase_ok y \<longleftrightarrow> (sys_phase y = Serving \<longrightarrow> sv_accepting (sys_server y)) \<and>
     (\<forall>r. sys_phase y = Ended (Inr r) \<longrightarrow> (if sv_active (sys_server y) = 0 then r = AllDrained else r = DrainTimeout (sv_active (sys_server y))))"

lemma server_accept_accepting: "server_accept cfg tls h sv = Some sv' \<Longrightarrow> sv_accepting sv' = sv_accepting sv"
  by (auto simp: server_accept_def Let_def split: if_splits option.splits)

lemma server_event_accepting: "server_event send iter cfg c ev sv = Some sv' \<Longrightarrow> sv_accepting sv' = sv_accepting sv"
  by (auto simp: server_event_def split: option.splits if_splits)

lemma system_run_parts:
  "system_run T send iter cfg n y \<Longrightarrow>
     server_run send iter cfg n (sys_server y) \<and> store_reach (sys_store y) \<and> unfilled (sys_store y) \<and> phase_ok y"
proof (induction rule: system_run.induct)
  case (started bound admin_bound w y)
  then show ?case
    by (auto simp: start_system_def unfilled_def store_manager_new_def phase_ok_def server_new_def
        intro: server_run.starts [unfolded server_new_def] store_reach.init [unfolded store_manager_new_def] split: option.splits sum.splits)
next
  case (stepped n y ev y')
  note ih = stepped.IH
  show ?case
  proof (cases ev)
    case (SysSocket handshake h)
    then show ?thesis
      using stepped.hyps(2,3) ih server_run.accepts [of send iter cfg n "sys_server y" h]
      by (auto simp: phase_ok_def server_accept_accepting split: if_splits)
  next
    case (SysSession c e)
    then show ?thesis
      using stepped.hyps(3) ih server_run.events [of send iter cfg n "sys_server y" c e]
      by (cases "sys_phase y") (auto simp: phase_ok_def server_event_accepting)
  next
    case (SysTask k)
    show ?thesis
    proof (cases "ended (sys_phase y) \<or> \<not> k < length (w_tasks (sv_env (sys_server y)))")
      case True
      then show ?thesis using stepped.hyps(3) ih SysTask by (auto simp: run_task_def Let_def)
    next
      case False
      let ?t = "w_tasks (sv_env (sys_server y)) ! k" and ?w = "w_chan (sv_env (sys_server y))"
      have y': "y' = run_task send k y" using stepped.hyps(3) SysTask False by simp
      have st: "sys_store y' = fst (run_store_task send ?t (sys_store y, ?w))" using False by (simp add: y' run_task_def Let_def split_def)
      obtain W where W: "sys_server y' = (sys_server y)\<lparr>sv_env := W\<rparr>" "w_broker W = w_broker (sv_env (sys_server y))"
          "sys_phase y' = sys_phase y" unfolding y' by (rule run_task_server)
      have sv: "server_run send iter cfg n (sys_server y')" unfolding W(1) using ih W(2) by (blast intro: server_run.others)
      have "store_reach (sys_store y')" "unfilled (sys_store y')"
        unfolding st using ih by (auto intro: store_reach.step run_store_task_step run_store_task_unfilled)
      then show ?thesis using ih sv SysTask W by (auto simp: phase_ok_def)
    qed
  next
    case (SysDrainCheck ms)
    then show ?thesis
      using stepped.hyps(3) ih by (auto simp: phase_ok_def drain_check_def split: if_splits drain_result.splits)
  qed (use stepped.hyps(3) ih server_run.stops in \<open>auto simp: phase_ok_def split: if_splits\<close>)
qed


section \<open>The process as a whole\<close>

fun system_steps ::
  "('h, 'w) sender \<Rightarrow> batch_order \<Rightarrow> server_config \<Rightarrow> 'h system_event list \<Rightarrow> ('h, 'w) system \<Rightarrow> ('h, 'w) system option" where
  "system_steps send iter cfg [] y = Some y"
| "system_steps send iter cfg (ev # evs) y =
     (case system_step send iter cfg ev y of None \<Rightarrow> None | Some y' \<Rightarrow> system_steps send iter cfg evs y')"

lemma system_steps_total: "session_setup cfg \<noteq> None \<Longrightarrow> \<exists>y'. system_steps send iter cfg evs y = Some y'"
proof (induction evs arbitrary: y)
  case (Cons ev evs)
  then obtain y1 where "system_step send iter cfg ev y = Some y1" using system_step_total [of cfg send iter ev y] by auto
  then show ?case using Cons by simp
qed simp

lemma system_steps_full: "(of_nat (max_connections cfg) :: u64) = 0 \<Longrightarrow> system_steps send iter cfg evs y \<noteq> None"
proof (induction evs arbitrary: y)
  case (Cons ev evs)
  then have "system_step send iter cfg ev y \<noteq> None" by (simp add: system_step_None)
  then show ?case using Cons by auto
qed simp

text \<open>
  C16: when the process can panic.  Once it serves, no sequence of sockets, bytes, signals, errors and task runs makes
  it panic, except in three configurations that nothing refuses: an output buffer of zero or of more than the channel
  library allows, or a heartbeat interval of zero.  In those (unless no connection is allowed at all) there is a
  sequence that does.
\<close>

theorem process_panics_iff:
  assumes "start_system T (Inr ()) admin_bound cfg w = Some y"
  shows "(\<exists>evs. system_steps send iter cfg evs y = None) \<longleftrightarrow>
    0 < (of_nat (max_connections cfg) :: u64) \<and>
    (connection_output_buffer cfg = 0 \<or> connection_output_buffer cfg > MAX_PERMITS \<or> heartbeat_interval_secs cfg = 0)"
    (is "?panics \<longleftrightarrow> ?room \<and> ?bad")
proof
  assume ?panics
  then obtain evs where "system_steps send iter cfg evs y = None" by blast
  then show "?room \<and> ?bad"
    using system_steps_total [of cfg send iter evs y] system_steps_full [of cfg send iter evs y] session_setup_None [of cfg]
    by (auto simp: word_gt_0)
next
  assume "?room \<and> ?bad"
  then have "session_setup cfg = None" "(of_nat (max_connections cfg) :: u64) \<noteq> 0" by (simp_all add: session_setup_None word_gt_0)
  moreover have "sys_phase y = Serving" "sv_active (sys_server y) = 0"
    using assms by (auto simp: start_system_def server_new_def split: option.splits sum.splits)
  ultimately have "system_step send iter cfg (SysSocket True h) y = None" for h unfolding system_step_None by auto
  then have "system_steps send iter cfg [SysSocket True h] y = None" for h by simp
  then show ?panics by blast
qed

definition no_tls :: "(unit, unit, unit) tls_env" where
  "no_tls = \<lparr>te_read = (\<lambda>_. Inl []), te_certs = (\<lambda>_. Inl []), te_key = (\<lambda>_. Inl []), te_acceptor = (\<lambda>_ _. Inl [])\<rparr>"

definition sys_up :: "(nat, nat \<Rightarrow> outbound_frame list) system" where
  "sys_up = \<lparr>sys_server = server_new (\<lambda>_. []), sys_store = store_manager_new, sys_phase = Serving, sys_tls = False, sys_admin = True\<rparr>"

lemma sys_up_run: "system_run no_tls (bounded_send 4) (\<lambda>ps. ps) server_config_default 0 sys_up"
  by (rule started [of _ "Inr ()" "Inr ()" _ "\<lambda>_. []"])
    (simp add: start_system_def build_tls_acceptor_def sys_up_def server_config_default_def tls_is_enabled_def)

text \<open>A client connects and asks for a stream; the executor runs the task.\<close>

definition evs_create :: "nat system_event list" where
  "evs_create = [SysSocket True 0, SysSession 1 (EvData (frame_encode (connect_frame None AuthNone))),
     SysSession 1 (EvData (frame_encode (with_payload (create_stream_encode \<lparr>cs_name = lit ''s'', cs_max_msgs = 5, cs_max_bytes = 0, cs_max_age_secs = 0\<rparr>)
       (frame_new CreateStream 2)))), SysTask 0]"

text \<open>With a configuration whose heartbeat interval is zero, the first socket is the end.\<close>

definition quiet_config :: server_config where
  "quiet_config = server_config_default\<lparr>heartbeat_interval_secs := 0\<rparr>"

theorem process_panics_iff_witness:
  "start_system no_tls (Inr ()) (Inr ()) server_config_default (\<lambda>_. []) = Some sys_up \<and>
   start_system no_tls (Inr ()) (Inr ()) quiet_config (\<lambda>_. []) = Some sys_up \<and>
   (\<forall>evs. system_steps (bounded_send 4) (\<lambda>ps. ps) server_config_default evs sys_up \<noteq> None) \<and>
   (\<exists>evs. system_steps (bounded_send 4) (\<lambda>ps. ps) quiet_config evs sys_up = None)"
proof -
  have s: "start_system no_tls (Inr ()) (Inr ()) server_config_default (\<lambda>_. []) = Some sys_up"
      "start_system no_tls (Inr ()) (Inr ()) quiet_config (\<lambda>_. []) = Some sys_up"
    by (simp_all add: start_system_def build_tls_acceptor_def sys_up_def quiet_config_def server_config_default_def tls_is_enabled_def)
  with process_panics_iff [OF s(1), of "bounded_send 4" "\<lambda>ps. ps"] process_panics_iff [OF s(2), of "bounded_send 4" "\<lambda>ps. ps"]
  show ?thesis by (simp add: quiet_config_def server_config_default_def MAX_PERMITS_def)
qed

lemma system_run_steps:
  "system_run T send iter cfg n y \<Longrightarrow> list_all (\<lambda>ev. case ev of SysSocket _ _ \<Rightarrow> False | _ \<Rightarrow> True) evs \<Longrightarrow>
     system_steps send iter cfg evs y = Some y' \<Longrightarrow> \<exists>k. system_run T send iter cfg k y'"
proof (induction evs arbitrary: n y)
  case (Cons ev evs)
  obtain y1 where y1: "system_step send iter cfg ev y = Some y1" using Cons.prems(3) by (auto split: option.splits)
  have "new_channel y ev" using Cons.prems(2) by (cases ev) simp_all
  from Cons.IH [OF stepped [OF Cons.prems(1) this y1]] Cons.prems(2,3) y1 show ?case by simp
qed auto

lemma evs_create_run: "\<exists>y n. system_steps (bounded_send 4) (\<lambda>ps. ps) server_config_default evs_create sys_up = Some y \<and>
    system_run no_tls (bounded_send 4) (\<lambda>ps. ps) server_config_default n y"
proof -
  let ?step = "system_step (bounded_send 4) (\<lambda>ps. ps) server_config_default (SysSocket True 0)"
  obtain y1 where y1: "?step sys_up = Some y1" using system_step_total [of server_config_default "bounded_send 4" "\<lambda>ps. ps" "SysSocket True 0" sys_up] default_setup by auto
  have "new_channel sys_up (SysSocket True 0)" by (simp add: sys_up_def server_new_def)
  from stepped [OF sys_up_run this y1] obtain k where r: "system_run no_tls (bounded_send 4) (\<lambda>ps. ps) server_config_default k y1" by blast
  obtain y where y: "system_steps (bounded_send 4) (\<lambda>ps. ps) server_config_default (tl evs_create) y1 = Some y"
    using system_steps_total [of server_config_default] default_setup by fastforce
  have "list_all (\<lambda>ev. case ev of SysSocket _ _ \<Rightarrow> False | _ \<Rightarrow> True) (tl evs_create)" by (simp add: evs_create_def)
  from system_run_steps [OF r this y] y y1 show ?thesis unfolding evs_create_def by auto
qed

text \<open>
  C18: streams of the server never hold a message.  Nothing the process does stores one or creates a consumer, so in every
  state it reaches each stream is as it was created, \<open>list_streams\<close> reports no message for any, there is no
  consumer, and every acknowledgement is refused.
\<close>

theorem streams_stay_empty:
  assumes "system_run T send iter cfg n y"
  shows "(\<forall>e \<in> set (cm_store (sys_store y)). stream_msgs (snd e) = []) \<and>
    list_all (\<lambda>i. st_messages (info_state i) = 0 \<and> last_seq (info_state i) = 0) (list_streams (cm_store (sys_store y))) \<and>
    cm_consumers (sys_store y) = [] \<and> \<not> fst (manager_ack stream name q (sys_store y))"
proof -
  have u: "unfilled (sys_store y)" using system_run_parts [OF assms] by simp
  have "stream_msgs (snd e) = [] \<and> st_messages (stream_st (snd e)) = 0 \<and> last_seq (stream_st (snd e)) = 0"
    if "e \<in> set (cm_store (sys_store y))" for e
  proof -
    have "snd e = stream_new (fst e) (stream_cfg (snd e))" using u that by (simp add: unfilled_def)
    then show ?thesis by (metis stream_new_def stream.select_convs(3,4) stream_state.select_convs(1,4))
  qed
  then show ?thesis using u by (simp add: list_streams_def list_all_iff stream_info_of_def unfilled_def manager_ack_def)
qed

theorem streams_stay_empty_witness:
  "\<exists>y. system_steps (bounded_send 4) (\<lambda>ps. ps) server_config_default evs_create sys_up = Some y \<and>
     cm_consumers (sys_store y) = [] \<and> \<not> fst (manager_ack (lit ''s'') (lit ''default'') 1 (sys_store y))"
  using evs_create_run streams_stay_empty by blast

text \<open>
  C17: a shutdown that drains leaves nothing behind.  When the drain loop ends because no connection is active, no session
  runs, the broker holds no subscription, its counter of them is zero and no queue group has a member; when it ends
  because the time is over, it reports exactly the number of sessions it cuts off.
\<close>

theorem shutdown_leaves_nothing:
  assumes "system_run T send iter cfg n y" and "n + 1 < 2 ^ 64" and "max_connections cfg < 2 ^ 64"
    and "sys_phase y = Ended (Inr r)"
  shows "(case r of
      AllDrained \<Rightarrow> sv_sessions (sys_server y) = [] \<and> (\<forall>i. get_ref (w_broker (sv_env (sys_server y))) i = None) \<and>
        active_subscriptions (b_metrics (w_broker (sv_env (sys_server y)))) = 0 \<and>
        (\<forall>g \<in> ran (queue_groups (w_broker (sv_env (sys_server y)))). members g = [])
    | DrainTimeout k \<Rightarrow> unat k = length (sv_sessions (sys_server y)) \<and> sv_sessions (sys_server y) \<noteq> []
    | StillDraining \<Rightarrow> False)"
proof -
  let ?sv = "sys_server y" and ?b = "w_broker (sv_env (sys_server y))"
  note parts = system_run_parts [OF assms(1)]
  have inv: "server_inv cfg n ?sv" using parts server_run_inv [OF _ assms(3,2)] by blast
  have len: "unat (sv_active ?sv) = length (sv_sessions ?sv)" using inv by (simp add: server_inv_def counts_ok_def)
  have r: "if sv_active ?sv = 0 then r = AllDrained else r = DrainTimeout (sv_active ?sv)"
    using parts assms(4) by (simp add: phase_ok_def)
  show ?thesis
  proof (cases "sv_active ?sv = 0")
    case True
    then have s: "sv_sessions ?sv = []" using len by simp
    then have none: "get_ref ?b i = None" for i
      using inv unfolding server_inv_def sessions_own_def by (metis empty_iff empty_set not_None_eq)
    have b: "broker_inv ?b" using inv by (simp add: server_inv_def)
    have dom: "dom (get_ref ?b) = {}" using none by auto
    have "active_subscriptions (b_metrics ?b) = 0" using b dom by (simp add: broker_inv_def count_ok_def)
    moreover have "members g = []" if "queue_groups ?b k = Some g" for k g
    proof -
      have "set (members g) = group_subs ?b k" using b that unfolding broker_inv_def members_ok_def by blast
      then show ?thesis using none by (simp add: group_subs_def)
    qed
    ultimately show ?thesis using True r s none by (auto simp: ran_def)
  next
    case False
    then have "sv_sessions ?sv \<noteq> []" using len by (auto simp: unat_eq_0)
    then show ?thesis using r False len by simp
  qed
qed

text \<open>A client connects, the server is told to stop, the session ends.\<close>

definition evs_stop :: "nat system_event list" where
  "evs_stop = [SysShutdown, SysSession 1 (EvShutdown None), SysDrainCheck 100]"

definition sys_one :: "(nat, nat \<Rightarrow> outbound_frame list) system" where
  "sys_one = sys_up\<lparr>sys_server := server_one\<rparr>"

definition sys_down :: "(nat, nat \<Rightarrow> outbound_frame list) system" where
  "sys_down = the (system_steps (bounded_send 4) (\<lambda>ps. ps) server_config_default evs_stop sys_one)"

lemma sys_down_run: "system_run no_tls (bounded_send 4) (\<lambda>ps. ps) server_config_default 1 sys_down"
proof -
  have "new_channel sys_up (SysSocket True 0)" by (simp add: sys_up_def server_new_def)
  from stepped [OF sys_up_run this, of sys_one]
  have 1: "system_run no_tls (bounded_send 4) (\<lambda>ps. ps) server_config_default 1 sys_one" by (simp add: sys_one_def sys_up_def server_one_accepted)
  obtain y1 y2 y3 where y: "system_step (bounded_send 4) (\<lambda>ps. ps) server_config_default SysShutdown sys_one = Some y1"
      "system_step (bounded_send 4) (\<lambda>ps. ps) server_config_default (SysSession 1 (EvShutdown None)) y1 = Some y2"
      "system_step (bounded_send 4) (\<lambda>ps. ps) server_config_default (SysDrainCheck 100) y2 = Some y3"
    using system_step_total [of server_config_default] default_setup by (metis not_None_eq)
  have "sys_down = y3" using y by (simp add: sys_down_def evs_stop_def)
  with stepped [OF stepped [OF stepped [OF 1 _ y(1)] _ y(2)] _ y(3)] show ?thesis by (simp add: event_cost.simps split: if_splits)
qed

lemma sys_down_phase: "sys_phase sys_down = Ended (Inr AllDrained)"
  by (simp add: sys_down_def evs_stop_def sys_one_def sys_up_def server_one_def server_accept_def session_setup_def MAX_PERMITS_def Let_def server_new_def
      server_config_default_def server_event_def connection_event_def session_new_def drain_check_def)

theorem shutdown_leaves_nothing_witness:
  "sys_phase sys_down = Ended (Inr AllDrained) \<and> sv_sessions (sys_server sys_down) = [] \<and>
   active_subscriptions (b_metrics (w_broker (sv_env (sys_server sys_down)))) = 0"
  using shutdown_leaves_nothing [OF sys_down_run _ _ sys_down_phase] sys_down_phase by (simp add: server_config_default_def)

end
