(* ===== verification/Spec2Isabelle.thy ===== *)
theory Spec2Isabelle
  imports Core_Theorems Concurrency_Theorems Protocol_Theorems Auth Store_Theorems Session_Theorems Segments Client_Api System
begin

text \<open>
  Verification of the ZetMQ message broker (\<open>src/crates\<close>).

  \<^bold>\<open>The program.\<close>  ZetMQ is a publish/subscribe broker.  A client opens a connection, authenticates with a CONNECT frame,
  subscribes to subject patterns and publishes messages; the server routes each message to the subscriptions whose
  pattern matches its subject, to all of them, or to one member of each queue group.  The parts are

  \<^item> \<open>zetmq-core\<close>: subjects and patterns, the routing engine, the subscription registry, the broker core;
  \<^item> \<open>zetmq-protocol\<close>: frames, headers and command payloads, as bytes;
  \<^item> \<open>zetmq-server\<close>: the listener, a session per connection, the command dispatcher, permissions, configuration, and
    the admin endpoint;
  \<^item> \<open>zetmq-store\<close>: streams with retention limits, durable consumers, and log segments on files;
  \<^item> \<open>zetmq-client\<close>: the client library with its read and write tasks, requests and reconnection.

  A session reads bytes, decodes frames and calls the broker; the broker hands messages to the delivery handle of a
  subscription, which puts them on the outbound channel of the subscriber's connection; a write task encodes what the
  channel holds; the read task of the client decodes it and sends each message on the channel of its subscription.

  \<^bold>\<open>Conventions.\<close>  Rust's integers are words of their width (\<open>u8\<close>, \<open>u16\<close>, \<open>u32\<close>, \<open>u64\<close>) wherever they can wrap; \<open>usize\<close>
  lengths are \<open>nat\<close>; strings and buffers are byte lists.  A \<open>Result\<close> is a sum with the error on the left; code that can
  panic (a slice or an index out of range, a channel of capacity zero, a timer of period zero) returns an \<open>option\<close>, with
  \<open>None\<close> for the panic.  The release profile aborts on a panic, so \<open>None\<close> is the end of the process in \<open>System\<close>.  State is passed explicitly, in
  records that have the fields of the structs.  A \<open>HashMap\<close> whose iteration order is visible is an association list
  together with an order the definitions take as a parameter, or, when it is only read (the headers of a message), just the
  list: its order is that of the iteration, and statements are for every list.  What is outside the sources is a parameter too: the tokio
  channels, the file of a segment, the system clock, TLS, and the work other tasks do while an operation waits.

  \<^bold>\<open>Theories and sources.\<close>
  \<^item> \<open>Prelude\<close>: types, byte codecs, checked accesses, the collections \<open>be_simps\<close>, \<open>panic_simps\<close> and \<open>inv_intros\<close>;
    \<open>Rust_Str\<close>: \<open>trim\<close>, UTF-8 validation and lossy decoding.
  \<^item> \<open>Core_Types\<close>: \<open>error.rs\<close>, \<open>id.rs\<close>, \<open>metrics.rs\<close>, \<open>queue_group.rs\<close>; \<open>Subjects\<close>: \<open>subject.rs\<close>, \<open>subject_pattern.rs\<close>;
    \<open>Routing\<close>: \<open>routing/trie.rs\<close> and \<open>engine.rs\<close>; \<open>Delivery\<close>: \<open>message.rs\<close>, \<open>delivery.rs\<close>; \<open>Registry\<close>: \<open>subscription/\<close>;
    \<open>Broker\<close>: \<open>broker/core.rs\<close>.
  \<^item> \<open>Broker_Plan\<close>, \<open>Broker_Inv\<close>, \<open>Broker_Publish\<close>, \<open>Broker_Batch\<close>, \<open>Broker_Groups\<close>: what a publish does as a plan that does not look at the
    world; the invariant and the reachable states; targets, counters and order of one publish and of a batch; how often
    the members of a queue group are served.
    \<open>Core_Theorems\<close>: the properties of the core.
  \<^item> \<open>Threads\<close>: programs of atomic steps over shared state, alone and in a pool under a schedule; \<open>Broker_Steps\<close>: the
    operations of \<open>broker/core.rs\<close>, \<open>registry.rs\<close> and \<open>engine.rs\<close> once more as such programs, cut where the source releases
    a lock or touches an atomic; \<open>Broker_Threads\<close>, \<open>Broker_Shared\<close>: what these programs keep of a subscription and what
    the publishing ones call for it; \<open>Broker_Removed\<close>: the same for an identifier that is gone; \<open>Concurrency_Theorems\<close>: the properties of the broker under concurrent use.
  \<^item> \<open>Frames\<close>, \<open>Headers\<close>, \<open>Commands\<close>: \<open>frame/\<close>, \<open>headers.rs\<close>, \<open>command/\<close>; \<open>Wire\<close>: the frames the client builds and the MSG
    frames the server writes; \<open>Protocol_Theorems\<close>: their properties.
  \<^item> \<open>Config\<close>: \<open>config.rs\<close>; \<open>Auth\<close>: \<open>session/auth.rs\<close> and \<open>validate_auth\<close>.
  \<^item> \<open>Streams\<close>: \<open>stream.rs\<close>; \<open>Store\<close>: \<open>memory.rs\<close>, \<open>consumer.rs\<close> and the server's \<open>store.rs\<close>; \<open>Store_Theorems\<close>;
    \<open>Segments\<close>: \<open>segment.rs\<close> with its properties.
  \<^item> \<open>Session\<close>: \<open>session/handler.rs\<close>, \<open>session/state.rs\<close>, \<open>runtime/dispatcher.rs\<close>; \<open>Session_Loop\<close>: \<open>handle_connection\<close>
    (its set-up \<open>session_setup\<close>, then \<open>connection_loop\<close>) and the write task.  \<open>Session_Inv\<close>, \<open>Session_Gate\<close>, \<open>Session_Pub\<close>, \<open>Session_Channel\<close>: what a session does
    to the broker, what a peer can do before CONNECT, the fast path for PUB frames, and the outbound channels;
    \<open>Session_Theorems\<close>: the properties of a connection.
  \<^item> \<open>Listener\<close>: \<open>network/listener.rs\<close>, the server with all its sessions; \<open>Admin\<close>: \<open>admin.rs\<close>; \<open>System\<close>: \<open>main.rs\<close> and
    \<open>TcpServer::run\<close>, the process with its server, its store, the spawned tasks and its shutdown.
  \<^item> \<open>Client\<close>: \<open>options.rs\<close>, \<open>error.rs\<close>, and of \<open>connection.rs\<close> the handshake and the tasks; \<open>Client_Ops\<close>: the operations of
    \<open>connection.rs\<close>, \<open>client.rs\<close>, \<open>subscription.rs\<close>, \<open>inbox.rs\<close>; \<open>Client_Read\<close>, \<open>Client_Replay\<close>: what the read task makes of a
    stream of bytes, and what a replay restores; \<open>Client_Api\<close>: what an application calls; \<open>Client_Theorems\<close>: the properties
    of the client.
  \<^item> \<open>Pipeline\<close>: lemmas for the path from a publisher to a subscriber, whose properties stand at the end of this theory.

  \<^bold>\<open>Interfaces.\<close>  Each contract between parts is a locale, with its lemmas proved once.
  \<^item> \<open>router\<close> (\<open>Routing\<close>): what the registry and the broker use of the routing engine: insertion, removal and lookup of
    patterns; interpreted by the engine, hash map and trie together.
  \<^item> \<open>delivery_handle\<close> (\<open>Delivery\<close>): the trait \<open>DeliveryHandle\<close>: a delivered message is appended to the log of its handle,
    any other outcome changes nothing.  The order lemmas of the broker are proved in it.
  \<^item> \<open>codec\<close> (\<open>Commands\<close>): encoding and decoding of a payload; interpreted by the five stream commands.
  \<^item> \<open>outbound_channel\<close> (\<open>Session_Channel\<close>): \<open>try_send\<close> of the outbound channel of a connection; interpreted by a bounded and
    an unbounded queue, and a sublocale of \<open>delivery_handle\<close> through \<open>channel_deliver\<close>.
  \<^item> \<open>shared_object\<close> (\<open>Threads\<close>): an object that threads share, whose operations keep an invariant at each step and
    return what they promise; interpreted by the operations of the broker, for a subscription none of them removes and
    for one that was removed.
  \<^item> \<open>seekable_file\<close> (\<open>Segments\<close>): reads, writes and seeks of a file; interpreted by a byte list with a cursor.
  \<^item> \<open>message_channel\<close> (\<open>Client_Read\<close>): the channel of a subscription in the client; \<open>suback_waiting\<close> (\<open>Client_Replay\<close>): what
    awaiting a SUBACK leaves alone, which the read task satisfies on every channel (a sublocale).

  \<^bold>\<open>What is shown.\<close>
  \<^item> Core: every reachable broker satisfies the invariant; publishing reaches the subscriptions that match and each
    queue group, with every attempt counted; batches count and order alike; removing a connection removes what it
    registered and nothing else.  On trimmed subjects \<open>publish_with_str\<close> is \<open>publish\<close>.  Where the
    three publish paths differ is stated in general: \<open>publish_with_str\<close> misses exact subscriptions on a text with blanks around it,
    \<open>publish\<close> serves a queue group once per run of its members among the matches, and a batch serves every member.
  \<^item> Concurrency: run alone, the steps of an operation are the operation (\<open>operations_alone\<close>); in a pool of any operations under any schedule,
    a publish serves each matching fan-out subscription that is not being removed exactly once, and never one that was
    removed before it started; two races, in which
    a subscription that stays registered is never served again, are exhibited by their schedules.  No schedule goes on
    for ever (\<open>pools_end\<close>).
  \<^item> Protocol: the decoder is total and inverse to the encoder; a stream of frames decodes alike however it is split;
    all codecs are inverse; what one end builds the other reads.
  \<^item> Sessions and server: a session panics in its set-up for three settings and for no input, and every loop ends; before
    CONNECT a peer is inert; a session registers what its SUB frames ask for and the credentials of its CONNECT frame
    allow, within its limit, and leaves nothing behind; all sessions of the server own what is in the broker and stay
    within permissions and limits under any interleaving of their events.  Permissions decide inclusion of patterns, and
    who may publish and subscribe to what is characterised by the accounts of the configuration.
  \<^item> Process: it can be made to panic exactly in those three settings; its server and its store are in states the two reach
    on their own (\<open>system_run_parts\<close>), so what is shown of them holds in it; a shutdown that drains leaves nothing behind; no stream of the server ever holds a message.
  \<^item> Store: the invariant of reachable stores, under any interleaving of the critical sections; retention drops exactly
    what the age, count and byte limits ask; reads are searches; delivery to consumers without a filter is
    consecutive, and filters and policies are shown to be ignored; a log segment is read back as written, also after it has been opened again.
  \<^item> Client: channels receive exactly what is queued, in order; a successful replay restores every subscription.
  \<^item> Admin: the streams report is JSON from which a reader recovers the streams.
  \<^item> End to end: the first property below, from the bytes of a publisher to the channel of a subscriber.

  \<^bold>\<open>Loops and bounds.\<close>  A loop over a buffer or a list is a \<open>function\<close> with a measure (bytes left, messages left, tokens left);
  nothing is cut off by fuel.  \<open>collect_commands\<close> counts down from \<open>PUB_BATCH_LIMIT\<close> and \<open>reconnect_loop\<close> from the number of
  attempts, as the loops of the source do.  Only \<open>rebuild_loop\<close> of a segment, whose end depends on the file, is a
  \<open>partial_function\<close> into \<open>option\<close>; it is proved to return on every file a segment wrote.  Hypotheses of the form
  \<open>counter + 1 < 2 ^ 64\<close> say that an id generator has not wrapped.

  \<^bold>\<open>Concurrency.\<close>  Two levels.  A step of the server and of the process is one event of one session, or one operation of the
  client between two awaits, and these steps come in any order.  Inside an event, where the threads of tokio meet in the
  broker, \<open>Broker_Steps\<close> has the operations as programs of atomic actions: one access to a \<open>DashMap\<close> entry, one
  operation on an atomic, one statement under the lock of the trie, one call of \<open>deliver\<close>.  Atomics are sequentially
  consistent, and a guard the source holds across a call is released early, which only adds interleavings; the schedules
  of the two races do not use this.  The invariant of the broker as a whole holds between operations and not at each
  of their steps: what holds at each step is \<open>in_place\<close>.

  \<^bold>\<open>Not modelled.\<close>  Sockets and time-outs as such (the events and reads they give are inputs); rustls and certificates (the
  guards in front of them are modelled); parsing of the TOML file (a parameter of the configuration) and of the
  command line by clap (its result is modelled); the panic hook, the logger and the task that logs metrics; weak
  memory orders; the interleaving of threads inside the client and inside a
  critical section of the store; getters and forwarding methods; tests and benchmarks.
\<close>

section \<open>From a publisher to a subscriber\<close>

text \<open>
  C2: a batch of PUB frames in the read buffer of a publisher reaches the channel of a subscription in the process of
  the subscriber.  The session of the publisher parses the bytes and hands the batch to the broker; the broker routes it
  to the outbound channel of the subscriber's connection; the write task there turns the queue into bytes; these arrive in
  pieces of any size; and the read task of the client decodes them and sends on the channel registered for the subscription
  exactly the messages whose subject the pattern matches, in the order they were published and with subject, reply
  subject, headers and payload as published, after what was queued for it before.  All of them, when the outbound
  channels accept every frame; a full channel cuts the sequence short and never reorders it.  The frames leave 8 bytes
  of room below the limit of the client; without it the next property applies.
\<close>

theorem publish_reaches_subscriber:
  assumes "outbound_channel send queue" and "message_channel tx_send received live" and "\<And>xs. mset (iter xs) = mset xs"
    and "broker_inv (w_broker W)" and "get_ref (w_broker W) j = Some t" and "sub_queue_group_key t = None"
    and "ss_state s = Connected" and "is_publish_unrestricted (ss_auth s)" and "local_published s = 0"
    and "read_buf s = wire (map pub_frame_of ps)" and "ps \<noteq> []" and "length ps \<le> PUB_BATCH_LIMIT"
    and "\<forall>p \<in> set ps. pub_ok (c_max_frame_size cfg) p \<and> pub_ok (READ_MAX - 8) p"
    and "\<forall>h. list_all outbound_ok (queue (w_chan W) h)"
    and "conn_buf cl = []" and "live (conn_chan cl) tx" and "\<And>i. subs_of cl i = Some tx \<longleftrightarrow> i = j"
  shows "\<exists>W' n. process_frames send iter cfg c h s W = Some (s\<lparr>read_buf := []\<rparr>, W') \<and>
    ((\<forall>h f w. fst (send h f w)) \<longrightarrow> n = length (routed t ps)) \<and>
    (\<forall>reads. [] \<notin> set reads \<and> concat reads = concat (write_task (queue (w_chan W') (sub_delivery t))) \<longrightarrow>
      (\<exists>cl'. read_task tx_send reads cl = Some cl' \<and> conn_buf cl' = [] \<and>
        received (conn_chan cl') tx = received (conn_chan cl) tx @
          map client_msg (for_sub j (msgs_of (queue (w_chan W) (sub_delivery t)))) @ take n (routed t ps)))"
proof -
  have ok: "\<forall>p \<in> set ps. pub_ok (c_max_frame_size cfg) p" "\<forall>p \<in> set ps. pub_ok (READ_MAX - 8) p" using assms(13) by blast+
  let ?q = "\<lambda>W. queue (w_chan W) (sub_delivery t)"
  from outbound_channel.pub_frames_delivered [OF assms(1,4,3,5,6,7,10,8,9) ok(1) assms(12,11), of c h]
  obtain W' n where run: "process_frames send iter cfg c h s W = Some (s\<lparr>read_buf := []\<rparr>, W')"
    and msgs: "for_sub j (msgs_of (?q W')) = for_sub j (msgs_of (?q W)) @ take n (batch_msgs (w_broker W) j (List.map_filter item_of ps))"
    and n: "(\<forall>h f w. fst (send h f w)) \<longrightarrow> n = length (batch_msgs (w_broker W) j (List.map_filter item_of ps))" by blast
  note r = batch_msgs_routed [OF assms(4-6), of ps]
  have q: "list_all outbound_ok (?q W')"
    using outbound_channel.pub_frames_readable [OF assms(1,4,3) active_when_subscribed [OF assms(4,5)] assms(7,10,8,9) ok(1) assms(12,11) ok(2) assms(14) run]
    by blast
  have "map client_msg (for_sub j (msgs_of (?q W'))) = map client_msg (for_sub j (msgs_of (?q W))) @ take n (routed t ps)"
    unfolding msgs r [symmetric] by (simp add: take_map)
  then have "\<exists>cl'. read_task tx_send reads cl = Some cl' \<and> conn_buf cl' = [] \<and>
        received (conn_chan cl') tx = received (conn_chan cl) tx @
          map client_msg (for_sub j (msgs_of (?q W))) @ take n (routed t ps)"
    if "[] \<notin> set reads" "concat reads = concat (write_task (?q W'))" for reads
    using message_channel.queue_received [OF assms(2) q that(2,1) assms(15)] assms(16,17) by (auto simp: comprehension_filter)
  moreover have "length (batch_msgs (w_broker W) j (List.map_filter item_of ps)) = length (routed t ps)"
    using arg_cong [OF r, of length] by simp
  ultimately show ?thesis using run n by (intro exI [of _ W'] exI [of _ n]) simp
qed

theorem publish_reaches_subscriber_witness:
  "\<exists>W' cl'. process_frames unbounded_send (\<lambda>ps. ps) server_config_default 2 9 publisher env_fan = Some (publisher\<lparr>read_buf := []\<rparr>, W') \<and>
     read_task mpsc_send (filter (\<lambda>r. r \<noteq> []) (write_task (w_chan W' 0))) two_subs = Some cl' \<and>
     fst (conn_chan cl') 10 = [client_item (publish_item_new subj_a [7]), client_item (publish_item_new subj_a [7])]"
proof -
  obtain t where t: "get_ref (w_broker env_fan) 1 = Some t" "sub_queue_group_key t = None" "sub_delivery t = 0" "sub_pattern t = pat_a"
    by (simp add: env_fan_def bk_fan_def run_simps subscription_new_def)
  have inv: "broker_inv (w_broker env_fan)" by (simp add: env_fan_def bk_fan_inv)
  have ok: "\<forall>p \<in> set [pub_a, pub_a]. pub_ok (c_max_frame_size server_config_default) p \<and> pub_ok (READ_MAX - 8) p"
    using pub_a_ok by (simp add: server_config_default_def pub_ok_def READ_MAX_def)
      (simp add: pub_a_def pub_frame_of_def pub_frame_def frame_encode_eq frame_new_def with_payload_def tok_a_def FRAME_HEADER_SIZE_def)
  have s: "ss_state publisher = Connected" "is_publish_unrestricted (ss_auth publisher)" "local_published publisher = 0"
    "read_buf publisher = wire (map pub_frame_of [pub_a, pub_a])" "[pub_a, pub_a] \<noteq> []" "length [pub_a, pub_a] \<le> PUB_BATCH_LIMIT"
    by (simp_all add: publisher_def session_new_def unrestricted_def is_publish_unrestricted_def PUB_BATCH_LIMIT_def)
  have c: "conn_buf two_subs = []" "conn_chan two_subs = (\<lambda>_. [], \<lambda>_. True)" "subs_of two_subs i = Some 10 \<longleftrightarrow> i = 1" for i
    by (auto simp: two_subs_def connection_new_def)
  have q: "\<forall>h. list_all outbound_ok (w_chan env_fan h)" by (simp add: env_fan_def)
  have r: "routed t [pub_a, pub_a] = [client_item (publish_item_new subj_a [7]), client_item (publish_item_new subj_a [7])]"
    by (simp add: routed_def map_filter_simps item_of_pub_a t(4) publish_item_new_def matches_def matches_loop.simps pat_a_def subj_a_def)
  have live: "snd (conn_chan two_subs) 10" by (simp add: c(2))
  have chan: "w_chan env_fan = (\<lambda>_. [])" by (simp add: env_fan_def)
  have acc: "fst (unbounded_send h f w)" for h :: nat and f w by (simp add: unbounded_send_def)
  from publish_reaches_subscriber [where iter = "\<lambda>ps. ps" and queue = "\<lambda>w. w" and live = snd and c = 2 and h = 9 and j = 1 and tx = 10 and cl = two_subs,
      OF unbounded.outbound_channel_axioms mpsc.message_channel_axioms refl inv t(1,2) s ok q c(1) live c(3)]
  obtain W' n where run: "process_frames unbounded_send (\<lambda>ps. ps) server_config_default 2 9 publisher env_fan = Some (publisher\<lparr>read_buf := []\<rparr>, W')"
    and n: "n = length (routed t [pub_a, pub_a])"
    and rd: "\<forall>reads. [] \<notin> set reads \<and> concat reads = concat (write_task (w_chan W' 0)) \<longrightarrow>
      (\<exists>cl'. read_task mpsc_send reads two_subs = Some cl' \<and> conn_buf cl' = [] \<and> fst (conn_chan cl') 10 = take n (routed t [pub_a, pub_a]))"
    by (auto simp: t(3) c(2) chan acc)
  have "[] \<notin> set (filter (\<lambda>r. r \<noteq> []) (write_task (w_chan W' 0)))"
    "concat (filter (\<lambda>r. r \<noteq> []) (write_task (w_chan W' 0))) = concat (write_task (w_chan W' 0))" by (simp_all add: concat_nonempty)
  with rd obtain cl' where "read_task mpsc_send (filter (\<lambda>r. r \<noteq> []) (write_task (w_chan W' 0))) two_subs = Some cl'"
    "fst (conn_chan cl') 10 = routed t [pub_a, pub_a]" unfolding n take_all [OF order_refl] by blast
  with run show ?thesis unfolding r by blast
qed

text \<open>
  C40: a MSG frame carries the 8 bytes of the subscription id that a PUB frame has not.  A PUB frame the server accepts
  under its default limit, 2 MiB, and that is less than 8 bytes below it, becomes a MSG frame above the 2 MiB the
  client reads.  The client then never handles a frame again: the decoder refuses the frame and leaves it in the buffer,
  the read loop ends without an error, whatever arrives later is appended behind it, and the connection still counts as
  connected, so that nothing reconnects.
\<close>

theorem publish_at_limit_stalls_subscriber:
  assumes "pub_ok (c_max_frame_size server_config_default) p" and "item_of p = Some it"
    and "trim (pc_subject p) = pc_subject p" and "pc_reply_to p = None"
    and "c_max_frame_size server_config_default < length (frame_encode (pub_frame_of p)) + 8"
    and "concat reads = concat (write_task (MsgOut (make_delivery i c (item_message it)) # q))" and "[] \<notin> set reads"
    and "conn_buf cl = []"
  shows "read_task tx_send reads cl = Some (cl\<lparr>conn_buf := concat reads\<rparr>)"
proof -
  have m: "c_max_frame_size server_config_default = READ_MAX" by (simp add: server_config_default_def READ_MAX_def)
  let ?f = "msg_frame (make_delivery i c (item_message it))"
  have "total_frame_size (f_header ?f) > READ_MAX"
    using msg_above_limit [OF assms(1) [unfolded m] assms(2)] msg_frame_length(2) [OF assms(2-4), of i c] assms(5) by (simp add: m)
  moreover have "concat reads = header_encode (f_header ?f) @ f_headers ?f @ f_payload ?f @ wire (map outbound_wire q)"
    unfolding assms(6) write_task_wire by (simp add: frame_encode_eq)
  ultimately show ?thesis using read_task_stalls [of "f_header ?f" cl reads] assms(7,8) by simp
qed

definition pub_big :: publish_command where
  "pub_big = \<lparr>pc_subject = tok_a, pc_payload = replicate 2097120 7, pc_reply_to = None, pc_headers = None\<rparr>"

lemma pub_big_length: "length (frame_encode (pub_frame_of pub_big)) = 2097147"
  by (simp add: pub_big_def pub_frame_of_def pub_frame_def frame_encode_eq frame_new_def with_payload_def tok_a_def FRAME_HEADER_SIZE_def)

lemma item_of_pub_big: "item_of pub_big = Some (publish_item_new subj_a (replicate 2097120 7))"
  using item_of_pub_a by (simp add: item_of_def pub_big_def pub_a_def publish_item_new_def)

theorem publish_at_limit_stalls_subscriber_witness:
  "let q = [MsgOut (make_delivery 1 1 (item_message (publish_item_new subj_a (replicate 2097120 7)))), MsgOut (delivery_to 1 5)];
       reads = filter (\<lambda>r. r \<noteq> []) (write_task q)
   in read_task mpsc_send reads two_subs = Some (two_subs\<lparr>conn_buf := concat reads\<rparr>)"
proof -
  have "pub_ok (c_max_frame_size server_config_default) pub_big"
    by (simp add: pub_ok_def pub_big_length server_config_default_def) (simp add: pub_big_def tok_a_def)
  moreover have "trim (pc_subject pub_big) = pc_subject pub_big" "pc_reply_to pub_big = None" by (simp_all add: pub_big_def trim_tok)
  moreover have "c_max_frame_size server_config_default < length (frame_encode (pub_frame_of pub_big)) + 8"
    by (simp add: pub_big_length server_config_default_def)
  moreover have "[] \<notin> set (filter (\<lambda>r. r \<noteq> []) xs)" for xs :: "bytes list" by simp
  moreover have "conn_buf two_subs = []" by (simp add: two_subs_def connection_new_def)
  ultimately show ?thesis
    unfolding Let_def by (intro publish_at_limit_stalls_subscriber [OF _ item_of_pub_big _ _ _ concat_nonempty])
qed

end
